(* ===== verification/JsPrelude.thy ===== *)
theory JsPrelude
  imports Main "HOL-Library.AList" "HOL-Library.Sublist" "HOL-Library.Multiset"
begin

text \<open>
  The part of the TypeScript language and its standard library that the modelled
  code uses, and the generic lemmas the components share.

  A JavaScript string is modelled as an Isabelle \<open>string\<close>, whose characters are
  the UTF-16 code units below 256; lengths and indices therefore count what
  \<open>.length\<close> counts. A \<open>Map\<close> is an association list in insertion order
  (\<open>AList.update\<close> keeps the place of a present key and appends a new one, as
  \<open>Map.prototype.set\<close> does), a \<open>Set\<close> a list without duplicates in insertion order.
\<close>

named_theorems js_string_simps
named_theorems js_list_simps

section \<open>Strings\<close>

text \<open>The code units below 256 that \<open>trim\<close> strips and the regular expression class \<open>\s\<close> matches.\<close>

definition js_ws_chars :: "char list" where
  "js_ws_chars = [CHR 0x20, CHR 0x09, CHR 0x0A, CHR 0x0B, CHR 0x0C, CHR 0x0D, CHR 0xA0]"

definition is_ws :: "char \<Rightarrow> bool" where
  "is_ws c \<longleftrightarrow> List.member js_ws_chars c"

abbreviation newline :: char where "newline \<equiv> CHR 0x0A"
abbreviation carriage :: char where "carriage \<equiv> CHR 0x0D"
abbreviation tabchar :: char where "tabchar \<equiv> CHR 0x09"
abbreviation dquote :: char where "dquote \<equiv> CHR 0x22"
abbreviation squote :: char where "squote \<equiv> CHR 0x27"
abbreviation backtick :: char where "backtick \<equiv> CHR 0x60"
abbreviation backslash :: char where "backslash \<equiv> CHR 0x5C"

text \<open>
  U+2014, the one code unit above 255 in a modelled message, is written as the C1 code unit
  that CP-1252 gives it.
\<close>

definition em_dash :: string where
  "em_dash = [CHR 0x97]"

definition trim_start :: "string \<Rightarrow> string" where
  "trim_start s = dropWhile is_ws s"

definition trim_end :: "string \<Rightarrow> string" where
  "trim_end s = rev (dropWhile is_ws (rev s))"

definition trim :: "string \<Rightarrow> string" where
  "trim s = trim_end (trim_start s)"

fun starts_with :: "'a list \<Rightarrow> 'a list \<Rightarrow> bool" where
  "starts_with s [] = True"
| "starts_with [] (d # p) = False"
| "starts_with (c # s) (d # p) = (c = d \<and> starts_with s p)"

definition ends_with :: "'a list \<Rightarrow> 'a list \<Rightarrow> bool" where
  "ends_with s p = starts_with (rev s) (rev p)"

fun has_infix :: "'a list \<Rightarrow> 'a list \<Rightarrow> bool" where
  "has_infix [] p = (p = [])"
| "has_infix (c # s) p = (starts_with (c # s) p \<or> has_infix s p)"

text \<open>\<open>indexOf\<close>: the first position, \<open>None\<close> for the \<open>-1\<close> of the language.\<close>

fun index_of :: "'a list \<Rightarrow> 'a list \<Rightarrow> nat option" where
  "index_of [] p = (if p = [] then Some 0 else None)"
| "index_of (c # s) p =
     (if starts_with (c # s) p then Some 0 else map_option Suc (index_of s p))"

text \<open>\<open>findIndex\<close> over a list.\<close>

fun find_index :: "('a \<Rightarrow> bool) \<Rightarrow> 'a list \<Rightarrow> nat option" where
  "find_index P [] = None"
| "find_index P (x # xs) = (if P x then Some 0 else map_option Suc (find_index P xs))"

text \<open>\<open>split\<close> on a one-character and on a longer separator; \<open>join\<close>.\<close>

fun split_char :: "'a \<Rightarrow> 'a list \<Rightarrow> 'a list list" where
  "split_char c [] = [[]]"
| "split_char c (d # s) =
     (if d = c then [] # split_char c s
      else (case split_char c s of [] \<Rightarrow> [[d]] | w # ws \<Rightarrow> (d # w) # ws))"

function split_str_aux :: "'a list \<Rightarrow> 'a list \<Rightarrow> 'a list \<Rightarrow> 'a list list" where
  "split_str_aux sep cur [] = [rev cur]"
| "split_str_aux sep cur (c # s) =
     (if sep \<noteq> [] \<and> starts_with (c # s) sep
      then rev cur # split_str_aux sep [] (drop (length sep) (c # s))
      else split_str_aux sep (c # cur) s)"
  by pat_completeness auto
termination
  by (relation "measure (\<lambda>(sep, cur, s). length s)") auto

definition split_str :: "'a list \<Rightarrow> 'a list \<Rightarrow> 'a list list" where
  "split_str sep s = split_str_aux sep [] s"

fun join :: "'a list \<Rightarrow> 'a list list \<Rightarrow> 'a list" where
  "join sep [] = []"
| "join sep [w] = w"
| "join sep (w # v # ws) = w @ sep @ join sep (v # ws)"

text \<open>ASCII lower case, all that the modelled code lowers.\<close>

definition to_lower_char :: "char \<Rightarrow> char" where
  "to_lower_char c =
     (let n = (of_char c :: nat) in if 65 \<le> n \<and> n \<le> 90 then char_of (n + 32) else c)"

definition to_lower :: "string \<Rightarrow> string" where
  "to_lower s = map to_lower_char s"

definition in_range :: "char \<Rightarrow> char \<Rightarrow> char \<Rightarrow> bool" where
  "in_range lo hi c \<longleftrightarrow> (of_char lo :: nat) \<le> of_char c \<and> (of_char c :: nat) \<le> of_char hi"

definition is_digit :: "char \<Rightarrow> bool" where
  "is_digit c \<longleftrightarrow> in_range (CHR ''0'') (CHR ''9'') c"

definition is_alpha :: "char \<Rightarrow> bool" where
  "is_alpha c \<longleftrightarrow> in_range (CHR ''a'') (CHR ''z'') c \<or> in_range (CHR ''A'') (CHR ''Z'') c"

text \<open>The decimal rendering of a template literal.\<close>

fun dec :: "nat \<Rightarrow> string" where
  "dec n = (if n < 10 then [char_of (48 + n)] else dec (n div 10) @ [char_of (48 + n mod 10)])"

declare dec.simps [simp del]

definition dec_int :: "int \<Rightarrow> string" where
  "dec_int i = (if i < 0 then CHR ''-'' # dec (nat (- i)) else dec (nat i))"

section \<open>Sets and arrays\<close>

definition jset_add :: "'a \<Rightarrow> 'a list \<Rightarrow> 'a list" where
  "jset_add x xs = (if List.member xs x then xs else xs @ [x])"

definition jset_delete :: "'a \<Rightarrow> 'a list \<Rightarrow> 'a list" where
  "jset_delete x xs = removeAll x xs"

text \<open>
  Assignment \<open>xs[i] = v\<close>: in range it replaces, past the end it extends, and the slots
  in between are holes, which read as \<open>undefined\<close> (\<open>None\<close>).
\<close>

definition js_assign :: "'a option list \<Rightarrow> nat \<Rightarrow> 'a \<Rightarrow> 'a option list" where
  "js_assign xs i v =
     (if i < length xs then xs[i := Some v]
      else xs @ replicate (i - length xs) None @ [Some v])"

text \<open>A read \<open>xs[i]\<close>, \<open>undefined\<close> out of range.\<close>

definition js_at :: "'a list \<Rightarrow> nat \<Rightarrow> 'a option" where
  "js_at xs i = (if i < length xs then Some (xs ! i) else None)"

text \<open>\<open>splice(i, 1)\<close> and \<open>slice(0, i) ++ slice(i + 1)\<close>.\<close>

definition remove_at :: "nat \<Rightarrow> 'a list \<Rightarrow> 'a list" where
  "remove_at i xs = take i xs @ drop (Suc i) xs"

section \<open>JSON values\<close>

text \<open>
  A parsed JSON value. A number that is not an integer is only ever rejected by the modelled
  code, so it keeps its rendering and nothing else. An object keeps its members in order.
\<close>

datatype json =
    JNull
  | JBool bool
  | JInt int
  | JNonInt string
  | JStr string
  | JArr "json list"
  | JObj "(string \<times> json) list"

text \<open>\<open>obj.key\<close> for a record: \<open>None\<close> is \<open>undefined\<close>.\<close>

definition jfield :: "(string \<times> json) list \<Rightarrow> string \<Rightarrow> json option" where
  "jfield m k = map_of m k"

section \<open>Lemmas on strings\<close>

lemma starts_with_iff: "starts_with s p \<longleftrightarrow> (\<exists>t. s = p @ t)"
  by (induction s p rule: starts_with.induct) auto

lemma starts_with_append [simp, js_string_simps]: "starts_with (p @ t) p"
  by (auto simp: starts_with_iff)

lemma starts_with_refl [simp, js_string_simps]: "starts_with p p"
  by (auto simp: starts_with_iff)

lemma starts_with_drop: "starts_with s p \<Longrightarrow> s = p @ drop (length p) s"
  by (auto simp: starts_with_iff)

lemma starts_with_Nil_left [simp, js_string_simps]: "starts_with [] p \<longleftrightarrow> p = []"
  by (cases p) auto

lemma ends_with_iff: "ends_with s p \<longleftrightarrow> (\<exists>t. s = t @ p)"
proof -
  have "(\<exists>t. rev s = rev p @ t) \<longleftrightarrow> (\<exists>t. s = t @ p)"
    by (metis rev_append rev_rev_ident)
  then show ?thesis by (simp add: ends_with_def starts_with_iff)
qed

lemma ends_with_append [simp, js_string_simps]: "ends_with (t @ p) p"
  by (auto simp: ends_with_iff)

lemma includes_iff: "has_infix s p \<longleftrightarrow> (\<exists>a b. s = a @ p @ b)"
proof (induction s)
  case Nil
  then show ?case by auto
next
  case (Cons c s)
  show ?case
  proof
    assume "has_infix (c # s) p"
    then consider "starts_with (c # s) p" | "has_infix s p" by auto
    then show "\<exists>a b. c # s = a @ p @ b"
    proof cases
      case 1
      then show ?thesis by (metis append_Nil starts_with_iff)
    next
      case 2
      then show ?thesis using Cons.IH by (metis append_Cons)
    qed
  next
    assume "\<exists>a b. c # s = a @ p @ b"
    then obtain a b where ab: "c # s = a @ p @ b" by blast
    show "has_infix (c # s) p"
    proof (cases a)
      case Nil
      then have "starts_with (c # s) p" using ab starts_with_append [of p b] by simp
      then show ?thesis by simp
    next
      case (Cons x a')
      then show ?thesis using ab Cons.IH by auto
    qed
  qed
qed

lemma split_char_not_Nil [simp, js_string_simps]: "split_char c s \<noteq> []"
  by (induction s) (auto split: list.splits)

lemma join_Cons_not_Nil [js_string_simps]: "ws \<noteq> [] \<Longrightarrow> join sep (w # ws) = w @ sep @ join sep ws"
  by (cases ws) auto

lemma join_snoc_Nil: "ws \<noteq> [] \<Longrightarrow> join sep (ws @ [[]]) = join sep ws @ sep"
  by (induction ws rule: induct_list012) simp_all

lemma join_split_char: "join [c] (split_char c s) = s"
proof (induction s)
  case Nil
  then show ?case by simp
next
  case (Cons d s)
  obtain w ws where ws: "split_char c s = w # ws"
    by (cases "split_char c s") auto
  show ?case
  proof (cases "d = c")
    case True
    then show ?thesis using Cons ws by (simp add: join_Cons_not_Nil)
  next
    case False
    then show ?thesis using Cons ws by (cases ws) auto
  qed
qed

lemma split_char_no_sep: "c \<notin> set w \<Longrightarrow> split_char c w = [w]"
  by (induction w) auto

lemma split_char_append_sep:
  "c \<notin> set w \<Longrightarrow> split_char c (w @ c # s) = w # split_char c s"
  by (induction w) auto

lemma split_char_join:
  "ws \<noteq> [] \<Longrightarrow> (\<And>w. w \<in> set ws \<Longrightarrow> c \<notin> set w) \<Longrightarrow> split_char c (join [c] ws) = ws"
proof (induction ws)
  case Nil
  then show ?case by simp
next
  case (Cons w ws)
  show ?case
  proof (cases ws)
    case Nil
    then show ?thesis using Cons.prems by (simp add: split_char_no_sep)
  next
    case (Cons v vs)
    have "split_char c (join [c] ws) = ws"
      using Cons.IH Cons.prems Cons by auto
    then show ?thesis
      using Cons.prems Cons by (simp add: split_char_append_sep)
  qed
qed

lemma split_char_no_sep_member: "w \<in> set (split_char c s) \<Longrightarrow> c \<notin> set w"
  by (induction s arbitrary: w) (auto split: list.splits if_splits)

lemma split_str_aux_not_Nil [simp]: "split_str_aux sep cur s \<noteq> []"
  by (induction sep cur s rule: split_str_aux.induct) auto

lemma join_split_str_aux: "join sep (split_str_aux sep cur s) = rev cur @ s"
proof (induction sep cur s rule: split_str_aux.induct)
  case (1 sep cur)
  then show ?case by simp
next
  case (2 sep cur c s)
  show ?case
  proof (cases "sep \<noteq> [] \<and> starts_with (c # s) sep")
    case True
    then have "c # s = sep @ drop (length sep) (c # s)"
      by (blast dest: starts_with_drop)
    with "2.IH"(1) [OF True] True show ?thesis
      by (simp add: join_Cons_not_Nil)
  next
    case False
    with "2.IH"(2) show ?thesis by auto
  qed
qed

lemma join_split_str: "join sep (split_str sep s) = s"
  by (simp add: split_str_def join_split_str_aux)

lemma split_str_not_Nil [simp, js_string_simps]: "split_str sep s \<noteq> []"
  by (simp add: split_str_def)

lemma trim_Nil [simp, js_string_simps]: "trim [] = []"
  by (simp add: trim_def trim_start_def trim_end_def)

lemma trim_end_Cons: "trim_end (c # s) = (if trim_end s = [] \<and> is_ws c then [] else c # trim_end s)"
  by (auto simp: trim_end_def dropWhile_append)

lemma trim_start_trim_end: "trim_start (trim_end s) = trim s"
  by (induction s) (auto simp: trim_def trim_end_Cons trim_start_def, simp_all add: trim_end_def)

lemma trim_end_trim: "trim_end a = trim_end b \<Longrightarrow> trim a = trim b"
  by (metis trim_start_trim_end)

lemma trim_start_id: "s = [] \<or> \<not> is_ws (hd s) \<Longrightarrow> trim_start s = s"
  by (cases s) (auto simp: trim_start_def)

lemma trim_end_id: "s = [] \<or> \<not> is_ws (last s) \<Longrightarrow> trim_end s = s"
  by (cases s rule: rev_cases) (auto simp: trim_end_def)

lemma trim_id: "s = [] \<or> \<not> is_ws (hd s) \<and> \<not> is_ws (last s) \<Longrightarrow> trim s = s"
  by (auto simp: trim_def trim_start_id trim_end_id)

section \<open>Decimal numbers\<close>

definition undec :: "string \<Rightarrow> nat" where
  "undec s = foldl (\<lambda>a c. 10 * a + (of_char c - 48)) 0 s"

lemma undec_append_single: "undec (s @ [c]) = 10 * undec s + (of_char c - 48)"
  by (simp add: undec_def)

lemma of_char_digit: "n < 10 \<Longrightarrow> of_char (char_of (48 + n) :: char) = 48 + n"
  for n :: nat
  by simp

lemma undec_dec [simp]: "undec (dec n) = n"
proof (induction n rule: dec.induct)
  case (1 n)
  show ?case
  proof (cases "n < 10")
    case True
    then show ?thesis by (simp add: dec.simps [of n] undec_def)
  next
    case False
    have "undec (dec n) = 10 * (n div 10) + n mod 10"
      using "1.IH" [OF False] False by (simp add: dec.simps [of n] undec_append_single)
    then show ?thesis by simp
  qed
qed

lemma dec_inject [simp]: "dec m = dec n \<longleftrightarrow> m = n"
  by (metis undec_dec)

section \<open>Lemmas on lists\<close>

lemma find_index_None: "find_index P xs = None \<longleftrightarrow> (\<forall>x \<in> set xs. \<not> P x)"
  by (induction xs) auto

lemma find_index_Some:
  "find_index P xs = Some i \<longleftrightarrow> i < length xs \<and> P (xs ! i) \<and> (\<forall>j < i. \<not> P (xs ! j))"
proof (induction xs arbitrary: i)
  case Nil
  then show ?case by simp
next
  case (Cons x xs)
  show ?case
    by (cases i) (auto simp: Cons.IH less_Suc_eq_0_disj)
qed

lemma length_remove_at [simp, js_list_simps]:
  "i < length xs \<Longrightarrow> length (remove_at i xs) = length xs - 1"
  by (simp add: remove_at_def)

lemma set_remove_at_subset: "set (remove_at i xs) \<subseteq> set xs"
  using set_take_subset [of i xs] set_drop_subset [of "Suc i" xs]
  by (auto simp: remove_at_def)

lemma split_at_index:
  "i < length xs \<Longrightarrow> xs = take i xs @ xs ! i # drop (Suc i) xs"
  by (rule id_take_nth_drop)

lemma mset_remove_at: "i < length xs \<Longrightarrow> mset xs = add_mset (xs ! i) (mset (remove_at i xs))"
  by (subst split_at_index [of i xs]) (simp_all add: remove_at_def)

lemma distinct_jset_add [simp, js_list_simps]: "distinct xs \<Longrightarrow> distinct (jset_add x xs)"
  by (simp add: jset_add_def)

lemma set_jset_add [simp, js_list_simps]: "set (jset_add x xs) = insert x (set xs)"
  by (auto simp: jset_add_def)

lemma distinct_jset_delete [simp, js_list_simps]: "distinct xs \<Longrightarrow> distinct (jset_delete x xs)"
  by (simp add: jset_delete_def distinct_removeAll)

lemma set_jset_delete [simp, js_list_simps]: "set (jset_delete x xs) = set xs - {x}"
  by (simp add: jset_delete_def)

lemma length_js_assign: "length (js_assign xs i v) = max (length xs) (Suc i)"
  by (simp add: js_assign_def)

lemma js_assign_nth [simp, js_list_simps]: "js_assign xs i v ! i = Some v"
  by (auto simp: js_assign_def nth_append)

lemma js_assign_other:
  "j < length xs \<Longrightarrow> j \<noteq> i \<Longrightarrow> js_assign xs i v ! j = xs ! j"
  by (auto simp: js_assign_def nth_append)

section \<open>Interfaces\<close>

subsection \<open>Serialised JSON\<close>

definition hex_digit :: "nat \<Rightarrow> char" where
  "hex_digit n = (''0123456789abcdef'' ! (n mod 16))"

definition json_escape :: "char \<Rightarrow> string" where
  "json_escape c =
     (if c = dquote then [backslash, dquote]
      else if c = backslash then [backslash, backslash]
      else if c = CHR 0x08 then backslash # ''b''
      else if c = CHR 0x0C then backslash # ''f''
      else if c = newline then backslash # ''n''
      else if c = carriage then backslash # ''r''
      else if c = tabchar then backslash # ''t''
      else if (of_char c :: nat) < 32
        then backslash # ''u00'' @ [hex_digit (of_char c div 16), hex_digit (of_char c)]
      else [c])"

definition json_quote :: "string \<Rightarrow> string" where
  "json_quote s = dquote # concat (map json_escape s) @ [dquote]"

fun json_stringify :: "json \<Rightarrow> string" where
  "json_stringify JNull = ''null''"
| "json_stringify (JBool b) = (if b then ''true'' else ''false'')"
| "json_stringify (JInt n) = dec_int n"
| "json_stringify (JNonInt s) = s"
| "json_stringify (JStr s) = json_quote s"
| "json_stringify (JArr xs) = ''['' @ join '','' (map json_stringify xs) @ '']''"
| "json_stringify (JObj kvs) =
     ''{'' @ join '','' (map (\<lambda>(k, v). json_quote k @ '':'' @ json_stringify v) kvs) @ ''}''"

text \<open>Truthiness of a value that may be missing. A number that is no integer is not zero.\<close>

fun js_truthy :: "json option \<Rightarrow> bool" where
  "js_truthy None = False"
| "js_truthy (Some JNull) = False"
| "js_truthy (Some (JBool b)) = b"
| "js_truthy (Some (JInt n)) = (n \<noteq> 0)"
| "js_truthy (Some (JStr s)) = (s \<noteq> [])"
| "js_truthy (Some _) = True"

text \<open>Sequencing of code that may throw: an exception is \<open>Inl\<close>.\<close>

fun try_bind :: "'e + 'a \<Rightarrow> ('a \<Rightarrow> 'e + 'b) \<Rightarrow> 'e + 'b" where
  "try_bind (Inl e) f = Inl e"
| "try_bind (Inr x) f = f x"

lemma try_bind_cong [fundef_cong]:
  "x = y \<Longrightarrow> (\<And>v. y = Inr v \<Longrightarrow> f v = g v) \<Longrightarrow> try_bind x f = try_bind y g"
  by (cases y) auto

lemma try_bind_Inr: "try_bind x f = Inr y \<longleftrightarrow> (\<exists>v. x = Inr v \<and> f v = Inr y)"
  by (cases x) auto

lemma try_bind_Inl: "try_bind x f = Inl e \<longleftrightarrow> x = Inl e \<or> (\<exists>v. x = Inr v \<and> f v = Inl e)"
  by (cases x) auto

text \<open>
  A component driven by a sequence of events: what one event keeps, every run keeps. Each
  stateful component interprets it on its own step function.
\<close>

locale invariant_machine =
  fixes step :: "'s \<Rightarrow> 'e \<Rightarrow> 's"
    and inv :: "'s \<Rightarrow> bool"
  assumes step_inv: "inv s \<Longrightarrow> inv (step s e)"
begin

lemma run_inv: "inv s \<Longrightarrow> inv (foldl step s es)"
  by (induction es arbitrary: s) (auto intro: step_inv)

end

text \<open>A line format: splitting into lines and joining them loses nothing.\<close>

locale line_format =
  fixes split_lines :: "'a list \<Rightarrow> 'a list list"
    and join_lines :: "'a list list \<Rightarrow> 'a list"
  assumes join_split: "join_lines (split_lines s) = s"
    and split_nonempty: "split_lines s \<noteq> []"
begin

lemma split_inject: "split_lines s = split_lines t \<longleftrightarrow> s = t"
  by (metis join_split)

lemma split_butlast_last: "split_lines s = butlast (split_lines s) @ [last (split_lines s)]"
  by (simp add: split_nonempty)

end

interpretation lf_lines: line_format "split_char c" "join [c]" for c
  by unfold_locales (simp_all add: join_split_char)

interpretation sep_lines: line_format "split_str sep" "join sep" for sep
  by unfold_locales (simp_all add: join_split_str)

end
