(* ===== verification/WorkflowCaps.thy ===== *)
theory WorkflowCaps
  imports JsPrelude
begin

text \<open>
  Workflow recipes and the capabilities their steps require: the data of
  \<open>src/workflows/definition.ts\<close> and \<open>types.ts\<close>, the registry of \<open>index.ts\<close> and the
  capability detection of \<open>capabilities.ts\<close>. The lemmas show that a registry never holds
  two workflows of one name or an ill-formed name, that a tool satisfies a pattern exactly
  when the pattern's tokens are a contiguous run of the tool's tokens, and that a step is
  skipped exactly when the capability it requires has no tool.
\<close>

section \<open>Recipes\<close>

datatype capability_name = TicketTracker | CodeHost | DocSearch

fun capability_string :: "capability_name \<Rightarrow> string" where
  "capability_string TicketTracker = ''ticket-tracker''"
| "capability_string CodeHost = ''code-host''"
| "capability_string DocSearch = ''doc-search''"

datatype step_type = Standard | Gate

text \<open>The field \<open>agent?: string | string[]\<close>.\<close>

datatype agent_ref = OneAgent string | ManyAgents "string list"

record workflow_step =
  step_id :: string
  step_label :: string
  step_prompt :: "string option"
  step_capability :: "capability_name option"
  step_agent :: "agent_ref option"
  step_skill :: "string option"
  step_workflow :: "string option"
  step_optional :: "bool option"
  step_parallel :: "bool option"
  step_kind :: "step_type option"
  step_profile :: "string option"

record workflow =
  wf_name :: string
  wf_description :: string
  wf_auto_invoke :: "string option"
  wf_step_through :: "bool option"
  wf_steps :: "workflow_step list"

datatype step_status = Pending | Active | Completed | Skipped

datatype workflow_complete_result = Advanced | AlreadyComplete | NotCurrent

text \<open>\<open>MAX_WORKFLOW_DEPTH\<close>.\<close>

definition max_workflow_depth :: nat where
  "max_workflow_depth = 3"

text \<open>
  \<open>^[a-z0-9]+(-[a-z0-9]+)*$\<close>: the pieces between hyphens are non-empty runs of lower-case
  letters and digits.
\<close>

definition is_lower_alnum :: "char \<Rightarrow> bool" where
  "is_lower_alnum c \<longleftrightarrow> in_range (CHR ''a'') (CHR ''z'') c \<or> is_digit c"

definition is_valid_workflow_name :: "string \<Rightarrow> bool" where
  "is_valid_workflow_name name =
     list_all (\<lambda>w. w \<noteq> [] \<and> list_all is_lower_alnum w) (split_char (CHR ''-'') name)"

section \<open>Registry\<close>

datatype registry_error = InvalidWorkflowName string | DuplicateWorkflowName string

definition find_workflow :: "workflow list \<Rightarrow> string \<Rightarrow> workflow option" where
  "find_workflow workflows name = find (\<lambda>w. wf_name w = name) workflows"

text \<open>
  \<open>registerWorkflowPlugin\<close> pushes one workflow at a time, so the workflows before the
  offending one stay registered when it throws.
\<close>

fun register_workflow_plugin ::
    "workflow list \<Rightarrow> workflow list \<Rightarrow> registry_error option \<times> workflow list" where
  "register_workflow_plugin workflows [] = (None, workflows)"
| "register_workflow_plugin workflows (w # ws) =
     (if \<not> is_valid_workflow_name (wf_name w)
      then (Some (InvalidWorkflowName (wf_name w)), workflows)
      else if list_ex (\<lambda>v. wf_name v = wf_name w) workflows
      then (Some (DuplicateWorkflowName (wf_name w)), workflows)
      else register_workflow_plugin (workflows @ [w]) ws)"

definition registry_ok :: "workflow list \<Rightarrow> bool" where
  "registry_ok workflows \<longleftrightarrow>
     distinct (map wf_name workflows) \<and> (\<forall>w \<in> set workflows. is_valid_workflow_name (wf_name w))"

lemma find_workflow_name: "find_workflow ws name = Some w \<Longrightarrow> wf_name w = name \<and> w \<in> set ws"
  by (auto simp: find_workflow_def find_Some_iff)

lemma register_workflow_plugin_ok:
  "registry_ok ws \<Longrightarrow> registry_ok (snd (register_workflow_plugin ws plugin))"
proof (induction ws plugin rule: register_workflow_plugin.induct)
  case (1 workflows)
  then show ?case by simp
next
  case (2 workflows w ws)
  show ?case
  proof (cases "\<not> is_valid_workflow_name (wf_name w) \<or> list_ex (\<lambda>v. wf_name v = wf_name w) workflows")
    case True
    with "2.prems" show ?thesis by auto
  next
    case False
    then have "registry_ok (workflows @ [w])"
      using "2.prems" by (auto simp: registry_ok_def list_ex_iff)
    with False "2.IH" show ?thesis by auto
  qed
qed

lemma register_workflow_plugin_keeps:
  "w \<in> set ws \<Longrightarrow> w \<in> set (snd (register_workflow_plugin ws plugin))"
  by (induction ws plugin rule: register_workflow_plugin.induct) auto

lemma find_workflow_ok:
  "registry_ok ws \<Longrightarrow> w \<in> set ws \<Longrightarrow> find_workflow ws (wf_name w) = Some w"
proof (induction ws)
  case (Cons v vs)
  then show ?case
    by (auto simp: find_workflow_def registry_ok_def rev_image_eqI)
qed simp

section \<open>Capabilities\<close>

text \<open>A tool definition; only its name is read here.\<close>

record tool_definition =
  tool_name :: string

type_synonym capability_map = "(capability_name \<times> tool_definition list) list"

definition capability_names :: "capability_name list" where
  "capability_names = [TicketTracker, CodeHost, DocSearch]"

fun required_tools :: "capability_name \<Rightarrow> string list" where
  "required_tools TicketTracker =
     [''linear'', ''jira'', ''save_issue'', ''list_issues'', ''get_issue'', ''create_issue'']"
| "required_tools CodeHost =
     [''create_pull_request'', ''get_pull_request'', ''pull_request'', ''create_pr'']"
| "required_tools DocSearch = [''web_search'', ''web_fetch'', ''search_documentation'']"

text \<open>\<open>tokenize\<close>: the maximal runs of letters and digits of the lowered name.\<close>

fun alnum_runs :: "string \<Rightarrow> string \<Rightarrow> string list" where
  "alnum_runs cur [] = [rev cur]"
| "alnum_runs cur (c # s) =
     (if is_lower_alnum c then alnum_runs (c # cur) s else rev cur # alnum_runs [] s)"

definition tokenize_name :: "string \<Rightarrow> string list" where
  "tokenize_name value = filter (\<lambda>t. 0 < length t) (alnum_runs [] (to_lower value))"

text \<open>\<open>matches\<close>: the loop over the start positions.\<close>

fun matches_at :: "string list \<Rightarrow> string list \<Rightarrow> nat \<Rightarrow> bool" where
  "matches_at tokens needle i =
     list_all (\<lambda>j. js_at tokens (i + j) = Some (needle ! j)) [0..<length needle]"

function matches_from :: "string list \<Rightarrow> string list \<Rightarrow> nat \<Rightarrow> bool" where
  "matches_from tokens needle i =
     (if i + length needle \<le> length tokens
      then (if matches_at tokens needle i then True else matches_from tokens needle (Suc i))
      else False)"
  by pat_completeness auto
termination
  by (relation "measure (\<lambda>(tokens, needle, i). Suc (length tokens) - i)") auto

declare matches_from.simps [simp del]

definition tool_matches :: "string \<Rightarrow> string \<Rightarrow> bool" where
  "tool_matches name pattern =
     (let tokens = tokenize_name name; needle = tokenize_name pattern
      in if needle = [] then False else matches_from tokens needle 0)"

definition satisfying_tools :: "tool_definition list \<Rightarrow> capability_name \<Rightarrow> tool_definition list" where
  "satisfying_tools tools name =
     filter (\<lambda>tool. list_ex (tool_matches (tool_name tool)) (required_tools name)) tools"

fun detect_from ::
    "tool_definition list \<Rightarrow> capability_name list \<Rightarrow> capability_name list \<Rightarrow> capability_map
      \<Rightarrow> capability_map" where
  "detect_from tools overrides [] m = m"
| "detect_from tools overrides (name # names) m =
     (if List.member overrides name then detect_from tools overrides names m
      else (let satisfying = satisfying_tools tools name
            in detect_from tools overrides names
                 (if 0 < length satisfying then AList.update name satisfying m else m)))"

definition detect_capabilities ::
    "tool_definition list \<Rightarrow> capability_name list \<Rightarrow> capability_map" where
  "detect_capabilities tools overrides = detect_from tools overrides capability_names []"

record step_resolution =
  runnable :: bool
  skipped_reason :: "string option"
  resolved_tools :: "tool_definition list option"

definition resolve_step :: "workflow_step \<Rightarrow> capability_map \<Rightarrow> step_resolution" where
  "resolve_step step capabilities =
     (case step_capability step of
        None \<Rightarrow> \<lparr>runnable = True, skipped_reason = None, resolved_tools = None\<rparr>
      | Some c \<Rightarrow>
          (case map_of capabilities c of
             None \<Rightarrow> \<lparr>runnable = False,
                     skipped_reason = Some (''capability not satisfied: '' @ capability_string c),
                     resolved_tools = None\<rparr>
           | Some [] \<Rightarrow> \<lparr>runnable = False,
                     skipped_reason = Some (''capability not satisfied: '' @ capability_string c),
                     resolved_tools = None\<rparr>
           | Some tools \<Rightarrow> \<lparr>runnable = True, skipped_reason = None, resolved_tools = Some tools\<rparr>))"

section \<open>Lemmas\<close>

lemma matches_at_iff:
  "matches_at tokens needle i \<longleftrightarrow>
     (\<exists>a b. tokens = a @ needle @ b \<and> length a = i) \<or> needle = []"
proof
  assume m: "matches_at tokens needle i"
  have nth: "i + j < length tokens \<and> tokens ! (i + j) = needle ! j" if "j < length needle" for j
    using m that by (auto simp: list_all_iff js_at_def split: if_splits)
  show "(\<exists>a b. tokens = a @ needle @ b \<and> length a = i) \<or> needle = []"
  proof (cases "needle = []")
    case False
    then have len: "i + length needle \<le> length tokens"
      using nth [of "length needle - 1"] by (cases needle) auto
    have "take (length needle) (drop i tokens) = needle"
      by (rule nth_equalityI) (use len nth in auto)
    then have "tokens = take i tokens @ needle @ drop (length needle) (drop i tokens)"
      by (metis append_take_drop_id)
    moreover have "length (take i tokens) = i" using len by simp
    ultimately show ?thesis by blast
  qed simp
next
  assume "(\<exists>a b. tokens = a @ needle @ b \<and> length a = i) \<or> needle = []"
  then show "matches_at tokens needle i"
    by (auto simp: list_all_iff js_at_def nth_append)
qed

lemma matches_from_iff:
  "needle \<noteq> [] \<Longrightarrow>
     matches_from tokens needle i \<longleftrightarrow> (\<exists>a b. tokens = a @ needle @ b \<and> i \<le> length a)"
proof (induction tokens needle i rule: matches_from.induct)
  case (1 tokens needle i)
  show ?case
  proof (cases "i + length needle \<le> length tokens")
    case True
    show ?thesis
    proof (cases "matches_at tokens needle i")
      case True
      with "1.prems" have "\<exists>a b. tokens = a @ needle @ b \<and> length a = i"
        by (simp add: matches_at_iff del: matches_at.simps)
      with True \<open>i + length needle \<le> length tokens\<close> show ?thesis
        by (subst matches_from.simps) (auto simp del: matches_at.simps)
    next
      case False
      then have no: "\<not> (\<exists>a b. tokens = a @ needle @ b \<and> length a = i)"
        by (simp add: matches_at_iff del: matches_at.simps)
      have "matches_from tokens needle i = matches_from tokens needle (Suc i)"
        using True False by (subst matches_from.simps) (simp del: matches_at.simps)
      also have "\<dots> \<longleftrightarrow> (\<exists>a b. tokens = a @ needle @ b \<and> Suc i \<le> length a)"
        using "1.IH" [OF True False] "1.prems" by simp
      also have "\<dots> \<longleftrightarrow> (\<exists>a b. tokens = a @ needle @ b \<and> i \<le> length a)"
        using no by (metis Suc_leD le_neq_implies_less Suc_leI)
      finally show ?thesis .
    qed
  next
    case False
    then show ?thesis by (subst matches_from.simps) auto
  qed
qed

lemma tool_matches_iff:
  "tool_matches name pattern \<longleftrightarrow>
     tokenize_name pattern \<noteq> [] \<and>
     (\<exists>a b. tokenize_name name = a @ tokenize_name pattern @ b)"
  by (auto simp: tool_matches_def Let_def matches_from_iff)

lemma map_of_update [simp]: "map_of (AList.update k v m) = (map_of m)(k \<mapsto> v)"
  by (simp add: update_conv')

lemma map_of_detect_from:
  "distinct names \<Longrightarrow>
     map_of (detect_from tools overrides names m) c =
       (if c \<in> set names \<and> c \<notin> set overrides \<and> satisfying_tools tools c \<noteq> []
        then Some (satisfying_tools tools c) else map_of m c)"
  by (induction tools overrides names m rule: detect_from.induct) (auto simp: Let_def)

lemma map_of_detect_capabilities:
  "map_of (detect_capabilities tools overrides) c =
     (if c \<notin> set overrides \<and> satisfying_tools tools c \<noteq> []
      then Some (satisfying_tools tools c) else None)"
proof -
  have "c \<in> set capability_names" by (cases c) (simp_all add: capability_names_def)
  moreover have "distinct capability_names" by (simp add: capability_names_def)
  ultimately show ?thesis by (simp add: detect_capabilities_def map_of_detect_from)
qed

lemma runnable_resolve_step:
  "runnable (resolve_step step caps) \<longleftrightarrow>
     (case step_capability step of None \<Rightarrow> True
      | Some c \<Rightarrow> (\<exists>t ts. map_of caps c = Some (t # ts)))"
  by (auto simp: resolve_step_def split: option.splits list.splits)

text \<open>
  Against a freshly detected capability map, a step that requires a capability runs
  exactly when the capability is not overridden off and some connected tool's name contains,
  as a contiguous run of tokens, the tokens of one of the capability's patterns.
\<close>

theorem detected_step_runnable_iff:
  "runnable (resolve_step step (detect_capabilities tools overrides)) \<longleftrightarrow>
     (case step_capability step of None \<Rightarrow> True
      | Some c \<Rightarrow> c \<notin> set overrides \<and>
          (\<exists>tool pattern a b. tool \<in> set tools \<and> pattern \<in> set (required_tools c) \<and>
             tokenize_name pattern \<noteq> [] \<and>
             tokenize_name (tool_name tool) = a @ tokenize_name pattern @ b))"
proof (cases "step_capability step")
  case None
  then show ?thesis by (simp add: runnable_resolve_step)
next
  case (Some c)
  have "satisfying_tools tools c \<noteq> [] \<longleftrightarrow>
      (\<exists>tool \<in> set tools. \<exists>pattern \<in> set (required_tools c). tool_matches (tool_name tool) pattern)"
    by (auto simp: satisfying_tools_def filter_empty_conv list_ex_iff)
  then show ?thesis
    using Some
    by (auto simp: runnable_resolve_step map_of_detect_capabilities tool_matches_iff neq_Nil_conv)
qed

end
