(* ===== verification/WorkflowRuntime.thy ===== *)
theory WorkflowRuntime
  imports WorkflowCaps
begin

text \<open>
  The workflow call stack of \<open>src/workflows/runtime.ts\<close>. The stack is kept with the active
  frame first (the code keeps it last); the events the listeners receive are appended to
  \<open>emitted\<close>. An operation that throws returns the error together with the state as mutated
  so far. The lemmas show that the settle loop terminates for every registry and every stack,
  that nesting never grows past the limit, that the cursor lands on a step the agent can
  execute, and that the statuses agree with the cursor.
\<close>

section \<open>State\<close>

record workflow_frame =
  fr_workflow :: string
  fr_step_index :: nat
  fr_statuses :: "step_status option list"

datatype workflow_event =
    StepStart string workflow_step nat nat
  | StepComplete string workflow_step
  | StepSkip string workflow_step string
  | WorkflowComplete string

record workflow_runtime =
  rt_stack :: "workflow_frame list"
  rt_done :: bool
  rt_capabilities :: capability_map
  rt_emitted :: "workflow_event list"

datatype workflow_error =
    WorkflowNotFound string
  | SubWorkflowNotFound string
  | NestingExceeded string

type_synonym resolver = "string \<Rightarrow> workflow option"

definition new_runtime :: "capability_map \<Rightarrow> workflow_runtime" where
  "new_runtime caps = \<lparr>rt_stack = [], rt_done = False, rt_capabilities = caps, rt_emitted = []\<rparr>"

definition set_capabilities :: "capability_map \<Rightarrow> workflow_runtime \<Rightarrow> workflow_runtime" where
  "set_capabilities caps rt = rt\<lparr>rt_capabilities := caps\<rparr>"

definition emit :: "workflow_event \<Rightarrow> workflow_runtime \<Rightarrow> workflow_runtime" where
  "emit event rt = rt\<lparr>rt_emitted := rt_emitted rt @ [event]\<rparr>"

definition is_active :: "workflow_runtime \<Rightarrow> bool" where
  "is_active rt \<longleftrightarrow> 0 < length (rt_stack rt) \<and> \<not> rt_done rt"

definition is_complete :: "workflow_runtime \<Rightarrow> bool" where
  "is_complete rt = rt_done rt"

definition frame_for :: "workflow \<Rightarrow> workflow_frame" where
  "frame_for w = \<lparr>fr_workflow = wf_name w, fr_step_index = 0,
                  fr_statuses = map (\<lambda>_. Some Pending) (wf_steps w)\<rparr>"

text \<open>The updates a frame receives: a status written at the cursor, the cursor moved on.\<close>

definition mark :: "step_status \<Rightarrow> workflow_frame \<Rightarrow> workflow_frame" where
  "mark st fr = fr\<lparr>fr_statuses := js_assign (fr_statuses fr) (fr_step_index fr) st\<rparr>"

definition bump_index :: "workflow_frame \<Rightarrow> workflow_frame" where
  "bump_index fr = fr\<lparr>fr_step_index := Suc (fr_step_index fr)\<rparr>"

text \<open>
  The parent's part of popping an exhausted frame, shared with \<open>advance\<close>: when the cursor
  is on a step it is completed and announced, and the cursor moves on either way.
\<close>

definition complete_cursor ::
    "workflow \<Rightarrow> workflow_frame \<Rightarrow> workflow_frame list \<Rightarrow> workflow_runtime \<Rightarrow> workflow_runtime" where
  "complete_cursor w fr rest rt =
     (case js_at (wf_steps w) (fr_step_index fr) of
        None \<Rightarrow> rt\<lparr>rt_stack := bump_index fr # rest\<rparr>
      | Some step \<Rightarrow>
          emit (StepComplete (wf_name w) step)
            (rt\<lparr>rt_stack := bump_index (mark Completed fr) # rest\<rparr>))"

text \<open>A skipped step, announced with its reason.\<close>

definition skip_cursor ::
    "workflow \<Rightarrow> workflow_step \<Rightarrow> string \<Rightarrow> workflow_frame \<Rightarrow> workflow_frame list
      \<Rightarrow> workflow_runtime \<Rightarrow> workflow_runtime" where
  "skip_cursor w step reason fr rest rt =
     emit (StepSkip (wf_name w) step reason)
       (rt\<lparr>rt_stack := bump_index (mark Skipped fr) # rest\<rparr>)"

section \<open>The settle loop\<close>

text \<open>
  One iteration of \<open>for (;;)\<close>: \<open>Inl\<close> is a return or a throw, \<open>Inr\<close> a \<open>continue\<close>.
\<close>

definition settle_step ::
    "resolver \<Rightarrow> workflow_runtime
      \<Rightarrow> (workflow_error option \<times> workflow_runtime) + workflow_runtime" where
  "settle_step resolve rt =
     (case rt_stack rt of
        [] \<Rightarrow> Inl (None, rt\<lparr>rt_done := True\<rparr>)
      | fr # rest \<Rightarrow>
        (case resolve (fr_workflow fr) of
           None \<Rightarrow> Inl (Some (WorkflowNotFound (fr_workflow fr)), rt)
         | Some w \<Rightarrow>
           (case js_at (wf_steps w) (fr_step_index fr) of
              None \<Rightarrow>
                (case rest of
                   [] \<Rightarrow> Inl (None, emit (WorkflowComplete (wf_name w))
                                      (rt\<lparr>rt_stack := [], rt_done := True\<rparr>))
                 | parent # rest' \<Rightarrow>
                   (case resolve (fr_workflow parent) of
                      None \<Rightarrow> Inl (Some (WorkflowNotFound (fr_workflow parent)),
                                  rt\<lparr>rt_stack := rest\<rparr>)
                    | Some pw \<Rightarrow> Inr (complete_cursor pw parent rest' rt)))
            | Some step \<Rightarrow>
                (let resolution = resolve_step step (rt_capabilities rt)
                 in if \<not> runnable resolution
                    then Inr (skip_cursor w step
                           (case skipped_reason resolution of None \<Rightarrow> ''not runnable'' | Some r \<Rightarrow> r)
                           fr rest rt)
                    else (case step_workflow step of
                       Some sub \<Rightarrow>
                         (case resolve sub of
                            None \<Rightarrow>
                              (if step_optional step = Some True
                               then Inr (skip_cursor w step (''sub-workflow not found: '' @ sub)
                                      fr rest rt)
                               else Inl (Some (SubWorkflowNotFound sub), rt))
                          | Some nested \<Rightarrow>
                              (if max_workflow_depth \<le> length (rt_stack rt)
                               then Inl (Some (NestingExceeded sub), rt)
                               else Inr (rt\<lparr>rt_stack := frame_for nested # mark Active fr # rest\<rparr>)))
                     | None \<Rightarrow>
                         Inl (None,
                           emit (StepStart (wf_name w) step (fr_step_index fr) (length (wf_steps w)))
                             (rt\<lparr>rt_stack := mark Active fr # rest\<rparr>)))))))"

text \<open>
  The loop stops: order the stacks by the steps left in each frame from the root up, an absent
  frame counting for more than any number of steps unless the active frame is exhausted, and
  then by depth.
\<close>

definition steps_left :: "resolver \<Rightarrow> workflow_frame \<Rightarrow> nat" where
  "steps_left resolve fr =
     (case resolve (fr_workflow fr) of None \<Rightarrow> 0 | Some w \<Rightarrow> length (wf_steps w) - fr_step_index fr)"

definition settle_slots :: "resolver \<Rightarrow> workflow_frame list \<Rightarrow> (nat \<times> nat) list" where
  "settle_slots resolve stack =
     map (\<lambda>fr. (0, steps_left resolve fr)) (rev stack) @
     replicate (max_workflow_depth - length stack)
       (if stack = [] \<or> steps_left resolve (hd stack) = 0 then (0, 0) else (1, 0))"

definition slot_less :: "((nat \<times> nat) \<times> (nat \<times> nat)) set" where
  "slot_less = less_than <*lex*> less_than"

definition settle_order ::
    "((resolver \<times> workflow_runtime) \<times> (resolver \<times> workflow_runtime)) set" where
  "settle_order =
     inv_image (less_than <*lex*> (lex slot_less <*lex*> less_than))
       (\<lambda>(resolve, rt). (max max_workflow_depth (length (rt_stack rt)),
                        settle_slots resolve (rt_stack rt), length (rt_stack rt)))"

lemma wf_settle_order: "wf settle_order"
  by (auto simp: settle_order_def slot_less_def intro!: wf_inv_image wf_lex_prod wf_lex)

lemma lex_at:
  "length xs = length ys \<Longrightarrow> (a, b) \<in> r \<Longrightarrow> (p @ a # xs, p @ b # ys) \<in> lex r"
  by (auto simp: lex_conv)

lemma fr_workflow_mark [simp]: "fr_workflow (mark st fr) = fr_workflow fr"
  and fr_step_index_mark [simp]: "fr_step_index (mark st fr) = fr_step_index fr"
  and fr_workflow_bump [simp]: "fr_workflow (bump_index fr) = fr_workflow fr"
  and fr_step_index_bump [simp]: "fr_step_index (bump_index fr) = Suc (fr_step_index fr)"
  and fr_statuses_bump [simp]: "fr_statuses (bump_index fr) = fr_statuses fr"
  by (simp_all add: mark_def bump_index_def)

lemma emit_sel [simp]:
  "rt_stack (emit e rt) = rt_stack rt" "rt_done (emit e rt) = rt_done rt"
  "rt_capabilities (emit e rt) = rt_capabilities rt"
  "rt_emitted (emit e rt) = rt_emitted rt @ [e]"
  by (simp_all add: emit_def)

lemma js_at_Some: "js_at xs i = Some x \<longleftrightarrow> i < length xs \<and> x = xs ! i"
  and js_at_None: "js_at xs i = None \<longleftrightarrow> length xs \<le> i"
  by (auto simp: js_at_def)

lemma complete_cursor_stack:
  "\<exists>fr'. rt_stack (complete_cursor w fr rest rt) = fr' # rest \<and>
     fr_workflow fr' = fr_workflow fr \<and> fr_step_index fr' = Suc (fr_step_index fr)"
  by (auto simp: complete_cursor_def split: option.splits)

lemma complete_cursor_sel [simp]:
  "rt_done (complete_cursor w fr rest rt) = rt_done rt"
  "rt_capabilities (complete_cursor w fr rest rt) = rt_capabilities rt"
  by (auto simp: complete_cursor_def split: option.splits)

lemma skip_cursor_sel [simp]:
  "rt_stack (skip_cursor w step reason fr rest rt) = bump_index (mark Skipped fr) # rest"
  "rt_done (skip_cursor w step reason fr rest rt) = rt_done rt"
  "rt_capabilities (skip_cursor w step reason fr rest rt) = rt_capabilities rt"
  by (simp_all add: skip_cursor_def)

text \<open>A cursor moved within its frame lowers the order.\<close>

lemma settle_order_bump:
  assumes stack: "rt_stack rt = fr # rest" and stack': "rt_stack rt' = fr' # rest"
    and res: "resolve (fr_workflow fr) = Some w" and idx: "fr_step_index fr < length (wf_steps w)"
    and fr': "fr_workflow fr' = fr_workflow fr" "fr_step_index fr' = Suc (fr_step_index fr)"
  shows "((resolve, rt'), (resolve, rt)) \<in> settle_order"
proof -
  have "((0, steps_left resolve fr'), (0, steps_left resolve fr)) \<in> slot_less"
    using res idx fr' by (simp add: steps_left_def slot_less_def)
  then have "(settle_slots resolve (fr' # rest), settle_slots resolve (fr # rest)) \<in> lex slot_less"
    by (auto simp: settle_slots_def intro: lex_at)
  then show ?thesis by (simp add: settle_order_def stack stack')
qed

text \<open>Entering a sub-workflow lowers the order.\<close>

lemma settle_order_push:
  assumes stack: "rt_stack rt = fr # rest" and stack': "rt_stack rt' = n # fr' # rest"
    and res: "resolve (fr_workflow fr) = Some w" and idx: "fr_step_index fr < length (wf_steps w)"
    and fr': "fr_workflow fr' = fr_workflow fr" "fr_step_index fr' = fr_step_index fr"
    and room: "Suc (length rest) < max_workflow_depth"
  shows "((resolve, rt'), (resolve, rt)) \<in> settle_order"
proof -
  have left: "steps_left resolve fr' = steps_left resolve fr" "steps_left resolve fr \<noteq> 0"
    using res idx fr' by (simp_all add: steps_left_def)
  define k where "k = max_workflow_depth - Suc (Suc (length rest))"
  have k: "max_workflow_depth - Suc (length rest) = Suc k"
    using room by (simp add: k_def)
  have "((0, steps_left resolve n), (1, 0)) \<in> slot_less"
    by (simp add: slot_less_def)
  then have "(settle_slots resolve (n # fr' # rest), settle_slots resolve (fr # rest)) \<in> lex slot_less"
    using left k by (auto simp: settle_slots_def k_def [symmetric] intro!: lex_at [where p = "_ @ [_]", simplified])
  moreover have "max max_workflow_depth (Suc (Suc (length rest))) = max_workflow_depth"
    "max max_workflow_depth (Suc (length rest)) = max_workflow_depth"
    using room by simp_all
  ultimately show ?thesis by (simp add: settle_order_def stack stack')
qed

text \<open>Popping an exhausted frame lowers the order.\<close>

lemma settle_order_pop:
  assumes stack: "rt_stack rt = fr # parent # rest" and stack': "rt_stack rt' = parent' # rest"
    and exhausted: "steps_left resolve fr = 0"
    and parent': "fr_workflow parent' = fr_workflow parent"
      "fr_step_index parent' = Suc (fr_step_index parent)"
  shows "((resolve, rt'), (resolve, rt)) \<in> settle_order"
proof (cases "max_workflow_depth < Suc (Suc (length rest))")
  case True
  then show ?thesis by (simp add: settle_order_def stack stack' max_def)
next
  case False
  define k where "k = max_workflow_depth - Suc (Suc (length rest))"
  have k: "max_workflow_depth - Suc (length rest) = Suc k"
    "max_workflow_depth - Suc (Suc (length rest)) = k"
    using False by (simp_all add: k_def)
  have same: "max max_workflow_depth (Suc (Suc (length rest))) = max_workflow_depth"
    "max max_workflow_depth (Suc (length rest)) = max_workflow_depth"
    using False by simp_all
  have left': "steps_left resolve parent' = steps_left resolve parent - 1"
    using parent' by (simp add: steps_left_def split: option.splits)
  show ?thesis
  proof (cases "steps_left resolve parent = 0")
    case True
    then have "settle_slots resolve (parent' # rest) = settle_slots resolve (fr # parent # rest)"
      using k exhausted left' by (simp add: settle_slots_def)
    then show ?thesis using same by (simp add: settle_order_def stack stack')
  next
    case False
    then have "((0, steps_left resolve parent'), (0, steps_left resolve parent)) \<in> slot_less"
      using left' by (simp add: slot_less_def)
    then have "(settle_slots resolve (parent' # rest), settle_slots resolve (fr # parent # rest))
        \<in> lex slot_less"
      using k by (auto simp: settle_slots_def intro: lex_at)
    then show ?thesis using same by (simp add: settle_order_def stack stack')
  qed
qed

text \<open>The cases of one iteration that continue.\<close>

lemma settle_step_Inr_cases:
  assumes "settle_step resolve rt = Inr rt'"
  obtains
    (pop) fr parent rest w pw where "rt_stack rt = fr # parent # rest"
      "resolve (fr_workflow fr) = Some w" "length (wf_steps w) \<le> fr_step_index fr"
      "resolve (fr_workflow parent) = Some pw" "rt' = complete_cursor pw parent rest rt"
  | (skip) fr rest w step reason where "rt_stack rt = fr # rest"
      "resolve (fr_workflow fr) = Some w" "fr_step_index fr < length (wf_steps w)"
      "step = wf_steps w ! fr_step_index fr" "rt' = skip_cursor w step reason fr rest rt"
      "\<not> runnable (resolve_step step (rt_capabilities rt)) \<or>
       step_optional step = Some True \<and> (\<exists>sub. step_workflow step = Some sub \<and> resolve sub = None)"
  | (push) fr rest w step sub nested where "rt_stack rt = fr # rest"
      "resolve (fr_workflow fr) = Some w" "fr_step_index fr < length (wf_steps w)"
      "step = wf_steps w ! fr_step_index fr" "runnable (resolve_step step (rt_capabilities rt))"
      "step_workflow step = Some sub" "resolve sub = Some nested"
      "Suc (length rest) < max_workflow_depth"
      "rt' = rt\<lparr>rt_stack := frame_for nested # mark Active fr # rest\<rparr>"
  using assms
  by (fastforce simp: settle_step_def js_at_Some js_at_None Let_def
        split: list.splits option.splits if_splits)

lemma settle_step_decreases:
  assumes "settle_step resolve rt = Inr rt'"
  shows "((resolve, rt'), (resolve, rt)) \<in> settle_order"
  using assms
proof (cases rule: settle_step_Inr_cases)
  case (pop fr parent rest w pw)
  obtain parent' where "rt_stack rt' = parent' # rest"
      "fr_workflow parent' = fr_workflow parent" "fr_step_index parent' = Suc (fr_step_index parent)"
    using complete_cursor_stack [of pw parent rest rt] pop by auto
  with pop show ?thesis by (auto intro!: settle_order_pop simp: steps_left_def)
next
  case (skip fr rest w step reason)
  then show ?thesis by (auto intro!: settle_order_bump)
next
  case (push fr rest w step sub nested)
  then show ?thesis by (auto intro!: settle_order_push)
qed

function settle :: "resolver \<Rightarrow> workflow_runtime \<Rightarrow> workflow_error option \<times> workflow_runtime" where
  "settle resolve rt =
     (case settle_step resolve rt of Inl result \<Rightarrow> result | Inr rt' \<Rightarrow> settle resolve rt')"
  by pat_completeness auto
termination
  by (relation settle_order) (auto intro: wf_settle_order settle_step_decreases)

declare settle.simps [simp del]

text \<open>An invariant of one iteration holds when the loop ends.\<close>

lemma settle_rule:
  assumes "P rt"
    and "\<And>s s'. P s \<Longrightarrow> settle_step resolve s = Inr s' \<Longrightarrow> P s'"
    and "\<And>s err s'. P s \<Longrightarrow> settle_step resolve s = Inl (err, s') \<Longrightarrow> Q err s'"
  shows "Q (fst (settle resolve rt)) (snd (settle resolve rt))"
  using assms
proof (induction resolve rt rule: settle.induct)
  case (1 resolve rt)
  show ?case
  proof (cases "settle_step resolve rt")
    case (Inl result)
    then show ?thesis
      using "1.prems"(1) "1.prems"(3) [of rt "fst result" "snd result"] by (simp add: settle.simps)
  next
    case (Inr s')
    then have "settle resolve rt = settle resolve s'" by (simp add: settle.simps)
    then show ?thesis using "1.IH" [OF Inr _ "1.prems"(2) "1.prems"(3)] "1.prems"(1,2) Inr by simp
  qed
qed

section \<open>Operations\<close>

definition start :: "resolver \<Rightarrow> workflow \<Rightarrow> workflow_runtime \<Rightarrow> workflow_error option \<times> workflow_runtime" where
  "start resolve w rt = settle resolve (rt\<lparr>rt_stack := [frame_for w], rt_done := False\<rparr>)"

definition workflow_of :: "resolver \<Rightarrow> workflow_frame \<Rightarrow> workflow_error + workflow" where
  "workflow_of resolve fr =
     (case resolve (fr_workflow fr) of
        None \<Rightarrow> Inl (WorkflowNotFound (fr_workflow fr)) | Some w \<Rightarrow> Inr w)"

definition current_step :: "resolver \<Rightarrow> workflow_runtime \<Rightarrow> workflow_error + workflow_step option" where
  "current_step resolve rt =
     (if rt_done rt then Inr None
      else (case rt_stack rt of
              [] \<Rightarrow> Inr None
            | fr # _ \<Rightarrow>
                (case workflow_of resolve fr of
                   Inl e \<Rightarrow> Inl e
                 | Inr w \<Rightarrow> Inr (js_at (wf_steps w) (fr_step_index fr)))))"

record workflow_view =
  vw_name :: string
  vw_step_index :: nat
  vw_total :: nat
  vw_label :: string
  vw_steps :: "(workflow_step \<times> step_status) list"

definition view :: "resolver \<Rightarrow> workflow_runtime \<Rightarrow> workflow_error + workflow_view option" where
  "view resolve rt =
     (case rt_stack rt of
        [] \<Rightarrow> Inr None
      | fr # _ \<Rightarrow>
          (case workflow_of resolve fr of
             Inl e \<Rightarrow> Inl e
           | Inr w \<Rightarrow> Inr (Some
               \<lparr>vw_name = wf_name w, vw_step_index = fr_step_index fr, vw_total = length (wf_steps w),
                vw_label = (case js_at (wf_steps w) (fr_step_index fr) of
                              Some step \<Rightarrow> step_label step
                            | None \<Rightarrow> if rt_done rt then ''complete'' else []),
                vw_steps = map (\<lambda>i. (wf_steps w ! i,
                                   (case js_at (fr_statuses fr) i of Some (Some st) \<Rightarrow> st | _ \<Rightarrow> Pending)))
                             [0..<length (wf_steps w)]\<rparr>)))"

definition advance :: "resolver \<Rightarrow> workflow_runtime \<Rightarrow> workflow_error option \<times> workflow_runtime" where
  "advance resolve rt =
     (if rt_done rt then (None, rt)
      else (case rt_stack rt of
              [] \<Rightarrow> (None, rt)
            | fr # rest \<Rightarrow>
                (case workflow_of resolve fr of
                   Inl e \<Rightarrow> (Some e, rt)
                 | Inr w \<Rightarrow> settle resolve (complete_cursor w fr rest rt))))"

definition complete ::
    "resolver \<Rightarrow> string \<Rightarrow> workflow_runtime
      \<Rightarrow> (workflow_error + workflow_complete_result) \<times> workflow_runtime" where
  "complete resolve stepId rt =
     (let behind =
        (case view resolve rt of
           Inl e \<Rightarrow> Inl e
         | Inr None \<Rightarrow> Inr NotCurrent
         | Inr (Some v) \<Rightarrow>
             (case find_index (\<lambda>s. step_id (fst s) = stepId) (vw_steps v) of
                Some idx \<Rightarrow> if idx < vw_step_index v then Inr AlreadyComplete else Inr NotCurrent
              | None \<Rightarrow> Inr NotCurrent))
      in (case current_step resolve rt of
            Inl e \<Rightarrow> (Inl e, rt)
          | Inr (Some step) \<Rightarrow>
              (if step_id step = stepId
               then (case advance resolve rt of
                       (Some e, rt') \<Rightarrow> (Inl e, rt')
                     | (None, rt') \<Rightarrow> (Inr Advanced, rt'))
               else (behind, rt))
          | Inr None \<Rightarrow> (behind, rt)))"

text \<open>The persisted form keeps the root frame first, as the code's stack does.\<close>

record workflow_state =
  ws_stack :: "workflow_frame list"
  ws_completed :: bool

definition save_state :: "workflow_runtime \<Rightarrow> workflow_state" where
  "save_state rt = \<lparr>ws_stack = rev (rt_stack rt), ws_completed = rt_done rt\<rparr>"

definition restore :: "workflow_state \<Rightarrow> workflow_runtime \<Rightarrow> workflow_runtime" where
  "restore st rt = rt\<lparr>rt_stack := rev (ws_stack st), rt_done := ws_completed st\<rparr>"

lemma restore_save_state:
  "rt_stack (restore (save_state rt) rt') = rt_stack rt"
  "rt_done (restore (save_state rt) rt') = rt_done rt"
  by (simp_all add: restore_def save_state_def)

section \<open>Nesting depth\<close>

lemma settle_step_depth:
  assumes "settle_step resolve rt = Inr rt'"
    and "length (rt_stack rt) \<le> max max_workflow_depth d"
  shows "length (rt_stack rt') \<le> max max_workflow_depth d"
  using assms(1)
proof (cases rule: settle_step_Inr_cases)
  case (pop fr parent rest w pw)
  then show ?thesis using assms(2) complete_cursor_stack [of pw parent rest rt] by auto
qed (use assms(2) in auto)

lemma settle_step_Inl_depth:
  assumes "settle_step resolve rt = Inl (err, rt')"
  shows "length (rt_stack rt') \<le> length (rt_stack rt)"
  using assms
  by (auto simp: settle_step_def Let_def split: list.splits option.splits if_splits)

lemma settle_depth:
  "length (rt_stack (snd (settle resolve rt))) \<le> max max_workflow_depth (length (rt_stack rt))"
  by (rule settle_rule
        [where P = "\<lambda>s. length (rt_stack s) \<le> max max_workflow_depth (length (rt_stack rt))"])
     (auto dest: settle_step_depth settle_step_Inl_depth)

section \<open>Statuses and the cursor\<close>

text \<open>
  What the runtime relies on from the registry: a workflow found under a name has that name,
  so a frame's workflow can be looked up again.
\<close>

locale workflow_resolver =
  fixes resolve :: resolver
  assumes resolve_name: "resolve n = Some w \<Longrightarrow> wf_name w = n"
begin

lemma resolve_again: "resolve n = Some w \<Longrightarrow> resolve (wf_name w) = Some w"
  using resolve_name by simp

end

interpretation registry: workflow_resolver "find_workflow workflows" for workflows
  by unfold_locales (simp add: find_workflow_name)

definition settled_before :: "workflow_frame \<Rightarrow> bool" where
  "settled_before fr \<longleftrightarrow>
     (\<forall>i < fr_step_index fr. fr_statuses fr ! i \<in> {Some Completed, Some Skipped})"

definition pending_after :: "workflow_frame \<Rightarrow> bool" where
  "pending_after fr \<longleftrightarrow>
     (\<forall>i < length (fr_statuses fr). fr_step_index fr < i \<longrightarrow> fr_statuses fr ! i = Some Pending)"

definition frame_wf :: "resolver \<Rightarrow> workflow_frame \<Rightarrow> bool" where
  "frame_wf resolve fr \<longleftrightarrow>
     (\<exists>w. resolve (fr_workflow fr) = Some w \<and> length (fr_statuses fr) = length (wf_steps w)) \<and>
     fr_step_index fr \<le> length (fr_statuses fr) \<and> settled_before fr \<and> pending_after fr \<and>
     None \<notin> set (fr_statuses fr)"

definition cursor_on_step :: "workflow_frame \<Rightarrow> bool" where
  "cursor_on_step fr \<longleftrightarrow> fr_step_index fr < length (fr_statuses fr)"

definition cursor_active :: "workflow_frame \<Rightarrow> bool" where
  "cursor_active fr \<longleftrightarrow> cursor_on_step fr \<and> fr_statuses fr ! fr_step_index fr = Some Active"

definition stack_wf :: "resolver \<Rightarrow> workflow_frame list \<Rightarrow> bool" where
  "stack_wf resolve stack \<longleftrightarrow>
     (\<forall>fr \<in> set stack. frame_wf resolve fr) \<and> (\<forall>fr \<in> set (tl stack). cursor_active fr)"

definition runtime_inv :: "resolver \<Rightarrow> workflow_runtime \<Rightarrow> bool" where
  "runtime_inv resolve rt \<longleftrightarrow>
     stack_wf resolve (rt_stack rt) \<and> length (rt_stack rt) \<le> max_workflow_depth \<and>
     (rt_done rt \<longrightarrow> rt_stack rt = []) \<and>
     (rt_stack rt \<noteq> [] \<longrightarrow> cursor_on_step (hd (rt_stack rt)))"

lemma None_update: "None \<notin> set xs \<Longrightarrow> None \<notin> set (xs[i := Some x])"
  using set_update_subset_insert [of xs i "Some x"] by auto

lemma fr_statuses_mark:
  "cursor_on_step fr \<Longrightarrow> fr_statuses (mark st fr) = (fr_statuses fr)[fr_step_index fr := Some st]"
  by (simp add: mark_def js_assign_def cursor_on_step_def)

lemma frame_wf_settle_cursor:
  assumes "frame_wf resolve fr" "cursor_on_step fr" "st = Completed \<or> st = Skipped"
  shows "frame_wf resolve (bump_index (mark st fr))"
  using assms
  by (auto simp: frame_wf_def settled_before_def pending_after_def fr_statuses_mark
      cursor_on_step_def nth_list_update less_Suc_eq None_update)

lemma frame_wf_mark_active:
  assumes "frame_wf resolve fr" "cursor_on_step fr"
  shows "frame_wf resolve (mark Active fr)" "cursor_active (mark Active fr)"
  using assms
  by (auto simp: frame_wf_def settled_before_def pending_after_def fr_statuses_mark
      cursor_on_step_def cursor_active_def None_update)

lemma frame_wf_frame_for: "resolve (wf_name w) = Some w \<Longrightarrow> frame_wf resolve (frame_for w)"
  by (auto simp: frame_wf_def frame_for_def settled_before_def pending_after_def)

lemma frame_wf_cursor:
  "frame_wf resolve fr \<Longrightarrow> resolve (fr_workflow fr) = Some w \<Longrightarrow>
     cursor_on_step fr \<longleftrightarrow> fr_step_index fr < length (wf_steps w)"
  by (auto simp: frame_wf_def cursor_on_step_def)

lemma frame_wf_resolves: "frame_wf resolve fr \<Longrightarrow> \<exists>w. resolve (fr_workflow fr) = Some w"
  by (auto simp: frame_wf_def)

lemma in_set_tl: "x \<in> set (tl xs) \<Longrightarrow> x \<in> set xs"
  by (cases xs) auto

lemma stack_wf_simps [simp]:
  "stack_wf resolve []"
  "stack_wf resolve (fr # rest) \<longleftrightarrow>
     frame_wf resolve fr \<and> stack_wf resolve rest \<and> (\<forall>g \<in> set rest. cursor_active g)"
  by (auto simp: stack_wf_def dest: in_set_tl)

lemma complete_cursor_wf:
  assumes "stack_wf resolve (fr # rest)" "resolve (fr_workflow fr) = Some w" "cursor_on_step fr"
  shows "stack_wf resolve (rt_stack (complete_cursor w fr rest rt))"
proof -
  have "fr_step_index fr < length (wf_steps w)"
    using assms frame_wf_cursor [of resolve fr w] by simp
  then show ?thesis
    using assms by (simp add: complete_cursor_def js_at_def frame_wf_settle_cursor)
qed

definition settling :: "resolver \<Rightarrow> workflow_runtime \<Rightarrow> bool" where
  "settling resolve rt \<longleftrightarrow>
     stack_wf resolve (rt_stack rt) \<and> length (rt_stack rt) \<le> max_workflow_depth \<and> \<not> rt_done rt"

context workflow_resolver
begin

lemma settle_step_settling:
  assumes "settling resolve rt" "settle_step resolve rt = Inr rt'"
  shows "settling resolve rt'"
  using assms(2)
proof (cases rule: settle_step_Inr_cases)
  case (pop fr parent rest w pw)
  have "length (rt_stack rt') \<le> length (rt_stack rt)"
    using pop complete_cursor_stack [of pw parent rest rt] by auto
  moreover have "stack_wf resolve (rt_stack rt')"
    using pop assms(1) complete_cursor_wf [of resolve parent rest pw rt]
    by (auto simp: settling_def cursor_active_def)
  ultimately show ?thesis using pop assms(1) by (simp add: settling_def)
next
  case (skip fr rest w step reason)
  then show ?thesis
    using assms(1) frame_wf_cursor by (auto simp: settling_def intro!: frame_wf_settle_cursor)
next
  case (push fr rest w step sub nested)
  then have "frame_wf resolve fr" "cursor_on_step fr"
    using assms(1) frame_wf_cursor by (auto simp: settling_def)
  then show ?thesis
    using push assms(1) frame_wf_mark_active [of resolve fr] resolve_again
    by (auto simp: settling_def intro!: frame_wf_frame_for)
qed

lemma settle_step_stops:
  assumes "settling resolve rt" "settle_step resolve rt = Inl (err, rt')"
  shows "runtime_inv resolve rt'"
  using assms frame_wf_mark_active frame_wf_cursor frame_wf_resolves
  by (fastforce simp: settling_def runtime_inv_def settle_step_def Let_def js_at_Some js_at_None
      cursor_active_def split: list.splits option.splits if_splits)

lemma settle_inv: "settling resolve rt \<Longrightarrow> runtime_inv resolve (snd (settle resolve rt))"
  by (rule settle_rule [where P = "settling resolve"])
     (auto intro: settle_step_settling settle_step_stops)

lemma start_inv:
  "resolve (wf_name w) = Some w \<Longrightarrow> runtime_inv resolve (snd (start resolve w rt))"
  unfolding start_def
  by (rule settle_inv) (simp add: settling_def frame_wf_frame_for max_workflow_depth_def)

lemma advance_inv:
  assumes "runtime_inv resolve rt"
  shows "runtime_inv resolve (snd (advance resolve rt))"
proof (cases "rt_done rt \<or> rt_stack rt = []")
  case True
  then show ?thesis using assms by (auto simp: advance_def split: list.splits)
next
  case False
  then obtain fr rest where stack: "rt_stack rt = fr # rest" and "\<not> rt_done rt"
    by (auto simp: neq_Nil_conv)
  then obtain w where w: "resolve (fr_workflow fr) = Some w"
    using assms by (auto simp: runtime_inv_def dest: frame_wf_resolves)
  have "settling resolve (complete_cursor w fr rest rt)"
    using assms stack w False complete_cursor_stack [of w fr rest rt]
      complete_cursor_wf [of resolve fr rest w rt]
    by (auto simp: settling_def runtime_inv_def)
  then show ?thesis
    using settle_inv stack w False by (simp add: advance_def workflow_of_def)
qed

lemma complete_inv:
  assumes "runtime_inv resolve rt"
  shows "runtime_inv resolve (snd (complete resolve stepId rt))"
  using assms advance_inv [OF assms]
  by (auto simp: complete_def Let_def split: sum.splits option.splits prod.splits)

end

section \<open>Runs\<close>

text \<open>
  A runtime over the registry \<open>workflows\<close>, driven by the calls the host makes: a start by
  name (nothing happens for an unknown one), the coordinator's compare-and-advance, an
  unconditional advance, a new capability map, and a save followed by a restore.
\<close>

datatype runtime_op =
    OpStart string
  | OpComplete string
  | OpAdvance
  | OpSetCapabilities capability_map
  | OpSaveRestore

fun runtime_step :: "workflow list \<Rightarrow> workflow_runtime \<Rightarrow> runtime_op \<Rightarrow> workflow_runtime" where
  "runtime_step workflows rt (OpStart name) =
     (case find_workflow workflows name of
        None \<Rightarrow> rt | Some w \<Rightarrow> snd (start (find_workflow workflows) w rt))"
| "runtime_step workflows rt (OpComplete stepId) =
     snd (complete (find_workflow workflows) stepId rt)"
| "runtime_step workflows rt OpAdvance = snd (advance (find_workflow workflows) rt)"
| "runtime_step workflows rt (OpSetCapabilities caps) = set_capabilities caps rt"
| "runtime_step workflows rt OpSaveRestore = restore (save_state rt) rt"

interpretation workflow_machine:
  invariant_machine "runtime_step workflows" "runtime_inv (find_workflow workflows)" for workflows
proof
  fix rt :: workflow_runtime and op :: runtime_op
  assume inv: "runtime_inv (find_workflow workflows) rt"
  show "runtime_inv (find_workflow workflows) (runtime_step workflows rt op)"
    using inv registry.start_inv registry.complete_inv registry.advance_inv
    by (cases op)
       (auto simp: runtime_inv_def set_capabilities_def restore_def save_state_def find_workflow_name
         dest: registry.resolve_again split: option.splits)
qed

lemma new_runtime_inv: "runtime_inv resolve (new_runtime caps)"
  by (simp add: runtime_inv_def new_runtime_def)

text \<open>
  C7: along every run of the runtime over a registry, whatever its calls, errors included, the
  stack never nests deeper than the limit, each frame keeps one status per step of its
  workflow, every step before a cursor is completed or skipped and every step after it pending,
  the step a suspended frame waits on is active, and a done runtime has no frame.
\<close>

theorem workflow_run_invariant:
  "runtime_inv (find_workflow workflows) (foldl (runtime_step workflows) (new_runtime caps) ops)"
  by (rule workflow_machine.run_inv, rule new_runtime_inv)

section \<open>Where settling ends\<close>

text \<open>The cursor is on a step the agent executes itself: runnable, no sub-workflow, active.\<close>

definition landed :: "resolver \<Rightarrow> workflow_runtime \<Rightarrow> bool" where
  "landed resolve rt \<longleftrightarrow>
     (\<exists>fr rest w step. rt_stack rt = fr # rest \<and> resolve (fr_workflow fr) = Some w \<and>
        js_at (wf_steps w) (fr_step_index fr) = Some step \<and>
        runnable (resolve_step step (rt_capabilities rt)) \<and> step_workflow step = None \<and>
        js_at (fr_statuses fr) (fr_step_index fr) = Some (Some Active) \<and>
        last (rt_emitted rt) =
          StepStart (wf_name w) step (fr_step_index fr) (length (wf_steps w)))"

lemma js_at_mark [simp]:
  "js_at (fr_statuses (mark st fr)) (fr_step_index fr) = Some (Some st)"
  by (simp add: mark_def js_at_def length_js_assign)

lemma settle_step_lands:
  "settle_step resolve rt = Inl (None, rt') \<Longrightarrow> rt_done rt' \<and> rt_stack rt' = [] \<or> landed resolve rt'"
  by (auto simp: settle_step_def landed_def Let_def split: list.splits option.splits if_splits)

lemma settle_lands:
  "fst (settle resolve rt) = None \<longrightarrow>
     rt_done (snd (settle resolve rt)) \<and> rt_stack (snd (settle resolve rt)) = [] \<or>
     landed resolve (snd (settle resolve rt))"
  by (rule settle_rule [where P = "\<lambda>_. True" and
        Q = "\<lambda>err s. err = None \<longrightarrow> rt_done s \<and> rt_stack s = [] \<or> landed resolve s"])
     (auto dest: settle_step_lands)

text \<open>
  C22: starting a workflow, or advancing an active one, either throws, or finishes the
  workflow, or lands on a step that can run under the current capabilities, has no
  sub-workflow, is marked active and was announced by the last event.
\<close>

theorem workflow_lands:
  assumes "(err, rt') = start resolve w rt \<or>
           is_active rt \<and> (err, rt') = advance resolve rt"
  shows "err \<noteq> None \<or> rt_done rt' \<and> rt_stack rt' = [] \<or> landed resolve rt'"
proof -
  have "err \<noteq> None \<or> (\<exists>s. (err, rt') = settle resolve s)"
    using assms
    by (auto simp: start_def advance_def is_active_def split: list.splits sum.splits)
  then show ?thesis using settle_lands by (metis fst_conv snd_conv)
qed

text \<open>
  A recipe whose first step needs a capability nothing satisfies, so that starting it without
  capabilities lands on the second.
\<close>

definition sample_step :: "string \<Rightarrow> capability_name option \<Rightarrow> workflow_step" where
  "sample_step i cap =
     \<lparr>step_id = i, step_label = i, step_prompt = None, step_capability = cap, step_agent = None,
      step_skill = None, step_workflow = None, step_optional = None, step_parallel = None,
      step_kind = None, step_profile = None\<rparr>"

definition sample_workflow :: workflow where
  "sample_workflow =
     \<lparr>wf_name = ''ship'', wf_description = ''ship it'', wf_auto_invoke = None, wf_step_through = None,
      wf_steps = [sample_step ''ticket'' (Some TicketTracker), sample_step ''code'' None,
                  sample_step ''test'' None]\<rparr>"

definition sample_started :: workflow_runtime where
  "sample_started = snd (start (find_workflow [sample_workflow]) sample_workflow (new_runtime []))"

theorem workflow_lands_witness:
  "landed (find_workflow [sample_workflow]) sample_started"
proof -
  have "start (find_workflow [sample_workflow]) sample_workflow (new_runtime []) = (None, sample_started)"
    by code_simp
  moreover have "\<not> rt_done sample_started" by code_simp
  ultimately show ?thesis
    using workflow_lands [of None sample_started "find_workflow [sample_workflow]" sample_workflow
        "new_runtime []"] by simp
qed

section \<open>Compare and advance\<close>

lemma advance_current:
  "current_step resolve rt = Inr (Some step) \<Longrightarrow>
     \<exists>fr rest w. rt_stack rt = fr # rest \<and> \<not> rt_done rt \<and> resolve (fr_workflow fr) = Some w \<and>
       js_at (wf_steps w) (fr_step_index fr) = Some step"
  by (auto simp: current_step_def workflow_of_def split: if_splits list.splits option.splits sum.splits)

text \<open>
  \<open>complete\<close> is a compare-and-advance. It answers \<open>advanced\<close> only when the id named the
  current step, and any other answer, or an error raised before the move, leaves the runtime
  as it was: a retried or forged completion cannot move the cursor. \<open>already-complete\<close> is
  answered only for a step of the active workflow behind the cursor.
\<close>

theorem complete_compare_and_advance:
  assumes "complete resolve stepId rt = (result, rt')"
  shows "(result = Inr Advanced \<and> advance resolve rt = (None, rt') \<or>
          (\<exists>e. result = Inl e \<and> advance resolve rt = (Some e, rt')) \<or> rt' = rt) \<and>
         (result = Inr Advanced \<longrightarrow>
            (\<exists>step. current_step resolve rt = Inr (Some step) \<and> step_id step = stepId)) \<and>
         (result = Inr AlreadyComplete \<longrightarrow>
            (\<exists>fr rest w i. rt_stack rt = fr # rest \<and> resolve (fr_workflow fr) = Some w \<and>
               i < fr_step_index fr \<and> i < length (wf_steps w) \<and> step_id (wf_steps w ! i) = stepId))"
proof -
  have behind: "\<exists>fr rest w i. rt_stack rt = fr # rest \<and> resolve (fr_workflow fr) = Some w \<and>
      i < fr_step_index fr \<and> i < length (wf_steps w) \<and> step_id (wf_steps w ! i) = stepId"
    if "view resolve rt = Inr (Some v)"
      "find_index (\<lambda>s. step_id (fst s) = stepId) (vw_steps v) = Some idx" "idx < vw_step_index v"
    for v idx
    using that
    by (fastforce simp: view_def workflow_of_def find_index_Some
        split: list.splits option.splits sum.splits)
  show ?thesis
    using assms behind
    by (auto simp: complete_def Let_def split: sum.splits option.splits if_splits prod.splits)
qed

theorem complete_compare_and_advance_witness:
  "\<exists>step. current_step (find_workflow [sample_workflow]) sample_started = Inr (Some step) \<and>
     step_id step = ''code''"
proof -
  let ?r = "complete (find_workflow [sample_workflow]) ''code'' sample_started"
  have "?r = (Inr Advanced, snd ?r)" by code_simp
  from complete_compare_and_advance [OF this] show ?thesis by blast
qed

section \<open>Every run of a workflow ends\<close>

definition settle_key :: "resolver \<Rightarrow> workflow_runtime \<Rightarrow> nat \<times> (nat \<times> nat) list \<times> nat" where
  "settle_key resolve rt =
     (max max_workflow_depth (length (rt_stack rt)), settle_slots resolve (rt_stack rt),
      length (rt_stack rt))"

definition key_order ::
    "((nat \<times> (nat \<times> nat) list \<times> nat) \<times> (nat \<times> (nat \<times> nat) list \<times> nat)) set" where
  "key_order = less_than <*lex*> (lex slot_less <*lex*> less_than)"

lemma wf_key_order: "wf key_order"
  by (auto simp: key_order_def slot_less_def intro!: wf_lex_prod wf_lex)

lemma settle_order_key:
  "((resolve, rt'), (resolve, rt)) \<in> settle_order \<longleftrightarrow>
     (settle_key resolve rt', settle_key resolve rt) \<in> key_order"
  by (simp add: settle_order_def settle_key_def key_order_def)

lemma settle_key_cong:
  assumes "rt_stack rt = fr # rest" "rt_stack rt' = fr' # rest"
    "steps_left resolve fr' = steps_left resolve fr"
  shows "settle_key resolve rt' = settle_key resolve rt"
  using assms by (simp add: settle_key_def settle_slots_def)

lemma steps_left_mark [simp]: "steps_left resolve (mark st fr) = steps_left resolve fr"
  by (simp add: steps_left_def split: option.splits)

lemma settle_step_key:
  "settle_step resolve rt = Inl (None, rt') \<Longrightarrow>
     rt_done rt' \<or> settle_key resolve rt' = settle_key resolve rt"
  by (auto simp: settle_step_def Let_def intro!: settle_key_cong
      split: list.splits option.splits if_splits)

lemma settle_key_le:
  "fst (settle resolve rt) = None \<longrightarrow> rt_done (snd (settle resolve rt)) \<or>
     (settle_key resolve (snd (settle resolve rt)), settle_key resolve rt) \<in> key_order\<^sup>*"
proof (rule settle_rule [where P = "\<lambda>s. (settle_key resolve s, settle_key resolve rt) \<in> key_order\<^sup>*"
      and Q = "\<lambda>err s. err = None \<longrightarrow> rt_done s \<or>
        (settle_key resolve s, settle_key resolve rt) \<in> key_order\<^sup>*"])
  fix s s'
  assume "(settle_key resolve s, settle_key resolve rt) \<in> key_order\<^sup>*"
    and "settle_step resolve s = Inr s'"
  then show "(settle_key resolve s', settle_key resolve rt) \<in> key_order\<^sup>*"
    by (meson converse_rtrancl_into_rtrancl settle_order_key settle_step_decreases)
next
  fix s err s'
  assume "(settle_key resolve s, settle_key resolve rt) \<in> key_order\<^sup>*"
    and "settle_step resolve s = Inl (err, s')"
  then show "err = None \<longrightarrow> rt_done s' \<or> (settle_key resolve s', settle_key resolve rt) \<in> key_order\<^sup>*"
    using settle_step_key by metis
qed simp

lemma settle_exhausted_key:
  assumes "rt_stack rt = fr # rest" "resolve (fr_workflow fr) = Some w"
    "length (wf_steps w) \<le> fr_step_index fr"
    "fst (settle resolve rt) = None" "\<not> rt_done (snd (settle resolve rt))"
  shows "(settle_key resolve (snd (settle resolve rt)), settle_key resolve rt) \<in> key_order\<^sup>+"
proof (cases "settle_step resolve rt")
  case (Inl result)
  then have "fst result = None \<longrightarrow> rt_done (snd result)"
    using assms(1-3)
    by (auto simp: settle_step_def js_at_def split: list.splits option.splits)
  then show ?thesis using Inl assms by (simp add: settle.simps)
next
  case (Inr s')
  then have eq: "settle resolve rt = settle resolve s'" by (simp add: settle.simps)
  have "(settle_key resolve s', settle_key resolve rt) \<in> key_order"
    using settle_step_decreases [OF Inr] by (simp add: settle_order_key)
  then show ?thesis
    using settle_key_le [of resolve s'] assms eq by (auto intro: rtrancl_into_trancl1)
qed

lemma advance_decreases:
  assumes act: "is_active rt" and ok: "fst (advance resolve rt) = None"
    and act': "is_active (snd (advance resolve rt))"
  shows "(settle_key resolve (snd (advance resolve rt)), settle_key resolve rt) \<in> key_order\<^sup>+"
proof -
  obtain fr rest where stack: "rt_stack rt = fr # rest" and nd: "\<not> rt_done rt"
    using act by (auto simp: is_active_def neq_Nil_conv)
  then obtain w where w: "resolve (fr_workflow fr) = Some w"
    using ok by (auto simp: advance_def workflow_of_def split: option.splits)
  let ?rt = "complete_cursor w fr rest rt"
  have adv: "advance resolve rt = settle resolve ?rt"
    using stack nd w by (simp add: advance_def workflow_of_def)
  have nd': "\<not> rt_done (snd (settle resolve ?rt))"
    using act' adv by (simp add: is_active_def)
  obtain fr' where stack': "rt_stack ?rt = fr' # rest"
    and fr': "fr_workflow fr' = fr_workflow fr" "fr_step_index fr' = Suc (fr_step_index fr)"
    using complete_cursor_stack by blast
  show ?thesis
  proof (cases "fr_step_index fr < length (wf_steps w)")
    case True
    then have "(settle_key resolve ?rt, settle_key resolve rt) \<in> key_order"
      using settle_order_bump [where resolve = resolve, OF stack stack' w True fr'] by (simp add: settle_order_key)
    then show ?thesis
      using settle_key_le [of resolve ?rt] ok nd' adv by (auto intro: rtrancl_into_trancl1)
  next
    case False
    then have "settle_key resolve ?rt = settle_key resolve rt"
      using w fr' by (intro settle_key_cong [OF stack stack']) (simp add: steps_left_def)
    then show ?thesis
      using settle_exhausted_key [OF stack', of resolve w] w fr' False ok nd' adv by simp
  qed
qed

text \<open>
  C26: a workflow cannot be advanced forever. From every runtime, restored ones included, some
  number of completed steps leaves it inactive or at an advance that throws.
\<close>

theorem workflow_ends:
  "\<exists>n. \<not> (is_active (((\<lambda>s. snd (advance resolve s)) ^^ n) rt) \<and>
          fst (advance resolve (((\<lambda>s. snd (advance resolve s)) ^^ n) rt)) = None)"
proof (rule ccontr)
  assume no: "\<not> ?thesis"
  define run where "run n = ((\<lambda>s. snd (advance resolve s)) ^^ n) rt" for n
  have "(settle_key resolve (run (Suc n)), settle_key resolve (run n)) \<in> key_order\<^sup>+" for n
  proof -
    have "run (Suc n) = snd (advance resolve (run n))" by (simp add: run_def)
    moreover have "is_active (run n)" "is_active (run (Suc n))" "fst (advance resolve (run n)) = None"
      using no unfolding run_def by blast+
    ultimately show ?thesis using advance_decreases by metis
  qed
  then have "\<exists>f. \<forall>i. (f (Suc i), f i) \<in> key_order\<^sup>+"
    by (intro exI [where x = "\<lambda>n. settle_key resolve (run n)"]) simp
  then show False
    using wf_trancl [OF wf_key_order] by (simp add: wf_iff_no_infinite_down_chain)
qed

end
