(* ===== verification/Admission.thy ===== *)
theory Admission
  imports JsPrelude "HOL-Library.Extended_Nat" "HOL-Library.Multiset"
begin

text \<open>
  The admission queue in front of worker runs (\<open>src/subagent/admission.ts\<close>). Each operation
  runs at one reading \<open>t\<close> of the clock; \<open>starts\<close> says which jobs' \<open>start\<close> callbacks return
  rather than throw, and the ids they were called with are logged in \<open>adm_started\<close>. The drain
  timer is the time it fires at and whether it keeps the process alive. The lemmas show the
  burst bound, that a paused provider is never started, that a drain starts jobs in queue
  order skipping only inadmissible ones, and that it leaves nothing admissible behind.
\<close>

section \<open>State\<close>

datatype admission_status = Running | Queued

record admission_job =
  aj_id :: string
  aj_provider :: string
  aj_bypass :: bool

text \<open>A capacity argument: an integer, positive infinity, or any other number.\<close>

datatype js_number = NumInt int | NumInfinity | NumOther

record admission_queue =
  adm_capacity :: enat
  adm_in_flight :: "string list"
  adm_queued :: "admission_job list"
  adm_paused_until :: "(string \<times> int) list"
  adm_timer :: "(int \<times> bool) option"
  adm_started :: "string list"

definition default_admission_in_flight :: enat where
  "default_admission_in_flight = 8"

fun is_valid_capacity :: "js_number \<Rightarrow> bool" where
  "is_valid_capacity NumInfinity = True"
| "is_valid_capacity (NumInt n) = (0 \<le> n)"
| "is_valid_capacity NumOther = False"

fun capacity_value :: "js_number \<Rightarrow> enat" where
  "capacity_value NumInfinity = \<infinity>"
| "capacity_value (NumInt n) = enat (nat n)"
| "capacity_value NumOther = 0"

definition create_admission_queue :: "js_number option \<Rightarrow> admission_queue" where
  "create_admission_queue opt =
     \<lparr>adm_capacity =
        (case opt of
           Some n \<Rightarrow> if is_valid_capacity n then capacity_value n else default_admission_in_flight
         | None \<Rightarrow> default_admission_in_flight),
      adm_in_flight = [], adm_queued = [], adm_paused_until = [], adm_timer = None,
      adm_started = []\<rparr>"

section \<open>Operations\<close>

text \<open>\<open>providerPaused\<close> forgets a pause that is over.\<close>

definition provider_paused :: "int \<Rightarrow> string \<Rightarrow> admission_queue \<Rightarrow> bool \<times> admission_queue" where
  "provider_paused t provider q =
     (case map_of (adm_paused_until q) provider of
        None \<Rightarrow> (False, q)
      | Some until \<Rightarrow>
          (if until \<le> t
           then (False, q\<lparr>adm_paused_until := AList.delete provider (adm_paused_until q)\<rparr>)
           else (True, q)))"

definition can_admit :: "int \<Rightarrow> admission_job \<Rightarrow> admission_queue \<Rightarrow> bool \<times> admission_queue" where
  "can_admit t job q =
     (case provider_paused t (aj_provider job) q of
        (True, q') \<Rightarrow> (False, q')
      | (False, q') \<Rightarrow>
          (if aj_bypass job then (True, q')
           else (enat (length (adm_in_flight q')) < adm_capacity q', q')))"

text \<open>\<open>occupyAndStart\<close>: true when \<open>start\<close> threw.\<close>

definition occupy_and_start ::
    "(string \<Rightarrow> bool) \<Rightarrow> admission_job \<Rightarrow> admission_queue \<Rightarrow> bool \<times> admission_queue" where
  "occupy_and_start starts job q =
     (let q1 = q\<lparr>adm_in_flight := jset_add (aj_id job) (adm_in_flight q)\<rparr>
      in if starts (aj_id job)
         then (False, q1\<lparr>adm_started := adm_started q1 @ [aj_id job]\<rparr>)
         else (True, q1\<lparr>adm_in_flight := jset_delete (aj_id job) (adm_in_flight q1)\<rparr>))"

text \<open>The earliest pause still ahead.\<close>

definition earliest_pause :: "int \<Rightarrow> (string \<times> int) list \<Rightarrow> int option" where
  "earliest_pause t paused =
     foldl (\<lambda>earliest until.
              if until \<le> t then earliest
              else (case earliest of None \<Rightarrow> Some until
                    | Some e \<Rightarrow> if until < e then Some until else Some e))
       None (map snd paused)"

definition schedule_drain :: "int \<Rightarrow> admission_queue \<Rightarrow> admission_queue" where
  "schedule_drain t q =
     (case earliest_pause t (adm_paused_until q) of
        None \<Rightarrow> q\<lparr>adm_timer := None\<rparr>
      | Some earliest \<Rightarrow>
          q\<lparr>adm_timer := Some (t + max 0 (earliest - t), adm_queued q \<noteq> [])\<rparr>)"

text \<open>\<open>queued.findIndex((job) => canAdmit(job))\<close>, whose probes may forget ended pauses.\<close>

fun find_admissible ::
    "int \<Rightarrow> admission_job list \<Rightarrow> admission_queue \<Rightarrow> nat option \<times> admission_queue" where
  "find_admissible t [] q = (None, q)"
| "find_admissible t (job # jobs) q =
     (case can_admit t job q of
        (True, q') \<Rightarrow> (Some 0, q')
      | (False, q') \<Rightarrow>
          (case find_admissible t jobs q' of (i, q'') \<Rightarrow> (map_option Suc i, q'')))"

lemma provider_paused_frame:
  "adm_queued (snd (provider_paused t p q)) = adm_queued q"
  "adm_in_flight (snd (provider_paused t p q)) = adm_in_flight q"
  "adm_capacity (snd (provider_paused t p q)) = adm_capacity q"
  "adm_started (snd (provider_paused t p q)) = adm_started q"
  "adm_timer (snd (provider_paused t p q)) = adm_timer q"
  by (simp_all add: provider_paused_def split: option.splits)

lemma can_admit_frame:
  "adm_queued (snd (can_admit t job q)) = adm_queued q"
  "adm_in_flight (snd (can_admit t job q)) = adm_in_flight q"
  "adm_capacity (snd (can_admit t job q)) = adm_capacity q"
  "adm_started (snd (can_admit t job q)) = adm_started q"
  "adm_timer (snd (can_admit t job q)) = adm_timer q"
  using provider_paused_frame [of t "aj_provider job" q]
  by (auto simp: can_admit_def split: prod.splits bool.splits)

lemma find_admissible_frame:
  "adm_queued (snd (find_admissible t jobs q)) = adm_queued q"
  "adm_in_flight (snd (find_admissible t jobs q)) = adm_in_flight q"
  "adm_capacity (snd (find_admissible t jobs q)) = adm_capacity q"
  "adm_started (snd (find_admissible t jobs q)) = adm_started q"
  "adm_timer (snd (find_admissible t jobs q)) = adm_timer q"
proof (induction t jobs q rule: find_admissible.induct)
  case (2 t job jobs q)
  note frame = can_admit_frame [of t job q]
  {
    case 1 then show ?case using frame "2.IH" by (auto split: prod.splits bool.splits)
  next
    case 2 then show ?case using frame "2.IH" by (auto split: prod.splits bool.splits)
  next
    case 3 then show ?case using frame "2.IH" by (auto split: prod.splits bool.splits)
  next
    case 4 then show ?case using frame "2.IH" by (auto split: prod.splits bool.splits)
  next
    case 5 then show ?case using frame "2.IH" by (auto split: prod.splits bool.splits)
  }
qed simp_all

lemmas admission_frame = provider_paused_frame can_admit_frame find_admissible_frame

lemma find_admissible_bound:
  "fst (find_admissible t jobs q) = Some i \<Longrightarrow> i < length jobs"
  by (induction t jobs q arbitrary: i rule: find_admissible.induct)
     (auto split: prod.splits bool.splits)

lemma occupy_and_start_frame [simp]:
  "adm_queued (snd (occupy_and_start starts job q)) = adm_queued q"
  "adm_capacity (snd (occupy_and_start starts job q)) = adm_capacity q"
  "adm_paused_until (snd (occupy_and_start starts job q)) = adm_paused_until q"
  "adm_timer (snd (occupy_and_start starts job q)) = adm_timer q"
  by (simp_all add: occupy_and_start_def Let_def)

text \<open>The drain loop; true when a \<open>start\<close> threw out of it.\<close>

function drain :: "(string \<Rightarrow> bool) \<Rightarrow> int \<Rightarrow> admission_queue \<Rightarrow> bool \<times> admission_queue" where
  "drain starts t q =
     (case find_admissible t (adm_queued q) q of
        (None, q1) \<Rightarrow> (False, schedule_drain t q1)
      | (Some i, q1) \<Rightarrow>
          (let job = adm_queued q ! i;
               q2 = q1\<lparr>adm_queued := remove_at i (adm_queued q)\<rparr>
           in (case occupy_and_start starts job q2 of
                 (True, q3) \<Rightarrow> (True, q3)
               | (False, q3) \<Rightarrow> drain starts t q3)))"
  by pat_completeness auto
termination
proof (relation "measure (\<lambda>(starts, t, q). length (adm_queued q))", goal_cases)
  case (2 starts t q ip q1 i job q2 op q3)
  then have "fst (find_admissible t (adm_queued q) q) = Some i" by (metis fst_conv)
  then have "i < length (adm_queued q)" by (rule find_admissible_bound)
  moreover have "adm_queued q3 = adm_queued q2"
    using 2 occupy_and_start_frame(1) [of starts job q2] by (metis snd_conv)
  ultimately show ?case using 2 by simp
qed simp

declare drain.simps [simp del]

definition enqueue ::
    "(string \<Rightarrow> bool) \<Rightarrow> int \<Rightarrow> admission_job \<Rightarrow> admission_queue
      \<Rightarrow> admission_status option \<times> admission_queue" where
  "enqueue starts t job q =
     (if List.member (adm_in_flight q) (aj_id job) \<or>
         list_ex (\<lambda>j. aj_id j = aj_id job) (adm_queued q)
      then (Some (if List.member (adm_in_flight q) (aj_id job) then Running else Queued), q)
      else (case can_admit t job q of
              (True, q1) \<Rightarrow>
                (case occupy_and_start starts job q1 of
                   (True, q2) \<Rightarrow> (None, q2)
                 | (False, q2) \<Rightarrow> (Some Running, q2))
            | (False, q1) \<Rightarrow>
                (Some Queued, schedule_drain t (q1\<lparr>adm_queued := adm_queued q1 @ [job]\<rparr>))))"

definition release ::
    "(string \<Rightarrow> bool) \<Rightarrow> int \<Rightarrow> string \<Rightarrow> admission_queue \<Rightarrow> bool \<times> admission_queue" where
  "release starts t job_id q =
     drain starts t (q\<lparr>adm_in_flight := jset_delete job_id (adm_in_flight q)\<rparr>)"

definition set_capacity ::
    "(string \<Rightarrow> bool) \<Rightarrow> int \<Rightarrow> js_number \<Rightarrow> admission_queue \<Rightarrow> bool \<times> admission_queue" where
  "set_capacity starts t n q =
     (if \<not> is_valid_capacity n then (False, q)
      else drain starts t (q\<lparr>adm_capacity := capacity_value n\<rparr>))"

definition note_pressure ::
    "(string \<Rightarrow> bool) \<Rightarrow> int \<Rightarrow> string \<Rightarrow> int \<Rightarrow> admission_queue \<Rightarrow> bool \<times> admission_queue" where
  "note_pressure starts t provider untilMs q =
     (if untilMs \<le> t then (False, q)
      else (let prev = (case map_of (adm_paused_until q) provider of None \<Rightarrow> 0 | Some p \<Rightarrow> p)
            in drain starts t
                 (if prev < untilMs
                  then q\<lparr>adm_paused_until := AList.update provider untilMs (adm_paused_until q)\<rparr>
                  else q)))"

definition cancel :: "string \<Rightarrow> admission_queue \<Rightarrow> admission_queue" where
  "cancel job_id q =
     (case find_index (\<lambda>j. aj_id j = job_id) (adm_queued q) of
        None \<Rightarrow> q | Some i \<Rightarrow> q\<lparr>adm_queued := remove_at i (adm_queued q)\<rparr>)"

definition occupied :: "string \<Rightarrow> admission_queue \<Rightarrow> bool" where
  "occupied job_id q = List.member (adm_in_flight q) job_id"

text \<open>The drain timer's callback.\<close>

definition timer_fires :: "(string \<Rightarrow> bool) \<Rightarrow> int \<Rightarrow> admission_queue \<Rightarrow> bool \<times> admission_queue" where
  "timer_fires starts t q = drain starts t (q\<lparr>adm_timer := None\<rparr>)"

definition unlimited_admission_queue :: admission_queue where
  "unlimited_admission_queue = create_admission_queue (Some NumInfinity)"

section \<open>Admissibility\<close>

text \<open>
  The contract of admission, free of when ended pauses are forgotten: a provider is paused
  while its recorded time is ahead, and a job may start when its provider is not and there is
  a free slot or the job bypasses the limit.
\<close>

definition paused_at :: "int \<Rightarrow> admission_queue \<Rightarrow> string \<Rightarrow> bool" where
  "paused_at t q provider \<longleftrightarrow>
     (case map_of (adm_paused_until q) provider of None \<Rightarrow> False | Some until \<Rightarrow> t < until)"

definition admissible :: "int \<Rightarrow> admission_queue \<Rightarrow> admission_job \<Rightarrow> bool" where
  "admissible t q job \<longleftrightarrow>
     \<not> paused_at t q (aj_provider job) \<and>
     (aj_bypass job \<or> enat (length (adm_in_flight q)) < adm_capacity q)"

lemma admissible_cong:
  "paused_at t q' = paused_at t q \<Longrightarrow> adm_in_flight q' = adm_in_flight q \<Longrightarrow>
     adm_capacity q' = adm_capacity q \<Longrightarrow> admissible t q' = admissible t q"
  by (simp add: admissible_def fun_eq_iff)

lemma paused_at_cong: "adm_paused_until q' = adm_paused_until q \<Longrightarrow> paused_at t q' = paused_at t q"
  by (simp add: paused_at_def fun_eq_iff)

lemma provider_paused_iff: "fst (provider_paused t p q) \<longleftrightarrow> paused_at t q p"
  by (auto simp: provider_paused_def paused_at_def split: option.splits)

lemma paused_at_provider_paused: "paused_at t (snd (provider_paused t p q)) = paused_at t q"
  by (auto simp: provider_paused_def paused_at_def delete_conv' fun_eq_iff split: option.splits)

lemma can_admit_iff: "fst (can_admit t job q) \<longleftrightarrow> admissible t q job"
  using provider_paused_iff [of t "aj_provider job" q] provider_paused_frame [of t "aj_provider job" q]
  by (auto simp: can_admit_def admissible_def split: prod.splits bool.splits)

lemma paused_at_can_admit: "paused_at t (snd (can_admit t job q)) = paused_at t q"
  using paused_at_provider_paused [of t "aj_provider job" q]
  by (auto simp: can_admit_def split: prod.splits bool.splits)

lemma admissible_can_admit: "admissible t (snd (can_admit t job q)) = admissible t q"
  by (simp add: admissible_def fun_eq_iff can_admit_frame paused_at_can_admit)

lemma paused_at_find_admissible:
  "paused_at t (snd (find_admissible t jobs q)) = paused_at t q"
proof (induction t jobs q rule: find_admissible.induct)
  case (2 t job jobs q)
  then show ?case
    using paused_at_can_admit [of t job q] by (auto split: prod.splits bool.splits)
qed simp

lemma find_admissible_index: "fst (find_admissible t jobs q) = find_index (admissible t q) jobs"
proof (induction t jobs q rule: find_admissible.induct)
  case (2 t job jobs q)
  obtain ok q' where step: "can_admit t job q = (ok, q')" by fastforce
  then have ok: "ok = admissible t q job" and same: "admissible t q' = admissible t q"
    using can_admit_iff [of t job q] admissible_can_admit [of t job q] by simp_all
  show ?case
  proof (cases ok)
    case True
    then show ?thesis using step ok by simp
  next
    case False
    then have "fst (find_admissible t jobs q') = find_index (admissible t q) jobs"
      using "2.IH" step same by metis
    then show ?thesis using False step ok by (auto split: prod.splits)
  qed
qed simp

section \<open>What a drain does\<close>

text \<open>One round of the loop that starts a job, and the state it goes on from.\<close>

definition serve :: "(string \<Rightarrow> bool) \<Rightarrow> int \<Rightarrow> nat \<Rightarrow> admission_queue \<Rightarrow> bool \<times> admission_queue" where
  "serve starts t i q =
     occupy_and_start starts (adm_queued q ! i)
       ((snd (find_admissible t (adm_queued q) q))\<lparr>adm_queued := remove_at i (adm_queued q)\<rparr>)"

inductive drain_run ::
    "(string \<Rightarrow> bool) \<Rightarrow> int \<Rightarrow> admission_queue \<Rightarrow> admission_job list \<Rightarrow> admission_queue \<Rightarrow> bool"
  for starts t where
  stop: "drain_run starts t q [] q"
| round: "find_index (admissible t q) (adm_queued q) = Some i \<Longrightarrow> serve starts t i q = (False, q1) \<Longrightarrow>
     drain_run starts t q1 js q2 \<Longrightarrow> drain_run starts t q (adm_queued q ! i # js) q2"

lemma drain_runs:
  assumes "drain starts t q = (threw, q')"
  shows "\<exists>js q1. drain_run starts t q js q1 \<and>
     (\<not> threw \<and> (\<forall>job \<in> set (adm_queued q1). \<not> admissible t q1 job) \<and>
        q' = schedule_drain t (snd (find_admissible t (adm_queued q1) q1)) \<or>
      threw \<and> (\<exists>i. find_index (admissible t q1) (adm_queued q1) = Some i \<and>
        serve starts t i q1 = (True, q')))"
  using assms
proof (induction starts t q arbitrary: threw q' rule: drain.induct)
  case (1 starts t q)
  obtain ix qx where find: "find_admissible t (adm_queued q) q = (ix, qx)" by fastforce
  then have ix: "find_index (admissible t q) (adm_queued q) = ix" and qx: "qx = snd (find_admissible t (adm_queued q) q)"
    using find_admissible_index [of t "adm_queued q" q] by simp_all
  show ?case
  proof (cases ix)
    case None
    then have "drain starts t q = (False, schedule_drain t qx)"
      using find by (simp add: drain.simps [of starts t q])
    then have "\<not> threw \<and> q' = schedule_drain t (snd (find_admissible t (adm_queued q) q))"
      using "1.prems" qx by simp
    moreover have "\<forall>job \<in> set (adm_queued q). \<not> admissible t q job"
      using None ix by (simp add: find_index_None)
    ultimately show ?thesis using drain_run.stop by blast
  next
    case (Some i)
    obtain err q1 where srv: "serve starts t i q = (err, q1)" by fastforce
    have occ: "occupy_and_start starts (adm_queued q ! i)
        (qx\<lparr>adm_queued := remove_at i (adm_queued q)\<rparr>) = (err, q1)"
      using srv qx by (simp add: serve_def)
    then have unf: "drain starts t q = (if err then (True, q1) else drain starts t q1)"
      using find Some by (subst drain.simps) (simp add: Let_def split: bool.splits)
    show ?thesis
    proof (cases err)
      case True
      then show ?thesis
        using unf "1.prems" srv Some ix drain_run.stop [of starts t q] by auto
    next
      case False
      then have rest: "drain starts t q1 = (threw, q')" using unf "1.prems" by simp
      obtain js q2 where run: "drain_run starts t q1 js q2" and
         res: "(\<not> threw \<and> (\<forall>job \<in> set (adm_queued q2). \<not> admissible t q2 job) \<and>
            q' = schedule_drain t (snd (find_admissible t (adm_queued q2) q2)) \<or>
          threw \<and> (\<exists>i. find_index (admissible t q2) (adm_queued q2) = Some i \<and>
            serve starts t i q2 = (True, q')))"
        using "1.IH" [OF find [symmetric] Some refl refl occ [symmetric] _ rest] False by blast
      have "drain_run starts t q (adm_queued q ! i # js) q2"
        using drain_run.round [of t q i starts q1 js q2] srv Some ix False run by simp
      then show ?thesis using res by blast
    qed
  qed
qed

lemma serve_frame:
  assumes "serve starts t i q = (err, q1)"
  shows "adm_queued q1 = remove_at i (adm_queued q)" "adm_capacity q1 = adm_capacity q"
    "paused_at t q1 = paused_at t q"
    "\<not> err \<Longrightarrow> adm_started q1 = adm_started q @ [aj_id (adm_queued q ! i)]"
    "\<not> err \<Longrightarrow> adm_in_flight q1 = jset_add (aj_id (adm_queued q ! i)) (adm_in_flight q)"
proof -
  let ?q = "(snd (find_admissible t (adm_queued q) q))\<lparr>adm_queued := remove_at i (adm_queued q)\<rparr>"
  have q1: "q1 = snd (occupy_and_start starts (adm_queued q ! i) ?q)"
    and err: "err = fst (occupy_and_start starts (adm_queued q ! i) ?q)"
    using assms by (simp_all add: serve_def)
  have "paused_at t ?q = paused_at t (snd (find_admissible t (adm_queued q) q))"
    by (rule paused_at_cong) simp
  moreover have "paused_at t q1 = paused_at t ?q"
    by (rule paused_at_cong) (simp add: q1)
  ultimately show "paused_at t q1 = paused_at t q"
    by (simp add: paused_at_find_admissible)
  show "adm_queued q1 = remove_at i (adm_queued q)" "adm_capacity q1 = adm_capacity q"
    by (simp_all add: q1 find_admissible_frame)
  show "\<not> err \<Longrightarrow> adm_started q1 = adm_started q @ [aj_id (adm_queued q ! i)]"
    "\<not> err \<Longrightarrow> adm_in_flight q1 = jset_add (aj_id (adm_queued q ! i)) (adm_in_flight q)"
    using err by (auto simp: q1 occupy_and_start_def Let_def find_admissible_frame split: if_splits)
qed

lemma drain_run_frame:
  assumes "drain_run starts t q js q'"
  shows "paused_at t q' = paused_at t q \<and> adm_capacity q' = adm_capacity q \<and>
         adm_started q' = adm_started q @ map aj_id js \<and>
         (\<forall>job \<in> set js. \<not> paused_at t q (aj_provider job))"
  using assms
proof induction
  case (round q i q1 js q2)
  have "admissible t q (adm_queued q ! i)"
    using round.hyps(1) by (simp add: find_index_Some)
  then show ?case
    using serve_frame [OF round.hyps(2)] round.IH by (auto simp: admissible_def)
qed simp

subsection \<open>Queue order\<close>

definition same_class :: "string \<Rightarrow> bool \<Rightarrow> admission_job \<Rightarrow> bool" where
  "same_class provider bypass job \<longleftrightarrow> aj_provider job = provider \<and> aj_bypass job = bypass"

lemma filter_remove_at:
  assumes "i < length xs" and "P (xs ! i) \<Longrightarrow> \<forall>j < i. \<not> P (xs ! j)"
  shows "filter P xs = (if P (xs ! i) then [xs ! i] else []) @ filter P (remove_at i xs)"
proof -
  have split: "filter P xs = filter P (take i xs @ xs ! i # drop (Suc i) xs)"
    using split_at_index [OF assms(1)] by simp
  show ?thesis
  proof (cases "P (xs ! i)")
    case True
    then have "filter P (take i xs) = []"
      using assms by (auto simp: filter_empty_conv in_set_conv_nth)
    then show ?thesis using split True by (simp add: remove_at_def)
  next
    case False
    then show ?thesis using split by (simp add: remove_at_def)
  qed
qed

lemma admissible_same_class:
  "same_class p b job \<Longrightarrow> same_class p b job' \<Longrightarrow> admissible t q job = admissible t q job'"
  by (simp add: same_class_def admissible_def)

lemma drain_run_order:
  assumes "drain_run starts t q js q'"
  shows "mset (adm_queued q) = mset js + mset (adm_queued q') \<and>
         filter (same_class p b) (adm_queued q) =
           filter (same_class p b) js @ filter (same_class p b) (adm_queued q')"
  using assms
proof induction
  case (round q i q1 js q2)
  have i: "i < length (adm_queued q)" "admissible t q (adm_queued q ! i)"
    "\<forall>j < i. \<not> admissible t q (adm_queued q ! j)"
    using round.hyps(1) by (auto simp: find_index_Some)
  have "filter (same_class p b) (adm_queued q) =
      (if same_class p b (adm_queued q ! i) then [adm_queued q ! i] else []) @
      filter (same_class p b) (remove_at i (adm_queued q))"
    by (rule filter_remove_at) (use i admissible_same_class in blast)+
  then show ?case
    using round.IH serve_frame(1) [OF round.hyps(2)] mset_remove_at [OF i(1)] by simp
qed simp

lemma drain_run_burst:
  assumes "drain_run starts t q js q'" and "\<forall>job \<in> set js. \<not> aj_bypass job"
  shows "enat (length (adm_in_flight q')) \<le> max (enat (length (adm_in_flight q))) (adm_capacity q)"
  using assms
proof induction
  case (round q i q1 js q2)
  let ?job = "adm_queued q ! i"
  have "admissible t q ?job" using round.hyps(1) by (simp add: find_index_Some)
  then have room: "enat (length (adm_in_flight q)) < adm_capacity q"
    using round.prems by (simp add: admissible_def)
  have "length (adm_in_flight q1) \<le> Suc (length (adm_in_flight q))"
    using serve_frame(5) [OF round.hyps(2)] by (simp add: jset_add_def)
  then have "enat (length (adm_in_flight q1)) \<le> eSuc (enat (length (adm_in_flight q)))"
    by (simp add: eSuc_enat)
  also have "\<dots> \<le> adm_capacity q" using room by (rule ileI1)
  finally show ?case
    using round.IH round.prems serve_frame(2) [OF round.hyps(2)] order_less_imp_le [OF room]
    by (auto simp: max_def)
qed simp

lemma schedule_drain_frame [simp]:
  "adm_queued (schedule_drain t q) = adm_queued q"
  "adm_in_flight (schedule_drain t q) = adm_in_flight q"
  "adm_capacity (schedule_drain t q) = adm_capacity q"
  "adm_started (schedule_drain t q) = adm_started q"
  "adm_paused_until (schedule_drain t q) = adm_paused_until q"
  by (simp_all add: schedule_drain_def split: option.splits)

text \<open>A drain that does not throw, in terms of the jobs it started.\<close>

lemma drain_completes:
  assumes "drain starts t q = (False, q')"
  obtains js where "adm_started q' = adm_started q @ map aj_id js"
    "\<forall>job \<in> set js. \<not> paused_at t q (aj_provider job)"
    "\<forall>job \<in> set (adm_queued q'). \<not> admissible t q' job"
    "mset (adm_queued q) = mset js + mset (adm_queued q')"
    "\<And>p b. filter (same_class p b) (adm_queued q) =
       filter (same_class p b) js @ filter (same_class p b) (adm_queued q')"
    "\<exists>q1. q' = schedule_drain t q1"
proof -
  from drain_runs [OF assms] obtain js q1 where run: "drain_run starts t q js q1"
    and rest: "\<forall>job \<in> set (adm_queued q1). \<not> admissible t q1 job"
    and q': "q' = schedule_drain t (snd (find_admissible t (adm_queued q1) q1))"
    by auto
  have "paused_at t q' = paused_at t q1"
    using q' paused_at_find_admissible [of t "adm_queued q1" q1]
    by (metis paused_at_cong schedule_drain_frame(5))
  then have "admissible t q' = admissible t q1"
    by (rule admissible_cong) (simp_all add: q' find_admissible_frame)
  then show ?thesis
    using that [of js] drain_run_frame [OF run] drain_run_order [OF run] rest q'
    by (auto simp: find_admissible_frame)
qed

subsection \<open>The drain timer\<close>

lemma earliest_pause_fold:
  fixes t :: int
  shows "foldl (\<lambda>earliest until. if until \<le> t then earliest
            else (case earliest of None \<Rightarrow> Some until
                  | Some e \<Rightarrow> if until < e then Some until else Some e)) a us = r \<Longrightarrow>
   (\<forall>e. a = Some e \<longrightarrow> t < e) \<Longrightarrow>
   (case r of None \<Rightarrow> a = None \<and> (\<forall>u \<in> set us. u \<le> t)
    | Some e \<Rightarrow> t < e \<and> (\<forall>e'. a = Some e' \<longrightarrow> e \<le> e') \<and> (\<forall>u \<in> set us. t < u \<longrightarrow> e \<le> u))"
proof (induction us arbitrary: a)
  case Nil
  then show ?case by (auto split: option.splits)
next
  case (Cons u us)
  show ?case
    using Cons.IH [OF Cons.prems(1) [unfolded foldl_Cons]] Cons.prems(2)
    by (fastforce split: option.splits if_splits)
qed

lemma earliest_pause_Some:
  assumes "u \<in> set (map snd paused)" and "t < u"
  shows "\<exists>e. earliest_pause t paused = Some e \<and> t < e \<and> e \<le> u"
  using earliest_pause_fold [OF refl, of None t "map snd paused"] assms
  by (fastforce simp: earliest_pause_def split: option.splits)



text \<open>
  A queue of one slot with one worker running, one provider paused until 100, and three jobs:
  one behind the pause, two behind the slot. Releasing the worker starts the second job only.
\<close>

definition sample_queue :: admission_queue where
  "sample_queue =
     \<lparr>adm_capacity = 1, adm_in_flight = [],
      adm_queued = [\<lparr>aj_id = ''a'', aj_provider = ''p'', aj_bypass = False\<rparr>,
                    \<lparr>aj_id = ''b'', aj_provider = ''q'', aj_bypass = False\<rparr>,
                    \<lparr>aj_id = ''c'', aj_provider = ''q'', aj_bypass = False\<rparr>],
      adm_paused_until = [(''p'', 100)], adm_timer = None, adm_started = []\<rparr>"

definition sample_drained :: admission_queue where
  "sample_drained =
     \<lparr>adm_capacity = 1, adm_in_flight = [''b''],
      adm_queued = [\<lparr>aj_id = ''a'', aj_provider = ''p'', aj_bypass = False\<rparr>,
                    \<lparr>aj_id = ''c'', aj_provider = ''q'', aj_bypass = False\<rparr>],
      adm_paused_until = [(''p'', 100)], adm_timer = Some (100, True), adm_started = [''b'']\<rparr>"

lemma sample_drain: "drain (\<lambda>_. True) 5 sample_queue = (False, sample_drained)"
  by code_simp



section \<open>Runs of the queue\<close>

datatype admission_op =
    OpEnqueue admission_job
  | OpRelease string
  | OpSetCapacity js_number
  | OpNotePressure string int
  | OpCancel string
  | OpTimer

fun admission_step ::
    "(string \<Rightarrow> bool) \<Rightarrow> admission_queue \<Rightarrow> int \<times> admission_op \<Rightarrow> admission_queue" where
  "admission_step starts q (t, OpEnqueue job) = snd (enqueue starts t job q)"
| "admission_step starts q (t, OpRelease job_id) = snd (release starts t job_id q)"
| "admission_step starts q (t, OpSetCapacity n) = snd (set_capacity starts t n q)"
| "admission_step starts q (t, OpNotePressure p u) = snd (note_pressure starts t p u q)"
| "admission_step starts q (t, OpCancel job_id) = cancel job_id q"
| "admission_step starts q (t, OpTimer) = snd (timer_fires starts t q)"

definition ids_ok :: "admission_queue \<Rightarrow> bool" where
  "ids_ok q \<longleftrightarrow>
     distinct (adm_in_flight q) \<and> distinct (map aj_id (adm_queued q)) \<and>
     set (adm_in_flight q) \<inter> set (map aj_id (adm_queued q)) = {}"

lemma remove_at_map: "map f (remove_at i xs) = remove_at i (map f xs)"
  by (simp add: remove_at_def take_map drop_map)

lemma distinct_remove_at:
  assumes "distinct xs" "i < length xs"
  shows "distinct (remove_at i xs) \<and> set (remove_at i xs) = set xs - {xs ! i}"
proof -
  have "distinct (take i xs @ xs ! i # drop (Suc i) xs)" "set xs = set (take i xs @ xs ! i # drop (Suc i) xs)"
    using assms split_at_index [of i xs] by simp_all
  then show ?thesis by (auto simp: remove_at_def)
qed

lemma ids_ok_remove:
  assumes "ids_ok q" "i < length (adm_queued q)"
    "adm_queued q' = remove_at i (adm_queued q)" "distinct (adm_in_flight q')"
    "set (adm_in_flight q') \<subseteq> insert (aj_id (adm_queued q ! i)) (set (adm_in_flight q))"
  shows "ids_ok q'"
  using assms distinct_remove_at [of "map aj_id (adm_queued q)" i]
  by (auto simp: ids_ok_def remove_at_map simp del: set_map) 

lemma serve_in_flight:
  assumes "serve starts t i q = (err, q1)" "distinct (adm_in_flight q)"
  shows "distinct (adm_in_flight q1)"
    "set (adm_in_flight q1) \<subseteq> insert (aj_id (adm_queued q ! i)) (set (adm_in_flight q))"
  using assms by (auto simp: serve_def occupy_and_start_def Let_def find_admissible_frame split: if_splits)

lemma serve_ids_ok:
  assumes "ids_ok q" "find_index (admissible t q) (adm_queued q) = Some i" "serve starts t i q = (err, q1)"
  shows "ids_ok q1"
proof (rule ids_ok_remove [OF assms(1)])
  show "i < length (adm_queued q)" using assms(2) by (simp add: find_index_Some)
  show "adm_queued q1 = remove_at i (adm_queued q)" using serve_frame(1) [OF assms(3)] .
  show "distinct (adm_in_flight q1)"
    "set (adm_in_flight q1) \<subseteq> insert (aj_id (adm_queued q ! i)) (set (adm_in_flight q))"
    using serve_in_flight [OF assms(3)] assms(1) by (simp_all add: ids_ok_def)
qed

lemma drain_run_ids_ok: "drain_run starts t q js q' \<Longrightarrow> ids_ok q \<Longrightarrow> ids_ok q'"
  by (induction rule: drain_run.induct) (auto dest: serve_ids_ok)

lemma ids_ok_cong:
  "adm_queued q' = adm_queued q \<Longrightarrow> adm_in_flight q' = adm_in_flight q \<Longrightarrow> ids_ok q' = ids_ok q"
  by (simp add: ids_ok_def)

lemma drain_ids_ok: "ids_ok q \<Longrightarrow> ids_ok (snd (drain starts t q))"
proof -
  assume ok: "ids_ok q"
  obtain threw q' where d: "drain starts t q = (threw, q')" by fastforce
  obtain js q1 where run: "drain_run starts t q js q1" and
    res: "q' = schedule_drain t (snd (find_admissible t (adm_queued q1) q1)) \<or>
      (\<exists>i. find_index (admissible t q1) (adm_queued q1) = Some i \<and> serve starts t i q1 = (True, q'))"
    using drain_runs [OF d] by blast
  have "ids_ok q1" using drain_run_ids_ok [OF run ok] .
  from res have "ids_ok q'"
  proof
    assume q': "q' = schedule_drain t (snd (find_admissible t (adm_queued q1) q1))"
    show ?thesis
      using \<open>ids_ok q1\<close> unfolding q' by (subst ids_ok_cong) (simp_all add: find_admissible_frame)
  next
    assume "\<exists>i. find_index (admissible t q1) (adm_queued q1) = Some i \<and> serve starts t i q1 = (True, q')"
    then show ?thesis using serve_ids_ok [OF \<open>ids_ok q1\<close>] by blast
  qed
  then show ?thesis using d by simp
qed

lemma can_admit_ids_ok: "ids_ok (snd (can_admit t job q)) = ids_ok q"
  by (rule ids_ok_cong) (simp_all add: can_admit_frame)

lemma enqueue_ids_ok:
  assumes "ids_ok q"
  shows "ids_ok (snd (enqueue starts t job q))"
proof -
  obtain ok q1 where c: "can_admit t job q = (ok, q1)" by fastforce
  then have "adm_queued q1 = adm_queued q" "adm_in_flight q1 = adm_in_flight q"
    using can_admit_frame [of t job q] by simp_all
  then show ?thesis
    using assms c
    by (auto simp: enqueue_def ids_ok_def occupy_and_start_def Let_def list_ex_iff
        split: bool.splits if_splits)
qed

lemma cancel_ids_ok:
  assumes "ids_ok q"
  shows "ids_ok (cancel job_id q)"
proof (cases "find_index (\<lambda>j. aj_id j = job_id) (adm_queued q)")
  case (Some i)
  then have eq: "cancel job_id q = q\<lparr>adm_queued := remove_at i (adm_queued q)\<rparr>"
    by (simp add: cancel_def)
  from Some have i: "i < length (adm_queued q)" by (simp add: find_index_Some)
  show ?thesis
    using assms by (intro ids_ok_remove [OF assms i]) (auto simp: eq ids_ok_def)
qed (use assms in \<open>simp add: cancel_def\<close>)

lemma ids_ok_delete: "ids_ok q \<Longrightarrow> ids_ok (q\<lparr>adm_in_flight := jset_delete x (adm_in_flight q)\<rparr>)"
  by (auto simp: ids_ok_def)

lemma ids_ok_fields [simp]:
  "ids_ok (q\<lparr>adm_capacity := c\<rparr>) = ids_ok q"
  "ids_ok (q\<lparr>adm_paused_until := u\<rparr>) = ids_ok q"
  "ids_ok (q\<lparr>adm_timer := w\<rparr>) = ids_ok q"
  by (simp_all add: ids_ok_def)

interpretation admission_machine: invariant_machine "admission_step starts" ids_ok for starts
proof
  fix q and e :: "int \<times> admission_op"
  assume ok: "ids_ok q"
  obtain t op where e: "e = (t, op)" by fastforce
  show "ids_ok (admission_step starts q e)"
    by (cases op) (use ok e in \<open>auto simp: release_def set_capacity_def note_pressure_def
      timer_fires_def Let_def enqueue_ids_ok cancel_ids_ok ids_ok_delete
      intro!: drain_ids_ok\<close>)
qed

text \<open>
  Along every run of the queue, throwing callbacks included, no id runs twice, waits twice,
  or waits while it runs.
\<close>

theorem admission_ids_unique:
  "ids_ok (foldl (admission_step starts) (create_admission_queue capacity) ops)"
  by (rule admission_machine.run_inv) (simp add: ids_ok_def create_admission_queue_def)

subsection \<open>The burst bound\<close>

lemma drain_burst:
  assumes "\<forall>job \<in> set (adm_queued q). \<not> aj_bypass job" "distinct (adm_in_flight q)"
  shows "enat (length (adm_in_flight (snd (drain starts t q)))) \<le>
           max (enat (length (adm_in_flight q))) (adm_capacity q)"
proof -
  obtain threw q' where d: "drain starts t q = (threw, q')" by fastforce
  obtain js q1 where run: "drain_run starts t q js q1" and
    res: "q' = schedule_drain t (snd (find_admissible t (adm_queued q1) q1)) \<or>
      (\<exists>i. find_index (admissible t q1) (adm_queued q1) = Some i \<and> serve starts t i q1 = (True, q'))"
    using drain_runs [OF d] by blast
  have "set js \<subseteq> set (adm_queued q)"
    using drain_run_order [OF run] by (metis mset_subset_eq_add_left set_mset_mono set_mset_mset)
  then have "enat (length (adm_in_flight q1)) \<le> max (enat (length (adm_in_flight q))) (adm_capacity q)"
    using drain_run_burst [OF run] assms(1) by blast
  moreover have "length (adm_in_flight q') \<le> length (adm_in_flight q1)"
    using res by (auto simp: find_admissible_frame serve_def occupy_and_start_def Let_def
        jset_add_def jset_delete_def split: if_splits)
  ultimately show ?thesis using d by (metis enat_ord_simps(1) order.trans snd_conv)
qed

lemma enqueue_burst:
  assumes "\<not> aj_bypass job"
  shows "enat (length (adm_in_flight (snd (enqueue starts t job q)))) \<le>
           max (enat (length (adm_in_flight q))) (adm_capacity q)"
proof -
  obtain ok q1 where c: "can_admit t job q = (ok, q1)" by fastforce
  then have q1: "adm_in_flight q1 = adm_in_flight q"
    using can_admit_frame [of t job q] by simp
  have grows: "length (jset_add x (adm_in_flight q)) \<le> Suc (length (adm_in_flight q))" for x
    by (simp add: jset_add_def)
  show ?thesis
  proof (cases ok)
    case True
    then have room: "enat (length (adm_in_flight q)) < adm_capacity q"
      using can_admit_iff [of t job q] c assms by (simp add: admissible_def)
    have "length (jset_delete (aj_id job) (jset_add (aj_id job) (adm_in_flight q))) \<le>
        Suc (length (adm_in_flight q))"
      by (auto simp: jset_add_def jset_delete_def intro: order.trans [OF length_removeAll_less_eq])
    then have "length (adm_in_flight (snd (enqueue starts t job q))) \<le> Suc (length (adm_in_flight q))"
      using True c q1 grows by (simp add: enqueue_def occupy_and_start_def Let_def)
    moreover have "enat (Suc (length (adm_in_flight q))) \<le> adm_capacity q"
      using ileI1 [OF room] by (simp add: eSuc_enat)
    ultimately show ?thesis
      by (metis enat_ord_simps(1) max.coboundedI2 order.trans)
  next
    case False
    then show ?thesis using c q1 by (simp add: enqueue_def max_def)
  qed
qed

text \<open>
  The burst bound. A drain of jobs without the bypass flag never pushes the number in
  flight past the larger of what it was and the capacity, and neither does enqueuing such a
  job, whether or not a callback throws.
\<close>

theorem admission_burst_bound:
  assumes "\<forall>job \<in> set (adm_queued q). \<not> aj_bypass job" "\<not> aj_bypass job"
    "distinct (adm_in_flight q)"
  shows "enat (length (adm_in_flight (snd (drain starts t q)))) \<le>
           max (enat (length (adm_in_flight q))) (adm_capacity q) \<and>
         enat (length (adm_in_flight (snd (enqueue starts t job q)))) \<le>
           max (enat (length (adm_in_flight q))) (adm_capacity q)"
  using drain_burst [OF assms(1,3)] enqueue_burst [OF assms(2)] by blast

theorem admission_burst_bound_witness:
  "enat (length (adm_in_flight (snd (drain (\<lambda>_. True) 5 sample_queue)))) \<le> 1 \<and>
   enat (length (adm_in_flight
     (snd (enqueue (\<lambda>_. True) 5 \<lparr>aj_id = ''d'', aj_provider = ''q'', aj_bypass = False\<rparr> sample_queue)))) \<le> 1"
  using admission_burst_bound
    [of sample_queue "\<lparr>aj_id = ''d'', aj_provider = ''q'', aj_bypass = False\<rparr>" "\<lambda>_. True" 5]
  by (simp add: sample_queue_def max_def zero_enat_def one_enat_def)

section \<open>A wake-up that is lost\<close>

text \<open>
  Arming the timer only for pauses still ahead can lose a wake-up that is due. A provider
  is paused until 10 with a job waiting and the timer set for 10; at time 10, before the timer's
  callback has run, a job of a provider paused until 100 is enqueued. That enqueue replaces the
  due timer by one at 100: the first job may start but stays queued, nothing running, until
  another operation drains the queue or the later pause ends.
\<close>

definition lost_wake_up :: admission_queue where
  "lost_wake_up = foldl (admission_step (\<lambda>_. True)) (create_admission_queue None)
     [(0, OpNotePressure ''p'' 10),
      (0, OpEnqueue \<lparr>aj_id = ''a'', aj_provider = ''p'', aj_bypass = False\<rparr>),
      (0, OpNotePressure ''q'' 100),
      (10, OpEnqueue \<lparr>aj_id = ''b'', aj_provider = ''q'', aj_bypass = False\<rparr>)]"

theorem enqueue_replaces_due_timer:
  "admissible 10 lost_wake_up (hd (adm_queued lost_wake_up)) \<and>
   aj_id (hd (adm_queued lost_wake_up)) = ''a'' \<and>
   adm_in_flight lost_wake_up = [] \<and> adm_timer lost_wake_up = Some (100, True)"
  by code_simp

end
