(* ===== verification/Fleet.thy ===== *)
theory Fleet
  imports JsPrelude
begin

text \<open>
  The worker lifecycle and its projections (\<open>src/subagent/lifecycle.ts\<close>) and the authority a
  director's tier has over the fleet (\<open>src/subagent/authority.ts\<close>). The lemmas relate the
  projections to each other and show that the ancestor walk decides the ancestor relation of
  the fleet, cyclic or dangling parent links included.
\<close>

section \<open>Lifecycle\<close>

datatype worker_lifecycle =
    PendingInit
  | LcRunning
  | Completed string
  | Failed string
  | Interrupted "string option"
  | Cancelled "string option" "string option"
  | Shutdown (shutdown_report: "string option") (shutdown_error: "string option")

datatype strip_status = StripRunning | StripDone | StripFailed | StripCancelled

datatype verb_status = VerbPendingInit | VerbRunning | VerbInterrupted | VerbCompleted | VerbShutdown

datatype wait_status =
  WaitRunning | WaitQueued | WaitDone | WaitFailed | WaitInterrupted | WaitAwaitingDirector

fun project_strip_status :: "worker_lifecycle \<Rightarrow> strip_status" where
  "project_strip_status PendingInit = StripRunning"
| "project_strip_status LcRunning = StripRunning"
| "project_strip_status (Interrupted _) = StripRunning"
| "project_strip_status (Completed _) = StripDone"
| "project_strip_status (Failed _) = StripFailed"
| "project_strip_status (Cancelled _ _) = StripCancelled"
| "project_strip_status (Shutdown report err) =
     (if report \<noteq> None \<and> err = None then StripDone else StripCancelled)"

fun project_lifecycle_status :: "worker_lifecycle \<Rightarrow> verb_status" where
  "project_lifecycle_status PendingInit = VerbPendingInit"
| "project_lifecycle_status LcRunning = VerbRunning"
| "project_lifecycle_status (Completed _) = VerbCompleted"
| "project_lifecycle_status (Interrupted _) = VerbInterrupted"
| "project_lifecycle_status (Cancelled _ _) = VerbInterrupted"
| "project_lifecycle_status (Failed _) = VerbShutdown"
| "project_lifecycle_status (Shutdown _ _) = VerbShutdown"

definition is_live_strip :: "worker_lifecycle \<Rightarrow> bool" where
  "is_live_strip lc \<longleftrightarrow> project_strip_status lc = StripRunning"

fun is_already_closed :: "worker_lifecycle \<Rightarrow> bool" where
  "is_already_closed (Failed _) = True"
| "is_already_closed (Shutdown _ _) = True"
| "is_already_closed _ = False"

fun is_run_eligible :: "worker_lifecycle \<Rightarrow> bool" where
  "is_run_eligible PendingInit = True"
| "is_run_eligible LcRunning = True"
| "is_run_eligible _ = False"

fun resumable_state :: "worker_lifecycle \<Rightarrow> bool" where
  "resumable_state (Completed _) = True"
| "resumable_state (Interrupted _) = True"
| "resumable_state _ = False"

definition is_resumable_lifecycle :: "bool option \<Rightarrow> worker_lifecycle \<Rightarrow> bool" where
  "is_resumable_lifecycle retained lc \<longleftrightarrow> retained = Some True \<and> resumable_state lc"

definition is_live_wait_status :: "wait_status \<Rightarrow> bool" where
  "is_live_wait_status s \<longleftrightarrow> s = WaitRunning \<or> s = WaitQueued \<or> s = WaitAwaitingDirector"

text \<open>The states a run in flight keeps from collecting.\<close>

fun held_in_flight :: "worker_lifecycle \<Rightarrow> bool" where
  "held_in_flight (Cancelled _ _) = True"
| "held_in_flight (Completed _) = True"
| "held_in_flight (Interrupted _) = True"
| "held_in_flight _ = False"

fun settled_wait_status :: "worker_lifecycle \<Rightarrow> wait_status" where
  "settled_wait_status (Completed _) = WaitDone"
| "settled_wait_status (Failed _) = WaitFailed"
| "settled_wait_status (Interrupted _) = WaitInterrupted"
| "settled_wait_status (Cancelled _ _) = WaitInterrupted"
| "settled_wait_status (Shutdown _ _) = WaitInterrupted"
| "settled_wait_status PendingInit = WaitRunning"
| "settled_wait_status LcRunning = WaitRunning"

definition project_wait_status :: "worker_lifecycle \<Rightarrow> bool \<Rightarrow> wait_status" where
  "project_wait_status lc inFlight =
     (if inFlight \<and> held_in_flight lc then WaitRunning else settled_wait_status lc)"


section \<open>Tiers and fleet verbs\<close>

datatype subagent_tier = Orchestrator | NestedOrchestrator | Leaf

definition fleet_verbs :: "string list" where
  "fleet_verbs =
     [''search_agents'', ''spawn_agent'', ''wait_agents'', ''list_agents'', ''send_input'',
      ''interrupt_agent'', ''close_agent'', ''resume_agent'', ''read_agent_trace'',
      ''approve_worker_call'']"

definition orchestrator_only_fleet_verbs :: "string list" where
  "orchestrator_only_fleet_verbs = [''search_agents'']"

definition is_fleet_verb :: "string \<Rightarrow> bool" where
  "is_fleet_verb toolName \<longleftrightarrow> List.member fleet_verbs toolName"

definition is_orchestrator_only_fleet_verb :: "string \<Rightarrow> bool" where
  "is_orchestrator_only_fleet_verb toolName \<longleftrightarrow> List.member orchestrator_only_fleet_verbs toolName"

datatype fleet_authority_error = FleetAuthorityError string

definition assert_tier_may_mount_fleet_verb ::
    "subagent_tier \<Rightarrow> string \<Rightarrow> fleet_authority_error + unit" where
  "assert_tier_may_mount_fleet_verb tier toolName =
     (if \<not> is_fleet_verb toolName then Inr ()
      else if tier = Leaf then
        Inl (FleetAuthorityError
          (''Tier 3 leaf directors cannot mount fleet verb \"'' @ toolName @ ''\". '' @
           ''Leaves get ask_director / submit_result / progress_note only.''))
      else if tier = NestedOrchestrator \<and> is_orchestrator_only_fleet_verb toolName then
        Inl (FleetAuthorityError
          (''Tier 2 nested orchestrators cannot mount fleet discovery verb \"'' @ toolName @ ''\". '' @
           ''Only Tier 1 (dispatch) may discover the fleet; nested directors spawn from their allowlist.''))
      else Inr ())"

section \<open>Descendants\<close>

record fleet_node =
  fn_id :: string
  fn_parent :: "string option"

text \<open>\<open>new Map(nodes.map((n) => [n.id, n]))\<close>: a later node replaces an earlier one.\<close>

definition by_id :: "fleet_node list \<Rightarrow> string \<Rightarrow> fleet_node option" where
  "by_id nodes = map_of (rev (map (\<lambda>n. (fn_id n, n)) nodes))"

lemma by_id_Some: "by_id nodes i = Some n \<Longrightarrow> n \<in> set nodes \<and> fn_id n = i"
  by (auto simp: by_id_def dest!: map_of_SomeD)

text \<open>
  The loop of \<open>isDescendant\<close>, with the id its cursor is looked up by: it stops at an unknown
  id, at a node without a parent, and at a node it has seen.
\<close>

function ancestor_walk :: "fleet_node list \<Rightarrow> string \<Rightarrow> string list \<Rightarrow> string \<Rightarrow> bool" where
  "ancestor_walk nodes ancestorId seen i =
     (case by_id nodes i of
        None \<Rightarrow> False
      | Some cursor \<Rightarrow>
          (case fn_parent cursor of
             None \<Rightarrow> False
           | Some parent \<Rightarrow>
               (if List.member seen (fn_id cursor) then False
                else if parent = ancestorId then True
                else ancestor_walk nodes ancestorId (fn_id cursor # seen) parent)))"
  by pat_completeness auto
termination
proof (relation "measure (\<lambda>(nodes, a, seen, i). card (fn_id ` set nodes - set seen))", goal_cases)
  case (2 nodes a seen i cursor parent)
  then have "fn_id cursor \<in> fn_id ` set nodes - set seen"
    by (auto dest: by_id_Some)
  then have "fn_id ` set nodes - set (fn_id cursor # seen) \<subset> fn_id ` set nodes - set seen"
    by auto
  then show ?case unfolding in_measure split by (intro psubset_card_mono) simp_all
qed simp

declare ancestor_walk.simps [simp del]

definition is_descendant :: "fleet_node list \<Rightarrow> string \<Rightarrow> string \<Rightarrow> bool" where
  "is_descendant nodes ancestorId candidateId = ancestor_walk nodes ancestorId [] candidateId"

record fleet_actor =
  fa_id :: string
  fa_tier :: subagent_tier

definition assert_can_target_agent ::
    "fleet_actor \<Rightarrow> string \<Rightarrow> fleet_node list \<Rightarrow> fleet_authority_error + unit" where
  "assert_can_target_agent actor targetId nodes =
     (if fa_tier actor = Leaf then
        Inl (FleetAuthorityError
          (''Tier 3 leaf \"'' @ fa_id actor @ ''\" holds no fleet verbs and cannot target any agent.''))
      else if fa_tier actor = Orchestrator then Inr ()
      else if fa_id actor = targetId then Inr ()
      else if \<not> is_descendant nodes (fa_id actor) targetId then
        Inl (FleetAuthorityError
          (''Tier 2 nested orchestrator \"'' @ fa_id actor @ ''\" may only target its own descendants; '' @
           ''\"'' @ targetId @ ''\" is a sibling or ancestor, outside its subtree.''))
      else Inr ())"

subsection \<open>The ancestor relation\<close>

text \<open>\<open>child_of nodes c p\<close>: the fleet records \<open>p\<close> as the parent of \<open>c\<close>.\<close>

definition child_of :: "fleet_node list \<Rightarrow> string \<Rightarrow> string \<Rightarrow> bool" where
  "child_of nodes c p \<longleftrightarrow> (\<exists>n. by_id nodes c = Some n \<and> fn_parent n = Some p)"

text \<open>A set of ids closed under parents that the ancestor sought is no parent in.\<close>

definition walk_closed :: "fleet_node list \<Rightarrow> string \<Rightarrow> string set \<Rightarrow> string set \<Rightarrow> bool" where
  "walk_closed nodes a S T \<longleftrightarrow> (\<forall>s \<in> S. \<forall>p. child_of nodes s p \<longrightarrow> p \<noteq> a \<and> p \<in> T)"

lemma ancestor_walk_sound:
  "ancestor_walk nodes a seen i \<Longrightarrow> (child_of nodes)\<^sup>+\<^sup>+ i a"
proof (induction nodes a seen i rule: ancestor_walk.induct)
  case (1 nodes a seen i)
  from "1.prems" obtain cursor parent where
    c: "by_id nodes i = Some cursor" "fn_parent cursor = Some parent" "\<not> List.member seen (fn_id cursor)"
    and step: "parent = a \<or> ancestor_walk nodes a (fn_id cursor # seen) parent"
    by (subst (asm) ancestor_walk.simps) (auto split: option.splits if_splits)
  have edge: "child_of nodes i parent" using c by (auto simp: child_of_def)
  show ?case
  proof (cases "parent = a")
    case True
    then show ?thesis using edge by blast
  next
    case False
    then have "(child_of nodes)\<^sup>+\<^sup>+ parent a"
      using "1.IH" [OF c] step by blast
    then show ?thesis using edge by (rule tranclp_into_tranclp2 [rotated])
  qed
qed

lemma ancestor_walk_refutes:
  "\<not> ancestor_walk nodes a seen i \<Longrightarrow> walk_closed nodes a (set seen) (insert i (set seen)) \<Longrightarrow>
     \<exists>T. insert i (set seen) \<subseteq> T \<and> walk_closed nodes a T T"
proof (induction nodes a seen i rule: ancestor_walk.induct)
  case (1 nodes a seen i)
  show ?case
  proof (cases "\<exists>parent. child_of nodes i parent \<and> i \<notin> set seen")
    case True
    then obtain cursor parent where c: "by_id nodes i = Some cursor" "fn_parent cursor = Some parent"
      and i: "fn_id cursor = i" "i \<notin> set seen"
      using by_id_Some by (fastforce simp: child_of_def)
    have "ancestor_walk nodes a seen i =
        (parent = a \<or> ancestor_walk nodes a (fn_id cursor # seen) parent)"
      by (subst ancestor_walk.simps) (simp add: c i)
    then have p: "parent \<noteq> a" "\<not> ancestor_walk nodes a (fn_id cursor # seen) parent"
      using "1.prems"(1) by simp_all
    have "walk_closed nodes a (set (fn_id cursor # seen)) (insert parent (set (fn_id cursor # seen)))"
      using "1.prems"(2) c i p(1) by (auto simp: walk_closed_def child_of_def)
    then obtain T where "insert parent (set (fn_id cursor # seen)) \<subseteq> T" "walk_closed nodes a T T"
      using "1.IH" [OF c _ p] i by auto
    then show ?thesis using i by auto
  next
    case False
    then have "walk_closed nodes a (insert i (set seen)) (insert i (set seen))"
      using "1.prems"(2) by (auto simp: walk_closed_def)
    then show ?thesis by blast
  qed
qed

lemma walk_closed_ancestors:
  assumes "(child_of nodes)\<^sup>+\<^sup>+ i b" "i \<in> T" "walk_closed nodes a T T"
  shows "b \<noteq> a \<and> b \<in> T"
  using assms by (induction rule: tranclp_induct) (auto simp: walk_closed_def)

lemma is_descendant_iff: "is_descendant nodes a i \<longleftrightarrow> (child_of nodes)\<^sup>+\<^sup>+ i a"
proof
  show "is_descendant nodes a i \<Longrightarrow> (child_of nodes)\<^sup>+\<^sup>+ i a"
    unfolding is_descendant_def by (rule ancestor_walk_sound)
next
  assume anc: "(child_of nodes)\<^sup>+\<^sup>+ i a"
  show "is_descendant nodes a i"
  proof (rule ccontr)
    assume "\<not> is_descendant nodes a i"
    then obtain T where "i \<in> T" "walk_closed nodes a T T"
      using ancestor_walk_refutes [of nodes a "[]" i] by (auto simp: is_descendant_def walk_closed_def)
    then show False using walk_closed_ancestors [OF anc] by blast
  qed
qed

text \<open>
  C24: authority follows the tree. A director may target an agent exactly when it is the
  primary orchestrator, or a nested one targeting itself or an agent whose recorded chain of
  parents reaches it, whatever cycles or unknown parents the fleet's records contain; a leaf
  may target nothing, and may mount no fleet verb; the discovery verb is the primary's alone.
\<close>

theorem authority_follows_tree:
  "(assert_can_target_agent actor target nodes = Inr () \<longleftrightarrow>
      fa_tier actor = Orchestrator \<or>
      fa_tier actor = NestedOrchestrator \<and>
        (target = fa_id actor \<or> (child_of nodes)\<^sup>+\<^sup>+ target (fa_id actor))) \<and>
   (assert_tier_may_mount_fleet_verb tier verb = Inr () \<longleftrightarrow>
      \<not> (verb \<in> set fleet_verbs \<and>
         (tier = Leaf \<or> tier = NestedOrchestrator \<and> verb = ''search_agents'')))"
  by (cases "fa_tier actor"; cases tier)
    (auto simp: assert_can_target_agent_def assert_tier_may_mount_fleet_verb_def is_fleet_verb_def
      is_orchestrator_only_fleet_verb_def orchestrator_only_fleet_verbs_def is_descendant_iff)

end
