(* ===== verification/ContextEstimate.thy ===== *)
theory ContextEstimate
  imports JsPrelude
begin

text \<open>
  Conversation turns and the running estimate of their size
  (\<open>src/agent/context-estimate.ts\<close>, with the turn classifiers of \<open>src/session/compactor.ts\<close>
  the compaction governor uses). A turn carries \<open>ct_ref\<close>, the identity of the object it is in
  the program, which the estimate compares instead of contents. The main lemma is that the
  incremental estimate equals the estimate of the whole conversation.
\<close>

section \<open>Turns\<close>

text \<open>Media bytes inline with their media type, or by reference to a URL or a provider's file.\<close>

datatype media_source = MediaBase64 string string | MediaUrl string | MediaFile string

datatype content_block =
    TextBlock string
  | ThinkingBlock string
  | RedactedThinkingBlock string
  | RefusalBlock string
  | ToolCallBlock string string "(string \<times> json) list"
  | ToolResultBlock string "content_block list" bool
  | ImageBlock media_source
  | AudioBlock media_source
  | VideoBlock media_source
  | DocumentBlock media_source
  | CitationBlock string "string option" "string option"
  | CodeRequestBlock string "string option"
  | CodeResultBlock "string option" "string option" "string option"
  | SafetyRatingBlock string

datatype turn_role = UserRole | AssistantRole | SystemRole

record conversation_turn =
  ct_ref :: nat
  ct_role :: turn_role
  ct_content :: "content_block list"
  ct_model :: "string option"
  ct_timestamp :: int

definition compact_spacer_text :: string where
  "compact_spacer_text = ''[compact]''"

definition legacy_compact_spacer_text :: string where
  "legacy_compact_spacer_text = ''[compaction]''"

definition compact_noop_floor :: nat where
  "compact_noop_floor = 1"

fun joined_text_blocks :: "content_block list \<Rightarrow> string" where
  "joined_text_blocks [] = []"
| "joined_text_blocks (TextBlock text # rest) = text @ joined_text_blocks rest"
| "joined_text_blocks (_ # rest) = joined_text_blocks rest"

definition is_compact_spacer_sentinel :: "string \<Rightarrow> bool" where
  "is_compact_spacer_sentinel text \<longleftrightarrow>
     text = compact_spacer_text \<or> text = legacy_compact_spacer_text"

definition assistant_text_is_compact_spacer_echo :: "string \<Rightarrow> bool" where
  "assistant_text_is_compact_spacer_echo text = is_compact_spacer_sentinel (trim text)"

fun is_tool_call_block :: "content_block \<Rightarrow> bool" where
  "is_tool_call_block (ToolCallBlock _ _ _) = True"
| "is_tool_call_block _ = False"

definition is_compact_spacer_echo_turn :: "conversation_turn \<Rightarrow> bool" where
  "is_compact_spacer_echo_turn turn =
     (if list_ex is_tool_call_block (ct_content turn) then False
      else assistant_text_is_compact_spacer_echo (joined_text_blocks (ct_content turn)))"

section \<open>Estimates\<close>

definition chars_per_token :: int where "chars_per_token = 4"
definition media_reference_floor_tokens :: int where "media_reference_floor_tokens = 1000"
definition media_base64_max_tokens :: int where "media_base64_max_tokens = 2500"

definition estimate_tokens_from_chars :: "int \<Rightarrow> int" where
  "estimate_tokens_from_chars chars =
     (if chars \<le> 0 then 0 else (chars + chars_per_token - 1) div chars_per_token)"

abbreviation str_len :: "string \<Rightarrow> int" where "str_len s \<equiv> int (length s)"

definition opt_len :: "string option \<Rightarrow> int" where
  "opt_len s = (case s of None \<Rightarrow> 0 | Some t \<Rightarrow> str_len t)"

fun estimate_media_source_tokens :: "media_source \<Rightarrow> int" where
  "estimate_media_source_tokens (MediaBase64 data mime) =
     min (estimate_tokens_from_chars (str_len data)) media_base64_max_tokens"
| "estimate_media_source_tokens _ = media_reference_floor_tokens"

fun estimate_content_block_tokens :: "content_block \<Rightarrow> int" where
  "estimate_content_block_tokens (TextBlock text) = estimate_tokens_from_chars (str_len text)"
| "estimate_content_block_tokens (ThinkingBlock thinking) =
     estimate_tokens_from_chars (str_len thinking)"
| "estimate_content_block_tokens (RedactedThinkingBlock data) =
     estimate_tokens_from_chars (str_len data)"
| "estimate_content_block_tokens (RefusalBlock reason) = estimate_tokens_from_chars (str_len reason)"
| "estimate_content_block_tokens (ToolCallBlock _ name args) =
     estimate_tokens_from_chars (str_len name + str_len (json_stringify (JObj args)))"
| "estimate_content_block_tokens (ToolResultBlock _ parts _) =
     sum_list (map estimate_content_block_tokens parts)"
| "estimate_content_block_tokens (ImageBlock source) = estimate_media_source_tokens source"
| "estimate_content_block_tokens (AudioBlock source) = estimate_media_source_tokens source"
| "estimate_content_block_tokens (VideoBlock source) = estimate_media_source_tokens source"
| "estimate_content_block_tokens (DocumentBlock source) = estimate_media_source_tokens source"
| "estimate_content_block_tokens (CitationBlock cited title uri) =
     estimate_tokens_from_chars (str_len cited + opt_len title + opt_len uri)"
| "estimate_content_block_tokens (CodeRequestBlock code language) =
     estimate_tokens_from_chars (str_len code + opt_len language)"
| "estimate_content_block_tokens (CodeResultBlock out err abort) =
     estimate_tokens_from_chars (opt_len out + opt_len err + opt_len abort)"
| "estimate_content_block_tokens (SafetyRatingBlock reason) =
     estimate_tokens_from_chars (str_len reason)"

definition estimate_turn_tokens :: "conversation_turn \<Rightarrow> int" where
  "estimate_turn_tokens turn =
     foldl (\<lambda>total block. total + estimate_content_block_tokens block) 0 (ct_content turn)"

definition estimate_context_tokens :: "conversation_turn list \<Rightarrow> int" where
  "estimate_context_tokens turns = foldl (\<lambda>total turn. total + estimate_turn_tokens turn) 0 turns"

record estimate_tool =
  td_name :: string
  td_description :: string
  td_input_schema :: json

definition estimate_overhead_tokens :: "string \<Rightarrow> estimate_tool list \<Rightarrow> int" where
  "estimate_overhead_tokens systemPrompt toolDefinitions =
     estimate_tokens_from_chars
       (foldl (\<lambda>chars tool. chars + (str_len (td_name tool) + str_len (td_description tool) +
                  str_len (json_stringify (td_input_schema tool))))
          (str_len systemPrompt) toolDefinitions)"

section \<open>The running estimate\<close>

record context_estimate =
  es_overhead :: int
  es_tokens :: int
  es_turn_count :: nat
  es_cached :: "conversation_turn list"

definition create_context_estimate :: "int \<Rightarrow> context_estimate" where
  "create_context_estimate overhead =
     \<lparr>es_overhead = overhead, es_tokens = overhead, es_turn_count = 0, es_cached = []\<rparr>"

text \<open>Identity comparison of a prefix; \<open>turns\<close> is at least as long where it is called.\<close>

definition prefix_refs_match :: "conversation_turn list \<Rightarrow> conversation_turn list \<Rightarrow> bool" where
  "prefix_refs_match cached turns =
     (map ct_ref (take (length cached) turns) = map ct_ref cached)"

definition estimate_sync :: "conversation_turn list \<Rightarrow> context_estimate \<Rightarrow> context_estimate" where
  "estimate_sync turns e =
     (if length turns = length (es_cached e) \<and> prefix_refs_match (es_cached e) turns then e
      else e\<lparr>es_tokens :=
               (if length (es_cached e) < length turns \<and> prefix_refs_match (es_cached e) turns
                then foldl (\<lambda>tokens turn. tokens + estimate_turn_tokens turn) (es_tokens e)
                       (drop (length (es_cached e)) turns)
                else es_overhead e + estimate_context_tokens turns),
             es_turn_count := length turns,
             es_cached := turns\<rparr>)"

subsection \<open>The incremental estimate is exact\<close>

lemma foldl_plus_sum: "foldl (\<lambda>total x. total + f x) (a::int) xs = a + sum_list (map f xs)"
  by (induction xs arbitrary: a) simp_all

lemma estimate_context_sum: "estimate_context_tokens turns = sum_list (map estimate_turn_tokens turns)"
  by (simp add: estimate_context_tokens_def foldl_plus_sum)

text \<open>
  A turn object is not rewritten in place: two turns of the given lists that are one object
  have the same content.
\<close>

definition refs_fixed :: "conversation_turn list \<Rightarrow> bool" where
  "refs_fixed turns \<longleftrightarrow>
     (\<forall>t \<in> set turns. \<forall>u \<in> set turns. ct_ref t = ct_ref u \<longrightarrow> ct_content t = ct_content u)"

definition estimate_exact :: "context_estimate \<Rightarrow> bool" where
  "estimate_exact e \<longleftrightarrow>
     es_tokens e = es_overhead e + estimate_context_tokens (es_cached e) \<and>
     es_turn_count e = length (es_cached e)"

lemma refs_fixed_sum:
  assumes "map ct_ref xs = map ct_ref ys"
    and "\<And>t u. t \<in> set xs \<Longrightarrow> u \<in> set ys \<Longrightarrow> ct_ref t = ct_ref u \<Longrightarrow> ct_content t = ct_content u"
  shows "sum_list (map estimate_turn_tokens xs) = sum_list (map estimate_turn_tokens ys)"
  using assms
proof (induction xs arbitrary: ys)
  case (Cons x xs)
  then obtain y ys' where ys: "ys = y # ys'" "ct_ref x = ct_ref y" "map ct_ref xs = map ct_ref ys'"
    by (cases ys) auto
  then have "ct_content x = ct_content y" using Cons.prems(2) by simp
  then have "estimate_turn_tokens x = estimate_turn_tokens y" by (simp add: estimate_turn_tokens_def)
  moreover have "sum_list (map estimate_turn_tokens xs) = sum_list (map estimate_turn_tokens ys')"
    by (rule Cons.IH) (use Cons.prems(2) ys in auto)
  ultimately show ?case by (simp add: ys)
qed simp

lemma estimate_sync_exact:
  assumes "estimate_exact e" "refs_fixed (es_cached e @ turns)"
  shows "es_tokens (estimate_sync turns e) = es_overhead e + estimate_context_tokens turns"
    and "es_turn_count (estimate_sync turns e) = length turns"
    and "es_overhead (estimate_sync turns e) = es_overhead e"
    and "estimate_exact (estimate_sync turns e)"
    and "refs_fixed (turns @ rest) \<Longrightarrow> refs_fixed (es_cached e @ turns @ rest) \<Longrightarrow>
           refs_fixed (es_cached (estimate_sync turns e) @ rest)"
proof -
  let ?k = "length (es_cached e)"
  have pre: "sum_list (map estimate_turn_tokens (take ?k turns)) =
      sum_list (map estimate_turn_tokens (es_cached e))"
    if "prefix_refs_match (es_cached e) turns"
    by (rule refs_fixed_sum)
      (use that assms(2) in \<open>auto simp: prefix_refs_match_def refs_fixed_def dest: in_set_takeD\<close>)
  have split: "sum_list (map estimate_turn_tokens turns) =
      sum_list (map estimate_turn_tokens (take ?k turns)) +
      sum_list (map estimate_turn_tokens (drop ?k turns))"
    by (metis append_take_drop_id map_append sum_list_append)
  show tok: "es_tokens (estimate_sync turns e) = es_overhead e + estimate_context_tokens turns"
  proof (cases "prefix_refs_match (es_cached e) turns \<and> ?k \<le> length turns")
    case True
    then have sum: "estimate_context_tokens turns = estimate_context_tokens (es_cached e) +
        sum_list (map estimate_turn_tokens (drop ?k turns))"
      using pre split by (simp add: estimate_context_sum)
    show ?thesis
    proof (cases "length turns = ?k")
      case True
      then show ?thesis
        using sum \<open>_ \<and> _\<close> assms(1) by (simp add: estimate_sync_def estimate_exact_def)
    next
      case False
      then show ?thesis
        using sum \<open>_ \<and> _\<close> assms(1) by (simp add: estimate_sync_def estimate_exact_def foldl_plus_sum)
    qed
  next
    case False
    then show ?thesis by (auto simp: estimate_sync_def)
  qed
  show cnt: "es_turn_count (estimate_sync turns e) = length turns"
    using assms(1) by (auto simp: estimate_sync_def estimate_exact_def)
  show "es_overhead (estimate_sync turns e) = es_overhead e" by (simp add: estimate_sync_def)
  show "estimate_exact (estimate_sync turns e)"
  proof (cases "length turns = ?k \<and> prefix_refs_match (es_cached e) turns")
    case True
    then show ?thesis using assms(1) by (simp add: estimate_sync_def)
  next
    case False
    then have "es_cached (estimate_sync turns e) = turns"
      "es_overhead (estimate_sync turns e) = es_overhead e"
      by (auto simp: estimate_sync_def)
    then show ?thesis using tok cnt by (simp add: estimate_exact_def)
  qed
  show "refs_fixed (turns @ rest) \<Longrightarrow> refs_fixed (es_cached e @ turns @ rest) \<Longrightarrow>
           refs_fixed (es_cached (estimate_sync turns e) @ rest)"
    by (auto simp: estimate_sync_def refs_fixed_def split: if_splits)
qed

lemma refs_fixed_append: "refs_fixed (xs @ ys) \<Longrightarrow> refs_fixed xs \<and> refs_fixed ys"
  by (auto simp: refs_fixed_def)

lemma estimate_run_exact:
  "estimate_exact e \<Longrightarrow> refs_fixed (es_cached e @ concat turnss) \<Longrightarrow>
     es_tokens (foldl (\<lambda>e turns. estimate_sync turns e) e turnss) =
       es_overhead e + estimate_context_tokens (last (es_cached e # turnss))"
proof (induction turnss arbitrary: e)
  case Nil
  then show ?case by (simp add: estimate_exact_def)
next
  case (Cons turns turnss)
  let ?e = "estimate_sync turns e"
  have fixed: "refs_fixed (es_cached e @ turns)" "refs_fixed (turns @ concat turnss)"
    "refs_fixed (es_cached e @ turns @ concat turnss)"
    using Cons.prems(2) refs_fixed_append [of "es_cached e @ turns" "concat turnss"]
      refs_fixed_append [of "es_cached e" "turns @ concat turnss"] by simp_all
  note step = estimate_sync_exact [OF Cons.prems(1) fixed(1)]
  have "es_tokens (foldl (\<lambda>e turns. estimate_sync turns e) ?e turnss) =
      es_overhead ?e + estimate_context_tokens (last (es_cached ?e # turnss))"
    by (rule Cons.IH [OF step(4) step(5) [OF fixed(2,3)]])
  moreover have "estimate_context_tokens (es_cached ?e) = estimate_context_tokens turns"
    using step(1,3,4) by (simp add: estimate_exact_def)
  ultimately show ?case using step(3) by (cases turnss) simp_all
qed

text \<open>
  C27: however the conversation was appended to, shortened, replaced or resent, the running
  estimate is the overhead plus the estimate of the last conversation it was given, as long as
  no turn object was rewritten in place between the calls.
\<close>

theorem incremental_estimate_exact:
  assumes "refs_fixed (concat turnss)"
  shows "es_tokens (foldl (\<lambda>e turns. estimate_sync turns e) (create_context_estimate overhead) turnss) =
           overhead + estimate_context_tokens (last ([] # turnss))"
  using estimate_run_exact [of "create_context_estimate overhead" turnss] assms
  by (simp add: create_context_estimate_def estimate_exact_def estimate_context_tokens_def)

definition text_turn :: "nat \<Rightarrow> string \<Rightarrow> conversation_turn" where
  "text_turn r s = \<lparr>ct_ref = r, ct_role = UserRole, ct_content = [TextBlock s], ct_model = None,
     ct_timestamp = 0\<rparr>"

theorem incremental_estimate_exact_witness:
  "es_tokens (foldl (\<lambda>e turns. estimate_sync turns e) (create_context_estimate 10)
     [[text_turn 0 ''abcde''], [text_turn 0 ''abcde'', text_turn 1 ''xyz''], [text_turn 2 ''12345678'']]) = 12"
  by (subst incremental_estimate_exact)
    (simp_all add: text_turn_def refs_fixed_def estimate_context_tokens_def estimate_turn_tokens_def
      estimate_tokens_from_chars_def chars_per_token_def)

end
