(* ===== verification/Compaction.thy ===== *)
theory Compaction
  imports ContextWindow ContextEstimate
begin

text \<open>
  The compaction governor (\<open>createCompactionGovernor\<close> in \<open>src/agent/compaction.ts\<close>): the
  closure's variables are a record, each of its functions a definition, and \<open>governor_op\<close> one
  call with its arguments. The host's continuation closure is the flag \<open>gv_legacy\<close> and the
  count of calls made to it; the window tables of the provider module it reads and pins are
  part of the state. The lemmas show that automatic folding stops, that it is latched after a
  fold, and what cancelling a handoff restores.
\<close>

section \<open>State, events and actions\<close>

record governor =
  gv_legacy :: bool
  gv_continuations :: nat
  gv_windows :: window_tables
  gv_estimate :: context_estimate
  gv_pending :: bool
  gv_idle_pending :: bool
  gv_manual_pending :: bool
  gv_extra :: "string option"
  gv_idle_at_handoff :: bool
  gv_extra_at_handoff :: "string option"
  gv_post_infer :: bool
  gv_post_meter :: bool
  gv_overflow :: nat
  gv_consecutive :: nat
  gv_using_estimate :: bool
  gv_reported :: int
  gv_model :: "string option"
  gv_turn_count :: nat
  gv_at_last_compact :: "int option"
  gv_awaiting :: bool
  gv_non_converged :: bool

datatype error_category =
    Retryable | ContextOverflow | CredentialFailure | QuotaExhausted | Fatal | Aborted
  | TimeoutError | ProtocolMismatch

text \<open>Inbound events; a message's content is \<open>None\<close> when it is not a string.\<close>

datatype reactor_event =
    MessageReceived "string option"
  | InferenceDone conversation_turn "token_usage option" "string option"
  | InferenceError error_category "string option"
  | ToolDone
  | GateCleared
  | ResumeExecuteTools
  | ResumeToolResult
  | AbortEvent

datatype reactor_action =
    ActInfer
  | ActExecuteTools "json list"
  | ActSuspend json
  | ActFork string
  | ActEmit string
  | ActReply string
  | ActCheckpoint string
  | ActCompact string string
  | ActWait
  | ActDone

fun is_message_received :: "reactor_event \<Rightarrow> bool" where
  "is_message_received (MessageReceived _) = True"
| "is_message_received _ = False"

fun is_tool_done :: "reactor_event \<Rightarrow> bool" where
  "is_tool_done ToolDone = True"
| "is_tool_done _ = False"

fun on_turn_boundary :: "reactor_event \<Rightarrow> bool" where
  "on_turn_boundary (InferenceDone _ _ _) = True"
| "on_turn_boundary _ = False"

fun is_infer :: "reactor_action \<Rightarrow> bool" where
  "is_infer ActInfer = True"
| "is_infer _ = False"

definition compactor_name :: string where "compactor_name = ''pruning-compactor''"
definition min_turns_to_compact :: nat where "min_turns_to_compact = compact_noop_floor"
definition max_overflow_recoveries :: nat where "max_overflow_recoveries = 2"
definition max_consecutive_threshold_compacts :: nat where
  "max_consecutive_threshold_compacts = 2"
definition compaction_continuation_event :: string where
  "compaction_continuation_event = ''custom.compaction.continue''"
definition operator_compact_reason :: string where
  "operator_compact_reason = ''operator-request''"
definition threshold_compact_reason :: string where
  "threshold_compact_reason = ''context-threshold''"

datatype manual_arming = Kick | Armed | Noop

definition message_names_context_overflow :: "string \<Rightarrow> bool" where
  "message_names_context_overflow message =
     (let lower = to_lower message in
      has_infix lower ''context_length_exceeded'' \<or> has_infix lower ''context length'' \<or>
      has_infix lower ''context window'' \<or> has_infix lower ''maximum context'' \<or>
      has_infix lower ''too many tokens'' \<or> has_infix lower ''input is too long'')"

text \<open>
  \<open>/maximum context length of\\s+(\\d+)/i\<close>: the digits of the leftmost match. White space and
  digits share no character, so the greedy runs never backtrack.
\<close>

definition limit_digits_at :: "string \<Rightarrow> string option" where
  "limit_digits_at s =
     (let phrase = ''maximum context length of'' in
      if \<not> starts_with (to_lower s) phrase then None
      else (let rest = drop (length phrase) s;
                digits = takeWhile is_digit (dropWhile is_ws rest)
            in if takeWhile is_ws rest = [] \<or> digits = [] then None else Some digits))"

fun server_context_limit :: "string \<Rightarrow> string option" where
  "server_context_limit [] = None"
| "server_context_limit (c # s) =
     (case limit_digits_at (c # s) of Some d \<Rightarrow> Some d | None \<Rightarrow> server_context_limit s)"

definition max_safe_integer :: nat where
  "max_safe_integer = 2 ^ 53 - 1"

section \<open>Compaction records and run models\<close>

record compact_record =
  cr_strategy :: "string option"
  cr_parameters :: "(string \<times> json) list option"

definition extra_instructions_from_compact_record :: "compact_record \<Rightarrow> string option" where
  "extra_instructions_from_compact_record record =
     (if cr_strategy record \<noteq> Some compactor_name then None
      else (case cr_parameters record of
              None \<Rightarrow> None
            | Some ps \<Rightarrow>
                (case jfield ps ''extraInstructions'' of
                   Some (JStr extra) \<Rightarrow> (if trim extra \<noteq> [] then Some (trim extra) else None)
                 | _ \<Rightarrow> None)))"

fun sticky_extra_instructions_from_records :: "compact_record list \<Rightarrow> string option" where
  "sticky_extra_instructions_from_records [] = None"
| "sticky_extra_instructions_from_records (record # records) =
     (case extra_instructions_from_compact_record record of
        Some extra \<Rightarrow> Some extra
      | None \<Rightarrow> sticky_extra_instructions_from_records records)"

definition compact_floor_noop_notice :: "string \<Rightarrow> string" where
  "compact_floor_noop_notice instructions =
     (if trim instructions \<noteq> [] then ''Nothing to compact yet. Instructions were not saved.''
      else ''Nothing to compact yet.'')"

record last_cycle_source =
  lc_source_id :: string
  lc_provider :: string
  lc_model :: string

definition last_cycle_source_from_run_model :: "string option \<Rightarrow> last_cycle_source option" where
  "last_cycle_source_from_run_model model =
     (case model of
        None \<Rightarrow> None
      | Some m \<Rightarrow>
          (if m = [] then None
           else (case index_of m '':'' of
                   Some (Suc c) \<Rightarrow>
                     (let rest = drop (Suc c + 1) m
                      in Some \<lparr>lc_source_id = m, lc_provider = take (Suc c) m,
                               lc_model = (if rest \<noteq> [] then rest else m)\<rparr>)
                 | _ \<Rightarrow>
                     (case index_of m ''/'' of
                        Some (Suc c) \<Rightarrow>
                          Some \<lparr>lc_source_id = m, lc_provider = take (Suc c) m, lc_model = m\<rparr>
                      | _ \<Rightarrow> Some \<lparr>lc_source_id = m, lc_provider = m, lc_model = m\<rparr>))))"

section \<open>The governor\<close>

definition create_compaction_governor ::
    "bool \<Rightarrow> string \<Rightarrow> estimate_tool list \<Rightarrow> window_tables \<Rightarrow> governor" where
  "create_compaction_governor legacy systemPrompt toolDefinitions windows =
     \<lparr>gv_legacy = legacy, gv_continuations = 0, gv_windows = windows,
      gv_estimate = create_context_estimate (estimate_overhead_tokens systemPrompt toolDefinitions),
      gv_pending = False, gv_idle_pending = False, gv_manual_pending = False, gv_extra = None,
      gv_idle_at_handoff = False, gv_extra_at_handoff = None, gv_post_infer = False,
      gv_post_meter = False, gv_overflow = 0, gv_consecutive = 0, gv_using_estimate = False,
      gv_reported = 0, gv_model = None, gv_turn_count = 0, gv_at_last_compact = None,
      gv_awaiting = False, gv_non_converged = False\<rparr>"

definition sync_from_turns :: "conversation_turn list \<Rightarrow> governor \<Rightarrow> governor" where
  "sync_from_turns turns g =
     g\<lparr>gv_turn_count := length turns, gv_estimate := estimate_sync turns (gv_estimate g)\<rparr>"

definition gv_tokens :: "governor \<Rightarrow> int" where
  "gv_tokens g = es_tokens (gv_estimate g)"

definition gv_reserved :: "governor \<Rightarrow> int" where
  "gv_reserved g = reserved_max_tokens_for (gv_windows g) (gv_model g)"

definition is_over_threshold :: "governor \<Rightarrow> int \<Rightarrow> bool" where
  "is_over_threshold g contextTokens =
     (if gv_turn_count g \<le> min_turns_to_compact then False
      else if contextTokens \<le> compaction_threshold_for (gv_windows g) (gv_model g) (gv_reserved g)
        then False
      else (case gv_at_last_compact g of
              Some at \<Rightarrow> has_wide_resume_gap (gv_windows g) at contextTokens (gv_model g)
            | None \<Rightarrow> True))"

definition occupancy_tokens :: "governor \<Rightarrow> int" where
  "occupancy_tokens g =
     (if gv_using_estimate g \<or> gv_reported g \<le> 0 then gv_tokens g
      else max (gv_reported g) (gv_tokens g))"

definition would_exceed_window :: "governor \<Rightarrow> bool" where
  "would_exceed_window g =
     (if gv_turn_count g \<le> min_turns_to_compact then False
      else completion_reservation_exceeds_window (gv_windows g) (occupancy_tokens g) (gv_model g)
             (gv_reserved g))"

definition note_compact_issued :: "governor \<Rightarrow> governor" where
  "note_compact_issued g = g\<lparr>gv_awaiting := True\<rparr>"

definition at_threshold_compact_cap :: "governor \<Rightarrow> bool" where
  "at_threshold_compact_cap g \<longleftrightarrow> max_consecutive_threshold_compacts \<le> gv_consecutive g"

definition issue_threshold_compact :: "governor \<Rightarrow> governor" where
  "issue_threshold_compact g = note_compact_issued (g\<lparr>gv_consecutive := gv_consecutive g + 1\<rparr>)"

definition compact_reason :: "bool \<Rightarrow> string" where
  "compact_reason operator = (if operator then operator_compact_reason else threshold_compact_reason)"

definition clear_manual_arming :: "governor \<Rightarrow> governor" where
  "clear_manual_arming g =
     g\<lparr>gv_manual_pending := False, gv_idle_pending := False, gv_pending := False\<rparr>"

text \<open>The host's closure is called, or an action asks the host for the re-entry.\<close>

definition continuation_actions :: "governor \<Rightarrow> reactor_action list \<times> governor" where
  "continuation_actions g =
     (if gv_legacy g then ([], g\<lparr>gv_continuations := gv_continuations g + 1\<rparr>)
      else ([ActEmit compaction_continuation_event], g))"

definition is_spacer_echo_terminal :: "reactor_event \<Rightarrow> reactor_action list \<Rightarrow> bool" where
  "is_spacer_echo_terminal event actions =
     ((case event of InferenceDone turn _ _ \<Rightarrow> is_compact_spacer_echo_turn turn | _ \<Rightarrow> False) \<or>
      list_ex (\<lambda>a. case a of ActReply content \<Rightarrow> assistant_text_is_compact_spacer_echo content
                   | _ \<Rightarrow> False) actions)"

text \<open>The tokens the last measurement used.\<close>

definition measured_tokens :: "governor \<Rightarrow> int" where
  "measured_tokens g = (if gv_using_estimate g then gv_tokens g else gv_reported g)"

definition note_inference_done ::
    "token_usage option \<Rightarrow> string option \<Rightarrow> conversation_turn list \<Rightarrow> governor \<Rightarrow> governor" where
  "note_inference_done usage model turns g =
     (let g1 = (sync_from_turns turns g)\<lparr>gv_model := model\<rparr>;
          reportedTokens = context_tokens_from_usage usage;
          g2 = g1\<lparr>gv_using_estimate := reportedTokens \<le> 0, gv_reported := reportedTokens\<rparr>;
          contextTokens = (if gv_using_estimate g2 then gv_tokens g2 else reportedTokens);
          under = is_at_or_under_compact_threshold (gv_windows g2) contextTokens (gv_model g2)
                    (gv_reserved g2);
          g3 = (if gv_awaiting g2
                then (let m = g2\<lparr>gv_at_last_compact := Some contextTokens, gv_awaiting := False\<rparr>
                      in if \<not> under
                         then m\<lparr>gv_non_converged := True,
                                gv_consecutive := max_consecutive_threshold_compacts\<rparr>
                         else m)
                else g2);
          g4 = (if under
                then g3\<lparr>gv_consecutive := 0, gv_overflow := 0, gv_non_converged := False\<rparr>
                else g3)
      in g4\<lparr>gv_pending := is_over_threshold g4 contextTokens\<rparr>)"

definition issue_overflow_preflight :: "governor \<Rightarrow> reactor_action list option \<times> governor" where
  "issue_overflow_preflight g =
     (if gv_manual_pending g \<or> at_threshold_compact_cap g then (None, g)
      else if gv_turn_count g \<le> min_turns_to_compact then (None, g)
      else if \<not> would_exceed_window g then (None, g)
      else (let g1 = issue_threshold_compact ((clear_manual_arming g)\<lparr>gv_post_infer := True\<rparr>);
                (cont, g2) = continuation_actions g1
            in (Some (ActCompact compactor_name threshold_compact_reason # cont), g2)))"

definition intercept_actions ::
    "reactor_event \<Rightarrow> reactor_action list \<Rightarrow> governor \<Rightarrow> reactor_action list option \<times> governor" where
  "intercept_actions event actions g =
     (if \<not> is_tool_done event \<and> \<not> is_message_received event then (None, g)
      else (let operator = gv_manual_pending g;
                hard = (\<not> operator \<and> would_exceed_window g)
            in if \<not> operator \<and> \<not> gv_pending g \<and> \<not> hard \<and>
                  \<not> (gv_using_estimate g \<and> is_over_threshold g (gv_tokens g)) then (None, g)
               else if \<not> list_ex is_infer actions then (None, g)
               else if \<not> operator \<and> at_threshold_compact_cap g then (None, g)
               else (let g1 = (clear_manual_arming g)\<lparr>gv_post_infer := True\<rparr>;
                         g2 = (if operator then note_compact_issued g1 else issue_threshold_compact g1);
                         (cont, g3) = continuation_actions g2
                     in (Some (filter (\<lambda>a. \<not> is_infer a) actions @
                               [ActCompact compactor_name (compact_reason operator)] @ cont), g3))))"

definition is_terminal_turn :: "reactor_action list \<Rightarrow> bool" where
  "is_terminal_turn actions =
     (list_ex (\<lambda>a. case a of ActReply _ \<Rightarrow> True | ActWait \<Rightarrow> True | _ \<Rightarrow> False) actions \<and>
      \<not> list_ex (\<lambda>a. case a of ActInfer \<Rightarrow> True | ActExecuteTools _ \<Rightarrow> True | _ \<Rightarrow> False) actions)"

definition note_idle_turn ::
    "reactor_event \<Rightarrow> reactor_action list \<Rightarrow> governor \<Rightarrow> bool \<times> governor" where
  "note_idle_turn event actions g =
     (if gv_idle_pending g then (False, g)
      else (let operator = gv_manual_pending g in
        if \<not> operator \<and> \<not> gv_pending g then (False, g)
        else if \<not> operator \<and> at_threshold_compact_cap g then (False, g)
        else if \<not> on_turn_boundary event then (False, g)
        else if is_spacer_echo_terminal event actions then (False, g)
        else if \<not> is_terminal_turn actions then (False, g)
        else (let g1 = g\<lparr>gv_idle_pending := True\<rparr>
              in if gv_legacy g
                 then (False, g1\<lparr>gv_continuations := gv_continuations g + 1\<rparr>)
                 else (True, g1))))"

fun inbound_text :: "reactor_event \<Rightarrow> string" where
  "inbound_text (MessageReceived (Some content)) = content"
| "inbound_text _ = []"

definition mark_post_compact :: "string \<Rightarrow> governor \<Rightarrow> governor" where
  "mark_post_compact content g =
     (if content \<noteq> [] then g\<lparr>gv_post_infer := True\<rparr> else g\<lparr>gv_post_meter := True\<rparr>)"

definition issue_idle_fold ::
    "string \<Rightarrow> string \<Rightarrow> governor \<Rightarrow> reactor_action list option \<times> governor" where
  "issue_idle_fold content reason g =
     (let (cont, g1) = continuation_actions (issue_threshold_compact (mark_post_compact content g))
      in (Some (ActCompact compactor_name reason # cont), g1))"

definition intercept_idle_continuation ::
    "reactor_event \<Rightarrow> governor \<Rightarrow> reactor_action list option \<times> governor" where
  "intercept_idle_continuation event g =
     (if \<not> is_message_received event \<or> \<not> gv_idle_pending g then (None, g)
      else (let operator = gv_manual_pending g in
        if \<not> operator \<and> at_threshold_compact_cap g then (None, g\<lparr>gv_idle_pending := False\<rparr>)
        else (let g1 = clear_manual_arming g;
                  content = inbound_text event
              in if operator
                 then (let (cont, g2) =
                             continuation_actions (note_compact_issued (mark_post_compact content g1))
                       in (Some (ActCompact compactor_name operator_compact_reason # cont), g2))
                 else issue_idle_fold content threshold_compact_reason g1)))"

definition pin_named_server_limit :: "string \<Rightarrow> governor \<Rightarrow> governor" where
  "pin_named_server_limit message g =
     (case gv_model g of
        None \<Rightarrow> g
      | Some model \<Rightarrow>
          (case server_context_limit message of
             None \<Rightarrow> g
           | Some digits \<Rightarrow>
               (let limit = undec digits
                in if max_safe_integer < limit \<or> limit = 0 then g
                   else g\<lparr>gv_windows :=
                            pin_session_context_window model (int limit) (gv_windows g)\<rparr>)))"

definition intercept_overflow ::
    "reactor_event \<Rightarrow> governor \<Rightarrow> reactor_action list option \<times> governor" where
  "intercept_overflow event g =
     (case event of
        InferenceError category msg \<Rightarrow>
          (let message = (case msg of Some m \<Rightarrow> m | None \<Rightarrow> [])
           in if category \<noteq> ContextOverflow \<and> \<not> message_names_context_overflow message then (None, g)
              else (let g1 = pin_named_server_limit message g
                    in if max_overflow_recoveries \<le> gv_overflow g1 then (None, g1)
                       else (let g2 = clear_manual_arming (g1\<lparr>gv_overflow := gv_overflow g1 + 1\<rparr>);
                                 (cont, g3) = continuation_actions
                                   (note_compact_issued (g2\<lparr>gv_post_infer := True\<rparr>))
                             in (Some (ActCompact compactor_name ''context-overflow'' # cont), g3))))
      | _ \<Rightarrow> (None, g))"

definition note_kept_prior :: "governor \<Rightarrow> governor" where
  "note_kept_prior g = g\<lparr>gv_post_infer := False, gv_post_meter := False\<rparr>"

datatype resume_kind = ResumeInfer | ResumeMeter

definition resume_after_compact :: "reactor_event \<Rightarrow> governor \<Rightarrow> resume_kind option \<times> governor" where
  "resume_after_compact event g =
     (if \<not> is_message_received event \<or> inbound_text event \<noteq> [] then (None, g)
      else if gv_post_infer g then (Some ResumeInfer, g\<lparr>gv_post_infer := False\<rparr>)
      else if gv_post_meter g then (Some ResumeMeter, g\<lparr>gv_post_meter := False\<rparr>)
      else (None, g))"

definition note_post_compact :: "conversation_turn list \<Rightarrow> governor \<Rightarrow> governor" where
  "note_post_compact turns g = (sync_from_turns turns g)\<lparr>gv_using_estimate := True\<rparr>"

definition has_outstanding_continuation :: "governor \<Rightarrow> bool" where
  "has_outstanding_continuation g \<longleftrightarrow> gv_post_infer g \<or> gv_post_meter g"

definition request_manual ::
    "string \<Rightarrow> bool \<Rightarrow> conversation_turn list option \<Rightarrow> governor \<Rightarrow> manual_arming \<times> governor" where
  "request_manual instructions inFlight turns g0 =
     (let g = (case turns of Some ts \<Rightarrow> sync_from_turns ts g0 | None \<Rightarrow> g0) in
      if gv_turn_count g \<le> min_turns_to_compact then (Noop, g)
      else (let g1 = (if trim instructions \<noteq> [] then g\<lparr>gv_extra := Some (trim instructions)\<rparr> else g)
            in if has_outstanding_continuation g1 then (Armed, g1)
               else (let g2 = g1\<lparr>gv_manual_pending := True\<rparr>
                     in if inFlight then (Armed, g2)
                        else if gv_idle_pending g2 then (Armed, g2)
                        else (let g3 = g2\<lparr>gv_idle_pending := True\<rparr>
                              in if gv_legacy g3
                                 then (Armed, g3\<lparr>gv_continuations := gv_continuations g3 + 1\<rparr>)
                                 else (Kick, g3)))))"

definition restore_extra_instructions :: "string option \<Rightarrow> governor \<Rightarrow> governor" where
  "restore_extra_instructions value g =
     (case value of
        None \<Rightarrow> g
      | Some v \<Rightarrow> (if trim v = [] then g else g\<lparr>gv_extra := Some (trim v)\<rparr>))"

definition restore_cache_write ::
    "last_cycle_source \<Rightarrow> conversation_turn list \<Rightarrow> governor \<Rightarrow> governor" where
  "restore_cache_write source turns g =
     (sync_from_turns turns g)\<lparr>gv_model := Some (lc_model source)\<rparr>"

definition request_handoff :: "string \<Rightarrow> governor \<Rightarrow> manual_arming \<times> governor" where
  "request_handoff instructions g =
     (if gv_turn_count g \<le> min_turns_to_compact then (Noop, g)
      else (let g1 = (if \<not> gv_manual_pending g
                      then g\<lparr>gv_idle_at_handoff := gv_idle_pending g, gv_extra_at_handoff := gv_extra g\<rparr>
                      else g);
                g2 = g1\<lparr>gv_extra := (if trim instructions \<noteq> [] then Some (trim instructions) else None),
                        gv_manual_pending := True, gv_idle_pending := True\<rparr>
            in (Armed, if gv_legacy g2 then g2\<lparr>gv_continuations := gv_continuations g2 + 1\<rparr> else g2)))"

definition cancel_manual :: "governor \<Rightarrow> governor" where
  "cancel_manual g =
     (if \<not> gv_manual_pending g then g
      else (let thresholdPending = gv_pending g;
                g1 = clear_manual_arming g
            in g1\<lparr>gv_pending := thresholdPending, gv_idle_pending := gv_idle_at_handoff g1,
                  gv_extra := gv_extra_at_handoff g1\<rparr>))"

section \<open>Calls as operations\<close>

datatype governor_op =
    OpSyncTurns "conversation_turn list"
  | OpInferenceDone "token_usage option" "string option" "conversation_turn list"
  | OpPreflight
  | OpIntercept reactor_event "reactor_action list"
  | OpIdleTurn reactor_event "reactor_action list"
  | OpIdleContinuation reactor_event
  | OpOverflow reactor_event
  | OpResume reactor_event
  | OpKeptPrior
  | OpPostCompact "conversation_turn list"
  | OpManual string bool "conversation_turn list option"
  | OpRestoreExtra "string option"
  | OpRestoreCache last_cycle_source "conversation_turn list"
  | OpHandoff string
  | OpCancelManual

text \<open>The actions are \<open>None\<close> unless the call returned a compaction to run.\<close>

fun governor_step :: "governor \<Rightarrow> governor_op \<Rightarrow> reactor_action list option \<times> governor" where
  "governor_step g (OpSyncTurns turns) = (None, sync_from_turns turns g)"
| "governor_step g (OpInferenceDone usage model turns) = (None, note_inference_done usage model turns g)"
| "governor_step g OpPreflight = issue_overflow_preflight g"
| "governor_step g (OpIntercept event actions) = intercept_actions event actions g"
| "governor_step g (OpIdleTurn event actions) = (None, snd (note_idle_turn event actions g))"
| "governor_step g (OpIdleContinuation event) = intercept_idle_continuation event g"
| "governor_step g (OpOverflow event) = intercept_overflow event g"
| "governor_step g (OpResume event) = (None, snd (resume_after_compact event g))"
| "governor_step g OpKeptPrior = (None, note_kept_prior g)"
| "governor_step g (OpPostCompact turns) = (None, note_post_compact turns g)"
| "governor_step g (OpManual instructions inFlight turns) =
     (None, snd (request_manual instructions inFlight turns g))"
| "governor_step g (OpRestoreExtra value) = (None, restore_extra_instructions value g)"
| "governor_step g (OpRestoreCache source turns) = (None, restore_cache_write source turns g)"
| "governor_step g (OpHandoff instructions) = (None, snd (request_handoff instructions g))"
| "governor_step g OpCancelManual = (None, cancel_manual g)"

definition governor_ok :: "governor \<Rightarrow> bool" where
  "governor_ok g \<longleftrightarrow>
     gv_consecutive g \<le> 2 \<and> gv_overflow g \<le> 2 \<and>
     (gv_non_converged g \<longrightarrow> gv_consecutive g = 2)"

lemmas governor_defs =
  sync_from_turns_def note_inference_done_def issue_overflow_preflight_def intercept_actions_def
  note_idle_turn_def intercept_idle_continuation_def issue_idle_fold_def intercept_overflow_def
  resume_after_compact_def note_kept_prior_def note_post_compact_def request_manual_def
  restore_extra_instructions_def restore_cache_write_def request_handoff_def cancel_manual_def
  pin_named_server_limit_def mark_post_compact_def issue_threshold_compact_def
  note_compact_issued_def clear_manual_arming_def continuation_actions_def
  at_threshold_compact_cap_def max_consecutive_threshold_compacts_def max_overflow_recoveries_def

text \<open>What an operation that is not an inference's end or an operator's request does to the caps.\<close>

definition cap_budget :: "governor \<Rightarrow> nat" where
  "cap_budget g = (2 - gv_consecutive g) + (2 - gv_overflow g)"

fun operator_request :: "governor_op \<Rightarrow> bool" where
  "operator_request (OpManual _ _ _) = True"
| "operator_request (OpHandoff _) = True"
| "operator_request _ = False"

fun measures :: "governor_op \<Rightarrow> bool" where
  "measures (OpInferenceDone _ _ _) = True"
| "measures _ = False"

lemma pin_named_server_limit_frame [simp]:
  "gv_consecutive (pin_named_server_limit m g) = gv_consecutive g"
  "gv_overflow (pin_named_server_limit m g) = gv_overflow g"
  "gv_non_converged (pin_named_server_limit m g) = gv_non_converged g"
  "gv_manual_pending (pin_named_server_limit m g) = gv_manual_pending g"
  "gv_legacy (pin_named_server_limit m g) = gv_legacy g"
  by (simp_all add: pin_named_server_limit_def Let_def split: option.splits)

lemma governor_step_ok:
  assumes "governor_ok g"
  shows "governor_ok (snd (governor_step g op))"
  using assms
  by (cases op)
    (auto simp: governor_defs governor_ok_def Let_def split: option.splits if_splits
      reactor_event.splits)

interpretation governor_machine:
  invariant_machine "\<lambda>g op. snd (governor_step g op)" governor_ok
  by unfold_locales (rule governor_step_ok)

text \<open>
  Along every sequence of calls the governor issues at most two automatic folds in a row
  and at most two overflow recoveries, and reports a fold that did not converge only with the
  automatic folds used up.
\<close>

theorem governor_caps_hold:
  "governor_ok (foldl (\<lambda>g op. snd (governor_step g op))
     (create_compaction_governor legacy prompt tools windows) ops)"
  by (rule governor_machine.run_inv) (simp add: governor_ok_def create_compaction_governor_def)

section \<open>Automatic folding stops\<close>

definition relieved :: "governor \<Rightarrow> bool" where
  "relieved g = is_at_or_under_compact_threshold (gv_windows g) (measured_tokens g) (gv_model g)
                  (gv_reserved g)"

lemma is_over_threshold_pending [simp]:
  "is_over_threshold (g\<lparr>gv_pending := b\<rparr>) = is_over_threshold g"
  by (simp add: is_over_threshold_def gv_reserved_def fun_eq_iff split: option.splits)

lemma note_inference_done_frame:
  fixes usage model turns g
  defines "g' \<equiv> note_inference_done usage model turns g"
  shows "measured_tokens g' = (if context_tokens_from_usage usage \<le> 0
           then es_tokens (estimate_sync turns (gv_estimate g)) else context_tokens_from_usage usage)"
    and "gv_windows g' = gv_windows g" and "gv_model g' = model"
    and "gv_manual_pending g' = gv_manual_pending g" and "gv_awaiting g' = False"
    and "gv_turn_count g' = length turns"
    and "gv_at_last_compact g' =
           (if gv_awaiting g then Some (measured_tokens g') else gv_at_last_compact g)"
    and "gv_pending g' = is_over_threshold g' (measured_tokens g')"
    and "\<not> relieved g' \<Longrightarrow> gv_overflow g' = gv_overflow g \<and>
           gv_consecutive g' = (if gv_awaiting g then 2 else gv_consecutive g)"
proof -
  let ?c = "if context_tokens_from_usage usage \<le> 0
           then es_tokens (estimate_sync turns (gv_estimate g)) else context_tokens_from_usage usage"
  show m: "measured_tokens g' = ?c"
    unfolding g'_def
    by (simp add: note_inference_done_def Let_def sync_from_turns_def measured_tokens_def gv_tokens_def)
  show w: "gv_windows g' = gv_windows g" "gv_model g' = model"
    "gv_manual_pending g' = gv_manual_pending g" "gv_awaiting g' = False"
    "gv_turn_count g' = length turns"
    unfolding g'_def by (simp_all add: note_inference_done_def Let_def sync_from_turns_def)
  show "gv_at_last_compact g' =
           (if gv_awaiting g then Some (measured_tokens g') else gv_at_last_compact g)"
    unfolding m unfolding g'_def
    by (simp add: note_inference_done_def Let_def sync_from_turns_def gv_tokens_def)
  show "gv_pending g' = is_over_threshold g' (measured_tokens g')"
    unfolding m unfolding g'_def
    by (simp add: note_inference_done_def Let_def sync_from_turns_def gv_tokens_def)
  assume "\<not> relieved g'"
  then have "\<not> is_at_or_under_compact_threshold (gv_windows g) ?c model
      (reserved_max_tokens_for (gv_windows g) model)"
    by (simp add: relieved_def m w gv_reserved_def)
  then show "gv_overflow g' = gv_overflow g \<and>
      gv_consecutive g' = (if gv_awaiting g then 2 else gv_consecutive g)"
    unfolding g'_def
    by (cases "context_tokens_from_usage usage \<le> 0") (simp_all add: note_inference_done_def Let_def sync_from_turns_def gv_tokens_def gv_reserved_def
        max_consecutive_threshold_compacts_def)
qed

text \<open>A call spends from the caps what it issues, and keeps the operator's arming away.\<close>

definition spends :: "governor \<Rightarrow> reactor_action list option \<times> governor \<Rightarrow> bool" where
  "spends g r \<longleftrightarrow> \<not> gv_manual_pending (snd r) \<and>
     (if fst r = None then 0 else 1) + cap_budget (snd r) \<le> cap_budget g"

lemma spends_caps:
  "spends g (acts, g') \<longleftrightarrow> \<not> gv_manual_pending g' \<and>
     (if acts = None then 0 else 1) + (2 - gv_consecutive g') + (2 - gv_overflow g')
       \<le> (2 - gv_consecutive g) + (2 - gv_overflow g)"
  by (simp add: spends_def cap_budget_def)

lemma continuation_actions_frame [simp]:
  "gv_consecutive (snd (continuation_actions g)) = gv_consecutive g"
  "gv_overflow (snd (continuation_actions g)) = gv_overflow g"
  "gv_manual_pending (snd (continuation_actions g)) = gv_manual_pending g"
  by (simp_all add: continuation_actions_def)

lemma cap_spent: "\<not> 2 \<le> n \<Longrightarrow> Suc (Suc (2 - m) - n) \<le> Suc (Suc (2 - m)) - (n::nat)"
  by linarith

lemmas cap_defs =
  spends_caps issue_threshold_compact_def note_compact_issued_def clear_manual_arming_def
  mark_post_compact_def at_threshold_compact_cap_def max_consecutive_threshold_compacts_def
  max_overflow_recoveries_def Let_def case_prod_unfold cap_spent

lemma fold_budget_calls:
  assumes "\<not> gv_manual_pending g"
  shows "spends g (None, sync_from_turns turns g)" "spends g (None, snd (note_idle_turn event actions g))"
    "spends g (None, snd (resume_after_compact event g))" "spends g (None, note_kept_prior g)"
    "spends g (None, note_post_compact turns g)" "spends g (None, restore_extra_instructions value g)"
    "spends g (None, restore_cache_write source turns g)" "spends g (None, cancel_manual g)"
  using assms
  by (simp_all add: spends_caps sync_from_turns_def note_idle_turn_def resume_after_compact_def
      note_kept_prior_def note_post_compact_def restore_extra_instructions_def restore_cache_write_def
      cancel_manual_def Let_def split: option.splits)

lemma fold_budget_preflight:
  "\<not> gv_manual_pending g \<Longrightarrow> spends g (issue_overflow_preflight g)"
  by (simp add: issue_overflow_preflight_def cap_defs)

lemma fold_budget_intercept:
  "\<not> gv_manual_pending g \<Longrightarrow> spends g (intercept_actions event actions g)"
  by (simp add: intercept_actions_def cap_defs)

lemma fold_budget_idle:
  "\<not> gv_manual_pending g \<Longrightarrow> spends g (intercept_idle_continuation event g)"
  by (simp add: intercept_idle_continuation_def issue_idle_fold_def cap_defs)

lemma fold_budget_overflow:
  "\<not> gv_manual_pending g \<Longrightarrow> spends g (intercept_overflow event g)"
  by (cases event) (simp_all add: intercept_overflow_def cap_defs)

lemma fold_budget:
  assumes "governor_ok g" "\<not> gv_manual_pending g" "\<not> operator_request op"
    and "measures op \<Longrightarrow> \<not> relieved (snd (governor_step g op))"
  shows "spends g (governor_step g op)"
proof (cases "measures op")
  case True
  then obtain usage model turns where "op = OpInferenceDone usage model turns"
    by (cases op) simp_all
  then show ?thesis
    using assms note_inference_done_frame [of usage model turns g]
    by (auto simp: spends_caps)
next
  case False
  then show ?thesis
    using assms(1,2,3)
    by (cases op)
      (simp_all add: fold_budget_calls fold_budget_preflight fold_budget_intercept fold_budget_idle
        fold_budget_overflow)
qed

text \<open>The number of compactions a sequence of calls returned.\<close>

fun folds_issued :: "governor \<Rightarrow> governor_op list \<Rightarrow> nat" where
  "folds_issued g [] = 0"
| "folds_issued g (op # ops) =
     (if fst (governor_step g op) = None then 0 else 1) + folds_issued (snd (governor_step g op)) ops"

text \<open>No call is an operator's request, and no measurement finds the usage back at the threshold.\<close>

fun unrelieved :: "governor \<Rightarrow> governor_op list \<Rightarrow> bool" where
  "unrelieved g [] = True"
| "unrelieved g (op # ops) =
     (\<not> operator_request op \<and> \<not> (measures op \<and> relieved (snd (governor_step g op))) \<and>
      unrelieved (snd (governor_step g op)) ops)"

lemma unrelieved_folds:
  "governor_ok g \<Longrightarrow> \<not> gv_manual_pending g \<Longrightarrow> unrelieved g ops \<Longrightarrow> folds_issued g ops \<le> cap_budget g"
proof (induction ops arbitrary: g)
  case (Cons op ops)
  let ?g = "snd (governor_step g op)"
  have step: "\<not> gv_manual_pending ?g"
    "(if fst (governor_step g op) = None then 0 else 1) + cap_budget ?g \<le> cap_budget g"
    using fold_budget [of g op] Cons.prems by (simp_all add: spends_def)
  moreover have "folds_issued ?g ops \<le> cap_budget ?g"
    using Cons.IH [OF governor_step_ok [OF Cons.prems(1)] step(1)] Cons.prems(3) by simp
  ultimately show ?case by simp
qed simp

text \<open>
  C12: a history that folding cannot shrink is not folded forever. From any state without an
  operator's request pending, while no measurement finds the usage back at the threshold, the
  governor issues at most the folds left under its two caps, and never more than four.
\<close>

theorem automatic_folds_bounded:
  assumes "governor_ok g" and "\<not> gv_manual_pending g" and "unrelieved g ops"
  shows "folds_issued g ops \<le> (2 - gv_consecutive g) + (2 - gv_overflow g) \<and> folds_issued g ops \<le> 4"
  using unrelieved_folds [OF assms] by (simp add: cap_budget_def)

definition overflow_event :: reactor_event where
  "overflow_event = InferenceError ContextOverflow None"

theorem automatic_folds_bounded_witness:
  "folds_issued (create_compaction_governor False [] [] initial_windows)
     [OpOverflow overflow_event, OpOverflow overflow_event, OpOverflow overflow_event] \<le> 4 \<and>
   folds_issued (create_compaction_governor False [] [] initial_windows)
     [OpOverflow overflow_event, OpOverflow overflow_event, OpOverflow overflow_event] = 2"
proof -
  let ?g = "create_compaction_governor False [] [] initial_windows"
  let ?ops = "[OpOverflow overflow_event, OpOverflow overflow_event, OpOverflow overflow_event]"
  have "governor_ok ?g" "\<not> gv_manual_pending ?g"
    by (simp_all add: governor_ok_def create_compaction_governor_def)
  moreover have "unrelieved ?g ?ops" by simp
  moreover have "folds_issued ?g ?ops = 2" by code_simp
  ultimately show ?thesis using automatic_folds_bounded [of ?g ?ops] by blast
qed

section \<open>The growth latch\<close>

text \<open>
  After a fold the next measurement only takes the new level and arms nothing, and no
  later measurement of the same model arms an automatic fold before the usage has grown a
  fifth of the window past that level.
\<close>

theorem growth_latch:
  assumes "gv_awaiting g" and "5 \<le> window_or_default (gv_windows g) model"
  shows "\<not> gv_pending (note_inference_done usage model turns g) \<and>
    gv_at_last_compact (note_inference_done usage model turns g) =
      Some (measured_tokens (note_inference_done usage model turns g)) \<and>
    \<not> (gv_pending (note_inference_done usage2 model turns2 (note_inference_done usage model turns g)) \<and>
       measured_tokens (note_inference_done usage2 model turns2 (note_inference_done usage model turns g)) <
         measured_tokens (note_inference_done usage model turns g) +
         window_or_default (gv_windows g) model div 5)"
proof -
  let ?g1 = "note_inference_done usage model turns g"
  let ?g2 = "note_inference_done usage2 model turns2 ?g1"
  note f1 = note_inference_done_frame [of usage model turns g]
  note f2 = note_inference_done_frame [of usage2 model turns2 ?g1]
  have at1: "gv_at_last_compact ?g1 = Some (measured_tokens ?g1)" using f1(7) assms(1) by simp
  have w1: "gv_windows ?g1 = gv_windows g" "gv_model ?g1 = model" by (rule f1)+
  have "0 < window_or_default (gv_windows g) model div 5"
    using assms(2) by (simp add: pos_imp_zdiv_pos_iff)
  then have "\<not> gv_pending ?g1"
    unfolding f1(8) using at1 w1
    by (simp add: is_over_threshold_def has_wide_resume_gap_def compaction_wide_resume_delta_for_def)
  moreover have "gv_at_last_compact ?g2 = Some (measured_tokens ?g1)"
    using f2(7) f1(5) at1 by simp
  then have "gv_pending ?g2 \<Longrightarrow> measured_tokens ?g1 + window_or_default (gv_windows g) model div 5
      \<le> measured_tokens ?g2"
    unfolding f2(8)
    by (simp add: is_over_threshold_def has_wide_resume_gap_def f2 w1
        compaction_wide_resume_delta_for_def split: if_splits)
  ultimately show ?thesis using at1 by linarith
qed

theorem growth_latch_witness:
  "\<not> gv_pending (note_inference_done (Some \<lparr>tu_input = 90000, tu_cache_read = 0, tu_cache_write = 0\<rparr>) None
       [text_turn 0 ''a'', text_turn 1 ''b'']
       (note_compact_issued (create_compaction_governor False [] [] initial_windows)))"
  using growth_latch [of "note_compact_issued (create_compaction_governor False [] [] initial_windows)" None]
  by (simp add: note_compact_issued_def create_compaction_governor_def window_or_default_def
      default_context_window_def)

section \<open>Cancelling a handoff\<close>

text \<open>
  Cancelling a handoff whose pivot was not delivered puts back the guidance and the idle
  arming of before, also when the handoff was requested twice, and leaves a pending automatic
  fold pending.
\<close>

theorem cancel_restores_before_handoff:
  assumes "\<not> gv_manual_pending g"
  shows "(let back = cancel_manual (snd (request_handoff again (snd (request_handoff instructions g))))
          in gv_extra back = gv_extra g \<and> gv_idle_pending back = gv_idle_pending g \<and>
             gv_manual_pending back = gv_manual_pending g \<and> gv_pending back = gv_pending g) \<and>
         (let back = cancel_manual (snd (request_handoff instructions g))
          in gv_extra back = gv_extra g \<and> gv_idle_pending back = gv_idle_pending g \<and>
             gv_manual_pending back = gv_manual_pending g \<and> gv_pending back = gv_pending g)"
  using assms
  by (simp add: request_handoff_def cancel_manual_def clear_manual_arming_def Let_def)

definition two_turns_governor :: governor where
  "two_turns_governor =
     sync_from_turns [text_turn 0 ''a'', text_turn 1 ''b'']
       (create_compaction_governor False [] [] initial_windows)"

theorem cancel_restores_before_handoff_witness:
  "gv_extra (cancel_manual (snd (request_handoff ''pivot'' two_turns_governor))) = None"
  using cancel_restores_before_handoff [of two_turns_governor _ "''pivot''"]
  by (simp add: Let_def two_turns_governor_def sync_from_turns_def create_compaction_governor_def)

text \<open>
  A handoff requested while an operator's \<open>/compact\<close> is still armed takes no snapshot, so
  cancelling it restores the snapshot of an earlier handoff, here none: the instructions of the
  \<open>/compact\<close> and its arming are gone.
\<close>

theorem cancel_drops_armed_compact:
  "gv_extra (snd (request_manual ''keep tests'' True None two_turns_governor)) = Some ''keep tests'' \<and>
   gv_manual_pending (snd (request_manual ''keep tests'' True None two_turns_governor)) \<and>
   gv_extra (cancel_manual (snd (request_handoff ''pivot''
     (snd (request_manual ''keep tests'' True None two_turns_governor))))) = None \<and>
   \<not> gv_manual_pending (cancel_manual (snd (request_handoff ''pivot''
     (snd (request_manual ''keep tests'' True None two_turns_governor)))))"
  by code_simp

end
