(* ===== verification/ToolNames.thy ===== *)
theory ToolNames
  imports JsPrelude
begin

text \<open>
  The names of a tool: the engine id it is registered under, the wire name a model family is
  shown, the hidden aliases still accepted (\<open>src/agent/tool-aliases.ts\<close>), the canonical name
  every consumer keys on and what a stored grant covers
  (\<open>src/agent/canonical-tool-name.ts\<close>), and the tools a recovery may replay
  (\<open>src/agent/tool-classification.ts\<close>). The tables are association lists; the members every
  JavaScript object inherits (\<open>constructor\<close> and its like) are not modelled.
\<close>

section \<open>Tables\<close>

datatype tool_profile = DefaultProfile | GptProfile

definition default_engine_to_wire :: "(string \<times> string) list" where
  "default_engine_to_wire =
     [(''read_file'', ''read''), (''write_file'', ''write''), (''edit_file'', ''edit''),
      (''delete_file'', ''delete''), (''run_shell'', ''bash''), (''search_files'', ''glob''),
      (''manage_tasks'', ''todowrite''), (''use_skill'', ''skill''), (''web_fetch'', ''webfetch''),
      (''web_search'', ''websearch''), (''ask_operator'', ''question'')]"

definition gpt_overrides :: "(string \<times> string) list" where
  "gpt_overrides =
     [(''run_shell'', ''shell''), (''manage_tasks'', ''update_plan''), (''wait_agents'', ''wait'')]"

text \<open>An object spread: later members replace earlier ones in place.\<close>

definition obj_spread :: "(string \<times> 'a) list \<Rightarrow> (string \<times> 'a) list \<Rightarrow> (string \<times> 'a) list" where
  "obj_spread a b = foldl (\<lambda>m (k, v). AList.update k v m) a b"

fun engine_to_wire_by_profile :: "tool_profile \<Rightarrow> (string \<times> string) list" where
  "engine_to_wire_by_profile DefaultProfile = default_engine_to_wire"
| "engine_to_wire_by_profile GptProfile = obj_spread default_engine_to_wire gpt_overrides"

fun profile_folds :: "tool_profile \<Rightarrow> (string \<times> string list) option" where
  "profile_folds DefaultProfile = None"
| "profile_folds GptProfile = Some (''apply_patch'', [''write_file'', ''edit_file'', ''delete_file''])"

definition tool_profiles :: "tool_profile list" where
  "tool_profiles = [DefaultProfile, GptProfile]"

text \<open>\<open>Object.fromEntries\<close> of the swapped entries; a repeated wire keeps its last engine.\<close>

definition swap_entries :: "(string \<times> string) list \<Rightarrow> (string \<times> string) list" where
  "swap_entries m = foldl (\<lambda>acc (engine, wire). AList.update wire engine acc) [] m"

definition wire_to_engine :: "(string \<times> string) list" where
  "wire_to_engine = swap_entries default_engine_to_wire"

definition hidden_to_engine :: "(string \<times> string) list" where
  "hidden_to_engine = swap_entries gpt_overrides"

definition alias_to_engine :: "(string \<times> string) list" where
  "alias_to_engine = obj_spread wire_to_engine hidden_to_engine"

section \<open>From a requested name to the engine id\<close>

definition engine_tool_name :: "string \<Rightarrow> string" where
  "engine_tool_name requested =
     (case map_of alias_to_engine requested of
        Some e \<Rightarrow> e
      | None \<Rightarrow>
          (case map_of alias_to_engine (to_lower requested) of Some e \<Rightarrow> e | None \<Rightarrow> requested))"

definition undoubled_name :: "string \<Rightarrow> string option" where
  "undoubled_name requested =
     (if length requested < 3 \<or> even (length requested) then None
      else (let name = take ((length requested - 1) div 2) requested
            in if requested \<noteq> name @ ''.'' @ name then None else Some name))"

definition default_prefix :: string where
  "default_prefix = ''default.''"

definition strip_default :: "string \<Rightarrow> string" where
  "strip_default requested =
     (if starts_with requested default_prefix \<and> drop (length default_prefix) requested \<noteq> []
      then drop (length default_prefix) requested else requested)"

definition base_tool_name :: "string \<Rightarrow> string" where
  "base_tool_name requested =
     (case undoubled_name (strip_default requested) of
        Some n \<Rightarrow> n | None \<Rightarrow> strip_default requested)"

definition canonical_tool_name :: "string \<Rightarrow> string" where
  "canonical_tool_name requested = engine_tool_name (base_tool_name requested)"

definition is_same_tool :: "string \<Rightarrow> string \<Rightarrow> bool" where
  "is_same_tool a b \<longleftrightarrow> canonical_tool_name a = canonical_tool_name b"

definition grant_tool_covers :: "string \<Rightarrow> string \<Rightarrow> bool" where
  "grant_tool_covers storedTool requestTool =
     (let storedBase = base_tool_name storedTool; requestBase = base_tool_name requestTool
      in if engine_tool_name storedBase \<noteq> engine_tool_name requestBase then False
         else if to_lower storedBase = ''update_plan'' \<and> to_lower requestBase \<noteq> ''update_plan''
         then False
         else True)"

definition canonical_grant_tool :: "string \<Rightarrow> string option" where
  "canonical_grant_tool storedTool =
     (let base = base_tool_name storedTool
      in if to_lower base = ''update_plan'' then None else Some (engine_tool_name base))"

section \<open>From an engine id to the names a profile advertises\<close>

definition advertised_tool_name :: "string \<Rightarrow> tool_profile \<Rightarrow> string" where
  "advertised_tool_name engine profile =
     (case map_of (engine_to_wire_by_profile profile) engine of Some w \<Rightarrow> w | None \<Rightarrow> engine)"

definition profile_wire_name :: "string \<Rightarrow> tool_profile \<Rightarrow> string" where
  "profile_wire_name engine profile =
     (case profile_folds profile of
        Some (wire, engines) \<Rightarrow>
          if List.member engines engine then wire else advertised_tool_name engine profile
      | None \<Rightarrow> advertised_tool_name engine profile)"

definition advertised_names_for_engine :: "string \<Rightarrow> string list" where
  "advertised_names_for_engine engine =
     foldl (\<lambda>names profile. jset_add (profile_wire_name engine profile) names) [] tool_profiles"

definition add_wire_engine ::
    "(string \<times> string list) list \<Rightarrow> string \<times> string \<Rightarrow> (string \<times> string list) list" where
  "add_wire_engine m ew =
     (case ew of (engine, wire) \<Rightarrow>
        (case map_of m wire of
           None \<Rightarrow> AList.update wire [engine] m
         | Some es \<Rightarrow> AList.update wire (es @ [engine]) m))"

definition build_advertised_wire_engines :: "tool_profile \<Rightarrow> (string \<times> string list) list" where
  "build_advertised_wire_engines profile =
     (let folded = (case profile_folds profile of Some (_, es) \<Rightarrow> es | None \<Rightarrow> []);
          m = foldl add_wire_engine []
                (filter (\<lambda>(engine, _). \<not> List.member folded engine)
                  (engine_to_wire_by_profile profile))
      in (case profile_folds profile of
            Some (wire, es) \<Rightarrow> AList.update wire es m | None \<Rightarrow> m))"

definition advertised_wire_engines :: "tool_profile \<Rightarrow> (string \<times> string list) list" where
  "advertised_wire_engines profile = build_advertised_wire_engines profile"

definition engines_for_advertised_wire :: "string \<Rightarrow> tool_profile \<Rightarrow> string list option" where
  "engines_for_advertised_wire wire profile =
     (let table = advertised_wire_engines profile
      in (case map_of table wire of
            Some es \<Rightarrow> Some es | None \<Rightarrow> map_of table (to_lower wire)))"

text \<open>The file tools of a list give way to the wire that folds them, at the first one's place.\<close>

fun fold_names_from :: "(string \<Rightarrow> bool) \<Rightarrow> string \<Rightarrow> bool \<Rightarrow> string list \<Rightarrow> string list" where
  "fold_names_from folded wire seen [] = []"
| "fold_names_from folded wire seen (n # ns) =
     (if folded n then (if seen then [] else [wire]) @ fold_names_from folded wire True ns
      else n # fold_names_from folded wire seen ns)"

definition fold_file_tool_names :: "string list \<Rightarrow> tool_profile \<Rightarrow> string list" where
  "fold_file_tool_names names profile =
     (case profile_folds profile of
        None \<Rightarrow> names
      | Some (wire, engines) \<Rightarrow>
          (let folded = (\<lambda>name. List.member engines (engine_tool_name name))
           in if \<not> list_ex folded names then names else fold_names_from folded wire False names))"

definition name_matches_advertised_listing ::
    "string \<Rightarrow> (string \<Rightarrow> bool) \<Rightarrow> tool_profile \<Rightarrow> bool" where
  "name_matches_advertised_listing name isListed profile =
     (let engine = engine_tool_name name;
          wires = (if profile = DefaultProfile then [profile_wire_name engine profile]
                   else [profile_wire_name engine profile, profile_wire_name engine DefaultProfile])
      in isListed name \<or> (engine \<noteq> name \<and> isListed engine) \<or>
         list_ex (\<lambda>wire. wire \<noteq> name \<and> isListed wire) wires)"

section \<open>Replay-safe tools\<close>

definition path_keyed_read_tools :: "string list" where
  "path_keyed_read_tools = [''read_file'']"

definition search_query_tools :: "string list" where
  "search_query_tools = [''grep'', ''search_files'']"

definition replay_safe_tools :: "string list" where
  "replay_safe_tools = path_keyed_read_tools @ search_query_tools @ [''web_fetch'', ''web_search'']"

definition is_replay_safe_tool_name :: "string \<Rightarrow> bool" where
  "is_replay_safe_tool_name name \<longleftrightarrow> List.member replay_safe_tools (canonical_tool_name name)"

section \<open>Lemmas\<close>

lemma alias_table:
  "alias_to_engine =
     [(''read'', ''read_file''), (''write'', ''write_file''), (''edit'', ''edit_file''),
      (''delete'', ''delete_file''), (''bash'', ''run_shell''), (''glob'', ''search_files''),
      (''todowrite'', ''manage_tasks''), (''skill'', ''use_skill''), (''webfetch'', ''web_fetch''),
      (''websearch'', ''web_search''), (''question'', ''ask_operator''), (''shell'', ''run_shell''),
      (''update_plan'', ''manage_tasks''), (''wait'', ''wait_agents'')]"
  by code_simp

lemma alias_targets_fixed: "list_all (\<lambda>(_, e). engine_tool_name e = e) alias_to_engine"
  by code_simp

lemma engine_tool_name_idem: "engine_tool_name (engine_tool_name x) = engine_tool_name x"
proof -
  have fixed: "engine_tool_name e = e" if "map_of alias_to_engine k = Some e" for k e
    using alias_targets_fixed map_of_SomeD [OF that] by (auto simp: list_all_iff)
  show ?thesis
  proof (cases "map_of alias_to_engine x")
    case (Some e)
    then show ?thesis using fixed by (simp add: engine_tool_name_def)
  next
    case None
    then show ?thesis
      using fixed [of "to_lower x"] by (cases "map_of alias_to_engine (to_lower x)") (simp_all add: engine_tool_name_def)
  qed
qed

lemma advertised_back:
  "map_of (engine_to_wire_by_profile p) e = Some w \<Longrightarrow> engine_tool_name w = e"
proof -
  assume m: "map_of (engine_to_wire_by_profile p) e = Some w"
  have "list_all (\<lambda>p. list_all (\<lambda>(e, w). engine_tool_name w = e) (engine_to_wire_by_profile p))
          [DefaultProfile, GptProfile]"
    by code_simp
  then show ?thesis using map_of_SomeD [OF m] by (cases p) (auto simp: list_all_iff)
qed

text \<open>
  Names round-trip through every profile. Resolving a name is idempotent; the name a
  profile advertises for an engine id resolves back to it whichever profile is active; and
  each name a profile's table holds dispatches to the engines of its row, so that no family is
  shown a name that reaches another tool.
\<close>

theorem advertised_names_round_trip:
  "engine_tool_name (engine_tool_name x) = engine_tool_name x \<and>
   engine_tool_name (advertised_tool_name (engine_tool_name x) p) = engine_tool_name x \<and>
   set (map (\<lambda>(wire, engines). (wire = ''apply_patch'' \<and> p = GptProfile) \<or>
      engines = [engine_tool_name wire]) (advertised_wire_engines p)) \<subseteq> {True}"
proof -
  have "engine_tool_name (advertised_tool_name (engine_tool_name x) p) = engine_tool_name x"
    using advertised_back [of p "engine_tool_name x"]
    by (auto simp: advertised_tool_name_def engine_tool_name_idem split: option.splits)
  moreover have "list_all (\<lambda>p. list_all (\<lambda>(wire, engines).
      (wire = ''apply_patch'' \<and> p = GptProfile) \<or> engines = [engine_tool_name wire])
      (advertised_wire_engines p)) [DefaultProfile, GptProfile]"
    by code_simp
  then have "set (map (\<lambda>(wire, engines). (wire = ''apply_patch'' \<and> p = GptProfile) \<or>
      engines = [engine_tool_name wire]) (advertised_wire_engines p)) \<subseteq> {True}"
    by (cases p) (auto simp: list_all_iff)
  ultimately show ?thesis by (simp add: engine_tool_name_idem)
qed

text \<open>
  A grant never covers more than its own tool. Coverage holds exactly between names of
  one canonical tool, except that a plan grant covers only plan requests; it is reflexive and
  transitive, so no chain of aliases widens a grant; and the key a grant is stored under never
  stands for a plan grant.
\<close>

theorem grants_never_widen:
  "(grant_tool_covers a b \<longleftrightarrow>
      is_same_tool a b \<and> \<not> (to_lower (base_tool_name a) = ''update_plan'' \<and>
        to_lower (base_tool_name b) \<noteq> ''update_plan'')) \<and>
   grant_tool_covers a a \<and>
   \<not> (grant_tool_covers a b \<and> grant_tool_covers b c \<and> \<not> grant_tool_covers a c) \<and>
   \<not> (canonical_grant_tool a \<noteq> None \<and> to_lower (base_tool_name a) = ''update_plan'') \<and>
   set_option (canonical_grant_tool a) \<subseteq> {canonical_tool_name a}"
  by (auto simp: grant_tool_covers_def is_same_tool_def canonical_tool_name_def
      canonical_grant_tool_def Let_def)

end
