(* ===== verification/CompactorTail.thy ===== *)
theory CompactorTail
  imports ContextEstimate ToolNames "HOL-Library.List_Lexorder" "HOL-Library.Char_ord"
begin

text \<open>
  What the compactor (\<open>src/session/compactor.ts\<close>) computes about a conversation before it folds it:
  the index of tool calls, which results a later read of the same thing supersedes, which turns a
  call and its result tie together, the excerpts of long outputs, and the tail of turns kept live
  within a token budget. Arguments of a call are an object, as their type says; the branches for
  arguments that are a string or an array are left out. A turn that is copied with other contents
  keeps its \<open>ct_ref\<close>, which the compactor never compares.
\<close>

section \<open>Shape and constants\<close>

record compaction_shape =
  sh_tail_budget_tokens :: int
  sh_max_tail_tool_output_chars :: nat
  sh_excerpt_head :: bool
  sh_excerpt_tail :: bool
  sh_preserve_whole_user_messages :: bool
  sh_pair_safe :: bool

definition default_tail_compaction_shape :: compaction_shape where
  "default_tail_compaction_shape =
     \<lparr>sh_tail_budget_tokens = 2500, sh_max_tail_tool_output_chars = 2048, sh_excerpt_head = True,
      sh_excerpt_tail = True, sh_preserve_whole_user_messages = True, sh_pair_safe = True\<rparr>"

definition compacted_prefix :: string where
  "compacted_prefix = ''[Compacted prior context]''"

definition harness_compact_spacer_model :: string where
  "harness_compact_spacer_model = ''harness''"

definition thinking_only_omitted :: string where
  "thinking_only_omitted = ''[thinking-only turn omitted]''"

definition query_tools :: "string list" where
  "query_tools = search_query_tools @ [''list_dir'']"

definition is_replayable_result_tool :: "string \<Rightarrow> bool" where
  "is_replayable_result_tool name \<longleftrightarrow> name \<in> set path_keyed_read_tools \<or> name \<in> set query_tools"

text \<open>U+2192, above the modelled code units, is written as a C1 code unit of its own.\<close>

abbreviation nul :: char where "nul \<equiv> CHR 0x00"
abbreviation right_arrow :: char where "right_arrow \<equiv> CHR 0x8D"

section \<open>The identity of a call\<close>

record tool_call_info =
  ci_name :: string
  ci_path_arg :: "string option"
  ci_read_key :: "string option"

fun scalar_arg :: "json option \<Rightarrow> string" where
  "scalar_arg (Some (JInt n)) = dec_int n"
| "scalar_arg (Some (JNonInt s)) = s"
| "scalar_arg (Some (JStr s)) = s"
| "scalar_arg _ = []"

definition read_identity_from_arguments :: "(string \<times> json) list \<Rightarrow> (string \<times> string) option" where
  "read_identity_from_arguments args =
     (case jfield args ''path'' of
        Some (JStr path) \<Rightarrow>
          if path = [] then None
          else (let offset = scalar_arg (jfield args ''offset''); limit = scalar_arg (jfield args ''limit'')
                in Some (path, if offset = [] \<and> limit = [] then path
                               else path @ [nul] @ offset @ [nul] @ limit))
      | _ \<Rightarrow> None)"

fun stable_stringify :: "json \<Rightarrow> string" where
  "stable_stringify (JArr xs) = ''['' @ join '','' (map stable_stringify xs) @ '']''"
| "stable_stringify (JObj kvs) =
     ''{'' @ join '','' (map (\<lambda>(k, s). json_quote k @ '':'' @ s)
       (sort_key fst (map (\<lambda>(k, v). (k, stable_stringify v)) kvs))) @ ''}''"
| "stable_stringify v = json_stringify v"

definition query_identity_from_arguments :: "string \<Rightarrow> (string \<times> json) list \<Rightarrow> string" where
  "query_identity_from_arguments name args = name @ [nul] @ stable_stringify (JObj args)"

definition tool_call_info_for :: "string \<Rightarrow> (string \<times> json) list \<Rightarrow> tool_call_info" where
  "tool_call_info_for name args =
     (let ident = read_identity_from_arguments args
      in \<lparr>ci_name = canonical_tool_name name, ci_path_arg = map_option fst ident,
          ci_read_key = (if name \<in> set query_tools then Some (query_identity_from_arguments name args)
                         else map_option snd ident)\<rparr>)"

type_synonym call_index = "(string \<times> tool_call_info) list"

definition blocks_of :: "conversation_turn list \<Rightarrow> content_block list" where
  "blocks_of turns = concat (map ct_content turns)"

definition build_call_index :: "conversation_turn list \<Rightarrow> call_index" where
  "build_call_index turns =
     foldl (\<lambda>index block. case block of
         ToolCallBlock i name args \<Rightarrow> AList.update i (tool_call_info_for name args) index
       | _ \<Rightarrow> index) [] (blocks_of turns)"

section \<open>Superseded reads\<close>

record path_read =
  pr_call_id :: string
  pr_order :: nat
  pr_is_error :: bool

type_synonym path_reads = "(string \<times> path_read list) list"

text \<open>The key a result is filed under, when it is a replayable one.\<close>

definition result_key :: "call_index \<Rightarrow> string \<Rightarrow> string option" where
  "result_key index call =
     (case map_of index call of
        None \<Rightarrow> None
      | Some info \<Rightarrow> if is_replayable_result_tool (ci_name info) then ci_read_key info else None)"

definition note_read :: "call_index \<Rightarrow> path_reads \<times> nat \<Rightarrow> content_block \<Rightarrow> path_reads \<times> nat" where
  "note_read index st block =
     (case block of
        ToolResultBlock call parts is_error \<Rightarrow>
          (case result_key index call of
             None \<Rightarrow> st
           | Some key \<Rightarrow>
               (let entry = \<lparr>pr_call_id = call, pr_order = snd st, pr_is_error = is_error\<rparr>
                in (case map_of (fst st) key of
                      None \<Rightarrow> AList.update key [entry] (fst st)
                    | Some reads \<Rightarrow> AList.update key (reads @ [entry]) (fst st),
                    Suc (snd st))))
      | _ \<Rightarrow> st)"

definition build_path_to_reads :: "conversation_turn list \<Rightarrow> call_index \<Rightarrow> path_reads" where
  "build_path_to_reads turns index = fst (foldl (note_read index) ([], 0) (blocks_of turns))"

definition superseded_read_call_ids :: "path_reads \<Rightarrow> string list" where
  "superseded_read_call_ids reads =
     concat (map (\<lambda>(key, rs).
       let successes = filter (\<lambda>r. \<not> pr_is_error r) rs
       in if length successes < 2 then [] else map pr_call_id (butlast successes)) reads)"

fun result_content_size :: "content_block list \<Rightarrow> nat" where
  "result_content_size [] = 0"
| "result_content_size (TextBlock text # rest) = length text + result_content_size rest"
| "result_content_size (_ # rest) = result_content_size rest"

definition build_result_stub :: "call_index \<Rightarrow> string \<Rightarrow> content_block list \<Rightarrow> string" where
  "build_result_stub index call parts =
     (let info = map_of index call;
          name = (case info of None \<Rightarrow> ''tool_result'' | Some i \<Rightarrow> ci_name i);
          size = dec (result_content_size parts)
      in case (case info of None \<Rightarrow> None | Some i \<Rightarrow> ci_path_arg i) of
           Some path \<Rightarrow>
             ''['' @ name @ '' '' @ path @ '' '' @ em_dash @ '' '' @ size @
             '' chars omitted from context; source unchanged.'' @
             (if starts_with path ''tool-output://''
              then '' Re-read with read_file offset/limit or grep on that URI.'' else []) @ '']''
         | None \<Rightarrow> ''['' @ name @ '' '' @ em_dash @ '' '' @ size @ '' chars, omitted]'')"

definition stub_block :: "string list \<Rightarrow> call_index \<Rightarrow> content_block \<Rightarrow> content_block" where
  "stub_block superseded index block =
     (case block of
        ToolResultBlock call parts is_error \<Rightarrow>
          if call \<notin> set superseded then block
          else if is_error then block
          else ToolResultBlock call [TextBlock (build_result_stub index call parts)] is_error
      | _ \<Rightarrow> block)"

definition stub_superseded_reads ::
    "string list \<Rightarrow> call_index \<Rightarrow> conversation_turn \<Rightarrow> conversation_turn" where
  "stub_superseded_reads superseded index turn =
     (if superseded = [] then turn
      else turn\<lparr>ct_content := map (stub_block superseded index) (ct_content turn)\<rparr>)"

section \<open>Calls and their results\<close>

record pair_location =
  pl_call_idx :: "nat option"
  pl_result_idx :: "nat option"

type_synonym pair_index = "(string \<times> pair_location) list"

definition location_of :: "pair_index \<Rightarrow> string \<Rightarrow> pair_location" where
  "location_of pairs i =
     (case map_of pairs i of Some l \<Rightarrow> l | None \<Rightarrow> \<lparr>pl_call_idx = None, pl_result_idx = None\<rparr>)"

definition note_pair :: "pair_index \<Rightarrow> nat \<times> content_block \<Rightarrow> pair_index" where
  "note_pair pairs entry =
     (case entry of
        (idx, ToolCallBlock i name args) \<Rightarrow>
          AList.update i ((location_of pairs i)\<lparr>pl_call_idx := Some idx\<rparr>) pairs
      | (idx, ToolResultBlock i parts is_error) \<Rightarrow>
          AList.update i ((location_of pairs i)\<lparr>pl_result_idx := Some idx\<rparr>) pairs
      | _ \<Rightarrow> pairs)"

definition indexed_blocks :: "conversation_turn list \<Rightarrow> (nat \<times> content_block) list" where
  "indexed_blocks turns =
     concat (map (\<lambda>(idx, turn). map (\<lambda>block. (idx, block)) (ct_content turn)) (enumerate 0 turns))"

definition build_pair_index :: "conversation_turn list \<Rightarrow> pair_index" where
  "build_pair_index turns = foldl note_pair [] (indexed_blocks turns)"

type_synonym partner_index = "(nat \<times> nat list) list"

definition partners_of :: "partner_index \<Rightarrow> nat \<Rightarrow> nat list" where
  "partners_of index i = (case map_of index i of Some ps \<Rightarrow> ps | None \<Rightarrow> [])"

definition link_turns :: "nat \<Rightarrow> nat \<Rightarrow> partner_index \<Rightarrow> partner_index" where
  "link_turns a b index = AList.update a (partners_of index a @ [b]) index"

definition link_pair :: "partner_index \<Rightarrow> pair_location \<Rightarrow> partner_index" where
  "link_pair index l =
     (case (pl_call_idx l, pl_result_idx l) of
        (Some call, Some result) \<Rightarrow>
          if call = result then index else link_turns result call (link_turns call result index)
      | _ \<Rightarrow> index)"

definition build_partner_index :: "pair_index \<Rightarrow> partner_index" where
  "build_partner_index pairs = foldl link_pair [] (map snd pairs)"

section \<open>What kind of turn it is\<close>

fun is_tool_result_block :: "content_block \<Rightarrow> bool" where
  "is_tool_result_block (ToolResultBlock _ _ _) = True"
| "is_tool_result_block _ = False"

fun first_text_block :: "content_block list \<Rightarrow> string option" where
  "first_text_block [] = None"
| "first_text_block (TextBlock text # rest) = Some text"
| "first_text_block (_ # rest) = first_text_block rest"

definition carries_tool_result :: "conversation_turn \<Rightarrow> bool" where
  "carries_tool_result turn = list_ex is_tool_result_block (ct_content turn)"

definition is_plain_text_turn :: "conversation_turn \<Rightarrow> bool" where
  "is_plain_text_turn turn =
     (\<not> list_ex (\<lambda>b. is_tool_call_block b \<or> is_tool_result_block b) (ct_content turn))"

definition is_compacted_summary_turn :: "conversation_turn \<Rightarrow> bool" where
  "is_compacted_summary_turn turn =
     (if ct_role turn \<noteq> UserRole then False
      else (case first_text_block (ct_content turn) of
              None \<Rightarrow> False | Some text \<Rightarrow> starts_with text compacted_prefix))"

definition is_harness_compact_spacer :: "conversation_turn \<Rightarrow> bool" where
  "is_harness_compact_spacer turn =
     (if ct_role turn \<noteq> AssistantRole then False
      else (case first_text_block (ct_content turn) of
              None \<Rightarrow> False
            | Some text \<Rightarrow>
                if \<not> is_compact_spacer_sentinel text then False
                else if ct_model turn = Some harness_compact_spacer_model then True
                else ct_model turn = None \<and> text = legacy_compact_spacer_text))"

definition is_foldable_handoff_turn :: "conversation_turn \<Rightarrow> bool" where
  "is_foldable_handoff_turn turn = (is_compacted_summary_turn turn \<or> is_harness_compact_spacer turn)"

definition is_user_ask_turn :: "conversation_turn \<Rightarrow> bool" where
  "is_user_ask_turn turn =
     (ct_role turn = UserRole \<and> \<not> carries_tool_result turn \<and> \<not> is_foldable_handoff_turn turn)"

section \<open>Excerpts\<close>

definition tail_excerpt_sentinel :: string where
  "tail_excerpt_sentinel = ''[tail-shortened ''"

text \<open>\<open>/\[tail-shortened \d+\<close> followed by the arrow, searched for anywhere.\<close>

fun digits_then_arrow :: "bool \<Rightarrow> string \<Rightarrow> bool" where
  "digits_then_arrow seen [] = False"
| "digits_then_arrow seen (c # s) =
     (if is_digit c then digits_then_arrow True s else seen \<and> c = right_arrow)"

fun has_tail_excerpt_marker :: "string \<Rightarrow> bool" where
  "has_tail_excerpt_marker [] = False"
| "has_tail_excerpt_marker (c # s) =
     (starts_with (c # s) tail_excerpt_sentinel \<and>
        digits_then_arrow False (drop (length tail_excerpt_sentinel) (c # s)) \<or>
      has_tail_excerpt_marker s)"

definition excerpt_head_chars :: "compaction_shape \<Rightarrow> nat" where
  "excerpt_head_chars shape =
     (let n = sh_max_tail_tool_output_chars shape in if sh_excerpt_head shape then (n + 1) div 2 else n)"

definition excerpt_tail_chars :: "compaction_shape \<Rightarrow> nat" where
  "excerpt_tail_chars shape =
     (if sh_excerpt_tail shape then sh_max_tail_tool_output_chars shape div 2 else 0)"

definition excerpt_tail_text :: "compaction_shape \<Rightarrow> string \<Rightarrow> string \<times> bool" where
  "excerpt_tail_text shape text =
     (if length text \<le> sh_max_tail_tool_output_chars shape \<or> has_tail_excerpt_marker text then (text, False)
      else (let hd = take (excerpt_head_chars shape) text;
                tl = (if excerpt_tail_chars shape > 0
                      then drop (length text - excerpt_tail_chars shape) text else [])
            in (hd @ [newline] @ tail_excerpt_sentinel @ dec (length text) @ [right_arrow] @
                dec (length hd + length tl) @
                '' chars; full text remains in the archived transcript]'' @
                (if tl = [] then [] else newline # tl), True)))"

definition excerpt_part :: "compaction_shape \<Rightarrow> content_block \<Rightarrow> content_block \<times> nat" where
  "excerpt_part shape part =
     (case part of
        TextBlock text \<Rightarrow>
          (case excerpt_tail_text shape text of (text', shortened) \<Rightarrow> (TextBlock text', if shortened then 1 else 0))
      | _ \<Rightarrow> (part, 0))"

text \<open>One block of a tail turn: what is left of it, and how many of its texts were shortened.\<close>

definition excerpt_block :: "compaction_shape \<Rightarrow> bool \<Rightarrow> content_block \<Rightarrow> content_block list \<times> nat" where
  "excerpt_block shape keep_thinking block =
     (case block of
        ThinkingBlock s \<Rightarrow> (if keep_thinking then [block] else [], 0)
      | RedactedThinkingBlock s \<Rightarrow> (if keep_thinking then [block] else [], 0)
      | ToolResultBlock call parts is_error \<Rightarrow>
          if is_error then ([block], 0)
          else ([ToolResultBlock call (map (fst \<circ> excerpt_part shape) parts) is_error],
                sum_list (map (snd \<circ> excerpt_part shape) parts))
      | _ \<Rightarrow> ([block], 0))"

fun is_thinking_block :: "content_block \<Rightarrow> bool" where
  "is_thinking_block (ThinkingBlock _) = True"
| "is_thinking_block (RedactedThinkingBlock _) = True"
| "is_thinking_block _ = False"

record excerpt_result =
  er_turn :: conversation_turn
  er_shortened :: nat
  er_changed :: bool

definition excerpt_tail_turn :: "compaction_shape \<Rightarrow> bool \<Rightarrow> conversation_turn \<Rightarrow> excerpt_result" where
  "excerpt_tail_turn shape keep_thinking turn =
     (let blocks = map (excerpt_block shape keep_thinking) (ct_content turn);
          content = concat (map fst blocks);
          shortened = sum_list (map snd blocks);
          changed = (shortened > 0 \<or> \<not> keep_thinking \<and> list_ex is_thinking_block (ct_content turn));
          live = (if content = [] then [TextBlock thinking_only_omitted] else content)
      in \<lparr>er_turn = (if changed then turn\<lparr>ct_content := live\<rparr> else turn), er_shortened = shortened,
          er_changed = changed\<rparr>)"

section \<open>The live tail\<close>

fun last_assistant_tool_call_index :: "(nat \<times> conversation_turn) list \<Rightarrow> nat option" where
  "last_assistant_tool_call_index [] = None"
| "last_assistant_tool_call_index ((i, turn) # older) =
     (if ct_role turn \<noteq> AssistantRole then last_assistant_tool_call_index older
      else if list_ex is_tool_call_block (ct_content turn) then Some i else None)"

definition keep_thinking_at :: "conversation_turn list \<Rightarrow> nat option" where
  "keep_thinking_at turns = last_assistant_tool_call_index (rev (enumerate 0 turns))"

definition excerpt_for :: "compaction_shape \<Rightarrow> conversation_turn list \<Rightarrow> nat \<Rightarrow> conversation_turn \<Rightarrow> excerpt_result" where
  "excerpt_for shape turns idx turn = excerpt_tail_turn shape (Some idx = keep_thinking_at turns) turn"

text \<open>The walk over partners: the stack of turns whose partners are still to visit, and the closure,
  which holds what was seen.\<close>

definition visit_partner :: "nat list \<times> nat list \<Rightarrow> nat \<Rightarrow> nat list \<times> nat list" where
  "visit_partner st p = (case st of (queue, closure) \<Rightarrow>
     if p \<in> set closure then (queue, closure) else (p # queue, closure @ [p]))"

definition partner_turns :: "partner_index \<Rightarrow> nat set" where
  "partner_turns index = set (concat (map snd index))"

lemma partners_in_turns: "set (partners_of index i) \<subseteq> partner_turns index"
proof (cases "map_of index i")
  case (Some ps)
  then have "(i, ps) \<in> set index" by (rule map_of_SomeD)
  then show ?thesis using Some by (force simp: partners_of_def partner_turns_def)
qed (simp add: partners_of_def)

lemma visit_partners_measure:
  "set ps \<subseteq> T \<Longrightarrow> finite T \<Longrightarrow> foldl visit_partner (queue, closure) ps = (queue', closure') \<Longrightarrow>
    length queue' + 2 * card (T - set closure') \<le> length queue + 2 * card (T - set closure)"
proof (induction ps arbitrary: queue closure)
  case (Cons p ps)
  show ?case
  proof (cases "p \<in> set closure")
    case True
    then show ?thesis using Cons by (simp add: visit_partner_def)
  next
    case False
    have "T - set (closure @ [p]) = (T - set closure) - {p}" by auto
    then have "Suc (card (T - set (closure @ [p]))) = card (T - set closure)"
      using card_Suc_Diff1 [of "T - set closure" p] False Cons.prems(1,2) by simp
    then show ?thesis using Cons.IH [of "p # queue" "closure @ [p]"] Cons.prems False
      by (simp add: visit_partner_def)
  qed
qed simp

function closure_walk :: "partner_index \<Rightarrow> nat list \<Rightarrow> nat list \<Rightarrow> nat list" where
  "closure_walk index [] closure = closure"
| "closure_walk index (current # queue) closure =
     (case foldl visit_partner (queue, closure) (partners_of index current) of
        (queue', closure') \<Rightarrow> closure_walk index queue' closure')"
  by pat_completeness auto

termination
proof (relation "measure (\<lambda>(index, queue, closure). length queue + 2 * card (partner_turns index - set closure))",
    goal_cases)
  case (2 index current queue closure queue' closure')
  then have "length queue' + 2 * card (partner_turns index - set closure') \<le>
      length queue + 2 * card (partner_turns index - set closure)"
    by (intro visit_partners_measure [OF partners_in_turns]) (auto simp: partner_turns_def)
  then show ?case by simp
qed simp

definition tail_closure :: "partner_index \<Rightarrow> nat \<Rightarrow> nat list" where
  "tail_closure index i = closure_walk index [i] [i]"

definition is_interior_pair_gap :: "nat \<Rightarrow> partner_index \<Rightarrow> bool" where
  "is_interior_pair_gap idx index =
     list_ex (\<lambda>(a, partners). list_ex (\<lambda>b. min a b < idx \<and> idx < max a b) partners) index"

record tail_selection =
  tl_picked :: "nat list"
  tl_excerpted :: "(nat \<times> conversation_turn) list"
  tl_shortened :: nat
  tl_used :: int

definition pick_turn ::
    "compaction_shape \<Rightarrow> conversation_turn list \<Rightarrow> tail_selection \<Rightarrow> nat \<Rightarrow> tail_selection" where
  "pick_turn shape turns sel idx =
     (if idx \<in> set (tl_picked sel) then sel
      else (case js_at turns idx of
              None \<Rightarrow> sel
            | Some turn \<Rightarrow>
                if is_foldable_handoff_turn turn then sel
                else (let r = excerpt_for shape turns idx turn
                      in \<lparr>tl_picked = tl_picked sel @ [idx],
                          tl_excerpted = (if er_changed r then AList.update idx (er_turn r) (tl_excerpted sel)
                                          else tl_excerpted sel),
                          tl_shortened = tl_shortened sel + er_shortened r,
                          tl_used = tl_used sel + estimate_turn_tokens (er_turn r)\<rparr>)))"

fun pick_newest_ask ::
    "compaction_shape \<Rightarrow> conversation_turn list \<Rightarrow> partner_index \<Rightarrow> nat list \<Rightarrow> tail_selection \<Rightarrow> tail_selection" where
  "pick_newest_ask shape turns index [] sel = sel"
| "pick_newest_ask shape turns index (i # older) sel =
     (case js_at turns i of
        None \<Rightarrow> pick_newest_ask shape turns index older sel
      | Some turn \<Rightarrow>
          if is_foldable_handoff_turn turn then pick_newest_ask shape turns index older sel
          else if is_user_ask_turn turn \<and> \<not> is_interior_pair_gap i index then pick_turn shape turns sel i
          else sel)"

definition closure_tokens :: "compaction_shape \<Rightarrow> conversation_turn list \<Rightarrow> nat list \<Rightarrow> int" where
  "closure_tokens shape turns closure =
     foldl (\<lambda>tokens idx. case js_at turns idx of
         None \<Rightarrow> tokens
       | Some turn \<Rightarrow> if is_foldable_handoff_turn turn then tokens
                     else tokens + estimate_turn_tokens (er_turn (excerpt_for shape turns idx turn)))
       0 closure"

fun walk_tail ::
    "compaction_shape \<Rightarrow> conversation_turn list \<Rightarrow> partner_index \<Rightarrow> nat list \<Rightarrow> tail_selection \<Rightarrow> tail_selection" where
  "walk_tail shape turns index [] sel = sel"
| "walk_tail shape turns index (i # older) sel =
     (if i \<in> set (tl_picked sel) then walk_tail shape turns index older sel
      else (case js_at turns i of
              None \<Rightarrow> walk_tail shape turns index older sel
            | Some turn \<Rightarrow>
                if is_foldable_handoff_turn turn then walk_tail shape turns index older sel
                else (let closure = filter (\<lambda>idx. idx \<notin> set (tl_picked sel))
                            (if sh_pair_safe shape then tail_closure index i else [i])
                      in if tl_picked sel \<noteq> [] \<and>
                            tl_used sel + closure_tokens shape turns closure > sh_tail_budget_tokens shape
                         then sel
                         else (let sel1 = foldl (pick_turn shape turns) sel closure
                               in if tl_used sel1 > sh_tail_budget_tokens shape then sel1
                                  else walk_tail shape turns index older sel1))))"

definition select_tail ::
    "compaction_shape \<Rightarrow> conversation_turn list \<Rightarrow> partner_index \<Rightarrow> tail_selection" where
  "select_tail shape turns index =
     (let newest_first = rev [0..<length turns];
          start = \<lparr>tl_picked = [], tl_excerpted = [], tl_shortened = 0, tl_used = 0\<rparr>
      in walk_tail shape turns index newest_first
           (if sh_preserve_whole_user_messages shape then pick_newest_ask shape turns index newest_first start
            else start))"

definition tail_of :: "compaction_shape \<Rightarrow> conversation_turn list \<Rightarrow> tail_selection" where
  "tail_of shape turns = select_tail shape turns (build_partner_index (build_pair_index turns))"

section \<open>The closure is what the partners reach\<close>

lemma visit_partners:
  "foldl visit_partner (queue, closure) ps = (queue', closure') \<Longrightarrow>
    set closure' = set closure \<union> set ps \<and> set queue' = set queue \<union> (set ps - set closure) \<and>
    (distinct closure \<longrightarrow> distinct closure')"
proof (induction ps arbitrary: queue closure)
  case (Cons p ps)
  show ?case
  proof (cases "p \<in> set closure")
    case True
    then show ?thesis using Cons by (auto simp: visit_partner_def)
  next
    case False
    then show ?thesis using Cons.IH [of "p # queue" "closure @ [p]"] Cons.prems by (auto simp: visit_partner_def)
  qed
qed simp

definition partner_edges :: "partner_index \<Rightarrow> (nat \<times> nat) set" where
  "partner_edges index = {(a, b). b \<in> set (partners_of index a)}"

lemma closure_walk_closed:
  "set queue \<subseteq> set closure \<Longrightarrow>
    (\<And>x. x \<in> set closure \<Longrightarrow> x \<notin> set queue \<Longrightarrow> set (partners_of index x) \<subseteq> set closure) \<Longrightarrow>
    set closure \<subseteq> set (closure_walk index queue closure) \<and>
    (\<forall>x \<in> set (closure_walk index queue closure).
      set (partners_of index x) \<subseteq> set (closure_walk index queue closure))"
proof (induction index queue closure rule: closure_walk.induct)
  case (2 index current queue closure)
  obtain queue' closure' where v: "foldl visit_partner (queue, closure) (partners_of index current) = (queue', closure')"
    by fastforce
  note sets = visit_partners [OF v]
  have "set queue' \<subseteq> set closure'" using 2(2) sets by auto
  moreover have "set (partners_of index x) \<subseteq> set closure'" if "x \<in> set closure'" "x \<notin> set queue'" for x
    using that 2(3) [of x] sets by auto
  ultimately show ?case using 2(1) [OF v [symmetric]] sets v by auto
qed simp

lemma closure_walk_reached:
  "x \<in> set (closure_walk index queue closure) \<Longrightarrow> set queue \<subseteq> set closure \<Longrightarrow>
    \<exists>y \<in> set closure. (y, x) \<in> (partner_edges index)\<^sup>*"
proof (induction index queue closure rule: closure_walk.induct)
  case (2 index current queue closure)
  obtain queue' closure' where v: "foldl visit_partner (queue, closure) (partners_of index current) = (queue', closure')"
    by fastforce
  note sets = visit_partners [OF v]
  have "set queue' \<subseteq> set closure'" using 2(3) sets by auto
  then obtain y where y: "y \<in> set closure'" "(y, x) \<in> (partner_edges index)\<^sup>*"
    using 2(1) [OF v [symmetric]] 2(2) v by auto
  show ?case
  proof (cases "y \<in> set closure")
    case False
    then have "(current, y) \<in> partner_edges index" using y sets by (auto simp: partner_edges_def)
    then show ?thesis using y(2) 2(3) by (meson converse_rtrancl_into_rtrancl list.set_intros(1) subsetD)
  qed (use y in blast)
qed auto

lemma closure_walk_distinct: "distinct closure \<Longrightarrow> distinct (closure_walk index queue closure)"
proof (induction index queue closure rule: closure_walk.induct)
  case (2 index current queue closure)
  obtain queue' closure' where v: "foldl visit_partner (queue, closure) (partners_of index current) = (queue', closure')"
    by fastforce
  then show ?case using 2 visit_partners [OF v] by auto
qed simp

lemma tail_closure_closed:
  "i \<in> set (tail_closure index i)"
  "x \<in> set (tail_closure index i) \<Longrightarrow> set (partners_of index x) \<subseteq> set (tail_closure index i)"
  using closure_walk_closed [of "[i]" "[i]" index] unfolding tail_closure_def
  by (auto simp del: closure_walk.simps)

lemma distinct_tail_closure [simp]: "distinct (tail_closure index i)"
  unfolding tail_closure_def by (rule closure_walk_distinct) simp

lemma set_tail_closure: "set (tail_closure index i) = {j. (i, j) \<in> (partner_edges index)\<^sup>*}"
proof
  show "set (tail_closure index i) \<subseteq> {j. (i, j) \<in> (partner_edges index)\<^sup>*}"
    using closure_walk_reached [of _ index "[i]" "[i]"] unfolding tail_closure_def
    by (auto simp del: closure_walk.simps)
next
  have "j \<in> set (tail_closure index i)" if "(i, j) \<in> (partner_edges index)\<^sup>*" for j
    using that
  proof (induction rule: rtrancl_induct)
    case (step y z)
    then show ?case using tail_closure_closed(2) [of y index i] by (auto simp: partner_edges_def)
  qed (simp add: tail_closure_closed)
  then show "{j. (i, j) \<in> (partner_edges index)\<^sup>*} \<subseteq> set (tail_closure index i)" by auto
qed

section \<open>What every selection keeps\<close>

definition live_cost :: "compaction_shape \<Rightarrow> conversation_turn list \<Rightarrow> nat \<Rightarrow> int" where
  "live_cost shape turns i = estimate_turn_tokens (er_turn (excerpt_for shape turns i (turns ! i)))"

definition pickable :: "conversation_turn list \<Rightarrow> nat \<Rightarrow> bool" where
  "pickable turns i \<longleftrightarrow> i < length turns \<and> \<not> is_foldable_handoff_turn (turns ! i)"

definition tail_ok :: "compaction_shape \<Rightarrow> conversation_turn list \<Rightarrow> tail_selection \<Rightarrow> bool" where
  "tail_ok shape turns sel \<longleftrightarrow>
     distinct (tl_picked sel) \<and> list_all (pickable turns) (tl_picked sel) \<and>
     tl_used sel = sum_list (map (live_cost shape turns) (tl_picked sel)) \<and>
     map_of (tl_excerpted sel) =
       (\<lambda>i. if i \<in> set (tl_picked sel) \<and> er_changed (excerpt_for shape turns i (turns ! i))
             then Some (er_turn (excerpt_for shape turns i (turns ! i))) else None)"

lemma js_at_pickable:
  "(case js_at turns i of None \<Rightarrow> a | Some turn \<Rightarrow> if is_foldable_handoff_turn turn then a else f turn) =
    (if pickable turns i then f (turns ! i) else a)"
  by (simp add: js_at_def pickable_def)

lemma estimate_tokens_nonneg [simp]: "0 \<le> estimate_tokens_from_chars n"
  by (simp add: estimate_tokens_from_chars_def chars_per_token_def pos_imp_zdiv_nonneg_iff)

lemma estimate_media_nonneg [simp]: "0 \<le> estimate_media_source_tokens source"
  by (cases source) (simp_all add: media_reference_floor_tokens_def media_base64_max_tokens_def)

lemma estimate_block_nonneg [simp]: "0 \<le> estimate_content_block_tokens b"
proof (induction b rule: estimate_content_block_tokens.induct)
  case (6 call parts is_error)
  then show ?case by (auto intro!: sum_list_nonneg)
qed simp_all

lemma estimate_turn_sum: "estimate_turn_tokens turn = sum_list (map estimate_content_block_tokens (ct_content turn))"
  by (simp add: estimate_turn_tokens_def foldl_plus_sum)

lemma live_cost_nonneg [simp]: "0 \<le> live_cost shape turns i"
  unfolding live_cost_def estimate_turn_sum by (rule sum_list_nonneg) auto

lemma pick_turn_alt:
  "pick_turn shape turns sel i =
    (if i \<notin> set (tl_picked sel) \<and> pickable turns i then
       (let r = excerpt_for shape turns i (turns ! i)
        in \<lparr>tl_picked = tl_picked sel @ [i],
            tl_excerpted = (if er_changed r then AList.update i (er_turn r) (tl_excerpted sel) else tl_excerpted sel),
            tl_shortened = tl_shortened sel + er_shortened r,
            tl_used = tl_used sel + live_cost shape turns i\<rparr>)
     else sel)"
  by (simp add: pick_turn_def js_at_pickable live_cost_def Let_def)

lemma pick_turn_picked:
  "set (tl_picked (pick_turn shape turns sel i)) = set (tl_picked sel) \<union> (if pickable turns i then {i} else {})"
  by (auto simp: pick_turn_alt Let_def)

lemma pick_turn_ok: "tail_ok shape turns sel \<Longrightarrow> tail_ok shape turns (pick_turn shape turns sel i)"
  by (auto simp: pick_turn_alt tail_ok_def Let_def update_conv fun_eq_iff)

lemma pick_turns_ok: "tail_ok shape turns sel \<Longrightarrow> tail_ok shape turns (foldl (pick_turn shape turns) sel is)"
  by (induction "is" arbitrary: sel) (simp_all add: pick_turn_ok)

lemma pick_turns_picked:
  "set (tl_picked (foldl (pick_turn shape turns) sel is)) = set (tl_picked sel) \<union> {i \<in> set is. pickable turns i}"
  by (induction "is" arbitrary: sel) (auto simp: pick_turn_picked split: if_splits)

lemma closure_tokens_sum:
  "closure_tokens shape turns is = sum_list (map (live_cost shape turns) (filter (pickable turns) is))"
proof -
  have "foldl (\<lambda>tokens idx. case js_at turns idx of
         None \<Rightarrow> tokens
       | Some turn \<Rightarrow> if is_foldable_handoff_turn turn then tokens
                     else tokens + estimate_turn_tokens (er_turn (excerpt_for shape turns idx turn))) a is =
     a + sum_list (map (live_cost shape turns) (filter (pickable turns) is))" for a
    by (induction "is" arbitrary: a) (simp_all add: js_at_pickable live_cost_def)
  then show ?thesis by (simp add: closure_tokens_def)
qed

lemma pick_turns_used:
  "distinct is \<Longrightarrow> set is \<inter> set (tl_picked sel) = {} \<Longrightarrow>
    tl_used (foldl (pick_turn shape turns) sel is) = tl_used sel + closure_tokens shape turns is"
proof (induction "is" arbitrary: sel)
  case (Cons i "is")
  have "set is \<inter> set (tl_picked (pick_turn shape turns sel i)) = {}"
    using Cons.prems by (auto simp: pick_turn_picked split: if_splits)
  then show ?case using Cons by (simp add: closure_tokens_sum pick_turn_alt Let_def)
qed (simp add: closure_tokens_def)

lemma closure_tokens_nonneg: "0 \<le> closure_tokens shape turns is"
  unfolding closure_tokens_sum by (rule sum_list_nonneg) auto

section \<open>The walk\<close>

text \<open>What a turn of the walk would add.\<close>

definition tail_unit :: "compaction_shape \<Rightarrow> partner_index \<Rightarrow> tail_selection \<Rightarrow> nat \<Rightarrow> nat list" where
  "tail_unit shape index sel i =
     filter (\<lambda>idx. idx \<notin> set (tl_picked sel)) (if sh_pair_safe shape then tail_closure index i else [i])"

lemma walk_tail_step:
  "walk_tail shape turns index (i # older) sel =
    (if i \<in> set (tl_picked sel) \<or> \<not> pickable turns i then walk_tail shape turns index older sel
     else if tl_picked sel \<noteq> [] \<and>
        tl_used sel + closure_tokens shape turns (tail_unit shape index sel i) > sh_tail_budget_tokens shape
     then sel
     else (let sel1 = foldl (pick_turn shape turns) sel (tail_unit shape index sel i)
           in if tl_used sel1 > sh_tail_budget_tokens shape then sel1 else walk_tail shape turns index older sel1))"
  by (auto simp: js_at_def pickable_def tail_unit_def Let_def)

lemma pick_newest_ask_step:
  "pick_newest_ask shape turns index (i # older) sel =
    (if \<not> pickable turns i then pick_newest_ask shape turns index older sel
     else if is_user_ask_turn (turns ! i) \<and> \<not> is_interior_pair_gap i index then pick_turn shape turns sel i
     else sel)"
  by (auto simp: js_at_def pickable_def)

text \<open>A property of selections that picking one unit keeps holds of the whole walk.\<close>

lemma walk_tail_induct [consumes 1, case_names unit]:
  assumes "P sel"
    and "\<And>sel i. P sel \<Longrightarrow> pickable turns i \<Longrightarrow> i \<notin> set (tl_picked sel) \<Longrightarrow>
      (tl_picked sel = [] \<or>
       tl_used sel + closure_tokens shape turns (tail_unit shape index sel i) \<le> sh_tail_budget_tokens shape) \<Longrightarrow>
      P (foldl (pick_turn shape turns) sel (tail_unit shape index sel i))"
  shows "P (walk_tail shape turns index is sel)"
  using assms(1)
proof (induction "is" arbitrary: sel)
  case (Cons i older)
  show ?case unfolding walk_tail_step Let_def
    using Cons assms(2) [of sel i] by (auto simp: not_less)
qed simp

lemma pick_newest_ask_cases:
  "pick_newest_ask shape turns index is sel = sel \<or>
    (\<exists>i \<in> set is. pickable turns i \<and> is_user_ask_turn (turns ! i) \<and>
      pick_newest_ask shape turns index is sel = pick_turn shape turns sel i)"
proof (induction "is")
  case (Cons i older)
  then show ?case unfolding pick_newest_ask_step by auto
qed simp

definition empty_selection :: tail_selection where
  "empty_selection = \<lparr>tl_picked = [], tl_excerpted = [], tl_shortened = 0, tl_used = 0\<rparr>"

definition ask_selection :: "compaction_shape \<Rightarrow> conversation_turn list \<Rightarrow> partner_index \<Rightarrow> tail_selection" where
  "ask_selection shape turns index =
     (if sh_preserve_whole_user_messages shape
      then pick_newest_ask shape turns index (rev [0..<length turns]) empty_selection else empty_selection)"

lemma select_tail_alt:
  "select_tail shape turns index =
    walk_tail shape turns index (rev [0..<length turns]) (ask_selection shape turns index)"
  by (simp add: select_tail_def ask_selection_def empty_selection_def Let_def)

lemma ask_selection_cases:
  "ask_selection shape turns index = empty_selection \<or>
    (\<exists>i. pickable turns i \<and> is_user_ask_turn (turns ! i) \<and>
      ask_selection shape turns index = pick_turn shape turns empty_selection i)"
  unfolding ask_selection_def using pick_newest_ask_cases by (metis (no_types))

lemma tail_ok_empty: "tail_ok shape turns empty_selection"
  by (simp add: tail_ok_def empty_selection_def fun_eq_iff)

lemma tail_ok_ask: "tail_ok shape turns (ask_selection shape turns index)"
  using ask_selection_cases [of shape turns index] tail_ok_empty pick_turn_ok by metis

lemma select_tail_ok: "tail_ok shape turns (select_tail shape turns index)"
  unfolding select_tail_alt
  using tail_ok_ask by (induction rule: walk_tail_induct) (simp add: pick_turns_ok)

subsection \<open>The budget\<close>

definition one_unit :: "partner_index \<Rightarrow> tail_selection \<Rightarrow> bool" where
  "one_unit index sel \<longleftrightarrow> (\<exists>i. set (tl_picked sel) \<subseteq> set (tail_closure index i))"

lemma tail_unit_in_closure: "set (tail_unit shape index sel i) \<subseteq> set (tail_closure index i)"
  by (auto simp: tail_unit_def tail_closure_closed)

lemma tail_unit_used:
  "tl_used (foldl (pick_turn shape turns) sel (tail_unit shape index sel i)) =
    tl_used sel + closure_tokens shape turns (tail_unit shape index sel i)"
  by (rule pick_turns_used) (auto simp: tail_unit_def)

lemma select_tail_budget:
  "tl_used (select_tail shape turns index) \<le> sh_tail_budget_tokens shape \<or>
    one_unit index (select_tail shape turns index)"
  unfolding select_tail_alt
proof (rule walk_tail_induct [where P = "\<lambda>sel. tl_used sel \<le> sh_tail_budget_tokens shape \<or> one_unit index sel"],
    goal_cases start unit)
  case start
  have "one_unit index empty_selection" by (simp add: one_unit_def empty_selection_def)
  moreover have "one_unit index (pick_turn shape turns empty_selection i)" for i
    by (auto simp: one_unit_def pick_turn_picked empty_selection_def tail_closure_closed intro!: exI [of _ i])
  ultimately show ?case using ask_selection_cases [of shape turns index] by metis
next
  case (unit sel i)
  show ?case
  proof (cases "tl_picked sel = []")
    case True
    then have "one_unit index (foldl (pick_turn shape turns) sel (tail_unit shape index sel i))"
      using tail_unit_in_closure [THEN subsetD] by (auto simp: one_unit_def pick_turns_picked intro!: exI [of _ i])
    then show ?thesis ..
  next
    case False
    then show ?thesis using unit by (simp add: tail_unit_used)
  qed
qed

subsection \<open>Pairs stay together\<close>

definition pairs_kept :: "conversation_turn list \<Rightarrow> partner_index \<Rightarrow> tail_selection \<Rightarrow> bool" where
  "pairs_kept turns index sel \<longleftrightarrow>
     (\<forall>i \<in> set (tl_picked sel). \<forall>p \<in> set (partners_of index i). pickable turns p \<longrightarrow> p \<in> set (tl_picked sel))"

lemma tail_unit_pairs_kept:
  assumes "pairs_kept turns index sel" "sh_pair_safe shape"
  shows "pairs_kept turns index (foldl (pick_turn shape turns) sel (tail_unit shape index sel i))"
proof -
  have picked: "set (tl_picked (foldl (pick_turn shape turns) sel (tail_unit shape index sel i))) =
      set (tl_picked sel) \<union> {j \<in> set (tail_closure index i). pickable turns j}"
    using assms(2) by (auto simp: pick_turns_picked tail_unit_def)
  show ?thesis
    using assms(1) tail_closure_closed(2) unfolding pairs_kept_def picked by fastforce
qed

lemma select_tail_pairs_kept:
  assumes "sh_pair_safe shape"
    and "\<And>i. pickable turns i \<Longrightarrow> is_user_ask_turn (turns ! i) \<Longrightarrow> partners_of index i = []"
  shows "pairs_kept turns index (select_tail shape turns index)"
proof -
  have "pairs_kept turns index (ask_selection shape turns index)"
    using ask_selection_cases [of shape turns index] assms(2)
    by (auto simp: pairs_kept_def pick_turn_picked empty_selection_def)
  then show ?thesis unfolding select_tail_alt
    by (induction rule: walk_tail_induct) (rule tail_unit_pairs_kept [OF _ assms(1)])
qed

subsection \<open>The newest turn stays\<close>

lemma walk_tail_mono: "set (tl_picked sel) \<subseteq> set (tl_picked (walk_tail shape turns index is sel))"
proof (rule walk_tail_induct [where P = "\<lambda>s. set (tl_picked sel) \<subseteq> set (tl_picked s)"], goal_cases start unit)
  case (unit s i)
  then show ?case by (auto simp: pick_turns_picked)
qed simp

lemma walk_tail_first:
  assumes "i \<in> set (tl_picked sel) \<or> tl_picked sel = []" "pickable turns i"
    and "list_all (\<lambda>j. \<not> pickable turns j) newer"
  shows "i \<in> set (tl_picked (walk_tail shape turns index (newer @ i # older) sel))"
  using assms(3)
proof (induction newer)
  case Nil
  show ?case
  proof (cases "i \<in> set (tl_picked sel)")
    case True
    then show ?thesis using walk_tail_mono by blast
  next
    case False
    then have empty: "tl_picked sel = []" using assms(1) by simp
    have unit: "i \<in> set (tail_unit shape index sel i)" using False by (simp add: tail_unit_def tail_closure_closed)
    then have "i \<in> set (tl_picked (foldl (pick_turn shape turns) sel (tail_unit shape index sel i)))"
      using assms(2) by (simp add: pick_turns_picked)
    then show ?thesis
      using False assms(2) empty walk_tail_mono [THEN subsetD] unfolding append_Nil walk_tail_step Let_def by auto
  qed
next
  case (Cons j newer)
  then show ?case unfolding append_Cons walk_tail_step by simp
qed

lemma pick_newest_ask_first:
  assumes "pickable turns i" "list_all (\<lambda>j. \<not> pickable turns j) newer"
  shows "pick_newest_ask shape turns index (newer @ i # older) sel \<in> {sel, pick_turn shape turns sel i}"
  using assms(2)
proof (induction newer)
  case Nil
  then show ?case using assms(1) unfolding append_Nil pick_newest_ask_step by simp
next
  case (Cons j newer)
  then show ?case unfolding append_Cons pick_newest_ask_step by simp
qed

lemma newest_first_split:
  assumes "i < length turns" "\<And>j. i < j \<Longrightarrow> \<not> pickable turns j"
  shows "\<exists>newer older. rev [0..<length turns] = newer @ i # older \<and> list_all (\<lambda>j. \<not> pickable turns j) newer"
proof (intro exI conjI)
  have "[0..<length turns] = [0..<i] @ i # [Suc i..<length turns]"
    using assms(1) upt_add_eq_append [of 0 i "length turns - i"] by (simp add: upt_conv_Cons)
  then show "rev [0..<length turns] = rev [Suc i..<length turns] @ i # rev [0..<i]" by simp
  show "list_all (\<lambda>j. \<not> pickable turns j) (rev [Suc i..<length turns])"
    using assms(2) by (auto simp: list_all_iff)
qed

lemma select_tail_newest:
  assumes "pickable turns i" "\<And>j. i < j \<Longrightarrow> \<not> pickable turns j"
  shows "i \<in> set (tl_picked (select_tail shape turns index))"
proof -
  obtain newer older where order: "rev [0..<length turns] = newer @ i # older"
    and skip: "list_all (\<lambda>j. \<not> pickable turns j) newer"
    using newest_first_split [of i turns] assms by (auto simp: pickable_def)
  have "ask_selection shape turns index \<in> {empty_selection, pick_turn shape turns empty_selection i}"
    using pick_newest_ask_first [OF assms(1) skip, of shape index older empty_selection]
    by (simp add: ask_selection_def order)
  then have "i \<in> set (tl_picked (ask_selection shape turns index)) \<or> tl_picked (ask_selection shape turns index) = []"
    using assms(1) by (auto simp: pick_turn_picked empty_selection_def)
  then show ?thesis unfolding select_tail_alt order by (rule walk_tail_first [OF _ assms(1) skip])
qed

section \<open>From blocks to pairs\<close>

fun is_call_of :: "string \<Rightarrow> content_block \<Rightarrow> bool" where
  "is_call_of c (ToolCallBlock i name args) = (i = c)"
| "is_call_of c _ = False"

fun is_result_of :: "string \<Rightarrow> content_block \<Rightarrow> bool" where
  "is_result_of c (ToolResultBlock i parts is_error) = (i = c)"
| "is_result_of c _ = False"

text \<open>The turns that hold a call, and its result.\<close>

definition call_turns :: "conversation_turn list \<Rightarrow> string \<Rightarrow> nat list" where
  "call_turns turns c = map fst (filter (\<lambda>(i, b). is_call_of c b) (indexed_blocks turns))"

definition result_turns :: "conversation_turn list \<Rightarrow> string \<Rightarrow> nat list" where
  "result_turns turns c = map fst (filter (\<lambda>(i, b). is_result_of c b) (indexed_blocks turns))"

definition last_opt :: "'a list \<Rightarrow> 'a option" where
  "last_opt xs = (if xs = [] then None else Some (last xs))"

lemma indexed_blocks_iff:
  "(i, b) \<in> set (indexed_blocks turns) \<longleftrightarrow> i < length turns \<and> b \<in> set (ct_content (turns ! i))"
  by (force simp: indexed_blocks_def in_set_zip enumerate_eq_zip)

lemma note_pair_location:
  "location_of (note_pair pairs (i, b)) c =
    (if is_call_of c b then (location_of pairs c)\<lparr>pl_call_idx := Some i\<rparr>
     else if is_result_of c b then (location_of pairs c)\<lparr>pl_result_idx := Some i\<rparr> else location_of pairs c)"
  by (cases b) (auto simp: note_pair_def location_of_def update_conv split: option.splits)

lemma foldl_note_pair_location:
  "location_of (foldl note_pair [] entries) c =
    \<lparr>pl_call_idx = last_opt (map fst (filter (\<lambda>(i, b). is_call_of c b) entries)),
     pl_result_idx = last_opt (map fst (filter (\<lambda>(i, b). is_result_of c b) entries))\<rparr>"
proof (induction entries rule: rev_induct)
  case Nil
  show ?case by (simp add: location_of_def last_opt_def)
next
  case (snoc e entries)
  obtain i b where e: "e = (i, b)" by fastforce
  show ?case using snoc by (cases b) (simp_all add: e note_pair_location last_opt_def)
qed

lemma pair_index_location:
  "location_of (build_pair_index turns) c =
    \<lparr>pl_call_idx = last_opt (call_turns turns c), pl_result_idx = last_opt (result_turns turns c)\<rparr>"
  by (simp add: build_pair_index_def foldl_note_pair_location call_turns_def result_turns_def)

lemma distinct_pair_index: "distinct (map fst (build_pair_index turns))"
proof -
  have "distinct (map fst pairs) \<Longrightarrow> distinct (map fst (foldl note_pair pairs entries))" for pairs entries
  proof (induction entries arbitrary: pairs)
    case (Cons e entries)
    obtain i b where e: "e = (i, b)" by fastforce
    have "distinct (map fst (note_pair pairs e))"
      using Cons.prems by (cases b) (simp_all add: e note_pair_def distinct_update)
    then show ?case using Cons.IH by simp
  qed simp
  then show ?thesis by (simp add: build_pair_index_def)
qed

lemma link_pair_partners:
  "set (partners_of (link_pair index l) i) =
    set (partners_of index i) \<union>
      {b. \<exists>a. pl_call_idx l = Some a \<and> pl_result_idx l = Some b \<and> a = i \<and> a \<noteq> b} \<union>
      {a. \<exists>b. pl_call_idx l = Some a \<and> pl_result_idx l = Some b \<and> b = i \<and> a \<noteq> b}"
  by (auto simp: link_pair_def link_turns_def partners_of_def update_conv split: option.splits if_splits)

lemma foldl_link_pair_partners:
  "set (partners_of (foldl link_pair index ls) i) =
    set (partners_of index i) \<union>
      {b. \<exists>l \<in> set ls. \<exists>a. pl_call_idx l = Some a \<and> pl_result_idx l = Some b \<and> a = i \<and> a \<noteq> b} \<union>
      {a. \<exists>l \<in> set ls. \<exists>b. pl_call_idx l = Some a \<and> pl_result_idx l = Some b \<and> b = i \<and> a \<noteq> b}"
  by (induction ls arbitrary: index) (auto simp: link_pair_partners)

definition partner_index_of :: "conversation_turn list \<Rightarrow> partner_index" where
  "partner_index_of turns = build_partner_index (build_pair_index turns)"

lemma in_snd_pair_index:
  "l \<in> set (map snd (build_pair_index turns)) \<Longrightarrow> \<exists>c. l = location_of (build_pair_index turns) c"
proof -
  assume "l \<in> set (map snd (build_pair_index turns))"
  then obtain c where "(c, l) \<in> set (build_pair_index turns)" by auto
  then have "location_of (build_pair_index turns) c = l"
    by (simp add: location_of_def map_of_is_SomeI [OF distinct_pair_index])
  then show ?thesis by blast
qed

lemma pair_index_present:
  "last_opt (call_turns turns c) = Some a \<Longrightarrow>
    location_of (build_pair_index turns) c \<in> set (map snd (build_pair_index turns))"
proof -
  assume a: "last_opt (call_turns turns c) = Some a"
  have "map_of (build_pair_index turns) c \<noteq> None"
    using a pair_index_location [of turns c] by (auto simp: location_of_def split: option.splits)
  then obtain l where l: "map_of (build_pair_index turns) c = Some l" by auto
  then have "(c, l) \<in> set (build_pair_index turns)" by (rule map_of_SomeD)
  then show ?thesis using l by (force simp: location_of_def)
qed

text \<open>Two turns are partners when one holds the last occurrence of a call and the other the last one
  of its result.\<close>

lemma partners_of_pairs:
  "j \<in> set (partners_of (partner_index_of turns) i) \<longleftrightarrow>
    i \<noteq> j \<and> (\<exists>c. last_opt (call_turns turns c) = Some i \<and> last_opt (result_turns turns c) = Some j \<or>
      last_opt (call_turns turns c) = Some j \<and> last_opt (result_turns turns c) = Some i)"
proof -
  let ?ls = "set (map snd (build_pair_index turns))"
  have "j \<in> set (partners_of (partner_index_of turns) i) \<longleftrightarrow>
      i \<noteq> j \<and> (\<exists>l \<in> ?ls. pl_call_idx l = Some i \<and> pl_result_idx l = Some j \<or>
        pl_call_idx l = Some j \<and> pl_result_idx l = Some i)"
    unfolding partner_index_of_def build_partner_index_def foldl_link_pair_partners
    by (auto simp: partners_of_def)
  moreover have "(\<exists>l \<in> ?ls. pl_call_idx l = Some x \<and> pl_result_idx l = Some y) \<longleftrightarrow>
      (\<exists>c. last_opt (call_turns turns c) = Some x \<and> last_opt (result_turns turns c) = Some y)" for x y
    using in_snd_pair_index [of _ turns] pair_index_present [of turns] pair_index_location [of turns]
    by (metis pair_location.select_convs)
  ultimately show ?thesis by blast
qed

section \<open>The tail\<close>

text \<open>The live copies of the picked turns, in the order of the conversation.\<close>

definition tail_turns :: "conversation_turn list \<Rightarrow> tail_selection \<Rightarrow> conversation_turn list" where
  "tail_turns turns sel =
     concat (map (\<lambda>idx. case js_at turns idx of
         None \<Rightarrow> []
       | Some turn \<Rightarrow> [case map_of (tl_excerpted sel) idx of Some live \<Rightarrow> live | None \<Rightarrow> turn])
       (sort (tl_picked sel)))"

lemma er_turn_unchanged: "\<not> er_changed (excerpt_for shape turns i turn) \<Longrightarrow> er_turn (excerpt_for shape turns i turn) = turn"
  by (simp only: excerpt_for_def excerpt_tail_turn_def Let_def excerpt_result.select_convs if_False)

lemma tail_turns_live:
  assumes "tail_ok shape turns sel"
  shows "tail_turns turns sel =
    map (\<lambda>i. er_turn (excerpt_for shape turns i (turns ! i))) (sort (tl_picked sel))"
proof -
  have "(case js_at turns i of None \<Rightarrow> []
       | Some turn \<Rightarrow> [case map_of (tl_excerpted sel) i of Some live \<Rightarrow> live | None \<Rightarrow> turn]) =
     [er_turn (excerpt_for shape turns i (turns ! i))]" if "i \<in> set (tl_picked sel)" for i
    using assms that er_turn_unchanged [of shape turns i "turns ! i"]
    by (auto simp: tail_ok_def list_all_iff js_at_def pickable_def)
  then have "map (\<lambda>idx. case js_at turns idx of None \<Rightarrow> []
       | Some turn \<Rightarrow> [case map_of (tl_excerpted sel) idx of Some live \<Rightarrow> live | None \<Rightarrow> turn])
       (sort (tl_picked sel)) =
     map (\<lambda>i. [er_turn (excerpt_for shape turns i (turns ! i))]) (sort (tl_picked sel))"
    by (intro map_cong) simp_all
  then show ?thesis by (simp only: tail_turns_def) (simp add: concat_map_singleton)
qed

lemma tail_turns_estimate:
  assumes "tail_ok shape turns sel"
  shows "estimate_context_tokens (tail_turns turns sel) = tl_used sel"
proof -
  have "mset (map (live_cost shape turns) (sort (tl_picked sel))) = mset (map (live_cost shape turns) (tl_picked sel))"
    by simp
  then have "sum_list (map (live_cost shape turns) (sort (tl_picked sel))) =
      sum_list (map (live_cost shape turns) (tl_picked sel))"
    by (metis sum_mset_sum_list)
  then show ?thesis
    using assms unfolding tail_turns_live [OF assms] estimate_context_sum map_map comp_def live_cost_def [symmetric]
    by (simp add: tail_ok_def)
qed


text \<open>Users do not call tools, and what a former fold left behind holds neither calls nor results.\<close>

definition turn_well_formed :: "conversation_turn \<Rightarrow> bool" where
  "turn_well_formed turn \<longleftrightarrow>
     (ct_role turn = UserRole \<longrightarrow> \<not> list_ex is_tool_call_block (ct_content turn)) \<and>
     (is_foldable_handoff_turn turn \<longrightarrow> is_plain_text_turn turn)"

lemma call_turns_content:
  "i \<in> set (call_turns turns c) \<Longrightarrow> i < length turns \<and> list_ex is_tool_call_block (ct_content (turns ! i))"
proof -
  assume "i \<in> set (call_turns turns c)"
  then obtain b where "(i, b) \<in> set (indexed_blocks turns)" "is_call_of c b" by (auto simp: call_turns_def)
  then show ?thesis by (cases b) (auto simp: indexed_blocks_iff list_ex_iff intro!: bexI [of _ b])
qed

lemma result_turns_content:
  "i \<in> set (result_turns turns c) \<Longrightarrow> i < length turns \<and> carries_tool_result (turns ! i)"
proof -
  assume "i \<in> set (result_turns turns c)"
  then obtain b where "(i, b) \<in> set (indexed_blocks turns)" "is_result_of c b" by (auto simp: result_turns_def)
  then show ?thesis by (cases b) (auto simp: indexed_blocks_iff carries_tool_result_def list_ex_iff intro!: bexI [of _ b])
qed

lemma last_opt_in: "last_opt xs = Some x \<Longrightarrow> x \<in> set xs"
  by (auto simp: last_opt_def split: if_splits)

lemma ask_has_no_partners:
  assumes "list_all turn_well_formed turns" "pickable turns i" "is_user_ask_turn (turns ! i)"
  shows "partners_of (partner_index_of turns) i = []"
proof -
  have "turn_well_formed (turns ! i)" using assms(1,2) by (auto simp: list_all_length pickable_def)
  then have "\<not> list_ex is_tool_call_block (ct_content (turns ! i))" "\<not> carries_tool_result (turns ! i)"
    using assms(3) by (auto simp: turn_well_formed_def is_user_ask_turn_def)
  then have "i \<notin> set (call_turns turns c)" "i \<notin> set (result_turns turns c)" for c
    using call_turns_content result_turns_content by blast+
  then have "j \<notin> set (partners_of (partner_index_of turns) i)" for j
    unfolding partners_of_pairs using last_opt_in by metis
  then show ?thesis by (metis last_in_set)
qed

lemma pair_turns_pickable:
  assumes "list_all turn_well_formed turns" "i \<in> set (call_turns turns c) \<or> i \<in> set (result_turns turns c)"
  shows "pickable turns i"
proof -
  have i: "i < length turns" "list_ex is_tool_call_block (ct_content (turns ! i)) \<or> carries_tool_result (turns ! i)"
    using assms(2) call_turns_content result_turns_content by blast+
  then have "turn_well_formed (turns ! i)" using assms(1) by (auto simp: list_all_length)
  moreover have "\<not> is_plain_text_turn (turns ! i)"
    using i(2) by (auto simp: is_plain_text_turn_def carries_tool_result_def list_ex_iff)
  ultimately show ?thesis using i(1) by (simp add: pickable_def turn_well_formed_def)
qed

lemma tail_pairs:
  assumes "sh_pair_safe shape" "list_all turn_well_formed turns"
    and "call_turns turns c = [a]" "result_turns turns c = [b]"
  shows "a \<in> set (tl_picked (tail_of shape turns)) \<longleftrightarrow> b \<in> set (tl_picked (tail_of shape turns))"
proof (cases "a = b")
  case False
  have kept: "pairs_kept turns (partner_index_of turns) (tail_of shape turns)"
    using select_tail_pairs_kept [OF assms(1)] ask_has_no_partners [OF assms(2)]
    by (simp add: tail_of_def partner_index_of_def)
  have "pickable turns a" "pickable turns b" using pair_turns_pickable [OF assms(2), of _ c] assms(3,4) by auto
  moreover have "b \<in> set (partners_of (partner_index_of turns) a)" "a \<in> set (partners_of (partner_index_of turns) b)"
    using False assms(3,4) by (auto simp: partners_of_pairs last_opt_def intro!: exI [of _ c])
  ultimately show ?thesis using kept by (auto simp: pairs_kept_def)
qed simp

text \<open>The tail keeps a tool call exactly when it keeps its result, so no prompt after a fold holds a
  result without its call or a call that looks unanswered.\<close>

theorem tail_keeps_pairs:
  assumes "sh_pair_safe shape" "list_all turn_well_formed turns"
    and "call_turns turns c = [a]" "result_turns turns c = [b]"
  shows "a \<in> set (tl_picked (tail_of shape turns)) \<longleftrightarrow> b \<in> set (tl_picked (tail_of shape turns))"
  using assms by (rule tail_pairs)

text \<open>The newest turn that is no leftover of a former fold always stays in the tail, however large
  it is.\<close>

theorem newest_turn_kept:
  assumes "pickable turns i" "list_all (\<lambda>j. \<not> pickable turns j) [Suc i..<length turns]"
  shows "i \<in> set (tl_picked (tail_of shape turns))"
  unfolding tail_of_def
proof (rule select_tail_newest [OF assms(1)])
  show "\<not> pickable turns j" if "i < j" for j
    using that assms(2) by (cases "j < length turns") (auto simp: list_all_iff pickable_def)
qed

subsection \<open>Superseded reads\<close>

text \<open>The results filed under a key, in order, and whether each is an error.\<close>

definition keyed_results :: "call_index \<Rightarrow> string \<Rightarrow> content_block list \<Rightarrow> (string \<times> bool) list" where
  "keyed_results index key blocks =
     concat (map (\<lambda>b. case b of
         ToolResultBlock call parts is_error \<Rightarrow> if result_key index call = Some key then [(call, is_error)] else []
       | _ \<Rightarrow> []) blocks)"

definition reads_at :: "path_reads \<Rightarrow> string \<Rightarrow> path_read list" where
  "reads_at reads key = (case map_of reads key of Some rs \<Rightarrow> rs | None \<Rightarrow> [])"

lemma note_read_at:
  "map (\<lambda>r. (pr_call_id r, pr_is_error r)) (reads_at (fst (note_read index st b)) key) =
    map (\<lambda>r. (pr_call_id r, pr_is_error r)) (reads_at (fst st) key) @ keyed_results index key [b]"
  by (cases b) (auto simp: note_read_def keyed_results_def reads_at_def update_conv Let_def split: option.splits)

lemma note_reads_at:
  "map (\<lambda>r. (pr_call_id r, pr_is_error r)) (reads_at (fst (foldl (note_read index) st bs)) key) =
    map (\<lambda>r. (pr_call_id r, pr_is_error r)) (reads_at (fst st) key) @ keyed_results index key bs"
proof (induction bs arbitrary: st)
  case (Cons b bs)
  have "keyed_results index key (b # bs) = keyed_results index key [b] @ keyed_results index key bs"
    by (simp add: keyed_results_def)
  then show ?case using Cons by (simp add: note_read_at)
qed (simp add: keyed_results_def)

lemma note_reads_distinct: "distinct (map fst (fst st)) \<Longrightarrow> distinct (map fst (fst (foldl (note_read index) st bs)))"
proof (induction bs arbitrary: st)
  case (Cons b bs)
  have "distinct (map fst (fst (note_read index st b)))"
    using Cons.prems by (cases b) (auto simp: note_read_def Let_def distinct_update split: option.splits)
  then show ?case using Cons.IH by simp
qed simp

definition successes_at :: "call_index \<Rightarrow> string \<Rightarrow> content_block list \<Rightarrow> string list" where
  "successes_at index key blocks = map fst (filter (\<lambda>(call, is_error). \<not> is_error) (keyed_results index key blocks))"

lemma successes_reads:
  "map pr_call_id (filter (\<lambda>r. \<not> pr_is_error r) (reads_at (build_path_to_reads turns index) key)) =
    successes_at index key (blocks_of turns)"
proof -
  have "keyed_results index key (blocks_of turns) =
      map (\<lambda>r. (pr_call_id r, pr_is_error r)) (reads_at (build_path_to_reads turns index) key)"
    using note_reads_at [of index "([], 0)" "blocks_of turns" key] by (simp add: build_path_to_reads_def reads_at_def)
  then show ?thesis by (simp add: successes_at_def filter_map comp_def)
qed

lemma superseded_butlast:
  "call \<in> set (superseded_read_call_ids (build_path_to_reads turns index)) \<longleftrightarrow>
    (\<exists>key. call \<in> set (butlast (successes_at index key (blocks_of turns))))"
proof -
  let ?reads = "build_path_to_reads turns index"
  let ?ok = "filter (\<lambda>r. \<not> pr_is_error r)"
  have distinct: "distinct (map fst ?reads)"
    unfolding build_path_to_reads_def by (rule note_reads_distinct) simp
  have short: "length (?ok rs) < 2 \<Longrightarrow> butlast (?ok rs) = []" for rs
    by (cases "?ok rs" rule: rev_cases) auto
  have "call \<in> set (superseded_read_call_ids ?reads) \<longleftrightarrow>
      (\<exists>key rs. (key, rs) \<in> set ?reads \<and> call \<in> set (map pr_call_id (butlast (?ok rs))))"
    using short by (force simp: superseded_read_call_ids_def Let_def split: if_splits)
  also have "\<dots> \<longleftrightarrow> (\<exists>key. call \<in> set (map pr_call_id (butlast (?ok (reads_at ?reads key)))))"
  proof
    assume "\<exists>key rs. (key, rs) \<in> set ?reads \<and> call \<in> set (map pr_call_id (butlast (?ok rs)))"
    then obtain key rs where rs: "(key, rs) \<in> set ?reads" "call \<in> set (map pr_call_id (butlast (?ok rs)))" by blast
    then have "reads_at ?reads key = rs" using distinct by (simp add: reads_at_def)
    then show "\<exists>key. call \<in> set (map pr_call_id (butlast (?ok (reads_at ?reads key))))" using rs(2) by blast
  next
    assume "\<exists>key. call \<in> set (map pr_call_id (butlast (?ok (reads_at ?reads key))))"
    then obtain key where key: "call \<in> set (map pr_call_id (butlast (?ok (reads_at ?reads key))))" by blast
    then have "reads_at ?reads key \<noteq> []" by auto
    then have "(key, reads_at ?reads key) \<in> set ?reads"
      by (auto simp: reads_at_def split: option.splits dest: map_of_SomeD)
    then show "\<exists>key rs. (key, rs) \<in> set ?reads \<and> call \<in> set (map pr_call_id (butlast (?ok rs)))" using key by blast
  qed
  also have "\<dots> \<longleftrightarrow> (\<exists>key. call \<in> set (butlast (successes_at index key (blocks_of turns))))"
    unfolding successes_reads [symmetric] map_butlast [symmetric] ..
  finally show ?thesis .
qed

lemma in_butlast_concat:
  assumes "\<And>b. length (g b) \<le> 1"
  shows "x \<in> set (butlast (concat (map g bs))) \<longleftrightarrow>
    (\<exists>pre b mid b' post. bs = pre @ b # mid @ b' # post \<and> g b = [x] \<and> g b' \<noteq> [])"
proof (induction bs)
  case (Cons b bs)
  note IH = Cons.IH
  have rest: "concat (map g bs) \<noteq> [] \<longleftrightarrow> (\<exists>mid b' post. bs = mid @ b' # post \<and> g b' \<noteq> [])"
    by (simp add: Bex_def in_set_conv_decomp) blast
  have one: "g b = [] \<or> (\<exists>c. g b = [c])" using assms [of b] by (cases "g b") auto
  then have "x \<in> set (butlast (concat (map g (b # bs)))) \<longleftrightarrow>
      g b = [x] \<and> concat (map g bs) \<noteq> [] \<or> x \<in> set (butlast (concat (map g bs)))"
    by (auto simp: butlast_append simp del: concat_eq_Nil_conv)
  also have "\<dots> \<longleftrightarrow> (\<exists>pre b1 mid b' post. b # bs = pre @ b1 # mid @ b' # post \<and> g b1 = [x] \<and> g b' \<noteq> [])"
    (is "?l \<longleftrightarrow> ?r")
  proof
    assume ?l
    then show ?r unfolding rest Cons.IH by (metis append_Cons append_Nil)
  next
    assume ?r
    then obtain pre b1 mid b' post where at: "b # bs = pre @ b1 # mid @ b' # post" "g b1 = [x]" "g b' \<noteq> []" by blast
    show ?l
    proof (cases pre)
      case Nil
      then have "b = b1" "bs = mid @ b' # post" using at(1) by simp_all
      then show ?thesis unfolding rest Cons.IH using at(2,3) by blast
    next
      case (Cons a list)
      then have "bs = list @ b1 # mid @ b' # post" using at(1) by simp
      then show ?thesis unfolding rest IH using at(2,3) by blast
    qed
  qed
  finally show ?case .
qed simp

definition success_of :: "call_index \<Rightarrow> string \<Rightarrow> content_block \<Rightarrow> string list" where
  "success_of index key b =
     (case b of
        ToolResultBlock call parts is_error \<Rightarrow>
          if result_key index call = Some key \<and> \<not> is_error then [call] else []
      | _ \<Rightarrow> [])"

lemma success_of_iff:
  "success_of index key b = [call] \<longleftrightarrow>
    (\<exists>parts. b = ToolResultBlock call parts False \<and> result_key index call = Some key)"
  "success_of index key b \<noteq> [] \<longleftrightarrow>
    (\<exists>later parts. b = ToolResultBlock later parts False \<and> result_key index later = Some key)"
  by (cases b; auto simp: success_of_def)+

lemma successes_at_concat: "successes_at index key bs = concat (map (success_of index key) bs)"
proof (induction bs)
  case (Cons b bs)
  have "successes_at index key (b # bs) = success_of index key b @ successes_at index key bs"
    by (cases b) (simp_all add: successes_at_def keyed_results_def success_of_def)
  then show ?case using Cons by simp
qed (simp add: successes_at_def keyed_results_def)

text \<open>A read's result is hollowed exactly when a later successful result in the same turns was read
  under the same key: the newest success of every key stays whole, and failures always do.\<close>

theorem superseded_exactly_reread:
  "call \<in> set (superseded_read_call_ids (build_path_to_reads turns index)) \<longleftrightarrow>
    (\<exists>key before between parts later parts' after.
      blocks_of turns = before @ ToolResultBlock call parts False # between @ ToolResultBlock later parts' False # after \<and>
      result_key index call = Some key \<and> result_key index later = Some key)"
proof -
  have one: "length (success_of index key b) \<le> 1" for key b by (cases b) (simp_all add: success_of_def)
  have "call \<in> set (butlast (successes_at index key (blocks_of turns))) \<longleftrightarrow>
      (\<exists>before between parts later parts' after.
        blocks_of turns = before @ ToolResultBlock call parts False # between @ ToolResultBlock later parts' False # after \<and>
        result_key index call = Some key \<and> result_key index later = Some key)" for key
    unfolding successes_at_concat in_butlast_concat [of "success_of index key", OF one] success_of_iff by blast
  then show ?thesis unfolding superseded_butlast by blast
qed

subsection \<open>Excerpts are taken once\<close>

lemma dec_not_Nil [simp]: "dec n \<noteq> []"
  by (subst dec.simps) simp

lemma dec_digits: "list_all is_digit (dec n)"
proof (induction n rule: dec.induct)
  case (1 n)
  have "is_digit (char_of (48 + m))" if "m < 10" for m :: nat
    using of_char_digit [OF that] that by (simp add: is_digit_def in_range_def)
  then show ?case using 1 by (subst dec.simps) auto
qed

lemma digits_then_arrow_digits:
  "list_all is_digit ds \<Longrightarrow> ds \<noteq> [] \<or> seen \<Longrightarrow> digits_then_arrow seen (ds @ right_arrow # rest)"
  by (induction ds arbitrary: seen) (auto simp: is_digit_def in_range_def)

lemma has_tail_excerpt_marker_append:
  "has_tail_excerpt_marker (h @ tail_excerpt_sentinel @ dec n @ right_arrow # rest)"
proof (induction h)
  case Nil
  have "digits_then_arrow False (dec n @ right_arrow # rest)"
    by (rule digits_then_arrow_digits) (simp_all add: dec_digits)
  then show ?case by (simp add: tail_excerpt_sentinel_def)
qed simp

text \<open>An excerpt is never excerpted again: what a fold once shortened rides unchanged through every
  later fold, and so do texts within the limit.\<close>

theorem excerpt_taken_once:
  "excerpt_tail_text shape (fst (excerpt_tail_text shape text)) = (fst (excerpt_tail_text shape text), False)"
proof -
  have "has_tail_excerpt_marker (h @ [newline] @ tail_excerpt_sentinel @ dec n @ [right_arrow] @ rest)" for h n rest
    using has_tail_excerpt_marker_append [of "h @ [newline]" n rest] by simp
  then show ?thesis
    by (auto simp: excerpt_tail_text_def Let_def simp del: append_Cons append_Nil append.simps)
qed

subsection \<open>Queries under their advertised name\<close>

definition sample_turn :: "turn_role \<Rightarrow> content_block list \<Rightarrow> conversation_turn" where
  "sample_turn r content = \<lparr>ct_ref = 0, ct_role = r, ct_content = content, ct_model = None, ct_timestamp = 0\<rparr>"

text \<open>Two queries with one path and different patterns.\<close>

definition two_queries :: "string \<Rightarrow> conversation_turn list" where
  "two_queries name =
     [sample_turn UserRole [TextBlock ''find the tests''],
      sample_turn AssistantRole
        [ToolCallBlock ''c1'' name [(''pattern'', JStr ''*.test.ts''), (''path'', JStr ''src'')]],
      sample_turn UserRole [ToolResultBlock ''c1'' [TextBlock ''src/a.test.ts''] False],
      sample_turn AssistantRole
        [ToolCallBlock ''c2'' name [(''pattern'', JStr ''*.md''), (''path'', JStr ''src'')]],
      sample_turn UserRole [ToolResultBlock ''c2'' [TextBlock ''src/b.md''] False]]"

text \<open>A query under the name the model is given is keyed by its path alone: the call keeps the
  advertised name \<open>glob\<close>, which is not in the set of query tools, while its engine's name is. A later
  search of the same directory for something else then hollows the earlier result as if its source
  were unchanged. Under the engine's name, and for \<open>grep\<close>, nothing is hollowed.\<close>

theorem glob_results_hollowed:
  "superseded_read_call_ids (build_path_to_reads (two_queries ''glob'') (build_call_index (two_queries ''glob''))) =
     [''c1''] \<and>
   superseded_read_call_ids (build_path_to_reads (two_queries ''search_files'') (build_call_index (two_queries ''search_files''))) =
     [] \<and>
   superseded_read_call_ids (build_path_to_reads (two_queries ''grep'') (build_call_index (two_queries ''grep''))) = []"
  by code_simp

lemma tail_keeps_pairs_witness:
  "1 \<in> set (tl_picked (tail_of default_tail_compaction_shape (two_queries ''grep''))) \<and>
   2 \<in> set (tl_picked (tail_of default_tail_compaction_shape (two_queries ''grep'')))"
proof -
  have "sh_pair_safe default_tail_compaction_shape" by (simp add: default_tail_compaction_shape_def)
  moreover have "list_all turn_well_formed (two_queries ''grep'')" by code_simp
  moreover have "call_turns (two_queries ''grep'') ''c1'' = [1]" "result_turns (two_queries ''grep'') ''c1'' = [2]"
    by code_simp+
  ultimately have "1 \<in> set (tl_picked (tail_of default_tail_compaction_shape (two_queries ''grep''))) \<longleftrightarrow>
      2 \<in> set (tl_picked (tail_of default_tail_compaction_shape (two_queries ''grep'')))"
    by (rule tail_keeps_pairs)
  moreover have "1 \<in> set (tl_picked (tail_of default_tail_compaction_shape (two_queries ''grep'')))" by code_simp
  ultimately show ?thesis by blast
qed

lemma newest_turn_kept_witness:
  "4 \<in> set (tl_picked (tail_of (default_tail_compaction_shape\<lparr>sh_tail_budget_tokens := 0\<rparr>) (two_queries ''grep'')))"
proof (rule newest_turn_kept)
  show "pickable (two_queries ''grep'') 4" by code_simp
  show "list_all (\<lambda>j. \<not> pickable (two_queries ''grep'') j) [Suc 4..<length (two_queries ''grep'')]" by code_simp
qed

end
