(* ===== verification/CompactionVerify.thy ===== *)
theory CompactionVerify
  imports ContextEstimate
begin

text \<open>
  The verify pass of a compaction fold (\<open>src/session/compaction-verify.ts\<close>): the facts the dropped
  turns carry, the score of a summary against them, its repair within the cap, and the outcome.
  \<open>new URL\<close> is a parameter that gives host and path of a text it can parse. The regular expressions
  are written out as searches; lower-casing is that of ASCII.
\<close>

section \<open>Facts and misses\<close>

record continuation_facts =
  cf_goal :: string
  cf_constraints :: "string list"
  cf_next_action :: string
  cf_verification :: "string list"
  cf_blockers :: "string list"
  cf_exact_names :: "string list"

datatype verify_miss_kind =
    MissGoal | MissConstraint | MissNextAction | MissExactName | MissBlocker | MissVerification
  | MissContradiction

record verify_miss =
  vm_kind :: verify_miss_kind
  vm_detail :: string

datatype verify_abort_reason = AbortContradiction | AbortRepairOverflow

record verify_outcome =
  vo_summary :: string
  vo_repaired :: bool
  vo_aborted :: bool
  vo_abort_reason :: "verify_abort_reason option"
  vo_misses :: "verify_miss list"

type_synonym url_parser = "string \<Rightarrow> (string \<times> string) option"

definition verify_abort_notice_label :: "verify_abort_reason option \<Rightarrow> string" where
  "verify_abort_notice_label reason =
     (case reason of
        Some AbortContradiction \<Rightarrow> ''contradiction''
      | Some AbortRepairOverflow \<Rightarrow> ''repair overflow''
      | None \<Rightarrow> ''kept-prior'')"

definition verify_repair_heading :: string where
  "verify_repair_heading = ''## Carry-forward (verify repair)''"

definition stopwords :: "string list" where
  "stopwords =
     [''the'', ''a'', ''an'', ''and'', ''or'', ''but'', ''for'', ''with'', ''from'', ''that'', ''this'',
      ''these'', ''those'', ''are'', ''was'', ''were'', ''been'', ''have'', ''has'', ''had'', ''will'',
      ''would'', ''should'', ''could'', ''what'', ''when'', ''where'', ''which'', ''while'', ''after'',
      ''before'', ''into'', ''over'', ''under'', ''about'', ''your'', ''you'', ''our'', ''its'', ''also'',
      ''just'', ''still'', ''even'', ''then'', ''than'', ''such'', ''more'', ''most'', ''some'', ''any'',
      ''all'', ''each'', ''both'', ''only'']"

section \<open>Tokens\<close>

definition is_lower_char :: "char \<Rightarrow> bool" where
  "is_lower_char c \<longleftrightarrow> in_range (CHR ''a'') (CHR ''z'') c"

text \<open>\<open>[a-z0-9_./-]\<close>: the splitter cuts at runs of every other character.\<close>

definition is_word_class :: "char \<Rightarrow> bool" where
  "is_word_class c \<longleftrightarrow> is_lower_char c \<or> is_digit c \<or> c \<in> {CHR ''_'', CHR ''.'', CHR ''/'', CHR ''-''}"

fun class_runs :: "string \<Rightarrow> string \<Rightarrow> string list" where
  "class_runs cur [] = (if cur = [] then [] else [cur])"
| "class_runs cur (c # s) =
     (if is_word_class c then class_runs (cur @ [c]) s
      else if cur = [] then class_runs [] s else cur # class_runs [] s)"

definition strip_trailing_dots :: "string \<Rightarrow> string" where
  "strip_trailing_dots s = rev (dropWhile (\<lambda>c. c = CHR ''.'') (rev s))"

fun gather_tokens :: "nat \<Rightarrow> string list \<Rightarrow> string list \<Rightarrow> string list" where
  "gather_tokens cap out [] = out"
| "gather_tokens cap out (raw # rest) =
     (let word = strip_trailing_dots raw
      in if length word < 4 \<or> word \<in> set stopwords then gather_tokens cap out rest
         else (let out1 = (if word \<in> set out then out else out @ [word])
               in if length out1 \<ge> cap then out1 else gather_tokens cap out1 rest))"

definition significant_tokens :: "string \<Rightarrow> string list" where
  "significant_tokens text = gather_tokens 24 [] (class_runs [] (to_lower text))"

definition is_name_char :: "char \<Rightarrow> bool" where
  "is_name_char c \<longleftrightarrow> is_digit c \<or> is_lower_char c \<or> c = CHR ''_'' \<or> c = CHR ''-''"

definition name_char_at :: "string \<Rightarrow> nat \<Rightarrow> bool" where
  "name_char_at s i \<longleftrightarrow> i < length s \<and> is_name_char (s ! i)"

definition is_token_char_at :: "string \<Rightarrow> nat \<Rightarrow> bool" where
  "is_token_char_at s i \<longleftrightarrow>
     i < length s \<and>
     (is_name_char (s ! i) \<or>
      s ! i = CHR ''.'' \<and> i > 0 \<and> name_char_at s (i - 1) \<and> name_char_at s (Suc i))"

definition token_appears :: "string \<Rightarrow> string \<Rightarrow> bool" where
  "token_appears token lowered =
     list_ex (\<lambda>i. starts_with (drop i lowered) token \<and>
         \<not> (i > 0 \<and> is_token_char_at lowered (i - 1)) \<and>
         \<not> is_token_char_at lowered (i + length token))
       [0..<Suc (length lowered)]"

definition tokens_supported :: "string \<Rightarrow> string \<Rightarrow> bool" where
  "tokens_supported f summary =
     (let tokens = significant_tokens f;
          hits = length (filter (\<lambda>t. token_appears t (to_lower summary)) tokens);
          needed = (if length tokens \<le> 2 then length tokens else length tokens div 2 + 1)
      in if tokens = [] then True else hits \<ge> needed)"

section \<open>Reading the facts out of turns\<close>

fun text_blocks :: "content_block list \<Rightarrow> string list" where
  "text_blocks [] = []"
| "text_blocks (TextBlock text # rest) = text # text_blocks rest"
| "text_blocks (_ # rest) = text_blocks rest"

definition texts_for_role :: "conversation_turn list \<Rightarrow> turn_role \<Rightarrow> string list" where
  "texts_for_role turns r =
     concat (map (\<lambda>t. if ct_role t \<noteq> r then [] else filter (\<lambda>s. trim s \<noteq> []) (text_blocks (ct_content t))) turns)"

definition is_word_char :: "char \<Rightarrow> bool" where
  "is_word_char c \<longleftrightarrow> is_alpha c \<or> is_digit c \<or> c = CHR ''_''"

definition word_ends :: "string \<Rightarrow> bool" where
  "word_ends rest \<longleftrightarrow> rest = [] \<or> \<not> is_word_char (hd rest)"

text \<open>A whole-word search: \<open>match\<close> gives the rest of a text after an occurrence at its start.\<close>

fun word_search :: "(string \<Rightarrow> string option) \<Rightarrow> bool \<Rightarrow> string \<Rightarrow> bool" where
  "word_search m inside [] = False"
| "word_search m inside (c # s) =
     (\<not> inside \<and> (case m (c # s) of Some rest \<Rightarrow> word_ends rest | None \<Rightarrow> False) \<or>
      word_search m (is_word_char c) s)"

definition match_literal :: "string \<Rightarrow> string \<Rightarrow> string option" where
  "match_literal w s = (if starts_with (to_lower s) w then Some (drop (length w) s) else None)"

definition constraint_words :: "string list" where
  "constraint_words =
     [''must'', ''must not'', ''never'', ''always'', ''only'', ''do not'', ''don'' @ [squote] @ ''t'', ''required'',
      ''ensure'', ''make sure'', ''keep'', ''without'', ''no emoji'', ''no emojis'']"

definition has_constraint_marker :: "string \<Rightarrow> bool" where
  "has_constraint_marker s = list_ex (\<lambda>w. word_search (match_literal w) False s) constraint_words"

text \<open>A head word, white space, and one of the tails.\<close>

definition match_phrase :: "string \<Rightarrow> string \<Rightarrow> string \<Rightarrow> string option" where
  "match_phrase w tail s =
     (case match_literal w s of
        None \<Rightarrow> None
      | Some rest \<Rightarrow>
          if rest = [] \<or> \<not> is_ws (hd rest) then None else match_literal tail (dropWhile is_ws rest))"

definition denial_phrases :: "(string \<times> string) list" where
  "denial_phrases =
     map (\<lambda>t. (''no'', t)) [''error'', ''errors'', ''failure'', ''failures'', ''blocker'', ''blockers'',
                             ''issue'', ''issues''] @
     map (\<lambda>t. (''nothing'', t)) [''pending'', ''failing'', ''left'', ''outstanding'']"

definition denies_failure :: "string \<Rightarrow> bool" where
  "denies_failure s = list_ex (\<lambda>(w, t). word_search (match_phrase w t) False s) denial_phrases"

text \<open>Cut after a full stop, a mark or a line end where white space follows.\<close>

definition ends_sentence :: "char \<Rightarrow> bool" where
  "ends_sentence c \<longleftrightarrow> c \<in> {CHR ''.'', CHR ''!'', CHR ''?'', newline}"

function split_sentences :: "string \<Rightarrow> string \<Rightarrow> string list" where
  "split_sentences cur [] = [cur]"
| "split_sentences cur (c # s) =
     (if is_ws c \<and> cur \<noteq> [] \<and> ends_sentence (last cur) then cur # split_sentences [] (dropWhile is_ws s)
      else split_sentences (cur @ [c]) s)"
  by pat_completeness auto

termination
  by (relation "measure (length \<circ> snd)") (auto simp: le_imp_less_Suc length_dropWhile_le)

fun gather_constraints :: "string list \<Rightarrow> string list \<Rightarrow> string list" where
  "gather_constraints out [] = out"
| "gather_constraints out (sentence # rest) =
     (let trimmed = trim sentence
      in gather_constraints
           (if length trimmed \<ge> 12 \<and> has_constraint_marker trimmed \<and> trimmed \<notin> set out
            then out @ [take 300 trimmed] else out) rest)"

definition extract_constraints :: "string list \<Rightarrow> string list" where
  "extract_constraints texts = take 8 (gather_constraints [] (concat (map (split_sentences []) texts)))"

definition joined_text :: "content_block list \<Rightarrow> string" where
  "joined_text parts = concat (text_blocks parts)"

definition gather_blocker :: "string list \<Rightarrow> content_block \<Rightarrow> string list" where
  "gather_blocker out block =
     (case block of
        ToolResultBlock call parts is_error \<Rightarrow>
          if \<not> is_error then out
          else (let text = trim (joined_text parts)
                in if text \<noteq> [] \<and> text \<notin> set out then out @ [take 300 text] else out)
      | _ \<Rightarrow> out)"

definition errored_result_texts :: "conversation_turn list \<Rightarrow> string list" where
  "errored_result_texts turns = take 6 (foldl gather_blocker [] (concat (map ct_content turns)))"

text \<open>\<open>https?://[^\s)]+\<close>, every match.\<close>

definition url_scheme_length :: "string \<Rightarrow> nat option" where
  "url_scheme_length s =
     (if starts_with (to_lower s) ''http://'' then Some 7
      else if starts_with (to_lower s) ''https://'' then Some 8 else None)"

definition url_body :: "string \<Rightarrow> string" where
  "url_body s = takeWhile (\<lambda>c. \<not> is_ws c \<and> c \<noteq> CHR '')'') s"

function url_matches :: "string \<Rightarrow> string list" where
  "url_matches [] = []"
| "url_matches (c # s) =
     (case url_scheme_length (c # s) of
        None \<Rightarrow> url_matches s
      | Some n \<Rightarrow>
          (let body = url_body (drop n (c # s))
           in if body = [] then url_matches s
              else (take n (c # s) @ body) # url_matches (drop (length body) (drop n (c # s)))))"
  by pat_completeness auto

termination
  by (relation "measure length")
    (auto simp: url_scheme_length_def split: if_splits)

definition strip_url_glue :: "string \<Rightarrow> string" where
  "strip_url_glue s =
     rev (dropWhile (\<lambda>c. c \<in> {CHR ''.'', CHR '','', CHR '';'', CHR '':'', CHR ''!''}) (rev s))"

definition add_name :: "string list \<Rightarrow> string \<Rightarrow> string list" where
  "add_name out name = (if name \<noteq> [] \<and> name \<notin> set out then out @ [name] else out)"

definition string_arg :: "(string \<times> json) list \<Rightarrow> string \<Rightarrow> string" where
  "string_arg args key = (case jfield args key of Some (JStr s) \<Rightarrow> s | _ \<Rightarrow> [])"

definition call_names :: "string list \<Rightarrow> content_block \<Rightarrow> string list" where
  "call_names out block =
     (case block of
        ToolCallBlock i name args \<Rightarrow> add_name (add_name out (string_arg args ''path'')) (string_arg args ''url'')
      | _ \<Rightarrow> out)"

definition call_verification :: "string list \<Rightarrow> content_block \<Rightarrow> string list" where
  "call_verification out block =
     (case block of
        ToolCallBlock i name args \<Rightarrow>
          if name \<noteq> ''run_shell'' then out
          else (let command = string_arg args ''command''
                in if command \<noteq> [] \<and> command \<notin> set out then out @ [take 200 command] else out)
      | _ \<Rightarrow> out)"

definition extract_continuation_facts :: "conversation_turn list \<Rightarrow> continuation_facts" where
  "extract_continuation_facts turns =
     (let users = texts_for_role turns UserRole;
          assistants = texts_for_role turns AssistantRole;
          blocks = concat (map ct_content turns);
          goal = (if users = [] then [] else hd users);
          next_action = (if assistants \<noteq> [] then last assistants else if users \<noteq> [] then last users else []);
          names = foldl (\<lambda>out m. add_name out (strip_url_glue m)) (foldl call_names [] blocks)
                    (concat (map url_matches (users @ assistants)))
      in \<lparr>cf_goal = take 500 goal, cf_constraints = extract_constraints users,
          cf_next_action = take 300 next_action,
          cf_verification = take 6 (foldl call_verification [] blocks),
          cf_blockers = errored_result_texts turns, cf_exact_names = take 20 names\<rparr>)"

section \<open>Scoring a summary\<close>

definition hostname_of :: "url_parser \<Rightarrow> string \<Rightarrow> string option" where
  "hostname_of parse url = map_option fst (parse url)"

definition url_path_body :: "url_parser \<Rightarrow> string \<Rightarrow> string option" where
  "url_path_body parse url =
     (case parse url of
        None \<Rightarrow> None
      | Some (host, pathname) \<Rightarrow>
          (let path = rev (dropWhile (\<lambda>c. c = CHR ''/'') (rev pathname))
           in if length path \<le> 1 then None else Some (to_lower (drop 1 path))))"

definition is_http_url :: "string \<Rightarrow> bool" where
  "is_http_url lowered \<longleftrightarrow> starts_with lowered ''http://'' \<or> starts_with lowered ''https://''"

definition exact_name_supported :: "url_parser \<Rightarrow> string \<Rightarrow> string \<Rightarrow> bool" where
  "exact_name_supported parse name summary =
     (let lowered = to_lower summary; lowered_name = to_lower name
      in if is_http_url lowered_name then
           (if token_appears lowered_name lowered then True
            else (case hostname_of parse name of
                    None \<Rightarrow> False
                  | Some host \<Rightarrow>
                      (case url_path_body parse name of
                         None \<Rightarrow> token_appears (to_lower host) lowered
                       | Some path \<Rightarrow> token_appears (to_lower host) lowered \<and> token_appears path lowered)))
         else (let base = last (split_char (CHR ''/'') name)
               in base \<noteq> [] \<and> token_appears (to_lower base) lowered))"

definition missing :: "verify_miss_kind \<Rightarrow> string \<Rightarrow> verify_miss" where
  "missing kind detail = \<lparr>vm_kind = kind, vm_detail = detail\<rparr>"

definition verify_compaction_summary ::
    "url_parser \<Rightarrow> string \<Rightarrow> continuation_facts \<Rightarrow> verify_miss list" where
  "verify_compaction_summary parse summary facts =
     (if trim (cf_goal facts) \<noteq> [] \<and> \<not> tokens_supported (cf_goal facts) summary
      then [missing MissGoal (take 200 (cf_goal facts))] else []) @
     map (\<lambda>c. missing MissConstraint (take 200 c))
       (filter (\<lambda>c. \<not> tokens_supported c summary) (cf_constraints facts)) @
     (if trim (cf_next_action facts) \<noteq> [] \<and> \<not> tokens_supported (cf_next_action facts) summary
      then [missing MissNextAction (take 200 (cf_next_action facts))] else []) @
     map (missing MissExactName)
       (filter (\<lambda>n. \<not> exact_name_supported parse n summary) (cf_exact_names facts)) @
     map (\<lambda>b. missing MissBlocker (take 200 b))
       (filter (\<lambda>b. \<not> tokens_supported b summary) (cf_blockers facts)) @
     map (\<lambda>v. missing MissVerification (take 200 v))
       (filter (\<lambda>v. \<not> tokens_supported v summary) (cf_verification facts)) @
     (if cf_blockers facts \<noteq> [] \<and> denies_failure summary
      then [missing MissContradiction ''summary denies failure while dropped turns record errors''] else [])"

definition continuation_text_carries_facts :: "url_parser \<Rightarrow> string \<Rightarrow> continuation_facts \<Rightarrow> bool" where
  "continuation_text_carries_facts parse text facts =
     list_all (\<lambda>m. vm_kind m = MissContradiction) (verify_compaction_summary parse text facts)"

definition text_denies_recorded_failures :: "string \<Rightarrow> continuation_facts \<Rightarrow> bool" where
  "text_denies_recorded_failures text facts = (cf_blockers facts \<noteq> [] \<and> denies_failure text)"

section \<open>Repair\<close>

definition fit_repair_within_cap :: "string \<Rightarrow> nat \<Rightarrow> string" where
  "fit_repair_within_cap repaired max_chars =
     (if max_chars = 0 then []
      else if length repaired \<le> max_chars then repaired
      else (case index_of repaired verify_repair_heading of
              None \<Rightarrow> take max_chars repaired
            | Some pos \<Rightarrow>
                (let prose = rev (dropWhile (\<lambda>c. c = newline) (rev (take pos repaired)));
                     appendix = dropWhile (\<lambda>c. c = newline) (drop (length prose) repaired)
                 in if length appendix \<ge> max_chars then take max_chars appendix
                    else if max_chars \<le> length appendix + 2 then appendix
                    else (let kept = trim_end (take (max_chars - length appendix - 2) prose)
                          in if kept = [] then appendix else kept @ [newline, newline] @ appendix))))"

definition details_of :: "verify_miss_kind \<Rightarrow> verify_miss list \<Rightarrow> string list" where
  "details_of kind misses = map vm_detail (filter (\<lambda>m. vm_kind m = kind) misses)"

definition bullets :: "string list \<Rightarrow> string" where
  "bullets ds = join [newline] (map (\<lambda>d. ''- '' @ d) ds)"

definition repair_lines :: "continuation_facts \<Rightarrow> verify_miss list \<Rightarrow> string list" where
  "repair_lines facts misses =
     [verify_repair_heading] @
     (if details_of MissGoal misses \<noteq> [] then [''Goal: '' @ cf_goal facts] else []) @
     (if details_of MissNextAction misses \<noteq> [] then [''Next: '' @ cf_next_action facts] else []) @
     (if details_of MissExactName misses \<noteq> []
      then [''Exact references: '' @ join '', '' (details_of MissExactName misses)] else []) @
     (if details_of MissConstraint misses \<noteq> []
      then [''Constraints:'' @ [newline] @ bullets (details_of MissConstraint misses)]
      else []) @
     (if details_of MissBlocker misses \<noteq> []
      then [''Open blockers:'' @ [newline] @ bullets (details_of MissBlocker misses)]
      else []) @
     (if details_of MissVerification misses \<noteq> []
      then [''Ran: '' @ join ''; '' (details_of MissVerification misses)] else [])"

definition repair_summary :: "string \<Rightarrow> continuation_facts \<Rightarrow> verify_miss list \<Rightarrow> string" where
  "repair_summary summary facts misses =
     trim_end summary @ [newline, newline] @ join [newline] (repair_lines facts misses)"

definition contradicts :: "verify_miss list \<Rightarrow> bool" where
  "contradicts misses = list_ex (\<lambda>m. vm_kind m = MissContradiction) misses"

definition verify_or_repair ::
    "url_parser \<Rightarrow> string \<Rightarrow> continuation_facts \<Rightarrow> nat \<Rightarrow> verify_outcome" where
  "verify_or_repair parse summary facts max_chars =
     (let first = verify_compaction_summary parse summary facts
      in if first = []
         then \<lparr>vo_summary = summary, vo_repaired = False, vo_aborted = False, vo_abort_reason = None,
               vo_misses = []\<rparr>
         else if contradicts first
         then \<lparr>vo_summary = summary, vo_repaired = False, vo_aborted = True,
               vo_abort_reason = Some AbortContradiction, vo_misses = first\<rparr>
         else (let repaired = fit_repair_within_cap (repair_summary summary facts first) max_chars;
                   second = verify_compaction_summary parse repaired facts
               in if contradicts second
                  then \<lparr>vo_summary = summary, vo_repaired = False, vo_aborted = True,
                        vo_abort_reason = Some AbortContradiction, vo_misses = second\<rparr>
                  else if second \<noteq> []
                  then \<lparr>vo_summary = repaired, vo_repaired = False, vo_aborted = True,
                        vo_abort_reason = Some AbortRepairOverflow, vo_misses = second\<rparr>
                  else \<lparr>vo_summary = repaired, vo_repaired = True, vo_aborted = False,
                        vo_abort_reason = None, vo_misses = first\<rparr>))"

section \<open>What is committed is supported\<close>

lemma contradicts_iff:
  "contradicts (verify_compaction_summary parse summary facts) \<longleftrightarrow> text_denies_recorded_failures summary facts"
  by (auto simp: contradicts_def verify_compaction_summary_def text_denies_recorded_failures_def missing_def
      list_ex_iff)

text \<open>An outcome that is not an abort commits a text in which nothing is missing and nothing is
  denied. An abort for a contradiction leaves the summary as it was.\<close>

theorem committed_summary_supported:
  "(vo_aborted (verify_or_repair parse summary facts cap) \<or>
    verify_compaction_summary parse (vo_summary (verify_or_repair parse summary facts cap)) facts = []) \<and>
   (vo_abort_reason (verify_or_repair parse summary facts cap) = Some AbortContradiction \<or>
    vo_misses (verify_or_repair parse summary facts cap) = [] \<or>
    vo_summary (verify_or_repair parse summary facts cap) =
      fit_repair_within_cap (repair_summary summary facts (verify_compaction_summary parse summary facts)) cap)"
  by (simp add: verify_or_repair_def Let_def)

section \<open>A repair that fits succeeds\<close>

subsection \<open>Occurrences with boundaries\<close>

lemma name_char_word: "is_name_char c \<Longrightarrow> is_word_class c"
  by (auto simp: is_name_char_def is_word_class_def)

lemma token_char_word: "is_token_char_at s i \<Longrightarrow> is_word_class (s ! i)"
  using name_char_word by (auto simp: is_token_char_at_def is_word_class_def)

lemma token_appearsI:
  assumes "s = u @ t @ v"
    and "u = [] \<or> \<not> is_token_char_at s (length u - 1)"
    and "\<not> is_token_char_at s (length u + length t)"
  shows "token_appears t s"
  unfolding token_appears_def list_ex_iff
  using assms by (intro bexI [of _ "length u"]) auto

lemma token_appearsE:
  assumes "token_appears t s"
  obtains u v where "s = u @ t @ v" "u = [] \<or> \<not> is_token_char_at s (length u - 1)"
    "\<not> is_token_char_at s (length u + length t)"
proof -
  obtain i where "i \<in> set [0..<Suc (length s)]" and i: "starts_with (drop i s) t"
    "\<not> (i > 0 \<and> is_token_char_at s (i - 1))" "\<not> is_token_char_at s (i + length t)"
    using assms unfolding token_appears_def list_ex_iff by blast
  then have "i \<le> length s" by (simp only: atLeastLessThan_iff set_upt) simp
  obtain v where "drop i s = t @ v" using i(1) by (auto simp: starts_with_iff)
  then have "s = take i s @ t @ v" by (metis append_take_drop_id)
  then show ?thesis using that [of "take i s" v] i \<open>i \<le> length s\<close> by (cases "i = 0") (auto simp: min_def)
qed

text \<open>A text ends well for the token before it when its full stops are followed by no name.\<close>

lemma token_embedded:
  assumes "u = [] \<or> \<not> is_word_class (last u) \<or> last u = CHR ''/''"
    and "list_all (\<lambda>c. c = CHR ''.'') dots" "b = [] \<or> \<not> is_word_class (hd b)"
  shows "token_appears t (u @ t @ dots @ b)"
proof (rule token_appearsI [OF refl])
  show "u = [] \<or> \<not> is_token_char_at (u @ t @ dots @ b) (length u - 1)"
  proof (cases u rule: rev_cases)
    case (snoc us c)
    have "\<not> is_name_char c \<and> c \<noteq> CHR ''.''"
      using assms(1) snoc name_char_word [of c]
      by (auto simp: is_word_class_def is_name_char_def is_digit_def is_lower_char_def in_range_def)
    then show ?thesis using snoc by (auto simp: is_token_char_at_def nth_append)
  qed simp
  show "\<not> is_token_char_at (u @ t @ dots @ b) (length u + length t)"
  proof (cases dots)
    case Nil
    then show ?thesis
      using assms(3) token_char_word [of "u @ t @ b" "length u + length t"]
      by (cases b) (auto simp: is_token_char_at_def nth_append)
  next
    case (Cons d ds)
    have "\<not> name_char_at (u @ t @ dots @ b) (Suc (length u + length t))"
    proof (cases ds)
      case Nil
      then show ?thesis using Cons assms(3) name_char_word
        by (cases b) (auto simp: name_char_at_def nth_append)
    next
      case (Cons d' ds')
      then have "d' = CHR ''.''" using \<open>dots = d # ds\<close> assms(2) by simp
      then show ?thesis using Cons \<open>dots = d # ds\<close>
        by (auto simp: name_char_at_def nth_append is_name_char_def is_digit_def is_lower_char_def in_range_def)
    qed
    moreover have "(u @ t @ dots @ b) ! (length u + length t) = CHR ''.''"
      using Cons assms(2) by (simp add: nth_append)
    moreover have "\<not> is_name_char (CHR ''.'')"
      by (simp add: is_name_char_def is_digit_def is_lower_char_def in_range_def)
    ultimately show ?thesis by (simp add: is_token_char_at_def)
  qed
qed

subsection \<open>The tokens of a fact\<close>

lemma class_runs_split:
  "raw \<in> set (class_runs cur s) \<Longrightarrow>
    \<exists>a b. cur @ s = a @ raw @ b \<and> (a = [] \<or> \<not> is_word_class (last a)) \<and> (b = [] \<or> \<not> is_word_class (hd b))"
proof (induction cur s rule: class_runs.induct)
  case (1 cur)
  then show ?case by (intro exI [of _ "[]"]) (simp split: if_splits)
next
  case (2 cur c s)
  show ?case
  proof (cases "is_word_class c")
    case True
    then show ?thesis using 2 by simp
  next
    case False
    show ?thesis
    proof (cases "raw \<in> set (class_runs [] s)")
      case True
      then obtain a b where ab: "s = a @ raw @ b" "a = [] \<or> \<not> is_word_class (last a)" "b = [] \<or> \<not> is_word_class (hd b)"
        using 2(2,3) False by (cases "cur = []") auto
      then show ?thesis using False
        by (intro exI [of _ "cur @ c # a"] exI [of _ b]) auto
    next
      case no: False
      then have "raw = cur" using 2(4) False by (auto split: if_splits)
      then show ?thesis using False by (intro exI [of _ "[]"] exI [of _ "c # s"]) simp
    qed
  qed
qed

lemma gather_tokens_from:
  "t \<in> set (gather_tokens cap out raws) \<Longrightarrow>
    t \<in> set out \<or> (\<exists>raw \<in> set raws. t = strip_trailing_dots raw \<and> 4 \<le> length t)"
proof (induction cap out raws rule: gather_tokens.induct)
  case (2 cap out raw rest)
  show ?case
  proof (cases "length (strip_trailing_dots raw) < 4 \<or> strip_trailing_dots raw \<in> set stopwords")
    case True
    then show ?thesis using 2(1) [OF refl] 2(3) by (auto simp: Let_def)
  next
    case False
    let ?out = "if strip_trailing_dots raw \<in> set out then out else out @ [strip_trailing_dots raw]"
    have "t \<in> set ?out \<or> (\<exists>raw \<in> set rest. t = strip_trailing_dots raw \<and> 4 \<le> length t)"
      using 2(2) [OF refl False refl] 2(3) False by (auto simp: Let_def split: if_splits)
    then show ?thesis using False by (auto split: if_splits)
  qed
qed simp

lemma strip_trailing_dots_split:
  "\<exists>dots. s = strip_trailing_dots s @ dots \<and> list_all (\<lambda>c. c = CHR ''.'') dots"
proof (intro exI conjI)
  let ?P = "\<lambda>c. c = CHR ''.''"
  have "rev s = takeWhile ?P (rev s) @ dropWhile ?P (rev s)" by simp
  then show "s = strip_trailing_dots s @ rev (takeWhile ?P (rev s))"
    unfolding strip_trailing_dots_def by (metis rev_append rev_rev_ident)
  show "list_all ?P (rev (takeWhile ?P (rev s)))" by (auto simp: list_all_iff dest: set_takeWhileD)
qed

lemma significant_token_split:
  assumes "t \<in> set (significant_tokens f)"
  shows "\<exists>a dots b. to_lower f = a @ t @ dots @ b \<and> (a = [] \<or> \<not> is_word_class (last a)) \<and>
    list_all (\<lambda>c. c = CHR ''.'') dots \<and> (b = [] \<or> \<not> is_word_class (hd b))"
proof -
  obtain raw where raw: "raw \<in> set (class_runs [] (to_lower f))" "t = strip_trailing_dots raw"
    using gather_tokens_from [of t 24 "[]"] assms unfolding significant_tokens_def by auto
  obtain dots where "raw = t @ dots" "list_all (\<lambda>c. c = CHR ''.'') dots"
    using strip_trailing_dots_split [of raw] raw(2) by blast
  then show ?thesis using class_runs_split [OF raw(1)] by auto
qed

lemma to_lower_append [simp]: "to_lower (s @ t) = to_lower s @ to_lower t"
  by (simp add: to_lower_def)

text \<open>A separator is no part of a word in either case.\<close>

definition separates :: "char \<Rightarrow> bool" where
  "separates c \<longleftrightarrow> \<not> is_word_class (to_lower_char c)"

lemma tokens_supported_all:
  "(\<And>t. t \<in> set (significant_tokens f) \<Longrightarrow> token_appears t (to_lower s)) \<Longrightarrow> tokens_supported f s"
  by (auto simp: tokens_supported_def Let_def filter_True)

lemma fact_supported_verbatim:
  assumes "pre = [] \<or> separates (last pre)" "post = [] \<or> separates (hd post)"
  shows "tokens_supported f (pre @ f @ post)"
proof (rule tokens_supported_all)
  fix t assume "t \<in> set (significant_tokens f)"
  then obtain a dots b where f: "to_lower f = a @ t @ dots @ b" "a = [] \<or> \<not> is_word_class (last a)"
    "list_all (\<lambda>c. c = CHR ''.'') dots" "b = [] \<or> \<not> is_word_class (hd b)"
    using significant_token_split by blast
  have "to_lower pre = [] \<or> \<not> is_word_class (last (to_lower pre))"
    using assms(1) by (cases pre rule: rev_cases) (auto simp: to_lower_def separates_def)
  moreover have "to_lower post = [] \<or> \<not> is_word_class (hd (to_lower post))"
    using assms(2) by (cases post) (auto simp: to_lower_def separates_def)
  ultimately have "token_appears t ((to_lower pre @ a) @ t @ dots @ (b @ to_lower post))"
    using f(2-4) by (intro token_embedded) (auto simp: last_append hd_append)
  then show "token_appears t (to_lower (pre @ f @ post))" using f(1) by simp
qed

subsection \<open>What a summary names it still names when more follows\<close>

lemma separates_newline [simp]: "separates newline"
  by (simp add: separates_def to_lower_char_def is_word_class_def is_lower_char_def is_digit_def in_range_def)

lemma to_lower_ws_all: "\<forall>c. is_ws (to_lower_char c) = is_ws c"
  by code_simp

lemma to_lower_ws: "is_ws (to_lower_char c) \<longleftrightarrow> is_ws c"
  using to_lower_ws_all by blast

lemma word_class_not_ws: "is_word_class c \<Longrightarrow> \<not> is_ws c"
  by (auto simp: is_word_class_def is_lower_char_def is_digit_def in_range_def is_ws_def js_ws_chars_def)

lemma trim_end_ws_split: "\<exists>ws. s = trim_end s @ ws \<and> list_all is_ws ws"
proof (intro exI conjI)
  have "rev s = takeWhile is_ws (rev s) @ dropWhile is_ws (rev s)" by simp
  then show "s = trim_end s @ rev (takeWhile is_ws (rev s))"
    unfolding trim_end_def by (metis rev_append rev_rev_ident)
  show "list_all is_ws (rev (takeWhile is_ws (rev s)))" by (auto simp: list_all_iff dest: set_takeWhileD)
qed

text \<open>Cutting white space off the end and going on with a line end keeps every occurrence of a token
  that does not end in white space.\<close>

lemma token_appears_kept:
  assumes "token_appears t (s @ ws)" "list_all is_ws ws" "t \<noteq> []" "\<not> is_ws (last t)"
  shows "token_appears t (s @ newline # rest)"
proof -
  obtain u v where uv: "s @ ws = u @ t @ v" "u = [] \<or> \<not> is_token_char_at (s @ ws) (length u - 1)"
    "\<not> is_token_char_at (s @ ws) (length u + length t)"
    using assms(1) by (rule token_appearsE)
  have "length u + length t \<le> length s"
  proof (rule ccontr)
    let ?k = "length u + (length t - 1)"
    assume "\<not> length u + length t \<le> length s"
    then have k: "length s \<le> ?k" "?k < length (s @ ws)" using assms(3) arg_cong [OF uv(1), of length] by (cases t; simp)+
    then have "is_ws ((s @ ws) ! ?k)" using assms(2) by (auto simp: nth_append list_all_length)
    moreover have "(s @ ws) ! ?k = last t"
      unfolding uv(1) using assms(3) by (simp add: nth_append last_conv_nth)
    ultimately show False using assms(4) by simp
  qed
  moreover have "s = take (length s) (u @ t @ v)" using uv(1) by (metis append_eq_conv_conj)
  ultimately have "s = u @ t @ take (length s - length u - length t) v" by simp
  then obtain v' where s: "s = u @ t @ v'" ..
  have nl: "\<not> is_name_char newline" "newline \<noteq> CHR ''.''"
    by (simp_all add: is_name_char_def is_digit_def is_lower_char_def in_range_def)
  have ws_name: "c \<in> set ws \<Longrightarrow> \<not> is_name_char c" for c
    using assms(2) name_char_word word_class_not_ws by (auto simp: list_all_iff)
  show ?thesis
  proof (rule token_appearsI)
    show "s @ newline # rest = u @ t @ (v' @ newline # rest)" using s by simp
    show "u = [] \<or> \<not> is_token_char_at (s @ newline # rest) (length u - 1)"
    proof (cases "u = []")
      case False
      then have "length u < length (s @ newline # rest)" "length u < length (s @ ws)" "length u < length s"
        using s assms(3) by simp_all
      then have "is_token_char_at (s @ newline # rest) (length u - 1) = is_token_char_at (s @ ws) (length u - 1)"
        using False by (auto simp: is_token_char_at_def name_char_at_def nth_append)
      then show ?thesis using uv(2) False by simp
    qed simp
    show "\<not> is_token_char_at (s @ newline # rest) (length u + length t)"
    proof (cases "v'")
      case Nil
      then have "(s @ newline # rest) ! (length u + length t) = newline" using s by (simp add: nth_append)
      then show ?thesis using nl by (simp add: is_token_char_at_def)
    next
      case (Cons c v'')
      then have k: "length u + length t < length s" using s by simp
      have "name_char_at (s @ newline # rest) (Suc (length u + length t)) \<Longrightarrow>
          name_char_at (s @ ws) (Suc (length u + length t))"
        using k nl by (cases "Suc (length u + length t) = length s") (auto simp: name_char_at_def nth_append)
      moreover have "0 < length u + length t" using assms(3) by simp
      ultimately show ?thesis
        using uv(3) k by (auto simp: is_token_char_at_def name_char_at_def nth_append)
    qed
  qed
qed

lemma token_appears_kept_lower:
  assumes "token_appears t (to_lower s)" "t \<noteq> []" "\<not> is_ws (last t)"
  shows "token_appears t (to_lower (trim_end s @ newline # rest))"
proof -
  obtain ws where ws: "s = trim_end s @ ws" "list_all is_ws ws" using trim_end_ws_split by blast
  have "to_lower s = to_lower (trim_end s) @ to_lower ws" using arg_cong [OF ws(1), of to_lower] by simp
  moreover have "list_all is_ws (to_lower ws)" using ws(2) by (simp add: to_lower_def list_all_iff to_lower_ws)
  moreover have "to_lower (newline # rest) = newline # to_lower rest"
    by (simp add: to_lower_def to_lower_char_def)
  ultimately show ?thesis using token_appears_kept assms by (metis to_lower_append)
qed

lemma class_runs_class:
  "raw \<in> set (class_runs cur s) \<Longrightarrow> list_all is_word_class cur \<Longrightarrow> list_all is_word_class raw"
  by (induction cur s rule: class_runs.induct) (auto split: if_splits)

lemma significant_token_end:
  assumes "t \<in> set (significant_tokens f)"
  shows "t \<noteq> [] \<and> \<not> is_ws (last t)"
proof -
  obtain raw where raw: "raw \<in> set (class_runs [] (to_lower f))" "t = strip_trailing_dots raw" "4 \<le> length t"
    using gather_tokens_from [of t 24 "[]"] assms unfolding significant_tokens_def by auto
  have "list_all is_word_class raw" using class_runs_class [OF raw(1)] by simp
  moreover obtain dots where "raw = t @ dots" using strip_trailing_dots_split [of raw] raw(2) by blast
  ultimately have "list_all is_word_class t" by simp
  moreover have "t \<noteq> []" using raw(3) by auto
  ultimately show ?thesis using word_class_not_ws by (auto simp: list_all_iff)
qed

lemma fact_kept:
  assumes "tokens_supported f s"
  shows "tokens_supported f (trim_end s @ newline # rest)"
proof -
  let ?t = "significant_tokens f" and ?s' = "trim_end s @ newline # rest"
  have "length (filter (\<lambda>t. token_appears t (to_lower s)) ?t) \<le> length (filter (\<lambda>t. token_appears t (to_lower ?s')) ?t)"
  proof -
    have "filter (\<lambda>t. token_appears t (to_lower s)) ?t =
        filter (\<lambda>t. token_appears t (to_lower s)) (filter (\<lambda>t. token_appears t (to_lower ?s')) ?t)"
      using token_appears_kept_lower significant_token_end
      by (auto simp: filter_filter intro!: filter_cong)
    then show ?thesis by (metis length_filter_le)
  qed
  then show ?thesis using assms by (auto simp: tokens_supported_def Let_def)
qed

subsection \<open>Exact names\<close>

definition base_name :: "string \<Rightarrow> string" where
  "base_name name = last (split_char (CHR ''/'') name)"

text \<open>A name the score can find at all: a path with a last component, a URL whose parts do not end in
  white space.\<close>

definition repairable_name :: "url_parser \<Rightarrow> string \<Rightarrow> bool" where
  "repairable_name parse name =
     (if is_http_url (to_lower name)
      then \<not> is_ws (last name) \<and>
        (case hostname_of parse name of None \<Rightarrow> True | Some host \<Rightarrow> host \<noteq> [] \<and> \<not> is_ws (last host)) \<and>
        (case url_path_body parse name of None \<Rightarrow> True | Some path \<Rightarrow> path \<noteq> [] \<and> \<not> is_ws (last path))
      else base_name name \<noteq> [] \<and> \<not> is_ws (last (base_name name)))"

lemma join_snoc: "ws \<noteq> [] \<Longrightarrow> join sep (ws @ [w]) = join sep ws @ sep @ w"
proof (induction ws)
  case (Cons v ws)
  then show ?case by (cases "ws = []") (simp_all add: join_Cons_not_Nil)
qed simp

lemma split_last: "\<exists>dir. s = dir @ last (split_char c s) \<and> (dir = [] \<or> last dir = c)"
proof -
  let ?ws = "split_char c s"
  have s: "s = join [c] (butlast ?ws @ [last ?ws])" by (simp add: join_split_char)
  show ?thesis
  proof (cases "butlast ?ws = []")
    case True
    then have "s = last ?ws" using s by simp
    then show ?thesis by (intro exI [of _ "[]"]) simp
  next
    case False
    have "s = (join [c] (butlast ?ws) @ [c]) @ last ?ws"
      using s unfolding join_snoc [OF False] append_assoc .
    then show ?thesis by (metis last_snoc)
  qed
qed

lemma last_to_lower: "s \<noteq> [] \<Longrightarrow> is_ws (last (to_lower s)) = is_ws (last s)"
  by (simp add: to_lower_def last_map to_lower_ws)

lemma to_lower_Nil [simp]: "to_lower s = [] \<longleftrightarrow> s = []"
  by (simp add: to_lower_def)

lemma kept_lower: "token_appears (to_lower t) (to_lower s) \<Longrightarrow> t \<noteq> [] \<Longrightarrow> \<not> is_ws (last t) \<Longrightarrow>
    token_appears (to_lower t) (to_lower (trim_end s @ newline # rest))"
  by (intro token_appears_kept_lower) (simp_all add: last_to_lower)

lemma url_not_Nil: "is_http_url (to_lower name) \<Longrightarrow> name \<noteq> []"
  by (auto simp: is_http_url_def to_lower_def)

lemma name_kept:
  assumes "exact_name_supported parse name s" "repairable_name parse name"
  shows "exact_name_supported parse name (trim_end s @ newline # rest)"
proof (cases "is_http_url (to_lower name)")
  case True
  have path: "url_path_body parse name = Some path \<Longrightarrow> token_appears path (to_lower s) \<Longrightarrow>
      token_appears path (to_lower (trim_end s @ newline # rest))" for path
    using assms(2) True by (intro token_appears_kept_lower) (auto simp: repairable_name_def)
  have host: "hostname_of parse name = Some host \<Longrightarrow> token_appears (to_lower host) (to_lower s) \<Longrightarrow>
      token_appears (to_lower host) (to_lower (trim_end s @ newline # rest))" for host
    using assms(2) True by (intro kept_lower) (auto simp: repairable_name_def)
  have whole: "token_appears (to_lower name) (to_lower s) \<Longrightarrow>
      token_appears (to_lower name) (to_lower (trim_end s @ newline # rest))"
    using assms(2) True url_not_Nil by (intro kept_lower) (auto simp: repairable_name_def)
  show ?thesis
    using assms(1) path host whole True
    by (auto simp: exact_name_supported_def Let_def split: if_splits option.splits)
next
  case False
  then show ?thesis
    using assms kept_lower [of "base_name name" s rest]
    by (auto simp: exact_name_supported_def Let_def repairable_name_def base_name_def)
qed

lemma lower_boundary_before:
  "pre = [] \<or> separates (last pre) \<Longrightarrow> to_lower pre = [] \<or> \<not> is_word_class (last (to_lower pre))"
  by (cases pre rule: rev_cases) (auto simp: to_lower_def separates_def)

lemma lower_boundary_after:
  "post = [] \<or> separates (hd post) \<Longrightarrow> to_lower post = [] \<or> \<not> is_word_class (hd (to_lower post))"
  by (cases post) (auto simp: to_lower_def separates_def)

lemma name_supported_verbatim:
  assumes "repairable_name parse name"
    and "pre = [] \<or> separates (last pre)" "post = [] \<or> separates (hd post)"
  shows "exact_name_supported parse name (pre @ name @ post)"
proof (cases "is_http_url (to_lower name)")
  case True
  have "token_appears (to_lower name) (to_lower pre @ to_lower name @ [] @ to_lower post)"
    using lower_boundary_before [OF assms(2)] lower_boundary_after [OF assms(3)] by (intro token_embedded) auto
  then show ?thesis using True by (simp add: exact_name_supported_def)
next
  case False
  obtain dir where dir: "name = dir @ base_name name" "dir = [] \<or> last dir = CHR ''/''"
    using split_last [of name "CHR ''/''"] unfolding base_name_def by auto
  have "to_lower (pre @ dir) = [] \<or> \<not> is_word_class (last (to_lower (pre @ dir))) \<or>
      last (to_lower (pre @ dir)) = CHR ''/''"
    using lower_boundary_before [OF assms(2)] dir(2)
    by (cases dir rule: rev_cases) (auto simp: to_lower_def to_lower_char_def)
  then have "token_appears (to_lower (base_name name))
      (to_lower (pre @ dir) @ to_lower (base_name name) @ [] @ to_lower post)"
    using lower_boundary_after [OF assms(3)] by (intro token_embedded) auto
  then have "token_appears (to_lower (base_name name)) (to_lower (pre @ (dir @ base_name name) @ post))"
    by simp
  then have "token_appears (to_lower (base_name name)) (to_lower (pre @ name @ post))"
    unfolding dir(1) [symmetric] .
  then show ?thesis
    using False assms(1) by (simp add: exact_name_supported_def repairable_name_def base_name_def Let_def)
qed

subsection \<open>The appendix\<close>

text \<open>A text stands in another with nothing of a word on either side.\<close>

definition stands_in :: "string \<Rightarrow> string \<Rightarrow> bool" where
  "stands_in x text \<longleftrightarrow>
     (\<exists>pre post. text = pre @ x @ post \<and> (pre = [] \<or> separates (last pre)) \<and> (post = [] \<or> separates (hd post)))"

lemma stands_inI:
  "pre = [] \<or> separates (last pre) \<Longrightarrow> post = [] \<or> separates (hd post) \<Longrightarrow> stands_in x (pre @ x @ post)"
  unfolding stands_in_def by blast

lemma stands_in_trans: "stands_in x y \<Longrightarrow> stands_in y z \<Longrightarrow> stands_in x z"
proof -
  assume "stands_in x y" "stands_in y z"
  then obtain a b p q where y: "y = a @ x @ b" "a = [] \<or> separates (last a)" "b = [] \<or> separates (hd b)"
    and z: "z = p @ y @ q" "p = [] \<or> separates (last p)" "q = [] \<or> separates (hd q)"
    unfolding stands_in_def by blast
  have "z = (p @ a) @ x @ (b @ q)" using y(1) z(1) by simp
  moreover have "p @ a = [] \<or> separates (last (p @ a))" using y(2) z(2) by (auto simp: last_append)
  moreover have "b @ q = [] \<or> separates (hd (b @ q))" using y(3) z(3) by (auto simp: hd_append)
  ultimately show ?thesis unfolding stands_in_def by blast
qed

lemma stands_after: "p = [] \<or> separates (last p) \<Longrightarrow> stands_in x (p @ x)"
  using stands_inI [of p "[]" x] by simp

lemma join_stands:
  assumes "separates (hd sep)" "separates (last sep)" "sep \<noteq> []"
  shows "x \<in> set xs \<Longrightarrow> stands_in x (join sep xs)"
proof (induction xs)
  case (Cons y ys)
  show ?case
  proof (cases "ys = []")
    case True
    then show ?thesis using Cons.prems stands_after [of "[]" x] by simp
  next
    case False
    then have join: "join sep (y # ys) = y @ sep @ join sep ys" by (rule join_Cons_not_Nil)
    show ?thesis
    proof (cases "x = y")
      case True
      then show ?thesis using stands_inI [of "[]" "sep @ join sep ys" y] assms(1,3) join by simp
    next
      case False
      then have "stands_in x (join sep ys)" using Cons by simp
      moreover have "stands_in (join sep ys) ((y @ sep) @ join sep ys)"
        using assms by (intro stands_after) simp
      ultimately show ?thesis using join stands_in_trans by (metis append_assoc)
    qed
  qed
qed simp

lemma separates_marks [simp]:
  "separates (CHR '' '')" "separates (CHR '','')" "separates (CHR '';'')" "separates (CHR '':'')"
  by code_simp+

lemma fact_stands: "stands_in f text \<Longrightarrow> tokens_supported f text"
  unfolding stands_in_def using fact_supported_verbatim by blast

lemma name_stands: "stands_in n text \<Longrightarrow> repairable_name parse n \<Longrightarrow> exact_name_supported parse n text"
  unfolding stands_in_def using name_supported_verbatim by blast

lemma line_stands_in_repair:
  "l \<in> set (repair_lines facts misses) \<Longrightarrow> stands_in l (repair_summary summary facts misses)"
proof -
  assume "l \<in> set (repair_lines facts misses)"
  then have "stands_in l (join [newline] (repair_lines facts misses))" by (intro join_stands) simp_all
  moreover have "stands_in (join [newline] (repair_lines facts misses)) (repair_summary summary facts misses)"
    using stands_after [of "trim_end summary @ [newline, newline]"] by (simp add: repair_summary_def)
  ultimately show ?thesis by (rule stands_in_trans)
qed

lemma prefixed_line_stands:
  assumes "p @ x \<in> set (repair_lines facts misses)" "stands_in f x" "p \<noteq> []" "separates (last p)"
  shows "stands_in f (repair_summary summary facts misses)"
  using assms stands_after [of p x] line_stands_in_repair stands_in_trans by blast

text \<open>What each kind of miss leaves in the appendix.\<close>

lemma details_of_in: "missing k d \<in> set misses \<Longrightarrow> d \<in> set (details_of k misses)"
  by (force simp: details_of_def missing_def)

lemma repair_goal:
  "missing MissGoal d \<in> set misses \<Longrightarrow> stands_in (cf_goal facts) (repair_summary summary facts misses)"
  by (rule prefixed_line_stands [of "''Goal: ''" "cf_goal facts"])
    (use details_of_in [of MissGoal d misses] in \<open>auto simp: repair_lines_def stands_after [of "[]", simplified]\<close>)

lemma repair_next:
  "missing MissNextAction d \<in> set misses \<Longrightarrow> stands_in (cf_next_action facts) (repair_summary summary facts misses)"
  by (rule prefixed_line_stands [of "''Next: ''" "cf_next_action facts"])
    (use details_of_in [of MissNextAction d misses] in \<open>auto simp: repair_lines_def stands_after [of "[]", simplified]\<close>)

lemma bulleted_stands: "d \<in> set ds \<Longrightarrow> stands_in d (bullets ds)" unfolding bullets_def
  using stands_after [of "''- ''" d] join_stands [of "[newline]" "''- '' @ d" "map (\<lambda>c. ''- '' @ c) ds"] stands_in_trans
  by fastforce

lemma repair_name:
  "missing MissExactName d \<in> set misses \<Longrightarrow> stands_in d (repair_summary summary facts misses)"
  by (rule prefixed_line_stands [of "''Exact references: ''" "join '', '' (details_of MissExactName misses)"])
    (use details_of_in [of MissExactName d misses] in \<open>auto simp: repair_lines_def intro!: join_stands\<close>)

lemma repair_verification:
  "missing MissVerification d \<in> set misses \<Longrightarrow> stands_in d (repair_summary summary facts misses)"
  by (rule prefixed_line_stands [of "''Ran: ''" "join ''; '' (details_of MissVerification misses)"])
    (use details_of_in [of MissVerification d misses] in \<open>auto simp: repair_lines_def intro!: join_stands\<close>)

lemma repair_constraint:
  "missing MissConstraint d \<in> set misses \<Longrightarrow> stands_in d (repair_summary summary facts misses)"
  by (rule prefixed_line_stands [of "''Constraints:'' @ [newline]"
        "bullets (details_of MissConstraint misses)"])
    (use details_of_in [of MissConstraint d misses] bulleted_stands in \<open>auto simp: repair_lines_def\<close>)

lemma repair_blocker:
  "missing MissBlocker d \<in> set misses \<Longrightarrow> stands_in d (repair_summary summary facts misses)"
  by (rule prefixed_line_stands [of "''Open blockers:'' @ [newline]"
        "bullets (details_of MissBlocker misses)"])
    (use details_of_in [of MissBlocker d misses] bulleted_stands in \<open>auto simp: repair_lines_def\<close>)

subsection \<open>The repaired text\<close>

lemma list_all_map_filter: "list_all P (map h (filter Q xs)) = list_all (\<lambda>x. Q x \<longrightarrow> P (h x)) xs"
  by (induction xs) auto

lemma list_all_guarded: "list_all P (if c then [x] else []) = (c \<longrightarrow> P x)"
  by simp

lemma carries_iff:
  "continuation_text_carries_facts parse text facts \<longleftrightarrow>
    (trim (cf_goal facts) = [] \<or> tokens_supported (cf_goal facts) text) \<and>
    (trim (cf_next_action facts) = [] \<or> tokens_supported (cf_next_action facts) text) \<and>
    list_all (\<lambda>f. tokens_supported f text) (cf_constraints facts @ cf_blockers facts @ cf_verification facts) \<and>
    list_all (\<lambda>n. exact_name_supported parse n text) (cf_exact_names facts)"
  by (auto simp: continuation_text_carries_facts_def verify_compaction_summary_def missing_def list_all_map_filter
      list_all_guarded)

text \<open>Facts short enough to be repeated whole.\<close>

definition repairable_facts :: "url_parser \<Rightarrow> continuation_facts \<Rightarrow> bool" where
  "repairable_facts parse facts \<longleftrightarrow>
     list_all (\<lambda>f. length f \<le> 200) (cf_constraints facts @ cf_blockers facts @ cf_verification facts) \<and>
     list_all (repairable_name parse) (cf_exact_names facts)"

lemma repair_carries:
  assumes "repairable_facts parse facts"
  shows "continuation_text_carries_facts parse
    (repair_summary summary facts (verify_compaction_summary parse summary facts)) facts"
proof -
  let ?first = "verify_compaction_summary parse summary facts"
  let ?R = "repair_summary summary facts ?first"
  have R: "?R = trim_end summary @ newline # (newline # join [newline] (repair_lines facts ?first))"
    by (simp add: repair_summary_def)
  have kept: "tokens_supported f summary \<Longrightarrow> tokens_supported f ?R" for f
    unfolding R by (rule fact_kept)
  have goal: "trim (cf_goal facts) = [] \<or> tokens_supported (cf_goal facts) ?R"
  proof (cases "trim (cf_goal facts) = [] \<or> tokens_supported (cf_goal facts) summary")
    case False
    then have "missing MissGoal (take 200 (cf_goal facts)) \<in> set ?first" by (simp add: verify_compaction_summary_def)
    then show ?thesis using repair_goal [THEN fact_stands] by blast
  qed (use kept in blast)
  have next_action: "trim (cf_next_action facts) = [] \<or> tokens_supported (cf_next_action facts) ?R"
  proof (cases "trim (cf_next_action facts) = [] \<or> tokens_supported (cf_next_action facts) summary")
    case False
    then have "missing MissNextAction (take 200 (cf_next_action facts)) \<in> set ?first"
      by (simp add: verify_compaction_summary_def)
    then show ?thesis using repair_next [THEN fact_stands] by blast
  qed (use kept in blast)
  have short: "f \<in> set (cf_constraints facts @ cf_blockers facts @ cf_verification facts) \<Longrightarrow> take 200 f = f" for f
    using assms by (auto simp: repairable_facts_def list_all_iff)
  have "tokens_supported f ?R" if f: "f \<in> set (cf_constraints facts)" for f
  proof (cases "tokens_supported f summary")
    case False
    then have "missing MissConstraint f \<in> set ?first"
      using f short [of f] by (auto simp: verify_compaction_summary_def image_iff intro!: bexI [of _ f])
    then show ?thesis by (rule repair_constraint [THEN fact_stands])
  qed (rule kept)
  moreover have "tokens_supported f ?R" if f: "f \<in> set (cf_blockers facts)" for f
  proof (cases "tokens_supported f summary")
    case False
    then have "missing MissBlocker f \<in> set ?first"
      using f short [of f] by (auto simp: verify_compaction_summary_def image_iff intro!: bexI [of _ f])
    then show ?thesis by (rule repair_blocker [THEN fact_stands])
  qed (rule kept)
  moreover have "tokens_supported f ?R" if f: "f \<in> set (cf_verification facts)" for f
  proof (cases "tokens_supported f summary")
    case False
    then have "missing MissVerification f \<in> set ?first"
      using f short [of f] by (auto simp: verify_compaction_summary_def image_iff intro!: bexI [of _ f])
    then show ?thesis by (rule repair_verification [THEN fact_stands])
  qed (rule kept)
  moreover have "exact_name_supported parse n ?R" if n: "n \<in> set (cf_exact_names facts)" for n
  proof -
    have name: "repairable_name parse n" using n assms by (auto simp: repairable_facts_def list_all_iff)
    show ?thesis
    proof (cases "exact_name_supported parse n summary")
      case True
      then show ?thesis unfolding R by (rule name_kept [OF _ name])
    next
      case False
      then have "missing MissExactName n \<in> set ?first" using n by (auto simp: verify_compaction_summary_def)
      then show ?thesis by (rule name_stands [OF repair_name name])
    qed
  qed
  ultimately show ?thesis using goal next_action by (auto simp: carries_iff list_all_iff)
qed

lemma repair_not_Nil: "length (repair_summary summary facts misses) > 0"
  by (simp add: repair_summary_def)

text \<open>A summary that only leaves facts out is always repaired when the repair fits the cap: with facts
  short enough to be repeated whole and names the score can find, the pass aborts only over a denial
  of recorded failures.\<close>

theorem repair_within_cap_commits:
  assumes "repairable_facts parse facts"
    and "length (repair_summary summary facts (verify_compaction_summary parse summary facts)) \<le> cap"
    and "\<not> text_denies_recorded_failures summary facts"
    and "\<not> text_denies_recorded_failures
      (repair_summary summary facts (verify_compaction_summary parse summary facts)) facts"
  shows "\<not> vo_aborted (verify_or_repair parse summary facts cap)"
proof -
  let ?first = "verify_compaction_summary parse summary facts"
  let ?R = "repair_summary summary facts ?first"
  have fit: "fit_repair_within_cap ?R cap = ?R"
    using assms(2) less_le_trans [OF repair_not_Nil assms(2)] by (simp add: fit_repair_within_cap_def)
  have "\<not> contradicts (verify_compaction_summary parse ?R facts)" "\<not> contradicts ?first"
    using assms(3,4) by (simp_all add: contradicts_iff)
  moreover have "list_all (\<lambda>m. vm_kind m = MissContradiction) (verify_compaction_summary parse ?R facts)"
    using repair_carries [OF assms(1)] by (simp add: continuation_text_carries_facts_def)
  ultimately have "verify_compaction_summary parse ?R facts = []"
    by (cases "verify_compaction_summary parse ?R facts") (auto simp: contradicts_def)
  then show ?thesis
    using \<open>\<not> contradicts ?first\<close> by (simp add: verify_or_repair_def Let_def fit contradicts_def)
qed

definition sample_facts :: continuation_facts where
  "sample_facts =
     \<lparr>cf_goal = ''repair'', cf_constraints = [], cf_next_action = [], cf_verification = [],
      cf_blockers = [], cf_exact_names = [''a.ts'']\<rparr>"

definition no_urls :: url_parser where
  "no_urls url = None"

definition sample_summary :: string where
  "sample_summary = ''half''"

definition sample_misses :: "verify_miss list" where
  "sample_misses = [missing MissGoal ''repair'', missing MissExactName ''a.ts'']"

lemma sample_summary_misses: "verify_compaction_summary no_urls sample_summary sample_facts = sample_misses"
  by code_simp

lemma sample_repair_fits: "length (repair_summary sample_summary sample_facts sample_misses) \<le> 200"
  by (simp add: repair_summary_def repair_lines_def details_of_def sample_misses_def missing_def sample_facts_def
      verify_repair_heading_def sample_summary_def trim_end_def is_ws_def js_ws_chars_def)

lemma repair_within_cap_commits_witness:
  "\<not> vo_aborted (verify_or_repair no_urls sample_summary sample_facts 200) \<and>
   verify_compaction_summary no_urls sample_summary sample_facts \<noteq> []"
proof
  show "\<not> vo_aborted (verify_or_repair no_urls sample_summary sample_facts 200)"
  proof (rule repair_within_cap_commits)
    show "repairable_facts no_urls sample_facts" by code_simp
    show "length (repair_summary sample_summary sample_facts
        (verify_compaction_summary no_urls sample_summary sample_facts)) \<le> 200"
      unfolding sample_summary_misses by (rule sample_repair_fits)
  qed (simp_all add: text_denies_recorded_failures_def sample_facts_def)
  show "verify_compaction_summary no_urls sample_summary sample_facts \<noteq> []"
    unfolding sample_summary_misses by (simp add: sample_misses_def)
qed

section \<open>Names no summary can carry\<close>

lemma split_char_snoc: "split_char c (s @ [c]) = split_char c s @ [[]]"
proof (induction s)
  case (Cons d s)
  then show ?case using split_char_not_Nil [of c s] by (cases "split_char c s") auto
qed simp

lemma trailing_slash_unsupported:
  "\<not> is_http_url (to_lower (name @ ''/'')) \<Longrightarrow> \<not> exact_name_supported parse (name @ ''/'') text"
  by (simp add: exact_name_supported_def Let_def split_char_snoc)

lemma unsupported_name_aborts:
  assumes "n \<in> set (cf_exact_names facts)" "\<And>text. \<not> exact_name_supported parse n text"
  shows "vo_aborted (verify_or_repair parse summary facts cap)" "\<not> continuation_text_carries_facts parse text facts"
proof -
  have miss: "verify_compaction_summary parse t facts \<noteq> []" for t
    using assms by (auto simp: verify_compaction_summary_def filter_empty_conv)
  then show "vo_aborted (verify_or_repair parse summary facts cap)" by (simp add: verify_or_repair_def Let_def)
  show "\<not> continuation_text_carries_facts parse text facts" using assms by (auto simp: carries_iff list_all_iff)
qed

text \<open>The commands a worker ran are facts only under the engine's name of the shell: under the name a
  model is given, which the conversation keeps, none is recorded.\<close>

theorem advertised_shell_not_verified:
  "cf_verification (extract_continuation_facts
     [\<lparr>ct_ref = 0, ct_role = AssistantRole, ct_content = [ToolCallBlock ''c'' ''bash'' [(''command'', JStr ''bun test'')]],
       ct_model = None, ct_timestamp = 0\<rparr>]) = [] \<and>
   cf_verification (extract_continuation_facts
     [\<lparr>ct_ref = 0, ct_role = AssistantRole, ct_content = [ToolCallBlock ''c'' ''run_shell'' [(''command'', JStr ''bun test'')]],
       ct_model = None, ct_timestamp = 0\<rparr>]) = [''bun test'']"
  by code_simp

end
