(* ===== verification/Handoff.thy ===== *)
theory Handoff
  imports CompactorTail CompactionVerify "HOL-Library.AList"
begin

text \<open>
  What a compaction hands on (\<open>src/session/compaction-handoff.ts\<close>): the artifact extracted from the
  folded turns and the previous file, the file it is written to and the thin spine that stays in the
  prompt, both rendered and parsed back. The blob's bytes are the UTF-8 encoding of the file's text and
  are read back as that text, so the model keeps the text.

  The lemmas show what no fold loses: every evidence token of the folded turns, of the summary and of
  the previous file is in the new artifact and in the new spine, and every standing output token of the
  request is in the goal.
\<close>

section \<open>Sections and caps\<close>

definition handoff_latest_key :: string where
  "handoff_latest_key = ''compaction-handoff-latest.md''"

definition handoff_tools_line_prefix :: string where
  "handoff_tools_line_prefix = ''Tools still activated and callable directly (no tool_search needed): ''"

definition handoff_output_line_prefix :: string where
  "handoff_output_line_prefix = ''Output: ''"

record handoff_artifact =
  ha_version :: string
  ha_goal :: string
  ha_constraints :: "string list"
  ha_decisions :: "string list"
  ha_evidence_markers :: "string list"
  ha_files :: "string list"
  ha_commands :: "string list"
  ha_verification :: "string list"
  ha_dead_ends :: "string list"
  ha_next_actions :: "string list"
  ha_exact_facts :: "string list"

definition max_goal_chars :: nat where "max_goal_chars = 500"
definition max_item_chars :: nat where "max_item_chars = 300"
definition max_command_chars :: nat where "max_command_chars = 300"
definition max_files :: nat where "max_files = 40"
definition max_commands :: nat where "max_commands = 20"
definition max_decisions :: nat where "max_decisions = 8"
definition max_constraints :: nat where "max_constraints = 8"
definition max_dead_ends :: nat where "max_dead_ends = 5"
definition max_verification :: nat where "max_verification = 10"
definition max_next_actions :: nat where "max_next_actions = 8"
definition max_exact_facts :: nat where "max_exact_facts = 40"
definition max_spine_items :: nat where "max_spine_items = 3"
definition max_spine_item_chars :: nat where "max_spine_item_chars = 80"
definition spine_goal_chars :: nat where "spine_goal_chars = 160"
definition spine_cut_sentinel :: string where "spine_cut_sentinel = ''...''"

section \<open>Lines and tokens\<close>

text \<open>Whole words for the alternatives the source bounds, anywhere for the others.\<close>

definition constraint_signal :: "string \<Rightarrow> bool" where
  "constraint_signal line \<longleftrightarrow>
     list_ex (\<lambda>w. word_search (match_literal w) False line) [''must'', ''never'', ''always'', ''do not''] \<or>
     list_ex (has_infix (to_lower line))
       [''requir'', ''constraint'', ''don'' @ [squote] @ ''t'', ''cannot'', ''can'' @ [squote] @ ''t'']"

definition verification_signal :: "string \<Rightarrow> bool" where
  "verification_signal command =
     list_ex (has_infix (to_lower command)) [''test'', ''check'', ''lint'', ''build'', ''typecheck'', ''verify'']"

definition evidence_open :: string where "evidence_open = ''[[evidence:''"
definition evidence_close :: string where "evidence_close = '']]''"

definition evidence_char :: "char \<Rightarrow> bool" where
  "evidence_char c \<longleftrightarrow> c \<notin> {CHR ''['', CHR '']'', carriage, newline}"

definition match_evidence :: "string \<Rightarrow> string option" where
  "match_evidence s =
     (if starts_with s evidence_open
      then (let rest = drop (length evidence_open) s; body = takeWhile evidence_char rest
            in if body \<noteq> [] \<and> starts_with (drop (length body) rest) evidence_close
               then Some (evidence_open @ body @ evidence_close) else None)
      else None)"

lemma match_evidence_length: "match_evidence s = Some t \<Longrightarrow> 0 < length t"
  by (auto simp: match_evidence_def evidence_open_def Let_def split: if_splits)

function evidence_tokens :: "string \<Rightarrow> string list" where
  "evidence_tokens [] = []"
| "evidence_tokens (c # s) =
     (case match_evidence (c # s) of
        None \<Rightarrow> evidence_tokens s
      | Some t \<Rightarrow> t # evidence_tokens (drop (length t) (c # s)))"
  by pat_completeness auto

termination
  by (relation "measure length") (auto dest: match_evidence_length)

text \<open>A standing token: a capital, capitals, digits or underscores, an equals sign and what stands up to
  the next white space.\<close>

definition is_upper_char :: "char \<Rightarrow> bool" where
  "is_upper_char c = in_range (CHR ''A'') (CHR ''Z'') c"

definition output_name_char :: "char \<Rightarrow> bool" where
  "output_name_char c \<longleftrightarrow> is_upper_char c \<or> is_digit c \<or> c = CHR ''_''"

definition match_output :: "string \<Rightarrow> string option" where
  "match_output s =
     (case s of
        [] \<Rightarrow> None
      | c # rest \<Rightarrow>
          if \<not> is_upper_char c then None
          else (let name = takeWhile output_name_char rest; after = drop (length name) rest;
                    val = takeWhile (\<lambda>d. \<not> is_ws d) (tl after)
                in if name \<noteq> [] \<and> after \<noteq> [] \<and> hd after = CHR ''='' \<and> val \<noteq> []
                   then Some (c # name @ CHR ''='' # val) else None))"

lemma match_output_length: "match_output s = Some t \<Longrightarrow> 0 < length t"
  by (auto simp: match_output_def Let_def split: if_splits list.splits)

function output_matches :: "bool \<Rightarrow> nat \<Rightarrow> string \<Rightarrow> (nat \<times> string) list" where
  "output_matches inside i [] = []"
| "output_matches inside i (c # s) =
     (case (if inside then None else match_output (c # s)) of
        None \<Rightarrow> output_matches (is_word_char c) (Suc i) s
      | Some t \<Rightarrow> (i, t) # output_matches (is_word_char (last t)) (i + length t) (drop (length t) (c # s)))"
  by pat_completeness auto

termination
  by (relation "measure (\<lambda>(inside, i, s). length s)") (auto dest: match_output_length split: if_splits)

definition output_format_tokens :: "string \<Rightarrow> string list" where
  "output_format_tokens text = foldl (\<lambda>out (i, t). jset_add t out) [] (output_matches False 0 text)"

function collapse_ws :: "string \<Rightarrow> string" where
  "collapse_ws [] = []"
| "collapse_ws (c # s) =
     (if is_ws c then CHR '' '' # collapse_ws (dropWhile is_ws s) else c # collapse_ws s)"
  by pat_completeness auto

termination
  by (relation "measure length") (auto simp: le_imp_less_Suc length_dropWhile_le)

definition one_line :: "string \<Rightarrow> nat \<Rightarrow> string" where
  "one_line text max_chars = take max_chars (trim (collapse_ws text))"

definition goal_end :: "nat \<Rightarrow> string \<Rightarrow> nat" where
  "goal_end max_chars line =
     foldl (\<lambda>e (start, t). if start < e \<and> e < start + length t then start + length t else e)
       (min max_chars (length line)) (output_matches False 0 line)"

definition append_token :: "string \<times> string list \<Rightarrow> string \<Rightarrow> string \<times> string list" where
  "append_token st token =
     (if token \<in> set (snd st) then st else (fst st @ [CHR '' ''] @ token, jset_add token (snd st)))"

definition cap_goal :: "string \<Rightarrow> nat \<Rightarrow> string" where
  "cap_goal text max_chars =
     (let line = trim (collapse_ws text);
          capped = take (goal_end max_chars line) line
      in fst (foldl append_token (capped, output_format_tokens capped) (output_format_tokens line)))"

definition has_standing_output_token :: "string \<Rightarrow> string \<Rightarrow> bool" where
  "has_standing_output_token goal token \<longleftrightarrow> token \<in> set (output_format_tokens goal)"

definition without_sentinel :: "string \<Rightarrow> string" where
  "without_sentinel s = take (length s - length spine_cut_sentinel) s"

definition trailing_ellipsis_is_standing_token :: "string \<Rightarrow> bool" where
  "trailing_ellipsis_is_standing_token goal =
     (if \<not> ends_with goal spine_cut_sentinel then False
      else list_ex (\<lambda>token. ends_with token spine_cut_sentinel \<and> ends_with goal token) (output_format_tokens goal))"

definition merge_standing_output_token :: "string option \<Rightarrow> string \<Rightarrow> string" where
  "merge_standing_output_token goal_opt token =
     (case goal_opt of
        None \<Rightarrow> token
      | Some goal \<Rightarrow>
          if goal = [] then token
          else if has_standing_output_token goal token then goal
          else if ends_with goal spine_cut_sentinel \<and>
                  (has_standing_output_token (without_sentinel goal) token \<or>
                   token @ spine_cut_sentinel \<in> set (output_format_tokens goal))
          then without_sentinel goal
          else (if ends_with goal spine_cut_sentinel \<and> \<not> trailing_ellipsis_is_standing_token goal
                then without_sentinel goal else goal) @ [CHR '' ''] @ token)"

text \<open>\<open>lastIndexOf\<close> of a blank, one more than the position, \<open>0\<close> for none.\<close>

definition last_space :: "string \<Rightarrow> nat" where
  "last_space s = length (dropWhile (\<lambda>c. c \<noteq> CHR '' '') (rev s))"

definition cut_at_space :: "string \<Rightarrow> string" where
  "cut_at_space head = (if last_space head > 1 then take (last_space head - 1) head else trim_end head)"

definition cut_spine_goal :: "string \<Rightarrow> string" where
  "cut_spine_goal text =
     (let line = trim (collapse_ws text)
      in if length line \<le> spine_goal_chars then line
         else if ends_with line spine_cut_sentinel \<and> length (without_sentinel line) \<le> spine_goal_chars then line
         else (case find (\<lambda>(start, t). start < spine_goal_chars \<and> spine_goal_chars < start + length t)
                 (output_matches False 0 line) of
                 Some (0, t) \<Rightarrow> if length t < length line then t @ spine_cut_sentinel else t
               | found \<Rightarrow>
                   (let cap = (case found of Some (start, t) \<Rightarrow> start | None \<Rightarrow> spine_goal_chars);
                        kept = cut_at_space (take cap line)
                    in if kept = [] then spine_cut_sentinel else kept @ spine_cut_sentinel)))"

definition cut_spine_item :: "string \<Rightarrow> string" where
  "cut_spine_item text =
     (let line = trim (collapse_ws text)
      in if length line \<le> max_spine_item_chars then line
         else take max_spine_item_chars line @ spine_cut_sentinel)"

section \<open>What a turn holds\<close>

definition turn_text_blocks :: "conversation_turn \<Rightarrow> string list" where
  "turn_text_blocks turn = filter (\<lambda>t. t \<noteq> []) (text_blocks (ct_content turn))"

definition user_texts :: "conversation_turn \<Rightarrow> string list" where
  "user_texts turn = (if ct_role turn \<noteq> UserRole then [] else turn_text_blocks turn)"

definition is_prior_spine_turn :: "conversation_turn \<Rightarrow> bool" where
  "is_prior_spine_turn turn =
     (if ct_role turn \<noteq> UserRole then False
      else (case first_text_block (ct_content turn) of
              None \<Rightarrow> False | Some text \<Rightarrow> starts_with text compacted_prefix))"

definition recover_evidence_markers :: "string list \<Rightarrow> string list" where
  "recover_evidence_markers texts = sort (remdups (concat (map evidence_tokens texts)))"

definition result_text :: "content_block list \<Rightarrow> string" where
  "result_text parts = join [newline] (filter (\<lambda>t. t \<noteq> []) (text_blocks parts))"

fun tool_results :: "content_block list \<Rightarrow> (string \<times> bool \<times> string) list" where
  "tool_results [] = []"
| "tool_results (ToolResultBlock call_id parts is_error # rest) =
     (call_id, is_error, result_text parts) # tool_results rest"
| "tool_results (_ # rest) = tool_results rest"

fun tool_calls :: "content_block list \<Rightarrow> (string \<times> string \<times> (string \<times> json) list) list" where
  "tool_calls [] = []"
| "tool_calls (ToolCallBlock call_id name args # rest) = (call_id, name, args) # tool_calls rest"
| "tool_calls (_ # rest) = tool_calls rest"

definition turn_evidence_texts :: "conversation_turn \<Rightarrow> string list" where
  "turn_evidence_texts turn =
     turn_text_blocks turn @ map (\<lambda>(call_id, is_error, text). text) (tool_results (ct_content turn))"

definition capped_item :: "nat \<Rightarrow> string \<Rightarrow> string" where
  "capped_item max_chars clean =
     (if length clean > max_chars then take max_chars clean @ ''...'' else clean)"

definition push_capped :: "nat \<Rightarrow> nat \<Rightarrow> string list \<Rightarrow> string \<Rightarrow> string list" where
  "push_capped cap max_chars items value =
     (let clean = trim value
      in if clean = [] \<or> length items \<ge> cap then items
         else (let item = capped_item max_chars clean in if item \<in> set items then items else items @ [item]))"

section \<open>The spine read back\<close>

record carried_facts =
  cr_goal :: "string option"
  cr_constraints :: "string list"
  cr_decisions :: "string list"
  cr_evidence_markers :: "string list"
  cr_activated_tools :: "string list"

definition empty_carried :: carried_facts where
  "empty_carried =
     \<lparr>cr_goal = None, cr_constraints = [], cr_decisions = [], cr_evidence_markers = [], cr_activated_tools = []\<rparr>"

definition after_prefix :: "string \<Rightarrow> string \<Rightarrow> string" where
  "after_prefix pre line = drop (length pre) line"

definition parse_spine_field :: "carried_facts \<Rightarrow> string \<Rightarrow> carried_facts" where
  "parse_spine_field carried line =
     (if starts_with line ''Goal: ''
      then (let goal = trim (after_prefix ''Goal: '' line)
            in if goal \<noteq> [] then carried\<lparr>cr_goal := Some goal\<rparr> else carried)
      else if starts_with line handoff_output_line_prefix
      then foldl (\<lambda>c token. c\<lparr>cr_goal := Some (merge_standing_output_token (cr_goal c) token)\<rparr>) carried
             (output_format_tokens (after_prefix handoff_output_line_prefix line))
      else if starts_with line ''Constraints: ''
      then carried\<lparr>cr_constraints := foldl (push_capped max_constraints max_item_chars) (cr_constraints carried)
             (split_str '' | '' (after_prefix ''Constraints: '' line))\<rparr>
      else if starts_with line ''Decisions: ''
      then carried\<lparr>cr_decisions := foldl (push_capped max_decisions max_item_chars) (cr_decisions carried)
             (split_str '' | '' (after_prefix ''Decisions: '' line))\<rparr>
      else if starts_with line handoff_tools_line_prefix
      then carried\<lparr>cr_activated_tools := foldl (\<lambda>out name. if trim name \<noteq> [] then jset_add (trim name) out else out)
             (cr_activated_tools carried) (split_str '', '' (after_prefix handoff_tools_line_prefix line))\<rparr>
      else carried)"

definition note_markers :: "carried_facts \<Rightarrow> string list \<Rightarrow> carried_facts" where
  "note_markers carried markers =
     carried\<lparr>cr_evidence_markers := foldl (\<lambda>out m. jset_add m out) (cr_evidence_markers carried) markers\<rparr>"

definition parse_spine_text :: "string \<Rightarrow> carried_facts" where
  "parse_spine_text text =
     (let carried = foldl (\<lambda>c line. note_markers (parse_spine_field c (trim line)) (recover_evidence_markers [trim line]))
                      empty_carried (split_char newline text)
      in carried\<lparr>cr_evidence_markers := sort (cr_evidence_markers carried)\<rparr>)"

section \<open>The file read back\<close>

definition handoff_exact_facts_heading :: string where
  "handoff_exact_facts_heading = ''Exact facts (verbatim '' @ em_dash @ '' do not paraphrase)''"

definition handoff_summary_heading :: string where
  "handoff_summary_heading = ''Summary (this fold '' @ em_dash @ '' may paraphrase)''"

definition handoff_schema_headings :: "string list" where
  "handoff_schema_headings =
     [''Goal'', ''Constraints'', ''Decisions'', ''Evidence markers (cumulative echo)'', ''Files'', ''Commands'',
      ''Verification'', ''Dead ends'', ''Next actions'', handoff_exact_facts_heading]"

definition none_marker :: string where "none_marker = ''(none)''"

definition list_items :: "string \<Rightarrow> string list" where
  "list_items body =
     (if body = [] \<or> body = none_marker then []
      else concat (map (\<lambda>line.
             let trimmed = trim line; item = trim (drop 2 trimmed)
             in if starts_with trimmed ''- '' \<and> item \<noteq> [] \<and> item \<noteq> none_marker then [item] else [])
           (split_char newline body)))"

text \<open>The expression \<open>^## (.+)$\<close>: a dot matches no carriage return.\<close>

definition heading_title :: "string \<Rightarrow> string option" where
  "heading_title line =
     (if starts_with line ''## '' \<and> drop 3 line \<noteq> [] \<and> carriage \<notin> set (drop 3 line)
      then Some (trim (drop 3 line)) else None)"

record file_scan =
  sc_sections :: "(string \<times> string list) list"
  sc_current :: "string option"
  sc_in_summary :: bool

definition scan_line :: "file_scan \<Rightarrow> string \<Rightarrow> file_scan" where
  "scan_line sc line =
     (case heading_title line of
        Some title \<Rightarrow>
          if title = handoff_summary_heading then sc\<lparr>sc_in_summary := True, sc_current := None\<rparr>
          else (let sc1 = (if title = handoff_exact_facts_heading then sc\<lparr>sc_in_summary := False\<rparr> else sc)
                in if sc_in_summary sc1 \<or> title \<notin> set handoff_schema_headings then sc1\<lparr>sc_current := None\<rparr>
                   else if map_of (sc_sections sc1) title \<noteq> None then sc1\<lparr>sc_current := None\<rparr>
                   else sc1\<lparr>sc_current := Some title, sc_sections := sc_sections sc1 @ [(title, [])]\<rparr>)
      | None \<Rightarrow>
          (case sc_current sc of
             None \<Rightarrow> sc
           | Some title \<Rightarrow> sc\<lparr>sc_sections := map (\<lambda>(t, ls). (t, if t = title then ls @ [line] else ls)) (sc_sections sc)\<rparr>))"

definition scan_file :: "string list \<Rightarrow> file_scan" where
  "scan_file ls = foldl scan_line \<lparr>sc_sections = [], sc_current = None, sc_in_summary = False\<rparr> ls"

definition section_body :: "(string \<times> string list) list \<Rightarrow> string \<Rightarrow> string" where
  "section_body sections title =
     trim (join [newline] (case map_of sections title of None \<Rightarrow> [] | Some ls \<Rightarrow> ls))"

definition maybe_list :: "(string \<times> string list) list \<Rightarrow> string \<Rightarrow> string list option" where
  "maybe_list sections title =
     (let items = list_items (section_body sections title) in if items \<noteq> [] then Some items else None)"

record prior_handoff =
  ph_goal :: "string option"
  ph_constraints :: "string list option"
  ph_decisions :: "string list option"
  ph_evidence_markers :: "string list option"
  ph_files :: "string list option"
  ph_commands :: "string list option"
  ph_verification :: "string list option"
  ph_dead_ends :: "string list option"
  ph_next_actions :: "string list option"
  ph_exact_facts :: "string list option"

definition no_prior_handoff :: prior_handoff where
  "no_prior_handoff =
     \<lparr>ph_goal = None, ph_constraints = None, ph_decisions = None, ph_evidence_markers = None, ph_files = None,
      ph_commands = None, ph_verification = None, ph_dead_ends = None, ph_next_actions = None,
      ph_exact_facts = None\<rparr>"

definition parse_handoff_file :: "string \<Rightarrow> prior_handoff" where
  "parse_handoff_file text =
     (let sections = sc_sections (scan_file (split_char newline text));
          goal = section_body sections ''Goal''
      in \<lparr>ph_goal = (if goal \<noteq> [] \<and> goal \<noteq> none_marker then Some goal else None),
          ph_constraints = maybe_list sections ''Constraints'',
          ph_decisions = maybe_list sections ''Decisions'',
          ph_evidence_markers = maybe_list sections ''Evidence markers (cumulative echo)'',
          ph_files = maybe_list sections ''Files'',
          ph_commands = maybe_list sections ''Commands'',
          ph_verification = maybe_list sections ''Verification'',
          ph_dead_ends = maybe_list sections ''Dead ends'',
          ph_next_actions = maybe_list sections ''Next actions'',
          ph_exact_facts = maybe_list sections handoff_exact_facts_heading\<rparr>)"

section \<open>Merging\<close>

definition is_spine_truncation_of :: "string \<Rightarrow> string \<Rightarrow> bool" where
  "is_spine_truncation_of fragment full =
     (if \<not> ends_with fragment spine_cut_sentinel then False
      else (let kept = without_sentinel fragment
            in length kept = max_spine_item_chars \<and> length full > length kept \<and> starts_with full kept))"

definition related_entry :: "bool \<Rightarrow> string \<Rightarrow> string \<Rightarrow> bool" where
  "related_entry prefix_mode item entry =
     (if \<not> prefix_mode then entry = item
      else entry = item \<or> is_spine_truncation_of item entry \<or> is_spine_truncation_of entry item)"

definition consider_item :: "nat \<Rightarrow> nat \<Rightarrow> bool \<Rightarrow> string list \<Rightarrow> string \<Rightarrow> string list" where
  "consider_item cap max_chars prefix_mode merged raw =
     (let clean = trim raw
      in if clean = [] then merged
         else (let item = capped_item max_chars clean
               in case find_index (related_entry prefix_mode item) merged of
                    Some i \<Rightarrow> if is_spine_truncation_of (merged ! i) item then merged[i := item] else merged
                  | None \<Rightarrow> if length merged \<ge> cap then merged else merged @ [item]))"

definition merge_unique :: "string list \<Rightarrow> string list \<Rightarrow> nat \<Rightarrow> nat \<Rightarrow> bool \<Rightarrow> string list" where
  "merge_unique primary extra cap max_chars prefix_mode =
     foldl (consider_item cap max_chars prefix_mode) (foldl (consider_item cap max_chars prefix_mode) [] primary) extra"

definition prefer_full :: "string option \<Rightarrow> string \<Rightarrow> string" where
  "prefer_full prior_opt next_goal =
     (case prior_opt of
        None \<Rightarrow> next_goal
      | Some prior \<Rightarrow>
          if prior = [] then next_goal
          else if prior = next_goal \<or> starts_with prior next_goal \<or> starts_with next_goal prior
          then (if length prior \<ge> length next_goal then prior else next_goal)
          else prior)"

section \<open>Extraction\<close>

record spine_facts =
  sf_goal :: string
  sf_constraints :: "string list"
  sf_decisions :: "string list"
  sf_evidence_markers :: "string list"
  sf_activated_tools :: "string list"

record extracted_handoff =
  eh_artifact :: handoff_artifact
  eh_spine :: spine_facts

record handoff_extract_opts =
  eo_prior_file_text :: "string option"
  eo_activated_tools :: "string list option"

text \<open>The variables of the loop over the folded turns.\<close>

record turn_scan =
  ts_carried :: carried_facts
  ts_user_texts :: "string list"
  ts_files :: "string list"
  ts_commands :: "(string \<times> string) list"
  ts_results :: "(string \<times> bool \<times> string) list"
  ts_fresh_turns :: nat
  ts_tool_calls :: nat

definition add_all :: "'a list \<Rightarrow> 'a list \<Rightarrow> 'a list" where
  "add_all out xs = foldl (\<lambda>o1 x. jset_add x o1) out xs"

definition carry_spine :: "carried_facts \<Rightarrow> carried_facts \<Rightarrow> carried_facts" where
  "carry_spine carried parsed =
     \<lparr>cr_goal = (case cr_goal carried of None \<Rightarrow> cr_goal parsed | Some g \<Rightarrow> Some g),
      cr_constraints = foldl (push_capped max_constraints max_item_chars) (cr_constraints carried) (cr_constraints parsed),
      cr_decisions = foldl (push_capped max_decisions max_item_chars) (cr_decisions carried) (cr_decisions parsed),
      cr_evidence_markers = add_all (cr_evidence_markers carried) (cr_evidence_markers parsed),
      cr_activated_tools = add_all (cr_activated_tools carried) (cr_activated_tools parsed)\<rparr>"

text \<open>The double question mark: the first argument unless it is null or missing.\<close>

definition path_or_file :: "(string \<times> json) list \<Rightarrow> string" where
  "path_or_file args =
     (case jfield args ''path'' of
        Some JNull \<Rightarrow> string_arg args ''file''
      | None \<Rightarrow> string_arg args ''file''
      | Some v \<Rightarrow> string_arg args ''path'')"

definition note_call :: "turn_scan \<Rightarrow> string \<times> string \<times> (string \<times> json) list \<Rightarrow> turn_scan" where
  "note_call ts call =
     (let (call_id, name, args) = call;
          path = path_or_file args;
          command = one_line (string_arg args ''command'') max_command_chars
      in ts\<lparr>ts_tool_calls := Suc (ts_tool_calls ts),
            ts_files := (if path \<noteq> [] then push_capped max_files max_item_chars (ts_files ts) path else ts_files ts),
            ts_commands :=
              (if command \<noteq> [] \<and> length (ts_commands ts) < max_commands \<and>
                  \<not> list_ex (\<lambda>(i, c). c = command) (ts_commands ts)
               then ts_commands ts @ [(call_id, command)] else ts_commands ts)\<rparr>)"

definition note_result :: "turn_scan \<Rightarrow> string \<times> bool \<times> string \<Rightarrow> turn_scan" where
  "note_result ts result =
     (let (call_id, is_error, text) = result
      in ts\<lparr>ts_results := AList.update call_id (is_error, text) (ts_results ts)\<rparr>)"

definition scan_turn :: "turn_scan \<Rightarrow> conversation_turn \<Rightarrow> turn_scan" where
  "scan_turn ts turn =
     (if is_prior_spine_turn turn
      then ts\<lparr>ts_carried := carry_spine (ts_carried ts) (parse_spine_text (join [newline] (turn_text_blocks turn)))\<rparr>
      else (let ts1 = ts\<lparr>ts_fresh_turns := Suc (ts_fresh_turns ts), ts_user_texts := ts_user_texts ts @ user_texts turn\<rparr>
            in foldl note_result (foldl note_call ts1 (tool_calls (ct_content turn))) (tool_results (ct_content turn))))"

definition scan_turns :: "conversation_turn list \<Rightarrow> turn_scan" where
  "scan_turns turns =
     foldl scan_turn
       \<lparr>ts_carried = empty_carried, ts_user_texts = [], ts_files = [], ts_commands = [], ts_results = [],
        ts_fresh_turns = 0, ts_tool_calls = 0\<rparr> turns"

definition unknown_goal :: string where
  "unknown_goal = ''Unknown (no user message in folded turns)''"

definition extracted_goal :: "string option \<Rightarrow> string list \<Rightarrow> string \<Rightarrow> string" where
  "extracted_goal carried_goal user_msgs narrative =
     (let narrative_goal = cap_goal (hd (split_str verify_repair_heading narrative)) max_goal_chars
      in case carried_goal of
           Some g \<Rightarrow> g
         | None \<Rightarrow> if user_msgs \<noteq> [] then cap_goal (hd user_msgs) max_goal_chars
                   else if narrative_goal \<noteq> [] then narrative_goal else unknown_goal)"

definition last_user_text :: "string list \<Rightarrow> string option" where
  "last_user_text user_msgs = (if user_msgs = [] then None else Some (last user_msgs))"

text \<open>The last request stands as the next action unless it is the goal.\<close>

definition last_user_as_next :: "string option \<Rightarrow> string list \<Rightarrow> string \<Rightarrow> bool" where
  "last_user_as_next carried_goal user_msgs goal =
     (case last_user_text user_msgs of
        None \<Rightarrow> False
      | Some text \<Rightarrow> cap_goal text max_goal_chars \<noteq> goal \<and> Some (one_line text spine_goal_chars) \<noteq> carried_goal)"

definition fresh_decisions :: "string option \<Rightarrow> string list \<Rightarrow> string \<Rightarrow> string list" where
  "fresh_decisions carried_goal user_msgs goal =
     foldl (\<lambda>out (i, text).
         if carried_goal = None \<and> i = (0 :: nat) then out
         else if last_user_as_next carried_goal user_msgs goal \<and> last_user_text user_msgs = Some text then out
         else if carried_goal = Some (one_line text spine_goal_chars) then out
         else push_capped max_decisions max_item_chars out (one_line text max_item_chars))
       [] (enumerate 0 user_msgs)"

definition fresh_constraints :: "string list \<Rightarrow> string list" where
  "fresh_constraints user_msgs =
     foldl (\<lambda>out text.
         if length out \<ge> max_constraints then out
         else foldl (\<lambda>out1 line.
                if length out1 \<ge> max_constraints \<or> \<not> constraint_signal line then out1
                else push_capped max_constraints max_item_chars out1 (one_line line max_item_chars))
              out (split_char newline text))
       [] user_msgs"

definition note_verification ::
    "(string \<times> bool \<times> string) list \<Rightarrow> string list \<times> string list \<Rightarrow> string \<times> string \<Rightarrow> string list \<times> string list" where
  "note_verification results st entry =
     (let (call_id, command) = entry; (out, ids) = st
      in if length out \<ge> max_verification \<or> \<not> verification_signal command then st
         else (case map_of results call_id of
                 None \<Rightarrow> (push_capped max_verification 400 out (''UNRESOLVED: '' @ command), ids)
               | Some (is_error, text) \<Rightarrow>
                   if is_error
                   then (push_capped max_verification 500 out
                           (''FAIL: '' @ command @ '' '' @ em_dash @ '' '' @ one_line (hd (split_char newline text)) 200),
                         jset_add call_id ids)
                   else (push_capped max_verification 400 out (''PASS: '' @ command), ids)))"

definition fresh_verification :: "(string \<times> string) list \<Rightarrow> (string \<times> bool \<times> string) list \<Rightarrow> string list \<times> string list" where
  "fresh_verification commands results = foldl (note_verification results) ([], []) commands"

definition fresh_dead_ends :: "string list \<Rightarrow> (string \<times> bool \<times> string) list \<Rightarrow> string list" where
  "fresh_dead_ends verification_ids results =
     foldl (\<lambda>out (call_id, is_error, text).
         if is_error \<and> text \<noteq> [] \<and> call_id \<notin> set verification_ids
         then push_capped max_dead_ends max_item_chars out text else out)
       [] results"

definition list_or_empty :: "'a list option \<Rightarrow> 'a list" where
  "list_or_empty xs = (case xs of None \<Rightarrow> [] | Some ys \<Rightarrow> ys)"

definition exact_facts_of ::
    "string \<Rightarrow> string list \<Rightarrow> nat \<Rightarrow> nat \<Rightarrow> string list \<Rightarrow> string list \<Rightarrow> string list \<Rightarrow> string list" where
  "exact_facts_of goal evidence fresh_turns calls files commands decisions =
     (let first =
            [''goal: '' @ one_line goal 160,
             ''evidence: '' @ (if evidence = [] then none_marker else join '' '' evidence),
             ''turns: '' @ dec fresh_turns @ '', tool calls: '' @ dec calls];
          with_files = (if files \<noteq> [] then push_capped max_exact_facts 2000 first (''paths: '' @ join '', '' files) else first);
          with_commands = (if commands \<noteq> []
            then push_capped max_exact_facts 2000 with_files (''commands: '' @ join ''; '' commands) else with_files)
      in foldl (\<lambda>out d. push_capped max_exact_facts 300 out (''user decision: '' @ one_line d 200))
           with_commands decisions)"

definition prior_of :: "handoff_extract_opts \<Rightarrow> prior_handoff" where
  "prior_of opts =
     (case eo_prior_file_text opts of
        None \<Rightarrow> no_prior_handoff
      | Some text \<Rightarrow> if text = [] then no_prior_handoff else parse_handoff_file text)"

definition extract_handoff_artifact ::
    "conversation_turn list \<Rightarrow> string \<Rightarrow> handoff_extract_opts \<Rightarrow> extracted_handoff" where
  "extract_handoff_artifact folded narrative opts =
     (let prior = prior_of opts;
          ts = scan_turns folded;
          carried = ts_carried ts;
          user_msgs = filter (\<lambda>t. trim t \<noteq> []) (ts_user_texts ts);
          goal = extracted_goal (cr_goal carried) user_msgs narrative;
          file_goal = prefer_full (ph_goal prior) goal;
          decisions = fresh_decisions (cr_goal carried) user_msgs goal;
          constraints = fresh_constraints user_msgs;
          (verification, verification_ids) = fresh_verification (ts_commands ts) (ts_results ts);
          dead_ends = fresh_dead_ends verification_ids (ts_results ts);
          next_actions = (if last_user_as_next (cr_goal carried) user_msgs goal
            then push_capped max_next_actions max_item_chars [] (one_line (last user_msgs) max_item_chars) else []);
          merged_constraints = merge_unique
            (merge_unique (list_or_empty (ph_constraints prior)) (cr_constraints carried) max_constraints max_item_chars True)
            constraints max_constraints max_item_chars False;
          merged_decisions = merge_unique
            (merge_unique (list_or_empty (ph_decisions prior)) (cr_decisions carried) max_decisions max_item_chars True)
            decisions max_decisions max_item_chars False;
          evidence = recover_evidence_markers
            (concat (map turn_evidence_texts folded) @ [narrative] @ list_or_empty (ph_evidence_markers prior));
          files = merge_unique (list_or_empty (ph_files prior)) (ts_files ts) max_files max_item_chars False;
          commands = merge_unique (list_or_empty (ph_commands prior)) (map snd (ts_commands ts))
            max_commands max_command_chars False
      in \<lparr>eh_artifact =
            \<lparr>ha_version = ''1'', ha_goal = file_goal, ha_constraints = merged_constraints,
             ha_decisions = merged_decisions, ha_evidence_markers = evidence, ha_files = files,
             ha_commands = commands,
             ha_verification = merge_unique (list_or_empty (ph_verification prior)) verification max_verification 500 False,
             ha_dead_ends = merge_unique (list_or_empty (ph_dead_ends prior)) dead_ends max_dead_ends max_item_chars False,
             ha_next_actions = merge_unique next_actions (list_or_empty (ph_next_actions prior))
               max_next_actions max_item_chars False,
             ha_exact_facts = exact_facts_of file_goal evidence (ts_fresh_turns ts) (ts_tool_calls ts) files commands
               merged_decisions\<rparr>,
          eh_spine =
            \<lparr>sf_goal = file_goal,
             sf_constraints = merge_unique (cr_constraints carried) constraints max_constraints max_item_chars False,
             sf_decisions = merge_unique (cr_decisions carried) decisions max_decisions max_item_chars False,
             sf_evidence_markers = evidence,
             sf_activated_tools = (case eo_activated_tools opts of None \<Rightarrow> cr_activated_tools carried | Some tools \<Rightarrow> tools)\<rparr>\<rparr>)"

section \<open>Rendering\<close>

definition render_section :: "string \<Rightarrow> string list \<Rightarrow> string" where
  "render_section title items =
     ''## '' @ title @ [newline] @ (if items = [] then none_marker else join [newline] (map (\<lambda>item. ''- '' @ item) items))"

definition render_handoff_file :: "handoff_artifact \<Rightarrow> string \<Rightarrow> string \<Rightarrow> string" where
  "render_handoff_file a narrative pointer_uri =
     join [newline]
       [''# Compaction handoff'', [],
        ''Full detail lives here; the live prompt carries only the spine plus this pointer: '' @ pointer_uri, [],
        ''## Goal'' @ [newline] @ ha_goal a,
        render_section ''Constraints'' (ha_constraints a),
        render_section ''Decisions'' (ha_decisions a),
        render_section ''Evidence markers (cumulative echo)'' (ha_evidence_markers a),
        render_section ''Files'' (ha_files a),
        render_section ''Commands'' (ha_commands a),
        render_section ''Verification'' (ha_verification a),
        render_section ''Dead ends'' (ha_dead_ends a),
        render_section ''Next actions'' (ha_next_actions a),
        ''## '' @ handoff_summary_heading @ [newline] @ (if trim narrative \<noteq> [] then trim narrative else none_marker),
        ''## '' @ handoff_exact_facts_heading @ [newline] @
          join [newline] (map (\<lambda>item. ''- '' @ item) (ha_exact_facts a))]"

definition spine_list_line :: "string \<Rightarrow> string list \<Rightarrow> string list" where
  "spine_list_line title items =
     (if items \<noteq> [] then [title @ '': '' @ join '' | '' (map cut_spine_item (take max_spine_items items))] else [])"

definition render_handoff_spine :: "spine_facts \<Rightarrow> string \<Rightarrow> string" where
  "render_handoff_spine spine pointer_uri =
     (let output = output_format_tokens (sf_goal spine)
      in join [newline]
           ([compacted_prefix, ''Goal: '' @ cut_spine_goal (sf_goal spine)] @
            (if output \<noteq> [] then [handoff_output_line_prefix @ join '' '' output] else []) @
            spine_list_line ''Constraints'' (sf_constraints spine) @
            spine_list_line ''Decisions'' (sf_decisions spine) @
            [''Evidence: '' @ (if sf_evidence_markers spine \<noteq> [] then join '' '' (sf_evidence_markers spine) else none_marker)] @
            (if sf_activated_tools spine \<noteq> []
             then [handoff_tools_line_prefix @ join '', '' (sf_activated_tools spine)] else []) @
            [''Handoff: '' @ pointer_uri @ '' '' @ em_dash @
             '' re-read with read_file (offset/limit) for the full operator ask, output contract, decisions, '' @
             ''verification, dead ends, next actions.'']))"

definition handoff_blob_uri :: "string \<Rightarrow> string" where
  "handoff_blob_uri key = ''tool-output:///'' @ key"

text \<open>A read of the previous file: no reader, a text, or a message it failed with; the flag says whether the
  failure is logged.\<close>

definition try_read_prior_handoff_file :: "(string \<Rightarrow> string + string) option \<Rightarrow> string option \<times> bool" where
  "try_read_prior_handoff_file read_blob =
     (case read_blob of
        None \<Rightarrow> (None, False)
      | Some read \<Rightarrow>
          (case read handoff_latest_key of
             Inr text \<Rightarrow> (Some text, False)
           | Inl message \<Rightarrow> (None, \<not> has_infix (to_lower message) ''not found'')))"

record handoff_fold =
  hf_artifact :: handoff_artifact
  hf_spine_text :: string
  hf_blob_key :: string
  hf_blob_text :: string

definition build_handoff_fold ::
    "conversation_turn list \<Rightarrow> string \<Rightarrow> handoff_extract_opts \<Rightarrow> handoff_fold" where
  "build_handoff_fold folded narrative opts =
     (let extracted = extract_handoff_artifact folded narrative opts;
          uri = handoff_blob_uri handoff_latest_key
      in \<lparr>hf_artifact = eh_artifact extracted, hf_spine_text = render_handoff_spine (eh_spine extracted) uri,
          hf_blob_key = handoff_latest_key,
          hf_blob_text = render_handoff_file (eh_artifact extracted) narrative uri\<rparr>)"

section \<open>Evidence is never lost\<close>

text \<open>An evidence token, wherever it stands.\<close>

definition is_evidence :: "string \<Rightarrow> bool" where
  "is_evidence t \<longleftrightarrow> (\<exists>body. body \<noteq> [] \<and> list_all evidence_char body \<and> t = evidence_open @ body @ evidence_close)"

lemma match_evidence_iff: "match_evidence s = Some t \<longleftrightarrow> is_evidence t \<and> starts_with s t"
proof
  assume "match_evidence s = Some t"
  then obtain body where body: "starts_with s evidence_open" "body = takeWhile evidence_char (drop (length evidence_open) s)"
    "body \<noteq> []" "starts_with (drop (length body) (drop (length evidence_open) s)) evidence_close"
    "t = evidence_open @ body @ evidence_close"
    by (auto simp: match_evidence_def Let_def split: if_splits)
  have "drop (length evidence_open) s = body @ drop (length body) (drop (length evidence_open) s)"
    using body(2) by (metis append_eq_conv_conj takeWhile_dropWhile_id)
  then have "starts_with s t"
    using body(1,4,5) by (metis append.assoc starts_with_append starts_with_drop)
  moreover have "list_all evidence_char body" using body(2) by (auto simp: list_all_iff dest: set_takeWhileD)
  ultimately show "is_evidence t \<and> starts_with s t" using body(3,5) by (auto simp: is_evidence_def)
next
  assume t: "is_evidence t \<and> starts_with s t"
  then obtain body u where body: "body \<noteq> []" "list_all evidence_char body" "t = evidence_open @ body @ evidence_close"
    and s: "s = t @ u"
    by (auto simp: is_evidence_def starts_with_iff)
  have "takeWhile evidence_char (body @ evidence_close @ u) = body"
    using body(2) by (auto simp: list_all_iff takeWhile_append evidence_close_def evidence_char_def)
  then show "match_evidence s = Some t" using body s by (simp add: match_evidence_def Let_def)
qed

text \<open>Two brackets open a token only at its start.\<close>

lemma evidence_bracket:
  assumes "is_evidence t" "t @ rest = a @ t' @ b" "is_evidence t'" "a \<noteq> []"
  shows "length t \<le> length a"
proof (rule ccontr)
  assume short: "\<not> length t \<le> length a"
  obtain body where body: "list_all evidence_char body" "body \<noteq> []" "t = evidence_open @ body @ evidence_close"
    using assms(1) by (auto simp: is_evidence_def)
  have brackets: "(a @ t' @ b) ! length a = CHR ''[''" "(a @ t' @ b) ! Suc (length a) = CHR ''[''"
    using assms(3) by (auto simp: is_evidence_def evidence_open_def nth_append)
  have t: "(t @ rest) ! length a = t ! length a" using short by (simp add: nth_append)
  have "length a = 1"
  proof (rule ccontr)
    assume "length a \<noteq> 1"
    moreover have "0 < length a" using assms(4) by simp
    ultimately have len: "2 \<le> length a" by linarith
    have "t ! length a \<noteq> CHR ''[''"
    proof (cases "length a < length evidence_open + length body")
      case True
      show ?thesis
      proof (cases "length a < length evidence_open")
        case True
        then have "length a \<in> {2..<11}" using len by (simp add: evidence_open_def)
        then have "length a \<in> {2,3,4,5,6,7,8,9,10}" by auto
        then show ?thesis by (auto simp: body(3) evidence_open_def)
      next
        case False
        then obtain k where k: "length a = length evidence_open + k" "k < length body"
          using True by (metis add_less_cancel_left le_add_diff_inverse not_less)
        then have "t ! length a = body ! k" by (simp add: body(3) nth_append)
        moreover have "evidence_char (body ! k)" using body(1) k(2) by (simp add: list_all_length)
        ultimately show ?thesis by (auto simp: evidence_char_def)
      qed
    next
      case False
      then obtain k where k: "length a = length evidence_open + length body + k" by (metis le_add_diff_inverse not_less)
      then have "t ! length a = evidence_close ! k" by (simp add: body(3) nth_append)
      moreover have "k < 2" using short k by (simp add: body(3) evidence_close_def)
      then have "k \<in> {0, 1}" by auto
      ultimately show ?thesis by (auto simp: evidence_close_def)
    qed
    then show False using brackets(1) t assms(2) by simp
  qed
  then have "(t @ rest) ! Suc (length a) = CHR ''e''" by (simp add: body(3) evidence_open_def nth_append)
  then show False using brackets(2) assms(2) by simp
qed

lemma evidence_not_Nil: "is_evidence t \<Longrightarrow> t \<noteq> []"
  by (auto simp: is_evidence_def evidence_open_def)

lemma evidence_found: "s = a @ t @ b \<Longrightarrow> is_evidence t \<Longrightarrow> t \<in> set (evidence_tokens s)"
proof (induction s arbitrary: a rule: evidence_tokens.induct)
  case 1
  then show ?case by (auto simp: is_evidence_def evidence_open_def)
next
  case (2 c s)
  show ?case
  proof (cases "match_evidence (c # s)")
    case None
    then have "a \<noteq> []" using 2(3,4) match_evidence_iff [of "c # s" t] by (auto simp: starts_with_iff)
    then obtain a' where "s = a' @ t @ b" using 2(3) by (cases a) auto
    then show ?thesis using 2(1) [OF None] 2(4) None by simp
  next
    case (Some t')
    then have t': "is_evidence t'" "starts_with (c # s) t'" by (simp_all add: match_evidence_iff)
    then obtain rest where rest: "c # s = t' @ rest" by (auto simp: starts_with_iff)
    show ?thesis
    proof (cases "a = []")
      case True
      then have "match_evidence (c # s) = Some t" using 2(3,4) by (simp add: match_evidence_iff)
      then show ?thesis using Some by simp
    next
      case False
      have "t' @ rest = a @ t @ b" using rest 2(3) by simp
      then have "length t' \<le> length a" using evidence_bracket [OF t'(1) _ 2(4) False] by blast
      then have "drop (length t') (c # s) = drop (length t') a @ t @ b" using 2(3) by simp
      then have "t \<in> set (evidence_tokens (drop (length t') (c # s)))" using 2(2) [OF Some] 2(4) by blast
      then show ?thesis using Some by simp
    qed
  qed
qed

lemma evidence_tokens_are: "t \<in> set (evidence_tokens s) \<Longrightarrow> is_evidence t \<and> (\<exists>a b. s = a @ t @ b)"
proof (induction s rule: evidence_tokens.induct)
  case (2 c s)
  show ?case
  proof (cases "match_evidence (c # s)")
    case None
    then show ?thesis using 2 by simp (metis append_Cons)
  next
    case (Some t')
    then have t': "is_evidence t'" "c # s = t' @ drop (length t') (c # s)"
      by (auto simp: match_evidence_iff starts_with_iff)
    show ?thesis
    proof (cases "t = t'")
      case True
      then show ?thesis using t' by (metis append_Nil)
    next
      case False
      then have "t \<in> set (evidence_tokens (drop (length t') (c # s)))" using 2(3) Some by simp
      then obtain a b where "is_evidence t" "drop (length t') (c # s) = a @ t @ b" using 2(2) [OF Some] by blast
      then show ?thesis using t'(2) by (metis append.assoc)
    qed
  qed
qed simp

lemma evidence_tokens_iff: "t \<in> set (evidence_tokens s) \<longleftrightarrow> is_evidence t \<and> has_infix s t"
  using evidence_tokens_are evidence_found by (metis includes_iff)

lemma has_infix_trans: "has_infix s t \<Longrightarrow> has_infix t u \<Longrightarrow> has_infix s u"
  by (auto simp: includes_iff) (metis append.assoc)

lemma evidence_tokens_mono: "has_infix s u \<Longrightarrow> set (evidence_tokens u) \<subseteq> set (evidence_tokens s)"
  by (auto simp: evidence_tokens_iff intro: has_infix_trans)

lemma set_recover [simp]: "set (recover_evidence_markers texts) = (\<Union>text \<in> set texts. set (evidence_tokens text))"
  by (auto simp: recover_evidence_markers_def)

lemma join_has_infix: "x \<in> set xs \<Longrightarrow> has_infix (join sep xs) x"
proof (induction xs)
  case (Cons y ys)
  show ?case
  proof (cases "ys = []")
    case False
    then have "join sep (y # ys) = y @ sep @ join sep ys" by (rule join_Cons_not_Nil)
    then show ?thesis using Cons by (cases "x = y") (auto simp: includes_iff, metis append.assoc)
  qed (use Cons in \<open>auto simp: includes_iff intro: exI [of _ "[]"]\<close>)
qed simp

lemma has_infix_append [intro]: "has_infix t u \<Longrightarrow> has_infix (s @ t) u" "has_infix s u \<Longrightarrow> has_infix (s @ t) u"
  by (auto simp: includes_iff) (metis append.assoc)+

lemma evidence_line_in_spine:
  "t \<in> set (sf_evidence_markers spine) \<Longrightarrow> has_infix (render_handoff_spine spine uri) t"
proof -
  assume t: "t \<in> set (sf_evidence_markers spine)"
  then have "has_infix (''Evidence: '' @ join '' '' (sf_evidence_markers spine)) t" by (intro has_infix_append join_has_infix)
  moreover have "has_infix (render_handoff_spine spine uri) (''Evidence: '' @ join '' '' (sf_evidence_markers spine))"
    using t unfolding render_handoff_spine_def Let_def by (intro join_has_infix) auto
  ultimately show ?thesis by (rule has_infix_trans [rotated])
qed

lemma markers_of_extract:
  "ha_evidence_markers (eh_artifact (extract_handoff_artifact folded narrative opts)) =
     recover_evidence_markers
       (concat (map turn_evidence_texts folded) @ [narrative] @ list_or_empty (ph_evidence_markers (prior_of opts)))"
  "sf_evidence_markers (eh_spine (extract_handoff_artifact folded narrative opts)) =
     recover_evidence_markers
       (concat (map turn_evidence_texts folded) @ [narrative] @ list_or_empty (ph_evidence_markers (prior_of opts)))"
  by (simp_all add: extract_handoff_artifact_def Let_def split: prod.splits)

lemma evidence_in_spine:
  assumes "t \<in> set (evidence_tokens x)" "x \<in> set (concat (map turn_evidence_texts folded) @ [narrative])"
  shows "t \<in> set (evidence_tokens (hf_spine_text (build_handoff_fold folded narrative opts)))"
proof -
  let ?spine = "eh_spine (extract_handoff_artifact folded narrative opts)"
  have "t \<in> set (recover_evidence_markers
      (concat (map turn_evidence_texts folded) @ [narrative] @ list_or_empty (ph_evidence_markers (prior_of opts))))"
    unfolding set_recover using assms by (intro UN_I [of x]) auto
  then have "has_infix (render_handoff_spine ?spine (handoff_blob_uri handoff_latest_key)) t"
    by (intro evidence_line_in_spine) (simp only: markers_of_extract)
  then show ?thesis
    using evidence_tokens_are [OF assms(1)] by (simp add: build_handoff_fold_def Let_def evidence_tokens_iff)
qed

text \<open>A chain of folds, each of which folds the spine of the one before.\<close>

definition spine_turn :: "string \<Rightarrow> conversation_turn" where
  "spine_turn spine =
     \<lparr>ct_ref = 0, ct_role = UserRole, ct_content = [TextBlock spine], ct_model = None, ct_timestamp = 0\<rparr>"

type_synonym fold_input = "conversation_turn list \<times> string \<times> handoff_extract_opts"

definition fold_onto :: "string option \<Rightarrow> fold_input \<Rightarrow> handoff_fold" where
  "fold_onto prev input =
     (let (turns, narrative, opts) = input
      in build_handoff_fold ((case prev of None \<Rightarrow> [] | Some spine \<Rightarrow> [spine_turn spine]) @ turns) narrative opts)"

fun fold_chain :: "string option \<Rightarrow> fold_input list \<Rightarrow> string option" where
  "fold_chain prev [] = prev"
| "fold_chain prev (input # inputs) = fold_chain (Some (hf_spine_text (fold_onto prev input))) inputs"

definition input_evidence :: "fold_input \<Rightarrow> string set" where
  "input_evidence input =
     (let (turns, narrative, opts) = input
      in \<Union>text \<in> set (concat (map turn_evidence_texts turns) @ [narrative]). set (evidence_tokens text))"

definition spine_evidence :: "string option \<Rightarrow> string set" where
  "spine_evidence spine = (case spine of None \<Rightarrow> {} | Some text \<Rightarrow> set (evidence_tokens text))"

lemma fold_onto_evidence:
  "spine_evidence prev \<union> input_evidence input \<subseteq> spine_evidence (Some (hf_spine_text (fold_onto prev input)))"
proof
  fix t assume t: "t \<in> spine_evidence prev \<union> input_evidence input"
  obtain turns narrative opts where input: "input = (turns, narrative, opts)" by (cases input)
  let ?folded = "(case prev of None \<Rightarrow> [] | Some spine \<Rightarrow> [spine_turn spine]) @ turns"
  have "\<exists>x. t \<in> set (evidence_tokens x) \<and> x \<in> set (concat (map turn_evidence_texts ?folded) @ [narrative])"
  proof (cases "t \<in> input_evidence input")
    case True
    then show ?thesis unfolding input_evidence_def input by fastforce
  next
    case False
    then obtain x where x: "prev = Some x" "t \<in> set (evidence_tokens x)"
      using t by (auto simp: spine_evidence_def split: option.splits)
    then have "x \<noteq> []" by auto
    then have "x \<in> set (turn_evidence_texts (spine_turn x))"
      by (simp add: spine_turn_def turn_evidence_texts_def turn_text_blocks_def)
    then show ?thesis using x by auto
  qed
  then show "t \<in> spine_evidence (Some (hf_spine_text (fold_onto prev input)))"
    using evidence_in_spine by (auto simp only: spine_evidence_def fold_onto_def input option.case prod.case Let_def)
qed

lemma Un_chain: "A \<union> B \<subseteq> N \<Longrightarrow> N \<union> C \<subseteq> Z \<Longrightarrow> A \<union> (B \<union> C) \<subseteq> Z"
  by blast

text \<open>C36: Along every chain of folds, whatever the turns, summaries and previous files, every evidence token of
  a folded turn, of a tool result or of a summary is still in the spine of the last fold.\<close>

theorem evidence_never_lost:
  "spine_evidence prev \<union> (\<Union>input \<in> set inputs. input_evidence input) \<subseteq> spine_evidence (fold_chain prev inputs)"
proof (induction inputs arbitrary: prev)
  case (Cons input inputs)
  show ?case
    unfolding fold_chain.simps list.set UN_insert by (rule Un_chain [OF fold_onto_evidence Cons.IH])
qed simp

section \<open>Standing output tokens stay in the goal\<close>

definition output_tokens :: "string \<Rightarrow> string list" where
  "output_tokens s = map snd (output_matches False 0 s)"

lemma output_matches_step:
  "(if inside then None else match_output (c # s)) = None \<Longrightarrow>
    output_matches inside i (c # s) = output_matches (is_word_char c) (Suc i) s"
  "(if inside then None else match_output (c # s)) = Some t \<Longrightarrow>
    output_matches inside i (c # s) = (i, t) # output_matches (is_word_char (last t)) (i + length t) (drop (length t) (c # s))"
  by simp_all

lemma output_matches_index: "map snd (output_matches inside i s) = map snd (output_matches inside j s)"
proof (induction inside i s arbitrary: j rule: output_matches.induct)
  case (2 inside i c s)
  show ?case
  proof (cases "if inside then None else match_output (c # s)")
    case None
    show ?thesis unfolding output_matches_step(1) [OF None] by (rule 2(1) [OF None])
  next
    case (Some t)
    show ?thesis unfolding output_matches_step(2) [OF Some] list.map snd_conv using 2(2) [OF Some] by metis
  qed
qed simp

lemma set_output_format_tokens: "set (output_format_tokens s) = set (output_tokens s)"
proof -
  have "set (foldl (\<lambda>out (i, t). jset_add t out) out ms) = set out \<union> snd ` set ms" for out and ms :: "(nat \<times> string) list"
    by (induction ms arbitrary: out) auto
  then show ?thesis by (simp add: output_format_tokens_def output_tokens_def)
qed

lemma ws_not_name: "is_ws c \<Longrightarrow> \<not> output_name_char c \<and> \<not> is_upper_char c \<and> \<not> is_word_char c \<and> c \<noteq> CHR ''=''"
  by (auto simp: is_ws_def js_ws_chars_def output_name_char_def is_upper_char_def is_digit_def in_range_def
      is_word_char_def is_alpha_def)

text \<open>White space ends every match.\<close>

lemma match_output_ws:
  assumes "is_ws w"
  shows "match_output (c # a @ w # b) = match_output (c # a)"
proof -
  have name: "takeWhile output_name_char (a @ w # b) = takeWhile output_name_char a"
    using ws_not_name [OF assms] by (simp add: takeWhile_tail)
  let ?after = "drop (length (takeWhile output_name_char a)) a"
  have after: "drop (length (takeWhile output_name_char a)) (a @ w # b) = ?after @ w # b"
    using length_takeWhile_le [of output_name_char a] by (simp del: drop_eq_Nil)
  show ?thesis
  proof (cases "?after = []")
    case True
    then show ?thesis
      using ws_not_name [OF assms] by (simp add: match_output_def Let_def name after del: drop_append drop_eq_Nil)
  next
    case False
    then have "tl (?after @ w # b) = tl ?after @ w # b" "hd (?after @ w # b) = hd ?after" by simp_all
    moreover have "takeWhile (\<lambda>d. \<not> is_ws d) (tl ?after @ w # b) = takeWhile (\<lambda>d. \<not> is_ws d) (tl ?after)"
      using assms by (simp add: takeWhile_tail)
    ultimately show ?thesis
      using False by (simp add: match_output_def Let_def name after del: drop_append drop_eq_Nil)
  qed
qed

lemma not_name_eq: "\<not> output_name_char (CHR ''='')"
  by (simp add: output_name_char_def is_upper_char_def is_digit_def in_range_def)

lemma match_outputE:
  assumes "match_output s = Some t"
  obtains c name val rest where "t = c # name @ CHR ''='' # val" "s = t @ rest" "is_upper_char c" "name \<noteq> []"
    "list_all output_name_char name" "val \<noteq> []" "list_all (\<lambda>d. \<not> is_ws d) val"
proof -
  obtain c r where s: "s = c # r" using assms by (cases s) (auto simp: match_output_def)
  let ?name = "takeWhile output_name_char r"
  let ?after = "drop (length ?name) r"
  let ?val = "takeWhile (\<lambda>d. \<not> is_ws d) (tl ?after)"
  have t: "is_upper_char c" "?name \<noteq> []" "?val \<noteq> []" "?after \<noteq> []" "hd ?after = CHR ''=''"
    "t = c # ?name @ CHR ''='' # ?val"
    using assms by (auto simp: s match_output_def Let_def split: if_splits)
  have "r = ?name @ ?after" by (metis append_eq_conv_conj takeWhile_dropWhile_id)
  moreover have "?after = CHR ''='' # tl ?after" using t(4,5) by (metis list.collapse)
  moreover have "tl ?after = ?val @ dropWhile (\<lambda>d. \<not> is_ws d) (tl ?after)" by simp
  ultimately have "s = t @ dropWhile (\<lambda>d. \<not> is_ws d) (tl ?after)" using s t(6) by (metis append_Cons append_assoc)
  moreover have "list_all output_name_char ?name" "list_all (\<lambda>d. \<not> is_ws d) ?val"
    by (auto simp: list_all_iff dest: set_takeWhileD)
  ultimately show ?thesis using t that by blast
qed

lemma match_outputI:
  assumes "is_upper_char c" "name \<noteq> []" "list_all output_name_char name" "val \<noteq> []" "list_all (\<lambda>d. \<not> is_ws d) val"
  shows "match_output (c # name @ CHR ''='' # val) = Some (c # name @ CHR ''='' # val)"
proof -
  have "takeWhile output_name_char (name @ CHR ''='' # val) = name"
    using assms(3) not_name_eq by (simp add: takeWhile_append list_all_iff)
  moreover have val: "takeWhile (\<lambda>d. \<not> is_ws d) val = val" using assms(5) by (simp only: takeWhile_eq_all_conv list_all_iff)
  ultimately show ?thesis using assms(1,2,4) by (simp add: match_output_def Let_def val del: takeWhile_eq_all_conv)
qed

lemma match_output_split: "match_output s = Some t \<Longrightarrow> s = t @ drop (length t) s"
  by (erule match_outputE) simp

lemma match_output_self: "match_output s = Some t \<Longrightarrow> match_output t = Some t"
  by (erule match_outputE) (simp add: match_outputI)

lemma output_matches_ws:
  "is_ws w \<Longrightarrow> map snd (output_matches inside i (a @ w # b)) = map snd (output_matches inside i a) @ output_tokens b"
proof (induction inside i a rule: output_matches.induct)
  case (1 inside i)
  then have "match_output (w # b) = None" using ws_not_name by (simp add: match_output_def)
  then show ?case
    using ws_not_name [OF 1] output_matches_index [of False "Suc i" b 0] by (simp add: output_tokens_def)
next
  case (2 inside i c a)
  show ?case
  proof (cases "if inside then None else match_output (c # a)")
    case None
    then have none: "(if inside then None else match_output (c # a @ w # b)) = None"
      unfolding match_output_ws [OF 2(3)] .
    show ?thesis
      unfolding append_Cons output_matches_step(1) [OF None] output_matches_step(1) [OF none] by (rule 2(1) [OF None 2(3)])
  next
    case (Some t)
    then have some: "(if inside then None else match_output (c # a @ w # b)) = Some t"
      unfolding match_output_ws [OF 2(3)] .
    have "c # a = t @ drop (length t) (c # a)" using Some match_output_split by (cases inside) simp_all
    then have "length t \<le> length (c # a)" by (metis length_append le_add1)
    then have "drop (length t) (c # a @ w # b) = drop (length t) (c # a) @ w # b" by (metis append_Cons drop_append diff_is_0_eq drop0)
    then show ?thesis
      unfolding append_Cons output_matches_step(2) [OF Some] output_matches_step(2) [OF some] list.map snd_conv append_Cons
      using 2(2) [OF Some 2(3)] by metis
  qed
qed

lemma output_tokens_ws: "is_ws w \<Longrightarrow> output_tokens (a @ w # b) = output_tokens a @ output_tokens b"
  unfolding output_tokens_def [of "a @ w # b"] output_tokens_def [of a] by (rule output_matches_ws)

lemma output_tokens_self:
  assumes "t \<in> set (output_tokens s)"
  shows "output_tokens t = [t]"
proof -
  have "\<exists>u. match_output u = Some t" if "(k, t) \<in> set (output_matches inside i s)" for inside i k
    using that by (induction inside i s rule: output_matches.induct) (auto split: option.splits if_splits)
  then have "match_output t = Some t" using assms match_output_self by (force simp: output_tokens_def)
  moreover from this obtain c r where "t = c # r" by (cases t) (auto simp: match_output_def)
  ultimately show ?thesis by (simp add: output_tokens_def)
qed

lemma output_tokens_lead: "output_tokens (dropWhile is_ws s) = output_tokens s"
proof (induction s)
  case (Cons c s)
  then show ?case using output_tokens_ws [of c "[]" s] by (simp add: output_tokens_def)
qed simp

lemma output_tokens_trail: "list_all is_ws ws \<Longrightarrow> output_tokens (a @ ws) = output_tokens a"
proof (induction ws arbitrary: a)
  case (Cons w ws)
  then have "output_tokens (a @ w # ws) = output_tokens a @ output_tokens ws" by (simp add: output_tokens_ws)
  moreover have "output_tokens ws = []" using Cons.IH [of "[]"] Cons.prems by (simp add: output_tokens_def)
  ultimately show ?case by simp
qed simp

lemma output_tokens_trim: "output_tokens (trim s) = output_tokens s"
proof -
  obtain ws where "trim_start s = trim_end (trim_start s) @ ws" "list_all is_ws ws" using trim_end_ws_split by blast
  then have "output_tokens (trim_start s) = output_tokens (trim s)" unfolding trim_def by (metis output_tokens_trail)
  then show ?thesis by (simp add: trim_start_def output_tokens_lead)
qed

lemma is_ws_blank [simp]: "is_ws (CHR '' '')"
  by (simp add: is_ws_def js_ws_chars_def)

lemma collapse_word: "list_all (\<lambda>c. \<not> is_ws c) u \<Longrightarrow> collapse_ws (u @ r) = u @ collapse_ws r"
  by (induction u) auto

lemma output_tokens_collapse: "output_tokens (collapse_ws s) = output_tokens s"
proof (induction s rule: length_induct)
  case (1 s)
  let ?u = "takeWhile (\<lambda>c. \<not> is_ws c) s"
  have u: "list_all (\<lambda>c. \<not> is_ws c) ?u" by (auto simp: list_all_iff dest: set_takeWhileD)
  show ?case
  proof (cases "dropWhile (\<lambda>c. \<not> is_ws c) s")
    case Nil
    then have "s = ?u" by (metis append_Nil2 takeWhile_dropWhile_id)
    then show ?thesis using collapse_word [OF u, of "[]"] by simp
  next
    case (Cons w b)
    then have s: "s = ?u @ w # b" and w: "is_ws w"
      by (metis takeWhile_dropWhile_id, metis dropWhile_eq_Cons_conv)
    have "length (dropWhile is_ws b) < length s" using length_dropWhile_le [of is_ws b] arg_cong [OF s, of length] by simp
    then have "output_tokens (collapse_ws (dropWhile is_ws b)) = output_tokens b"
      using 1 output_tokens_lead by metis
    moreover have "collapse_ws s = ?u @ CHR '' '' # collapse_ws (dropWhile is_ws b)"
      using collapse_word [OF u, of "w # b"] s w by simp
    moreover have "output_tokens s = output_tokens ?u @ output_tokens b" using s w output_tokens_ws by metis
    ultimately show ?thesis by (simp add: output_tokens_ws)
  qed
qed

lemma append_tokens:
  "set (output_tokens c) \<union> set tokens \<subseteq> set (output_tokens (fst (foldl append_token (c, present) tokens)))"
  if "\<And>t. t \<in> set tokens \<Longrightarrow> output_tokens t = [t]" and "set present \<subseteq> set (output_tokens c)"
  using that
proof (induction tokens arbitrary: c present)
  case (Cons t tokens)
  show ?case
  proof (cases "t \<in> set present")
    case True
    then show ?thesis using Cons.IH [of present c] Cons.prems by (auto simp: append_token_def)
  next
    case False
    let ?c = "c @ [CHR '' ''] @ t" and ?present = "jset_add t present"
    have c: "output_tokens ?c = output_tokens c @ [t]"
      using Cons.prems(1) [of t] output_tokens_ws [of "CHR '' ''" c t] by simp
    then have "set (output_tokens ?c) \<union> set tokens
        \<subseteq> set (output_tokens (fst (foldl append_token (?c, ?present) tokens)))"
      using Cons.prems by (intro Cons.IH) auto
    moreover have "append_token (c, present) t = (?c, ?present)" using False by (simp add: append_token_def)
    ultimately show ?thesis using c by auto
  qed
qed simp

text \<open>Cutting a request down to the cap of a goal loses none of its standing output tokens, wherever they
  stand in the request.\<close>

theorem goal_keeps_output_tokens:
  "set (output_format_tokens request) \<subseteq> set (output_format_tokens (cap_goal request max_chars))"
proof -
  let ?line = "trim (collapse_ws request)"
  let ?capped = "take (goal_end max_chars ?line) ?line"
  have "set (output_tokens ?capped) \<union> set (output_format_tokens ?line)
      \<subseteq> set (output_tokens (fst (foldl append_token (?capped, output_format_tokens ?capped) (output_format_tokens ?line))))"
    by (rule append_tokens) (auto simp: set_output_format_tokens intro: output_tokens_self)
  then show ?thesis
    by (simp add: cap_goal_def Let_def set_output_format_tokens output_tokens_trim output_tokens_collapse)
qed

section \<open>A cut goal is not cut again\<close>

text \<open>White space stands alone and is a blank.\<close>

fun single_spaced :: "string \<Rightarrow> bool" where
  "single_spaced [] = True"
| "single_spaced [c] = (is_ws c \<longrightarrow> c = CHR '' '')"
| "single_spaced (c # d # s) = ((is_ws c \<longrightarrow> c = CHR '' '' \<and> \<not> is_ws d) \<and> single_spaced (d # s))"

definition one_spaced :: "string \<Rightarrow> bool" where
  "one_spaced s \<longleftrightarrow> single_spaced s \<and> (s = [] \<or> \<not> is_ws (hd s) \<and> \<not> is_ws (last s))"

lemma single_spaced_Cons: "single_spaced (c # s) \<Longrightarrow> single_spaced s"
  by (cases s) auto

lemma collapse_single_spaced: "single_spaced s \<Longrightarrow> collapse_ws s = s"
  by (induction s rule: single_spaced.induct) auto

lemma hd_collapse: "s \<noteq> [] \<Longrightarrow> collapse_ws s \<noteq> [] \<and> is_ws (hd (collapse_ws s)) = is_ws (hd s)"
  by (cases s) auto

lemma single_spaced_collapse: "single_spaced (collapse_ws s)"
proof (induction s rule: collapse_ws.induct)
  case (2 c s)
  show ?case
  proof (cases "is_ws c")
    case True
    show ?thesis
    proof (cases "dropWhile is_ws s")
      case Nil
      then show ?thesis using True by (simp del: dropWhile_eq_Nil_conv)
    next
      case (Cons d r)
      then have "\<not> is_ws d" by (metis dropWhile_eq_Cons_conv)
      then show ?thesis using True 2(1) Cons by simp
    qed
  next
    case False
    then show ?thesis using 2 by (cases "collapse_ws s") auto
  qed
qed simp

lemma single_spaced_append: "single_spaced (a @ b) \<Longrightarrow> single_spaced a \<and> single_spaced b"
proof (induction a rule: single_spaced.induct)
  case (2 c)
  then show ?case by (cases b) auto
qed auto

lemma one_spaced_line: "one_spaced (trim (collapse_ws s))"
proof -
  let ?c = "collapse_ws s"
  obtain ws where ws: "trim_start ?c = trim ?c @ ws" using trim_end_ws_split unfolding trim_def by blast
  have "?c = takeWhile is_ws ?c @ trim_start ?c" by (simp add: trim_start_def)
  then have "single_spaced (trim_start ?c)" using single_spaced_collapse single_spaced_append by metis
  then have "single_spaced (trim ?c)" using ws single_spaced_append by metis
  moreover have "\<not> is_ws (hd (trim ?c)) \<and> \<not> is_ws (last (trim ?c))" if t: "trim ?c \<noteq> []"
  proof
    have "hd (trim ?c) = hd (trim_start ?c)" "trim_start ?c \<noteq> []" using t ws by auto
    then show "\<not> is_ws (hd (trim ?c))" unfolding trim_start_def by (metis hd_dropWhile)
    have "dropWhile is_ws (rev (trim_start ?c)) \<noteq> []" using t by (simp add: trim_def trim_end_def)
    then show "\<not> is_ws (last (trim ?c))" unfolding trim_def trim_end_def last_rev by (rule hd_dropWhile)
  qed
  ultimately show ?thesis unfolding one_spaced_def by blast
qed

lemma one_spaced_id: "one_spaced s \<Longrightarrow> trim (collapse_ws s) = s"
  by (simp add: one_spaced_def collapse_single_spaced trim_id)

lemma single_spaced_before:
  "single_spaced (a @ c # b) \<Longrightarrow> is_ws c \<Longrightarrow> a \<noteq> [] \<Longrightarrow> \<not> is_ws (last a)"
proof (induction a rule: single_spaced.induct)
  case (2 d)
  then show ?case by (cases b) auto
qed auto

lemma single_spaced_dots:
  "single_spaced a \<Longrightarrow> a = [] \<or> \<not> is_ws (last a) \<Longrightarrow> single_spaced (a @ spine_cut_sentinel)"
proof (induction a rule: single_spaced.induct)
  case 1
  then show ?case by (simp add: spine_cut_sentinel_def is_ws_def js_ws_chars_def)
next
  case (2 c)
  then show ?case by (simp add: spine_cut_sentinel_def is_ws_def js_ws_chars_def)
qed auto

lemma cut_at_space:
  assumes "single_spaced head"
  shows "(\<exists>rest. head = cut_at_space head @ rest) \<and> (cut_at_space head = [] \<or> \<not> is_ws (last (cut_at_space head)))"
proof (cases "last_space head > 1")
  case True
  let ?P = "\<lambda>c. c \<noteq> CHR '' ''"
  obtain c r where r: "dropWhile ?P (rev head) = c # r" using True by (cases "dropWhile ?P (rev head)") (auto simp: last_space_def)
  have c: "c = CHR '' ''" "rev head = takeWhile ?P (rev head) @ c # r"
    using hd_dropWhile [of ?P "rev head"] takeWhile_dropWhile_id [of ?P "rev head"] r by simp_all
  define u where "u = takeWhile ?P (rev head)"
  have "rev (rev head) = rev (u @ c # r)" using c(2) unfolding u_def by (rule arg_cong)
  then have head: "head = rev r @ CHR '' '' # rev u" using c(1) by simp
  have len: "last_space head = Suc (length r)" by (simp add: last_space_def r)
  then have cut: "cut_at_space head = take (length r) head" using True by (simp add: cut_at_space_def)
  then have "cut_at_space head = rev r" unfolding head by simp
  moreover have "rev r \<noteq> []" using True len by auto
  then have "\<not> is_ws (last (rev r))" using single_spaced_before assms head is_ws_blank by metis
  ultimately show ?thesis using head by metis
next
  case False
  then have cut: "cut_at_space head = trim_end head" by (simp add: cut_at_space_def)
  have "trim_end head = [] \<or> \<not> is_ws (last (trim_end head))"
    unfolding trim_end_def last_rev by (metis hd_dropWhile rev.simps(1))
  then show ?thesis using cut trim_end_ws_split [of head] by metis
qed

lemma without_sentinel_append [simp]: "without_sentinel (s @ spine_cut_sentinel) = s"
  by (simp add: without_sentinel_def)

lemma cut_short:
  assumes "one_spaced (kept @ spine_cut_sentinel)" "length kept \<le> spine_goal_chars"
  shows "cut_spine_goal (kept @ spine_cut_sentinel) = kept @ spine_cut_sentinel"
  using assms by (simp add: cut_spine_goal_def one_spaced_id Let_def)

lemma no_ws_dots: "list_all (\<lambda>d. \<not> is_ws d) spine_cut_sentinel"
  by (simp add: spine_cut_sentinel_def is_ws_def js_ws_chars_def)

lemma match_output_dots: "match_output s = Some t \<Longrightarrow> match_output (t @ spine_cut_sentinel) = Some (t @ spine_cut_sentinel)"
proof (erule match_outputE)
  fix c name val rest
  assume t: "t = c # name @ CHR ''='' # val" and m: "is_upper_char c" "name \<noteq> []" "list_all output_name_char name"
    "val \<noteq> []" "list_all (\<lambda>d. \<not> is_ws d) val"
  have "t @ spine_cut_sentinel = c # name @ CHR ''='' # (val @ spine_cut_sentinel)" by (simp add: t)
  moreover have "match_output (c # name @ CHR ''='' # (val @ spine_cut_sentinel)) =
      Some (c # name @ CHR ''='' # (val @ spine_cut_sentinel))"
    using m no_ws_dots by (intro match_outputI) simp_all
  ultimately show ?thesis by simp
qed

lemma match_output_no_ws: "match_output s = Some t \<Longrightarrow> d \<in> set t \<Longrightarrow> \<not> is_ws d"
  by (erule match_outputE) (use ws_not_name in \<open>auto simp: list_all_iff\<close>)

lemma single_spaced_no_ws: "\<forall>d \<in> set s. \<not> is_ws d \<Longrightarrow> single_spaced s"
  by (induction s rule: single_spaced.induct) auto

lemma output_matches_from: "(k, t) \<in> set (output_matches inside i s) \<Longrightarrow> i \<le> k \<and> (\<exists>u. match_output u = Some t)"
  by (induction inside i s rule: output_matches.induct) (fastforce split: option.splits if_splits)+

lemma first_match_prefix:
  "(0, t) \<in> set (output_matches False 0 s) \<Longrightarrow> \<exists>rest. s = t @ rest"
proof (cases s)
  case (Cons c r)
  assume m: "(0, t) \<in> set (output_matches False 0 s)"
  show ?thesis
  proof (cases "match_output s")
    case None
    then show ?thesis using m output_matches_from [of 0 t _ "Suc 0" r] by (auto simp: Cons)
  next
    case (Some t')
    have "0 < length t'" using Some match_output_length by blast
    then have "t = t'" using m Some output_matches_from [of 0 t _ "length t'"] by (auto simp: Cons)
    then show ?thesis using Some match_output_split by metis
  qed
qed simp

lemma one_spaced_token: "\<forall>d \<in> set s. \<not> is_ws d \<Longrightarrow> one_spaced s"
  by (cases "s = []") (simp_all add: one_spaced_def single_spaced_no_ws)

lemma cut_line: "cut_spine_goal (trim (collapse_ws text)) = cut_spine_goal text"
  by (simp add: cut_spine_goal_def one_spaced_id [OF one_spaced_line])

lemma cut_token:
  assumes "match_output u = Some t" "spine_goal_chars < length t"
  shows "cut_spine_goal (t @ spine_cut_sentinel) = t @ spine_cut_sentinel"
proof -
  let ?T = "t @ spine_cut_sentinel"
  have self: "match_output ?T = Some ?T" using assms(1) by (rule match_output_dots)
  then obtain c r where T: "?T = c # r" by (cases ?T) (auto simp: match_output_def)
  have "output_matches False 0 ?T = [(0, ?T)]" using self unfolding T by simp
  moreover have "one_spaced ?T" using match_output_no_ws [OF self] by (intro one_spaced_token) blast
  ultimately show ?thesis
    using assms(2) by (simp add: cut_spine_goal_def one_spaced_id Let_def spine_goal_chars_def)
qed

lemma hd_take_line: "take n s \<noteq> [] \<Longrightarrow> hd (take n s) = hd s"
  by (cases n; cases s) auto

lemma kept_one_spaced:
  assumes "one_spaced line"
  shows "one_spaced (cut_at_space (take n line) @ spine_cut_sentinel)"
proof -
  let ?kept = "cut_at_space (take n line)"
  have head: "single_spaced (take n line)" using assms unfolding one_spaced_def by (metis append_take_drop_id single_spaced_append)
  obtain rest where rest: "take n line = ?kept @ rest" using cut_at_space [OF head] by blast
  have last: "?kept = [] \<or> \<not> is_ws (last ?kept)" using cut_at_space [OF head] by blast
  have "single_spaced ?kept" using rest head single_spaced_append by metis
  then have "single_spaced (?kept @ spine_cut_sentinel)" using last by (rule single_spaced_dots)
  moreover have "?kept = [] \<or> hd ?kept = hd line"
    using rest hd_take_line [of n line] by (metis append_is_Nil_conv hd_append2)
  then have "\<not> is_ws (hd (?kept @ spine_cut_sentinel))"
    using assms rest no_ws_dots by (cases ?kept) (auto simp: one_spaced_def spine_cut_sentinel_def)
  moreover have "\<not> is_ws (last (?kept @ spine_cut_sentinel))" using no_ws_dots by (simp add: spine_cut_sentinel_def)
  ultimately show ?thesis by (simp add: one_spaced_def)
qed

lemma kept_length: "single_spaced (take n line) \<Longrightarrow> length (cut_at_space (take n line)) \<le> n"
  by (metis cut_at_space length_append le_add1 length_take min.cobounded2 le_trans)

text \<open>The token the cut would fall into.\<close>

definition cut_token_at :: "string \<Rightarrow> (nat \<times> string) option" where
  "cut_token_at line =
     find (\<lambda>(start, t). start < spine_goal_chars \<and> spine_goal_chars < start + length t) (output_matches False 0 line)"

lemma cut_spine_goal_alt:
  assumes "line = trim (collapse_ws goal)"
  obtains "cut_spine_goal goal = line"
  | t where "cut_token_at line = Some (0, t)" "cut_spine_goal goal = (if length t < length line then t @ spine_cut_sentinel else t)"
  | n where "n \<le> spine_goal_chars" "cut_spine_goal goal = cut_at_space (take n line) @ spine_cut_sentinel"
proof -
  let ?cut = "\<lambda>n. cut_at_space (take n line) @ spine_cut_sentinel"
  have cut: "cut_spine_goal goal =
     (if length line \<le> spine_goal_chars then line
      else if ends_with line spine_cut_sentinel \<and> length (without_sentinel line) \<le> spine_goal_chars then line
      else (case cut_token_at line of
              Some (0, t) \<Rightarrow> if length t < length line then t @ spine_cut_sentinel else t
            | Some (Suc n, t) \<Rightarrow> ?cut (Suc n)
            | None \<Rightarrow> ?cut spine_goal_chars))"
    unfolding cut_spine_goal_def Let_def assms [symmetric] cut_token_at_def [symmetric]
    by (auto split: option.splits nat.splits)
  have small: "start \<le> spine_goal_chars" if "cut_token_at line = Some (start, t)" for start t
    using that by (auto simp: cut_token_at_def find_Some_iff)
  show ?thesis
  proof (cases "length line \<le> spine_goal_chars \<or>
      ends_with line spine_cut_sentinel \<and> length (without_sentinel line) \<le> spine_goal_chars")
    case True
    then show ?thesis using cut that(1) by metis
  next
    case long: False
    show ?thesis
    proof (cases "cut_token_at line")
      case None
      then show ?thesis using long cut that(3) [of spine_goal_chars] by auto
    next
      case (Some found)
      obtain start t where found: "found = (start, t)" by (cases found)
      show ?thesis
      proof (cases start)
        case 0
        then show ?thesis using long cut Some found that(2) [of t] by auto
      next
        case (Suc n)
        then show ?thesis using long cut Some found that(3) [of "Suc n"] small by auto
      qed
    qed
  qed
qed

text \<open>Cutting a goal for the spine twice is cutting it once: the mark of the cut is neither cut off nor
  added again, so a goal carried from fold to fold stays as it is.\<close>

theorem spine_goal_cut_once: "cut_spine_goal (cut_spine_goal goal) = cut_spine_goal goal"
proof -
  define line where "line = trim (collapse_ws goal)"
  have line: "one_spaced line" by (simp add: line_def one_spaced_line)
  show ?thesis
  proof (rule cut_spine_goal_alt [OF line_def])
    assume "cut_spine_goal goal = line"
    then show ?thesis by (simp add: line_def cut_line)
  next
    fix t
    assume t: "cut_token_at line = Some (0, t)" "cut_spine_goal goal = (if length t < length line then t @ spine_cut_sentinel else t)"
    then have mem: "(0, t) \<in> set (output_matches False 0 line)" "spine_goal_chars < length t"
      by (auto simp: cut_token_at_def find_Some_iff in_set_conv_nth)
    obtain rest where rest: "line = t @ rest" using first_match_prefix [OF mem(1)] by blast
    show ?thesis
    proof (cases "length t < length line")
      case True
      then show ?thesis using t(2) mem(2) cut_token output_matches_from [OF mem(1)] by auto
    next
      case False
      then have "cut_spine_goal goal = line" using t(2) rest by simp
      then show ?thesis by (simp add: line_def cut_line)
    qed
  next
    fix n
    assume n: "n \<le> spine_goal_chars" "cut_spine_goal goal = cut_at_space (take n line) @ spine_cut_sentinel"
    have "single_spaced (take n line)" using line unfolding one_spaced_def by (metis append_take_drop_id single_spaced_append)
    then have "length (cut_at_space (take n line)) \<le> spine_goal_chars" using kept_length n(1) le_trans by blast
    then show ?thesis unfolding n(2) using kept_one_spaced [OF line] by (intro cut_short)
  qed
qed

end
