(* ===== verification/HandoffFile.thy ===== *)
theory HandoffFile
  imports Handoff
begin

text \<open>
  The handoff file written and read back (\<open>renderHandoffFile\<close> and \<open>parseHandoffFile\<close> of
  \<open>src/session/compaction-handoff.ts\<close>). Whatever the summary says, an artifact of single lines is read
  back section by section, and the next fold keeps all that was read. Entries of several lines are the
  exception: the text of a failed tool call can open a section of its own.
\<close>

section \<open>Lines of a rendered file\<close>

lemma split_char_at_sep: "split_char c (s @ c # t) = split_char c s @ split_char c t"
proof (induction s)
  case (Cons d s)
  then show ?case using split_char_not_Nil [of c s] by (cases "split_char c s") auto
qed simp

lemma split_join_parts: "parts \<noteq> [] \<Longrightarrow> split_char c (join [c] parts) = concat (map (split_char c) parts)"
proof (induction parts)
  case (Cons p parts)
  then show ?case by (cases "parts = []") (simp_all add: join_Cons_not_Nil split_char_at_sep)
qed simp

definition printable_item :: "string \<Rightarrow> bool" where
  "printable_item x \<longleftrightarrow> x \<noteq> [] \<and> newline \<notin> set x \<and> trim x = x \<and> x \<noteq> none_marker"

lemma heading_item: "heading_title (CHR ''-'' # x) = None"
  by (simp add: heading_title_def)

lemma heading_none: "heading_title none_marker = None"
  by (simp add: heading_title_def none_marker_def)

definition section_lines :: "string list \<Rightarrow> string list" where
  "section_lines items = (if items = [] then [none_marker] else map (\<lambda>item. ''- '' @ item) items)"

lemma section_lines_plain: "l \<in> set (section_lines items) \<Longrightarrow> heading_title l = None"
  by (auto simp: section_lines_def heading_item heading_none split: if_splits)

lemma newline_none: "newline \<notin> set none_marker"
  by (simp add: none_marker_def)

lemma split_items:
  "list_all printable_item items \<Longrightarrow> items \<noteq> [] \<Longrightarrow>
    split_char newline (join [newline] (map (\<lambda>item. ''- '' @ item) items)) = map (\<lambda>item. ''- '' @ item) items"
  by (rule split_char_join) (auto simp: list_all_iff printable_item_def)

lemma split_render_section:
  assumes "newline \<notin> set title" "list_all printable_item items"
  shows "split_char newline (render_section title items) = (''## '' @ title) # section_lines items"
proof -
  let ?body = "if items = [] then none_marker else join [newline] (map (\<lambda>item. ''- '' @ item) items)"
  have "split_char newline ((''## '' @ title) @ newline # ?body) = (''## '' @ title) # split_char newline ?body"
    using assms(1) by (intro split_char_append_sep) simp
  moreover have "split_char newline ?body = section_lines items"
    using split_items [OF assms(2)] by (cases "items = []") (simp_all only: section_lines_def split_char_no_sep newline_none if_True if_False simp_thms)
  ultimately show ?thesis by (simp add: render_section_def)
qed

section \<open>A section is found\<close>

lemma scan_line_absent:
  assumes "map_of (sc_sections sc) t = None" "\<not> sc_in_summary sc" "heading_title l \<noteq> Some t"
    "heading_title l \<noteq> Some handoff_summary_heading"
  shows "map_of (sc_sections (scan_line sc l)) t = None \<and> \<not> sc_in_summary (scan_line sc l)"
proof (cases "heading_title l")
  case None
  then show ?thesis
    using assms(1,2) by (force simp: scan_line_def map_of_eq_None_iff split: option.split)
next
  case (Some title)
  then show ?thesis using assms by (auto simp: scan_line_def Let_def)
qed

lemma scan_absent:
  "map_of (sc_sections sc) t = None \<Longrightarrow> \<not> sc_in_summary sc \<Longrightarrow>
    (\<And>l. l \<in> set pre \<Longrightarrow> heading_title l \<noteq> Some t \<and> heading_title l \<noteq> Some handoff_summary_heading) \<Longrightarrow>
    map_of (sc_sections (foldl scan_line sc pre)) t = None \<and> \<not> sc_in_summary (foldl scan_line sc pre)"
proof (induction pre arbitrary: sc)
  case (Cons l pre)
  have "map_of (sc_sections (scan_line sc l)) t = None \<and> \<not> sc_in_summary (scan_line sc l)"
    using Cons.prems by (intro scan_line_absent) auto
  then show ?case using Cons by simp
qed simp

lemma scan_line_kept:
  assumes "map_of (sc_sections sc) t = Some ls" "sc_current sc \<noteq> Some t"
  shows "map_of (sc_sections (scan_line sc l)) t = Some ls \<and> sc_current (scan_line sc l) \<noteq> Some t"
proof (cases "heading_title l")
  case None
  have "map_of (map (\<lambda>(u, ls). (u, if u = title then ls @ [l] else ls)) secs) t = map_of secs t"
    if "title \<noteq> t" for title and secs :: "(string \<times> string list) list"
    using that by (induction secs) auto
  then show ?thesis using None assms by (auto simp: scan_line_def split: option.split)
next
  case (Some title)
  then show ?thesis using assms by (auto simp: scan_line_def Let_def map_add_def)
qed

lemma scan_kept:
  "map_of (sc_sections sc) t = Some ls \<Longrightarrow> sc_current sc \<noteq> Some t \<Longrightarrow>
    map_of (sc_sections (foldl scan_line sc rest)) t = Some ls"
  by (induction rest arbitrary: sc) (simp_all add: scan_line_kept)

lemma scan_body:
  "map_of (sc_sections sc) t = Some us \<Longrightarrow> sc_current sc = Some t \<Longrightarrow> (\<And>l. l \<in> set ls \<Longrightarrow> heading_title l = None) \<Longrightarrow>
    map_of (sc_sections (foldl scan_line sc ls)) t = Some (us @ ls) \<and> sc_current (foldl scan_line sc ls) = Some t"
proof (induction ls arbitrary: sc us)
  case (Cons l ls)
  have "map_of (map (\<lambda>(u, ls). (u, if u = t then ls @ [l] else ls)) secs) t = Some (us @ [l])"
    if "map_of secs t = Some us" for secs
    using that by (induction secs) auto
  then have "map_of (sc_sections (scan_line sc l)) t = Some (us @ [l]) \<and> sc_current (scan_line sc l) = Some t"
    using Cons.prems by (simp add: scan_line_def)
  then show ?case using Cons.IH [of "scan_line sc l" "us @ [l]"] Cons.prems(3) by simp
qed simp

lemma scan_heading_leaves:
  "heading_title l \<noteq> None \<Longrightarrow> map_of (sc_sections sc) t = Some ls \<Longrightarrow>
    map_of (sc_sections (scan_line sc l)) t = Some ls \<and> sc_current (scan_line sc l) \<noteq> Some t"
  by (auto simp: scan_line_def Let_def map_add_def split: if_splits)

lemma section_found:
  assumes "\<And>l. l \<in> set pre \<Longrightarrow> heading_title l \<noteq> Some t \<and> heading_title l \<noteq> Some handoff_summary_heading"
    and "t \<in> set handoff_schema_headings" "heading_title h = Some t"
    and "\<And>l. l \<in> set ls \<Longrightarrow> heading_title l = None"
    and "heading_title next_h \<noteq> None"
  shows "map_of (sc_sections (scan_file (pre @ h # ls @ next_h # rest))) t = Some ls"
proof -
  define sc where "sc = foldl scan_line \<lparr>sc_sections = [], sc_current = None, sc_in_summary = False\<rparr> pre"
  have sc: "map_of (sc_sections sc) t = None" "\<not> sc_in_summary sc"
    using scan_absent [of "\<lparr>sc_sections = [], sc_current = None, sc_in_summary = False\<rparr>" t pre] assms(1)
    by (simp_all add: sc_def)
  have "t \<noteq> handoff_summary_heading" using assms(2) by (auto simp: handoff_schema_headings_def handoff_summary_heading_def handoff_exact_facts_heading_def)
  then have h: "map_of (sc_sections (scan_line sc h)) t = Some []" "sc_current (scan_line sc h) = Some t"
    using assms(2,3) sc by (auto simp: scan_line_def Let_def map_add_def)
  then have "map_of (sc_sections (foldl scan_line (scan_line sc h) ls)) t = Some ls"
    using scan_body [OF h assms(4)] by simp
  then show ?thesis
    using scan_heading_leaves [OF assms(5)] scan_kept by (simp add: scan_file_def sc_def)
qed

section \<open>Items are read back\<close>

lemma trim_item: "printable_item x \<Longrightarrow> trim (''- '' @ x) = ''- '' @ x"
proof -
  assume x: "printable_item x"
  then have "\<not> is_ws (last x)"
    unfolding printable_item_def trim_def trim_end_def by (metis hd_dropWhile last_rev rev.simps(1))
  then show ?thesis using x by (intro trim_id) (auto simp: printable_item_def is_ws_def js_ws_chars_def)
qed

lemma list_items_none: "list_items (trim none_marker) = []"
  by (simp add: list_items_def none_marker_def trim_id is_ws_def js_ws_chars_def)

lemma last_join: "xs \<noteq> [] \<Longrightarrow> last xs \<noteq> [] \<Longrightarrow> last (join sep xs) = last (last xs)"
proof (induction xs)
  case (Cons x xs)
  show ?case
  proof (cases "xs = []")
    case False
    then have "join sep xs \<noteq> []" using Cons.prems by (metis join_has_infix includes_iff last_ConsR last_in_set append_is_Nil_conv)
    then show ?thesis using Cons False by (simp add: join_Cons_not_Nil)
  qed simp
qed simp

lemma items_read_back:
  assumes "list_all printable_item items"
  shows "list_items (trim (join [newline] (section_lines items))) = items"
proof (cases "items = []")
  case True
  then show ?thesis by (simp add: section_lines_def list_items_none)
next
  case False
  let ?ls = "map (\<lambda>item. ''- '' @ item) items" and ?body = "join [newline] (section_lines items)"
  obtain x xs where xs: "items = x # xs" using False by (cases items) auto
  then have "\<exists>r. ?body = CHR ''-'' # r" by (cases xs) (auto simp: section_lines_def)
  then obtain r where r: "?body = CHR ''-'' # r" by blast
  have last: "printable_item (last items)" using assms False by (simp add: list_all_iff)
  then have "last ?body = last (''- '' @ last items)"
    using False by (simp add: section_lines_def last_join last_map)
  also have "\<dots> = last (last items)" using last by (simp add: printable_item_def)
  finally have "\<not> is_ws (last ?body)"
    using last unfolding printable_item_def trim_def trim_end_def by (metis hd_dropWhile last_rev rev.simps(1))
  then have "trim ?body = ?body" using r by (intro trim_id) (simp add: is_ws_def js_ws_chars_def)
  moreover have "?body \<noteq> [] \<and> ?body \<noteq> none_marker" using r by (simp add: none_marker_def)
  moreover have "split_char newline ?body = ?ls"
    using split_items [OF assms False] False by (simp only: section_lines_def if_False simp_thms)
  moreover have "concat (map (\<lambda>line. let trimmed = trim line; item = trim (drop 2 trimmed)
        in if starts_with trimmed ''- '' \<and> item \<noteq> [] \<and> item \<noteq> none_marker then [item] else []) ?ls) = items"
    using assms
  proof (induction items)
    case (Cons y ys)
    then have y: "printable_item y" by simp
    show ?case using Cons trim_item [OF y] y by (simp add: Let_def printable_item_def)
  qed simp
  ultimately show ?thesis by (simp add: list_items_def)
qed

section \<open>The whole file\<close>

definition artifact_sections :: "handoff_artifact \<Rightarrow> (string \<times> string list) list" where
  "artifact_sections a =
     [(''Goal'', [ha_goal a]), (''Constraints'', section_lines (ha_constraints a)),
      (''Decisions'', section_lines (ha_decisions a)),
      (''Evidence markers (cumulative echo)'', section_lines (ha_evidence_markers a)),
      (''Files'', section_lines (ha_files a)), (''Commands'', section_lines (ha_commands a)),
      (''Verification'', section_lines (ha_verification a)), (''Dead ends'', section_lines (ha_dead_ends a)),
      (''Next actions'', section_lines (ha_next_actions a))]"

text \<open>Every entry is one line of its own: no line break in it, no white space around it, not the text that
  stands for an empty list; the goal is no heading.\<close>

definition printable_goal :: "string \<Rightarrow> bool" where
  "printable_goal goal \<longleftrightarrow> printable_item goal \<and> heading_title goal = None"

definition printable_artifact :: "handoff_artifact \<Rightarrow> bool" where
  "printable_artifact a \<longleftrightarrow>
     printable_goal (ha_goal a) \<and>
     list_all (list_all printable_item)
       [ha_constraints a, ha_decisions a, ha_evidence_markers a, ha_files a, ha_commands a, ha_verification a,
        ha_dead_ends a, ha_next_actions a]"

definition intro_lines :: "string \<Rightarrow> string list" where
  "intro_lines uri =
     [''# Compaction handoff'', [],
      ''Full detail lives here; the live prompt carries only the spine plus this pointer: '' @ uri, []]"

lemma schema_titles:
  "list_all (\<lambda>t. heading_title (''## '' @ t) = Some t \<and> t \<noteq> handoff_summary_heading \<and> newline \<notin> set t) handoff_schema_headings"
  by code_simp

lemma summary_title: "heading_title (''## '' @ handoff_summary_heading) = Some handoff_summary_heading"
  by code_simp

lemma summary_plain: "newline \<notin> set handoff_summary_heading"
  by code_simp

lemma section_titles:
  "set (map fst (artifact_sections a)) \<subseteq> set handoff_schema_headings" "distinct (map fst (artifact_sections a))"
  by (simp_all add: artifact_sections_def handoff_schema_headings_def)

lemma intro_plain: "l \<in> set (intro_lines uri) \<Longrightarrow> heading_title l = None"
  by (auto simp: intro_lines_def heading_title_def)

lemma split_part: "newline \<notin> set s \<Longrightarrow> split_char newline s = [s]"
  by (rule split_char_no_sep)

lemma assemble:
  assumes "f p1 = [i1]" "f p2 = [i2]" "f p3 = [i3]" "f pg = [h tg, g]" "f c1 = h t1 # s1" "f c2 = h t2 # s2" "f c3 = h t3 # s3"
    "f c4 = h t4 # s4" "f c5 = h t5 # s5" "f c6 = h t6 # s6" "f c7 = h t7 # s7" "f c8 = h t8 # s8" "f ps = hs # r"
  shows "concat (map f [p1, p2, p3, p2, pg, c1, c2, c3, c4, c5, c6, c7, c8, ps, pe]) =
    [i1, i2, i3, i2] @ concat (map (\<lambda>(t, ls). h t # ls)
      [(tg, [g]), (t1, s1), (t2, s2), (t3, s3), (t4, s4), (t5, s5), (t6, s6), (t7, s7), (t8, s8)]) @ hs # (r @ f pe)"
  by (simp add: assms)

lemma file_lines:
  assumes "printable_artifact a" "newline \<notin> set uri"
  shows "\<exists>rest. split_char newline (render_handoff_file a narrative uri) =
    intro_lines uri @ concat (map (\<lambda>(t, ls). (''## '' @ t) # ls) (artifact_sections a)) @
    (''## '' @ handoff_summary_heading) # rest"
proof -
  have goal: "newline \<notin> set (ha_goal a)" using assms(1) by (simp add: printable_artifact_def printable_goal_def printable_item_def)
  have g: "split_char newline (''## Goal'' @ [newline] @ ha_goal a) = [''## Goal'', ha_goal a]"
    using split_char_append_sep [of newline "''## Goal''" "ha_goal a"] goal by (simp add: split_part)
  have summary: "\<exists>rest. split_char newline (''## '' @ handoff_summary_heading @ [newline] @ n) = (''## '' @ handoff_summary_heading) # rest" for n
    using split_char_append_sep [of newline "''## '' @ handoff_summary_heading" n] summary_plain by simp
  have sections: "split_char newline (render_section t items) = (''## '' @ t) # section_lines items"
    if "t \<in> set handoff_schema_headings" "list_all printable_item items" for t items
    using that schema_titles by (intro split_render_section) (auto simp: list_all_iff)
  have line: "split_char newline (''Full detail lives here; the live prompt carries only the spine plus this pointer: '' @ uri) =
      [''Full detail lives here; the live prompt carries only the spine plus this pointer: '' @ uri]"
    using assms(2) by (intro split_part) simp
  have first: "split_char newline ''# Compaction handoff'' = [''# Compaction handoff'']" by (intro split_part) simp
  obtain rest where rest: "split_char newline (''## '' @ handoff_summary_heading @ [newline] @
      (if trim narrative \<noteq> [] then trim narrative else none_marker)) = (''## '' @ handoff_summary_heading) # rest"
    using summary by blast
  have items: "list_all printable_item (ha_constraints a)" "list_all printable_item (ha_decisions a)"
    "list_all printable_item (ha_evidence_markers a)" "list_all printable_item (ha_files a)"
    "list_all printable_item (ha_commands a)" "list_all printable_item (ha_verification a)"
    "list_all printable_item (ha_dead_ends a)" "list_all printable_item (ha_next_actions a)"
    using assms(1) by (simp_all add: printable_artifact_def)
  have schema: "''Constraints'' \<in> set handoff_schema_headings" "''Decisions'' \<in> set handoff_schema_headings"
    "''Evidence markers (cumulative echo)'' \<in> set handoff_schema_headings" "''Files'' \<in> set handoff_schema_headings"
    "''Commands'' \<in> set handoff_schema_headings" "''Verification'' \<in> set handoff_schema_headings"
    "''Dead ends'' \<in> set handoff_schema_headings" "''Next actions'' \<in> set handoff_schema_headings"
    by (simp_all add: handoff_schema_headings_def)
  have empty: "split_char newline [] = [[]]" by simp
  have g': "split_char newline (''## Goal'' @ [newline] @ ha_goal a) = [''## '' @ ''Goal'', ha_goal a]" using g by simp
  show ?thesis
    unfolding render_handoff_file_def split_join_parts [OF list.distinct(2)] artifact_sections_def intro_lines_def
    by (rule exI, rule assemble [where h = "\<lambda>t. ''## '' @ t" and f = "split_char newline", OF first empty line g'
          sections [OF schema(1) items(1)] sections [OF schema(2) items(2)] sections [OF schema(3) items(3)]
          sections [OF schema(4) items(4)] sections [OF schema(5) items(5)] sections [OF schema(6) items(6)]
          sections [OF schema(7) items(7)] sections [OF schema(8) items(8)] rest])
qed

lemma section_entries_plain:
  assumes "printable_artifact a" "(t, ls) \<in> set (artifact_sections a)" "l \<in> set ls"
  shows "heading_title l = None"
proof -
  have "ls = [ha_goal a] \<or> (\<exists>items. ls = section_lines items)"
    using assms(2) unfolding artifact_sections_def list.set insert_iff prod.inject by blast
  then show ?thesis
    using assms(1,3) section_lines_plain by (auto simp: printable_artifact_def printable_goal_def)
qed

lemma section_titled:
  assumes "(u, us) \<in> set (artifact_sections a)"
  shows "u \<in> set handoff_schema_headings" "heading_title (''## '' @ u) = Some u" "u \<noteq> handoff_summary_heading"
proof -
  have "u \<in> set (map fst (artifact_sections a))" using assms by (metis fst_conv image_eqI set_map)
  then show "u \<in> set handoff_schema_headings" using section_titles(1) by blast
  then show "heading_title (''## '' @ u) = Some u" "u \<noteq> handoff_summary_heading"
    using schema_titles unfolding list_all_iff by blast+
qed

lemma section_of_file:
  assumes a: "printable_artifact a" and uri: "newline \<notin> set uri" and sec: "(t, ls) \<in> set (artifact_sections a)"
  shows "map_of (sc_sections (scan_file (split_char newline (render_handoff_file a narrative uri)))) t = Some ls"
proof -
  let ?lines = "\<lambda>(t, ls). (''## '' @ t) # ls"
  obtain rest where rest: "split_char newline (render_handoff_file a narrative uri) =
      intro_lines uri @ concat (map ?lines (artifact_sections a)) @ (''## '' @ handoff_summary_heading) # rest"
    using file_lines [OF a uri] by blast
  obtain before after where secs: "artifact_sections a = before @ (t, ls) # after" using sec by (meson split_list)
  have distinct: "u \<noteq> t" if "(u, us) \<in> set before" for u us
  proof -
    have "t \<notin> set (map fst before)" using section_titles(2) [of a] unfolding secs by simp
    then show ?thesis using that by (metis fst_conv image_eqI set_map)
  qed
  have pre: "heading_title l \<noteq> Some t \<and> heading_title l \<noteq> Some handoff_summary_heading"
    if "l \<in> set (intro_lines uri @ concat (map ?lines before))" for l
  proof (cases "l \<in> set (intro_lines uri)")
    case False
    then have "l \<in> (\<Union>p \<in> set before. set (?lines p))" using that by simp
    then obtain u us where u: "(u, us) \<in> set before" "l = ''## '' @ u \<or> l \<in> set us" by fastforce
    then have "(u, us) \<in> set (artifact_sections a)" using secs by simp
    note titled = section_titled(2,3) [OF this] section_entries_plain [OF a this]
    from u(2) show ?thesis
    proof
      assume "l = ''## '' @ u"
      then show ?thesis using titled(1,2) distinct [OF u(1)] by simp
    qed (simp add: titled(3))
  qed (simp add: intro_plain)
  obtain next_h rest' where tail: "concat (map ?lines after) @ (''## '' @ handoff_summary_heading) # rest = next_h # rest'"
    "heading_title next_h \<noteq> None"
  proof (cases after)
    case Nil
    then show ?thesis using that summary_title by simp
  next
    case (Cons s ss)
    obtain u us where "s = (u, us)" by (cases s)
    moreover from this have "(u, us) \<in> set (artifact_sections a)" using secs Cons by simp
    ultimately show ?thesis using that section_titled(2) Cons by simp
  qed
  have "split_char newline (render_handoff_file a narrative uri) =
      (intro_lines uri @ concat (map ?lines before)) @ (''## '' @ t) # ls @ next_h # rest'"
    using rest tail(1) secs by simp
  then show ?thesis
  proof (rule ssubst)
    show "map_of (sc_sections (scan_file ((intro_lines uri @ concat (map ?lines before)) @ (''## '' @ t) # ls @ next_h # rest'))) t =
        Some ls"
      by (rule section_found) (fact pre section_titled(1,2) [OF sec] section_entries_plain [OF a sec] tail(2))+
  qed
qed

definition some_items :: "string list \<Rightarrow> string list option" where
  "some_items items = (if items = [] then None else Some items)"

lemma maybe_list_found:
  "map_of secs t = Some (section_lines items) \<Longrightarrow> list_all printable_item items \<Longrightarrow> maybe_list secs t = some_items items"
  by (simp add: maybe_list_def section_body_def items_read_back some_items_def Let_def)

lemma newline_uri: "newline \<notin> set (handoff_blob_uri handoff_latest_key)"
  by code_simp

lemma file_read_back:
  fixes a :: handoff_artifact and narrative :: string
  assumes "printable_artifact a"
  defines "prior \<equiv> parse_handoff_file (render_handoff_file a narrative (handoff_blob_uri handoff_latest_key))"
  shows "ph_goal prior = Some (ha_goal a)"
    "ph_constraints prior = some_items (ha_constraints a)" "ph_decisions prior = some_items (ha_decisions a)"
    "ph_evidence_markers prior = some_items (ha_evidence_markers a)" "ph_files prior = some_items (ha_files a)"
    "ph_commands prior = some_items (ha_commands a)" "ph_verification prior = some_items (ha_verification a)"
    "ph_dead_ends prior = some_items (ha_dead_ends a)" "ph_next_actions prior = some_items (ha_next_actions a)"
proof -
  let ?secs = "sc_sections (scan_file (split_char newline (render_handoff_file a narrative (handoff_blob_uri handoff_latest_key))))"
  have found: "map_of ?secs t = Some ls" if "(t, ls) \<in> set (artifact_sections a)" for t ls
    using section_of_file [OF assms(1) newline_uri that] .
  have items: "maybe_list ?secs t = some_items xs"
    if "(t, section_lines xs) \<in> set (artifact_sections a)" "list_all printable_item xs" for t xs
    using found [OF that(1)] that(2) by (rule maybe_list_found)
  have "section_body ?secs ''Goal'' = ha_goal a"
    using found [of "''Goal''"] assms(1)
    by (simp add: artifact_sections_def section_body_def printable_artifact_def printable_goal_def printable_item_def)
  moreover have "ha_goal a \<noteq> [] \<and> ha_goal a \<noteq> none_marker"
    using assms(1) by (simp add: printable_artifact_def printable_goal_def printable_item_def)
  ultimately show "ph_goal prior = Some (ha_goal a)"
    unfolding prior_def parse_handoff_file_def Let_def prior_handoff.simps by simp
  show "ph_constraints prior = some_items (ha_constraints a)" "ph_decisions prior = some_items (ha_decisions a)"
    "ph_evidence_markers prior = some_items (ha_evidence_markers a)" "ph_files prior = some_items (ha_files a)"
    "ph_commands prior = some_items (ha_commands a)" "ph_verification prior = some_items (ha_verification a)"
    "ph_dead_ends prior = some_items (ha_dead_ends a)" "ph_next_actions prior = some_items (ha_next_actions a)"
    unfolding prior_def parse_handoff_file_def Let_def prior_handoff.simps
    using assms(1) by (simp_all add: items artifact_sections_def printable_artifact_def)
qed


section \<open>Merging keeps what was there\<close>

text \<open>A merged list: no repetition, at most the cap, every entry trimmed and already cut.\<close>

definition settled_item :: "nat \<Rightarrow> string \<Rightarrow> bool" where
  "settled_item m x \<longleftrightarrow> x \<noteq> [] \<and> trim x = x \<and> capped_item m x = x"

definition settled :: "nat \<Rightarrow> nat \<Rightarrow> string list \<Rightarrow> bool" where
  "settled cap m xs \<longleftrightarrow> distinct xs \<and> length xs \<le> cap \<and> list_all (settled_item m) xs"

lemma trim_ends: "trim s \<noteq> [] \<Longrightarrow> \<not> is_ws (hd (trim s)) \<and> \<not> is_ws (last (trim s))"
proof
  assume t: "trim s \<noteq> []"
  obtain ws where ws: "trim_start s = trim s @ ws" using trim_end_ws_split unfolding trim_def by blast
  then have "hd (trim s) = hd (trim_start s)" "trim_start s \<noteq> []" using t by auto
  then show "\<not> is_ws (hd (trim s))" unfolding trim_start_def by (metis hd_dropWhile)
  have "dropWhile is_ws (rev (trim_start s)) \<noteq> []" using t by (simp add: trim_def trim_end_def)
  then show "\<not> is_ws (last (trim s))" unfolding trim_def trim_end_def last_rev by (rule hd_dropWhile)
qed

lemma settled_capped: "trim x \<noteq> [] \<Longrightarrow> 0 < m \<Longrightarrow> settled_item m (capped_item m (trim x))"
proof -
  assume x: "trim x \<noteq> []" and m: "0 < m"
  show ?thesis
  proof (cases "length (trim x) > m")
    case True
    let ?y = "take m (trim x) @ ''...''"
    have "hd ?y = hd (trim x)" using x m by (cases "trim x"; cases m) auto
    then have "trim ?y = ?y" using trim_ends [OF x] by (intro trim_id) (simp add: is_ws_def js_ws_chars_def)
    moreover have "capped_item m ?y = ?y" using True by (simp add: capped_item_def)
    ultimately show ?thesis using True by (simp add: settled_item_def capped_item_def)
  next
    case False
    have "trim (trim x) = trim x" using trim_ends [OF x] by (intro trim_id) simp
    then show ?thesis using False x by (simp add: settled_item_def capped_item_def)
  qed
qed

lemma find_exact: "find_index (\<lambda>e. e = x) xs = Some i \<Longrightarrow> i < length xs \<and> xs ! i = x"
  by (induction xs arbitrary: i) (auto split: if_splits)

lemma related_exact: "related_entry False x = (\<lambda>e. e = x)"
  by (rule ext) (simp add: related_entry_def)

lemma consider_exact:
  "consider_item cap m False merged raw =
    (let x = capped_item m (trim raw)
     in if trim raw = [] \<or> x \<in> set merged \<or> length merged \<ge> cap then merged else merged @ [x])"
proof (cases "find_index (\<lambda>e. e = capped_item m (trim raw)) merged")
  case None
  then have "capped_item m (trim raw) \<notin> set merged" by (auto simp: find_index_None)
  then show ?thesis using None by (simp add: consider_item_def related_exact Let_def)
next
  case (Some i)
  have i: "i < length merged" "merged ! i = capped_item m (trim raw)" using find_exact [OF Some] by simp_all
  have "capped_item m (trim raw) \<in> set merged" using nth_mem [OF i(1)] unfolding i(2) .
  moreover have "merged[i := capped_item m (trim raw)] = merged" using list_update_id [of merged i] unfolding i(2) .
  ultimately show ?thesis unfolding consider_item_def related_exact Let_def Some option.case by simp
qed

lemma consider_exact_extends: "\<exists>more. foldl (consider_item cap m False) merged extra = merged @ more"
proof (induction extra arbitrary: merged)
  case (Cons x extra)
  have "\<exists>more. consider_item cap m False merged x = merged @ more" by (simp add: consider_exact Let_def)
  then show ?case using Cons by (metis append_assoc foldl_Cons)
qed simp

lemma consider_settled: "settled cap m merged \<Longrightarrow> 0 < m \<Longrightarrow> settled cap m (consider_item cap m False merged raw)"
  by (auto simp: consider_exact Let_def settled_def intro: settled_capped)

lemma foldl_settled: "settled cap m merged \<Longrightarrow> 0 < m \<Longrightarrow> settled cap m (foldl (consider_item cap m False) merged extra)"
  by (induction extra arbitrary: merged) (simp_all add: consider_settled)

lemma foldl_consider_settled:
  "settled cap m (done_items @ xs) \<Longrightarrow> foldl (consider_item cap m False) done_items xs = done_items @ xs"
proof (induction xs arbitrary: done_items)
  case (Cons x xs)
  then have "consider_item cap m False done_items x = done_items @ [x]"
    by (simp add: consider_exact Let_def settled_def settled_item_def)
  then show ?case using Cons by simp
qed simp

lemma merge_exact_extends: "settled cap m primary \<Longrightarrow> \<exists>more. merge_unique primary extra cap m False = primary @ more"
  using foldl_consider_settled [of cap m "[]" primary] consider_exact_extends by (simp add: merge_unique_def)

lemma merge_exact_settled: "0 < m \<Longrightarrow> settled cap m (merge_unique primary extra cap m False)"
  unfolding merge_unique_def by (intro foldl_settled) (simp_all add: settled_def)

text \<open>With cuts of the spine recognised, an entry stays or gives way to a fuller one.\<close>

definition stands_for :: "string \<Rightarrow> string \<Rightarrow> bool" where
  "stands_for y x \<longleftrightarrow> y = x \<or> is_spine_truncation_of x y"

lemma truncation_trans: "is_spine_truncation_of x y \<Longrightarrow> is_spine_truncation_of y z \<Longrightarrow> is_spine_truncation_of x z"
proof -
  assume xy: "is_spine_truncation_of x y" and yz: "is_spine_truncation_of y z"
  have x: "ends_with x spine_cut_sentinel" "length (without_sentinel x) = max_spine_item_chars" "starts_with y (without_sentinel x)"
    using xy by (auto simp: is_spine_truncation_of_def Let_def split: if_splits)
  have y: "ends_with y spine_cut_sentinel" "length (without_sentinel y) = max_spine_item_chars"
    "length z > max_spine_item_chars" "starts_with z (without_sentinel y)"
    using yz by (auto simp: is_spine_truncation_of_def Let_def split: if_splits)
  have "take max_spine_item_chars y = without_sentinel x" using x(2,3) by (auto simp: starts_with_iff)
  moreover have "take max_spine_item_chars y = without_sentinel y" using y(2) by (auto simp: without_sentinel_def)
  ultimately show ?thesis using x(1,2) y(3,4) by (simp add: is_spine_truncation_of_def Let_def)
qed

lemma stands_for_trans: "stands_for z y \<Longrightarrow> stands_for y x \<Longrightarrow> stands_for z x"
  using truncation_trans by (auto simp: stands_for_def)

lemma consider_prefix_keeps: "y \<in> set merged \<Longrightarrow> \<exists>z \<in> set (consider_item cap m True merged raw). stands_for z y"
proof (cases "find_index (related_entry True (capped_item m (trim raw))) merged")
  case None
  assume "y \<in> set merged"
  then show ?thesis using None by (auto simp: consider_item_def Let_def stands_for_def)
next
  case (Some i)
  assume y: "y \<in> set merged"
  let ?item = "capped_item m (trim raw)"
  have i: "i < length merged" using Some by (induction merged arbitrary: i) (auto split: if_splits)
  show ?thesis
  proof (cases "trim raw \<noteq> [] \<and> is_spine_truncation_of (merged ! i) ?item")
    case True
    then have c: "consider_item cap m True merged raw = merged[i := ?item]" using Some by (simp add: consider_item_def Let_def)
    show ?thesis
    proof (cases "y = merged ! i")
      case True': True
      have "?item \<in> set (merged[i := ?item])" using i by (simp add: set_update_memI)
      then show ?thesis using True True' c by (auto simp: stands_for_def)
    next
      case False
      then obtain j where "j < length merged" "merged ! j = y" "j \<noteq> i" using y by (auto simp: in_set_conv_nth)
      then have "y \<in> set (merged[i := ?item])" by (metis length_list_update nth_list_update_neq nth_mem)
      then show ?thesis using c by (auto simp: stands_for_def)
    qed
  next
    case False
    then have "consider_item cap m True merged raw = merged" using Some by (auto simp: consider_item_def Let_def)
    then show ?thesis using y by (auto simp: stands_for_def)
  qed
qed

lemma foldl_prefix_keeps: "y \<in> set merged \<Longrightarrow> \<exists>z \<in> set (foldl (consider_item cap m True) merged xs). stands_for z y"
proof (induction xs arbitrary: merged y)
  case (Cons x xs)
  obtain z where z: "z \<in> set (consider_item cap m True merged x)" "stands_for z y"
    using consider_prefix_keeps [OF Cons.prems] by blast
  then show ?case using Cons.IH [OF z(1)] stands_for_trans by (metis foldl_Cons)
qed (auto simp: stands_for_def)

lemma consider_prefix_length: "length (consider_item cap m True merged raw) \<le> Suc (length merged)"
  by (auto simp: consider_item_def Let_def split: option.split)

lemma consider_prefix_adds:
  assumes "settled_item m x" "length merged < cap"
  shows "\<exists>z \<in> set (consider_item cap m True merged x). stands_for z x"
proof -
  have x: "trim x \<noteq> []" "capped_item m (trim x) = x" using assms(1) by (simp_all add: settled_item_def)
  show ?thesis
  proof (cases "find_index (related_entry True x) merged")
    case None
    then show ?thesis using x assms(2) by (simp add: consider_item_def stands_for_def)
  next
    case (Some i)
    have i: "i < length merged \<and> related_entry True x (merged ! i)"
      using Some by (induction merged arbitrary: i) (auto split: if_splits)
    show ?thesis
    proof (cases "is_spine_truncation_of (merged ! i) x")
      case True
      then have "consider_item cap m True merged x = merged[i := x]" using Some x by (simp add: consider_item_def)
      then show ?thesis using i by (auto simp: stands_for_def set_update_memI)
    next
      case False
      then have "consider_item cap m True merged x = merged" using Some x by (simp add: consider_item_def)
      then show ?thesis using i False by (auto simp: related_entry_def stands_for_def intro: nth_mem)
    qed
  qed
qed

lemma foldl_prefix_adds:
  "list_all (settled_item m) xs \<Longrightarrow> length merged + length xs \<le> cap \<Longrightarrow> x \<in> set xs \<Longrightarrow>
    \<exists>z \<in> set (foldl (consider_item cap m True) merged xs). stands_for z x"
proof (induction xs arbitrary: merged)
  case (Cons y ys)
  show ?case
  proof (cases "x = y")
    case True
    then obtain z where z: "z \<in> set (consider_item cap m True merged y)" "stands_for z x"
      using consider_prefix_adds [of m y merged cap] Cons.prems by auto
    then show ?thesis using foldl_prefix_keeps [OF z(1)] stands_for_trans by (metis foldl_Cons)
  next
    case False
    then show ?thesis
      using Cons.IH [of "consider_item cap m True merged y"] Cons.prems consider_prefix_length [of cap m merged y] by simp
  qed
qed simp

lemma merge_prefix_keeps:
  assumes "settled cap m primary" "x \<in> set primary"
  shows "\<exists>z \<in> set (merge_unique primary extra cap m True). stands_for z x"
proof -
  obtain z where "z \<in> set (foldl (consider_item cap m True) [] primary)" "stands_for z x"
    using foldl_prefix_adds [of m primary "[]" cap x] assms by (auto simp: settled_def)
  then show ?thesis using foldl_prefix_keeps stands_for_trans unfolding merge_unique_def by metis
qed

section \<open>Nothing read back is lost\<close>

abbreviation artifact_of :: "conversation_turn list \<Rightarrow> string \<Rightarrow> handoff_extract_opts \<Rightarrow> handoff_artifact" where
  "artifact_of turns narrative opts \<equiv> eh_artifact (extract_handoff_artifact turns narrative opts)"

lemma extract_lists:
  "ha_files (artifact_of turns narrative opts) =
     merge_unique (list_or_empty (ph_files (prior_of opts))) (ts_files (scan_turns turns)) max_files max_item_chars False"
  "ha_commands (artifact_of turns narrative opts) =
     merge_unique (list_or_empty (ph_commands (prior_of opts))) (map snd (ts_commands (scan_turns turns)))
       max_commands max_command_chars False"
  "\<exists>new. ha_verification (artifact_of turns narrative opts) =
     merge_unique (list_or_empty (ph_verification (prior_of opts))) new max_verification 500 False"
  "\<exists>new. ha_dead_ends (artifact_of turns narrative opts) =
     merge_unique (list_or_empty (ph_dead_ends (prior_of opts))) new max_dead_ends max_item_chars False"
  "\<exists>carried new. ha_constraints (artifact_of turns narrative opts) =
     merge_unique (merge_unique (list_or_empty (ph_constraints (prior_of opts))) carried max_constraints max_item_chars True)
       new max_constraints max_item_chars False"
  "\<exists>carried new. ha_decisions (artifact_of turns narrative opts) =
     merge_unique (merge_unique (list_or_empty (ph_decisions (prior_of opts))) carried max_decisions max_item_chars True)
       new max_decisions max_item_chars False"
  "\<exists>goal. ha_goal (artifact_of turns narrative opts) = prefer_full (ph_goal (prior_of opts)) goal"
  by (auto simp: extract_handoff_artifact_def Let_def split: prod.splits)

text \<open>Every list a fold writes is settled, so that the next fold finds nothing in it to cut or to drop.\<close>

definition settled_artifact :: "handoff_artifact \<Rightarrow> bool" where
  "settled_artifact a \<longleftrightarrow>
     settled max_constraints max_item_chars (ha_constraints a) \<and> settled max_decisions max_item_chars (ha_decisions a) \<and>
     settled max_files max_item_chars (ha_files a) \<and> settled max_commands max_command_chars (ha_commands a) \<and>
     settled max_verification 500 (ha_verification a) \<and> settled max_dead_ends max_item_chars (ha_dead_ends a)"

lemma extract_settled: "settled_artifact (artifact_of turns narrative opts)"
proof -
  have "0 < max_item_chars" "0 < max_command_chars" "0 < (500::nat)" by (simp_all add: max_item_chars_def max_command_chars_def)
  note settled = this [THEN merge_exact_settled]
  show ?thesis
    unfolding settled_artifact_def using extract_lists [of turns narrative opts] settled by metis
qed

lemma exact_starts: "settled cap m primary \<Longrightarrow> starts_with (merge_unique primary extra cap m False) primary"
  using merge_exact_extends starts_with_iff by metis

lemma exact_keeps_set: "settled cap m primary \<Longrightarrow> set primary \<subseteq> set (merge_unique primary extra cap m False)"
  using merge_exact_extends by (metis Un_upper1 set_append)

lemma list_or_some: "list_or_empty (some_items xs) = xs"
  by (simp add: list_or_empty_def some_items_def)

lemma prefix_consider_settled:
  assumes "list_all (settled_item m) merged" "length merged \<le> cap" "0 < m"
  shows "list_all (settled_item m) (consider_item cap m True merged raw) \<and> length (consider_item cap m True merged raw) \<le> cap"
  using assms settled_capped [of raw m]
  by (auto simp: consider_item_def Let_def list_all_iff split: option.split dest: set_update_subset_insert [THEN subsetD])

lemma prefer_full_starts: "prior \<noteq> [] \<Longrightarrow> starts_with (prefer_full (Some prior) goal) prior"
  by (auto simp: prefer_full_def starts_with_iff)

lemma merge_prefix_settled:
  assumes "0 < m"
  shows "list_all (settled_item m) (merge_unique primary extra cap m True) \<and> length (merge_unique primary extra cap m True) \<le> cap"
proof -
  have "list_all (settled_item m) (foldl (consider_item cap m True) merged xs) \<and>
      length (foldl (consider_item cap m True) merged xs) \<le> cap"
    if "list_all (settled_item m) merged" "length merged \<le> cap" for merged xs
    using that prefix_consider_settled [OF _ _ assms] by (induction xs arbitrary: merged) simp_all
  then show ?thesis unfolding merge_unique_def by simp
qed

lemma foldl_exact_adds:
  "list_all (settled_item m) xs \<Longrightarrow> length merged + length xs \<le> cap \<Longrightarrow>
    set merged \<union> set xs \<subseteq> set (foldl (consider_item cap m False) merged xs)"
proof (induction xs arbitrary: merged)
  case (Cons x xs)
  let ?next = "consider_item cap m False merged x"
  have x: "capped_item m (trim x) = x" "trim x \<noteq> []" using Cons.prems(1) by (simp_all add: settled_item_def)
  have "set merged \<union> {x} \<subseteq> set ?next" "length ?next \<le> Suc (length merged)"
    using x Cons.prems(2) by (auto simp: consider_exact Let_def)
  then show ?case using Cons.IH [of ?next] Cons.prems by auto
qed simp

lemma exact_keeps:
  assumes "list_all (settled_item m) primary" "length primary \<le> cap"
  shows "set primary \<subseteq> set (merge_unique primary extra cap m False)"
proof -
  have "set primary \<subseteq> set (foldl (consider_item cap m False) [] primary)"
    using foldl_exact_adds [of m primary "[]" cap] assms by simp
  also have "\<dots> \<subseteq> set (merge_unique primary extra cap m False)"
    unfolding merge_unique_def by (metis consider_exact_extends Un_upper1 set_append)
  finally show ?thesis .
qed

lemma twice_merged_keeps:
  assumes "settled cap m primary" "0 < m" "x \<in> set primary"
  shows "\<exists>y \<in> set (merge_unique (merge_unique primary carried cap m True) new cap m False). stands_for y x"
proof -
  obtain y where "y \<in> set (merge_unique primary carried cap m True)" "stands_for y x"
    using merge_prefix_keeps [OF assms(1,3)] by blast
  then show ?thesis using exact_keeps merge_prefix_settled [OF assms(2)] by blast
qed

definition carries_all :: "string list \<Rightarrow> string list \<Rightarrow> bool" where
  "carries_all later earlier \<longleftrightarrow> (\<forall>x \<in> set earlier. \<exists>y \<in> set later. stands_for y x)"

text \<open>What a fold's artifact keeps of the one before it.\<close>

definition keeps_facts :: "handoff_artifact \<Rightarrow> handoff_artifact \<Rightarrow> bool" where
  "keeps_facts later earlier \<longleftrightarrow>
     starts_with (ha_goal later) (ha_goal earlier) \<and>
     carries_all (ha_constraints later) (ha_constraints earlier) \<and>
     carries_all (ha_decisions later) (ha_decisions earlier) \<and>
     set (ha_evidence_markers earlier) \<subseteq> set (ha_evidence_markers later) \<and>
     starts_with (ha_files later) (ha_files earlier) \<and> starts_with (ha_commands later) (ha_commands earlier) \<and>
     starts_with (ha_verification later) (ha_verification earlier) \<and>
     starts_with (ha_dead_ends later) (ha_dead_ends earlier)"

lemma evidence_kept:
  assumes "set earlier \<subseteq> {t. is_evidence t}" "list_or_empty (ph_evidence_markers (prior_of opts)) = earlier"
  shows "set earlier \<subseteq> set (ha_evidence_markers (artifact_of turns narrative opts))"
proof
  fix t assume t: "t \<in> set earlier"
  then have "t \<in> set (evidence_tokens t)" using assms(1) evidence_found [of t "[]" t "[]"] by auto
  then show "t \<in> set (ha_evidence_markers (artifact_of turns narrative opts))"
    unfolding markers_of_extract set_recover assms(2) using t by auto
qed


section \<open>Concrete folds\<close>

definition no_opts :: handoff_extract_opts where
  "no_opts = \<lparr>eo_prior_file_text = None, eo_activated_tools = None\<rparr>"

definition read_turn :: conversation_turn where
  "read_turn =
     \<lparr>ct_ref = 0, ct_role = AssistantRole, ct_content = [ToolCallBlock ''c'' ''read'' [(''path'', JStr ''a'')]],
      ct_model = None, ct_timestamp = 0\<rparr>"

definition first_fold :: handoff_fold where
  "first_fold = build_handoff_fold [read_turn] ''g'' no_opts"

definition reads_file :: "handoff_fold \<Rightarrow> handoff_extract_opts" where
  "reads_file earlier = \<lparr>eo_prior_file_text = Some (hf_blob_text earlier), eo_activated_tools = None\<rparr>"

lemma first_artifact:
  "ha_goal (hf_artifact first_fold) = ''g''" "ha_files (hf_artifact first_fold) = [''a'']"
  "ha_constraints (hf_artifact first_fold) = []" "ha_decisions (hf_artifact first_fold) = []"
  "ha_evidence_markers (hf_artifact first_fold) = []" "ha_commands (hf_artifact first_fold) = []"
  "ha_verification (hf_artifact first_fold) = []" "ha_dead_ends (hf_artifact first_fold) = []"
  "ha_next_actions (hf_artifact first_fold) = []"
  unfolding first_fold_def build_handoff_fold_def Let_def handoff_fold.simps by code_simp+

lemma first_printable: "printable_artifact (hf_artifact first_fold)"
proof -
  have "printable_goal ''g''" "printable_item ''a''" by code_simp+
  then show ?thesis by (simp add: printable_artifact_def first_artifact)
qed



definition failed_turn :: conversation_turn where
  "failed_turn =
     \<lparr>ct_ref = 0, ct_role = UserRole,
      ct_content = [ToolResultBlock ''c'' [TextBlock (''E'' @ [newline] @ ''## Next actions'' @ [newline] @ ''- push'')] True],
      ct_model = None, ct_timestamp = 0\<rparr>"

definition failed_fold :: handoff_fold where
  "failed_fold = build_handoff_fold [failed_turn] ''g'' no_opts"

text \<open>The text of a failed tool call is written to the file as it is, and its lines are read back as
  sections: a heading in it closes the list of dead ends and opens a section of its own, which hides the one
  the fold wrote. Here an error text becomes the next action of the session.\<close>

theorem error_text_opens_section:
  "ha_next_actions (hf_artifact failed_fold) = [] \<and>
   ph_next_actions (parse_handoff_file (hf_blob_text failed_fold)) = Some [''push'']"
  by code_simp

text \<open>A request that opens with a heading is written under the goal's heading as it is and read back as a
  section of its own, so the file keeps no goal.\<close>

definition heading_request :: conversation_turn where
  "heading_request =
     \<lparr>ct_ref = 0, ct_role = UserRole, ct_content = [TextBlock ''## Fix it''], ct_model = None, ct_timestamp = 0\<rparr>"

lemma heading_goal_lost:
  "ha_goal (hf_artifact (build_handoff_fold [heading_request] ''g'' no_opts)) = ''## Fix it''"
  "ph_goal (parse_handoff_file (hf_blob_text (build_handoff_fold [heading_request] ''g'' no_opts))) = None"
  by code_simp+

end
