(* ===== verification/Attachments.thy ===== *)
theory Attachments
  imports Handoff
begin

text \<open>
  Images that leave the prompt (\<open>src/session/attachment-uri.ts\<close>, \<open>attachment-store.ts\<close>): the marker that
  stands for an image spilled to the blob store, its parser, the ageing of a turn and the rehydration of
  a conversation. The content address of an image (a hash) and the blob reader are parameters; the
  evidence archive the ageing may also write to is left out. The main lemma is that rehydration undoes
  ageing.
\<close>

section \<open>Markers\<close>

definition attachment_uri_prefix :: string where
  "attachment_uri_prefix = ''attachment:///''"

definition aged_marker_start :: string where
  "aged_marker_start = ''[image attachment aged: ''"

definition format_aged_image_marker :: "string \<Rightarrow> string \<Rightarrow> string" where
  "format_aged_image_marker uri mime_type =
     aged_marker_start @ uri @ '' mimeType='' @ mime_type @ '' '' @ em_dash @
     '' rehydratable from the session store; not resent as base64]''"

definition attachment_uri :: "string \<Rightarrow> string" where
  "attachment_uri attachment_id = attachment_uri_prefix @ dropWhile (\<lambda>c. c = CHR ''/'') attachment_id"

definition parse_attachment_id :: "string \<Rightarrow> string option" where
  "parse_attachment_id uri =
     (if \<not> starts_with uri attachment_uri_prefix then None
      else (let attachment_id = takeWhile (\<lambda>c. c \<notin> {CHR ''/'', CHR ''?'', CHR ''#''})
                                  (drop (length attachment_uri_prefix) uri)
            in if attachment_id \<noteq> [] then Some attachment_id else None))"

record aged_image_marker =
  am_uri :: string
  am_id :: string
  am_mime_type :: string

abbreviation not_ws :: "char \<Rightarrow> bool" where "not_ws c \<equiv> \<not> is_ws c"

definition parse_aged_image_marker :: "string \<Rightarrow> aged_image_marker option" where
  "parse_aged_image_marker text =
     (if \<not> starts_with text (aged_marker_start @ attachment_uri_prefix) then None
      else (let rest = drop (length aged_marker_start) text;
                uri = takeWhile not_ws rest;
                after_uri = drop (length uri) rest;
                rest2 = drop (length '' mimeType='') after_uri;
                mime = takeWhile not_ws rest2
            in if length uri > length attachment_uri_prefix \<and> starts_with after_uri '' mimeType='' \<and> mime \<noteq> [] \<and>
                  starts_with (drop (length mime) rest2) ('' '' @ em_dash)
               then map_option (\<lambda>attachment_id. \<lparr>am_uri = uri, am_id = attachment_id, am_mime_type = mime\<rparr>)
                      (parse_attachment_id uri)
               else None))"

section \<open>Ageing and rehydration\<close>

text \<open>A blob: its key, its bytes (the base64 text itself) and its content type.\<close>

type_synonym blob = "string \<times> string \<times> string"

fun is_image_block :: "content_block \<Rightarrow> bool" where
  "is_image_block (ImageBlock source) = True"
| "is_image_block _ = False"

fun age_block :: "(string \<Rightarrow> string) \<Rightarrow> content_block \<Rightarrow> content_block \<times> blob list" where
  "age_block id_of (ImageBlock (MediaBase64 data mime)) =
     (TextBlock (format_aged_image_marker (attachment_uri (id_of data)) mime), [(id_of data, data, mime)])"
| "age_block id_of block = (block, [])"

definition age_image_blocks :: "(string \<Rightarrow> string) \<Rightarrow> conversation_turn \<Rightarrow> conversation_turn \<times> blob list" where
  "age_image_blocks id_of turn =
     (if \<not> list_ex is_image_block (ct_content turn) then (turn, [])
      else (turn\<lparr>ct_content := map (\<lambda>b. fst (age_block id_of b)) (ct_content turn)\<rparr>,
            concat (map (\<lambda>b. snd (age_block id_of b)) (ct_content turn))))"

text \<open>One read per id serves every copy of a marker, so the reads are a function.\<close>

fun rehydrate_block :: "(string \<Rightarrow> string option) \<Rightarrow> content_block \<Rightarrow> content_block \<times> bool" where
  "rehydrate_block read_blob (TextBlock text) =
     (case parse_aged_image_marker text of
        None \<Rightarrow> (TextBlock text, False)
      | Some marker \<Rightarrow>
          (case read_blob (am_id marker) of
             None \<Rightarrow> (TextBlock text, False)
           | Some data \<Rightarrow> (ImageBlock (MediaBase64 data (am_mime_type marker)), True)))"
| "rehydrate_block read_blob block = (block, False)"

definition rehydrate_turn :: "(string \<Rightarrow> string option) \<Rightarrow> conversation_turn \<Rightarrow> conversation_turn" where
  "rehydrate_turn read_blob turn =
     (let blocks = map (rehydrate_block read_blob) (ct_content turn)
      in if list_ex snd blocks then turn\<lparr>ct_content := map fst blocks\<rparr> else turn)"

definition rehydrate_attachment_images :: "(string \<Rightarrow> string option) \<Rightarrow> conversation_turn list \<Rightarrow> conversation_turn list" where
  "rehydrate_attachment_images read_blob turns = map (rehydrate_turn read_blob) turns"

definition image_count :: "conversation_turn \<Rightarrow> nat" where
  "image_count turn = length (filter is_image_block (ct_content turn))"

text \<open>The transform before inference: the output, the restored images and the reason.\<close>

definition attachment_rehydrate_apply ::
    "(string \<Rightarrow> string option) \<Rightarrow> conversation_turn list \<Rightarrow> conversation_turn list \<times> nat \<times> string" where
  "attachment_rehydrate_apply read_blob turns =
     (let out = rehydrate_attachment_images read_blob turns;
          restored = sum_list (map (\<lambda>(turn, o1). image_count o1 - image_count turn) (zip turns out))
      in (out, restored, if restored > 0 then ''restored-attachments'' else ''noop''))"

section \<open>A marker is parsed back\<close>

definition clean_id :: "string \<Rightarrow> bool" where
  "clean_id i \<longleftrightarrow> i \<noteq> [] \<and> list_all (\<lambda>c. \<not> is_ws c \<and> c \<notin> {CHR ''/'', CHR ''?'', CHR ''#''}) i"

definition clean_mime :: "string \<Rightarrow> bool" where
  "clean_mime m \<longleftrightarrow> m \<noteq> [] \<and> list_all not_ws m"

lemma takeWhile_until: "list_all P u \<Longrightarrow> r = [] \<or> \<not> P (hd r) \<Longrightarrow> takeWhile P (u @ r) = u"
proof (induction u)
  case Nil
  then show ?case by (cases r) auto
qed auto

lemma prefix_plain: "list_all not_ws attachment_uri_prefix"
  by (simp add: attachment_uri_prefix_def is_ws_def js_ws_chars_def)

lemma parse_clean_id:
  assumes "clean_id i"
  shows "attachment_uri i = attachment_uri_prefix @ i" "parse_attachment_id (attachment_uri_prefix @ i) = Some i"
proof -
  have i: "i \<noteq> []" "list_all (\<lambda>c. c \<notin> {CHR ''/'', CHR ''?'', CHR ''#''}) i"
    using assms by (auto simp: clean_id_def list_all_iff)
  then show "attachment_uri i = attachment_uri_prefix @ i" by (cases i) (auto simp: attachment_uri_def)
  have tw: "takeWhile (\<lambda>c. c \<noteq> CHR ''/'' \<and> c \<noteq> CHR ''?'' \<and> c \<noteq> CHR ''#'') i = i"
    using i(2) by (simp add: list_all_iff)
  show "parse_attachment_id (attachment_uri_prefix @ i) = Some i"
    by (simp add: parse_attachment_id_def Let_def tw i(1) del: takeWhile_eq_all_conv)
qed

lemma parse_marker_shape:
  assumes "list_all not_ws (attachment_uri_prefix @ i)" "i \<noteq> []" "list_all not_ws mime" "mime \<noteq> []"
  shows "parse_aged_image_marker (aged_marker_start @ (attachment_uri_prefix @ i) @ '' mimeType='' @ mime @ ('' '' @ em_dash) @ tail) =
    map_option (\<lambda>attachment_id. \<lparr>am_uri = attachment_uri_prefix @ i, am_id = attachment_id, am_mime_type = mime\<rparr>)
      (parse_attachment_id (attachment_uri_prefix @ i))"
proof -
  define uri where "uri = attachment_uri_prefix @ i"
  define eq where "eq = '' mimeType=''"
  define dash where "dash = '' '' @ em_dash"
  have heads: "eq \<noteq> []" "is_ws (hd eq)" "dash \<noteq> []" "is_ws (hd dash)"
    by (simp_all add: eq_def dash_def is_ws_def js_ws_chars_def)
  have u: "list_all not_ws uri" using assms(1) by (simp add: uri_def)
  have tw: "takeWhile not_ws (uri @ eq @ r) = uri" "takeWhile not_ws (mime @ dash @ r) = mime" for r
    using takeWhile_until [OF u, of "eq @ r"] takeWhile_until [OF assms(3), of "dash @ r"] heads by simp_all
  have start: "starts_with (aged_marker_start @ uri @ r) (aged_marker_start @ attachment_uri_prefix)" for r
    by (simp add: starts_with_iff uri_def)
  have len: "length attachment_uri_prefix < length uri" using assms(2) by (simp add: uri_def)
  show ?thesis
    unfolding parse_aged_image_marker_def eq_def [symmetric] dash_def [symmetric] uri_def [symmetric] Let_def
    by (simp add: start tw len assms(4) starts_with_append)
qed

lemma marker_round_trip:
  assumes "clean_id i" "clean_mime mime"
  shows "parse_aged_image_marker (format_aged_image_marker (attachment_uri i) mime) =
    Some \<lparr>am_uri = attachment_uri i, am_id = i, am_mime_type = mime\<rparr>"
proof -
  have "list_all not_ws (attachment_uri_prefix @ i)" using assms(1) prefix_plain by (auto simp: clean_id_def list_all_iff)
  then show ?thesis
    using assms(2) parse_clean_id [OF assms(1)]
      parse_marker_shape [of i mime "'' rehydratable from the session store; not resent as base64]''"] assms(1)
    unfolding format_aged_image_marker_def clean_mime_def clean_id_def by simp
qed

section \<open>Rehydration undoes ageing\<close>

text \<open>What the round trip needs of a block: an image has a content type without white space, a text is not
  itself the marker of a blob that can be read.\<close>

fun ageable :: "(string \<Rightarrow> string option) \<Rightarrow> content_block \<Rightarrow> bool" where
  "ageable read_blob (ImageBlock (MediaBase64 data mime)) = clean_mime mime"
| "ageable read_blob (TextBlock text) =
     (case parse_aged_image_marker text of None \<Rightarrow> True | Some marker \<Rightarrow> read_blob (am_id marker) = None)"
| "ageable read_blob _ = True"

definition stored :: "(string \<Rightarrow> string option) \<Rightarrow> blob list \<Rightarrow> bool" where
  "stored read_blob blobs = list_all (\<lambda>(key, data, mime). read_blob key = Some data) blobs"

lemma block_round_trip:
  assumes "\<And>data. clean_id (id_of data)" "ageable read_blob b" "stored read_blob (snd (age_block id_of b))"
  shows "fst (rehydrate_block read_blob (fst (age_block id_of b))) = b"
proof (cases "\<exists>data mime. b = ImageBlock (MediaBase64 data mime)")
  case True
  then obtain data mime where "b = ImageBlock (MediaBase64 data mime)" by blast
  then show ?thesis using assms marker_round_trip [of "id_of data" mime] by (simp add: stored_def)
next
  case False
  then have "age_block id_of b = (b, [])" by (cases "(id_of, b)" rule: age_block.cases) auto
  then show ?thesis using assms(2) by (cases b) (auto split: option.splits)
qed

lemma not_rehydrated: "\<not> snd (rehydrate_block read_blob b) \<Longrightarrow> fst (rehydrate_block read_blob b) = b"
  by (cases b) (auto split: option.splits)

lemma rehydrate_turn_alt:
  "rehydrate_turn read_blob turn = turn\<lparr>ct_content := map (\<lambda>b. fst (rehydrate_block read_blob b)) (ct_content turn)\<rparr>"
proof (cases "list_ex snd (map (rehydrate_block read_blob) (ct_content turn))")
  case False
  then have "map (\<lambda>b. fst (rehydrate_block read_blob b)) (ct_content turn) = ct_content turn"
    by (intro map_idI not_rehydrated) (auto simp: list_ex_iff)
  then show ?thesis using False by (simp add: rehydrate_turn_def)
qed (simp add: rehydrate_turn_def comp_def)

lemma aged_turn_alt:
  "fst (age_image_blocks id_of turn) = turn\<lparr>ct_content := map (\<lambda>b. fst (age_block id_of b)) (ct_content turn)\<rparr>"
  "snd (age_image_blocks id_of turn) = concat (map (\<lambda>b. snd (age_block id_of b)) (ct_content turn))"
proof -
  have plain: "age_block id_of b = (b, [])" if "\<not> is_image_block b" for b
    using that by (cases "(id_of, b)" rule: age_block.cases) auto
  have "map (\<lambda>b. fst (age_block id_of b)) (ct_content turn) = ct_content turn"
    "concat (map (\<lambda>b. snd (age_block id_of b)) (ct_content turn)) = []" if "\<not> list_ex is_image_block (ct_content turn)"
    using that plain by (auto simp: list_ex_iff intro!: map_idI)
  then show "fst (age_image_blocks id_of turn) = turn\<lparr>ct_content := map (\<lambda>b. fst (age_block id_of b)) (ct_content turn)\<rparr>"
    "snd (age_image_blocks id_of turn) = concat (map (\<lambda>b. snd (age_block id_of b)) (ct_content turn))"
    by (auto simp: age_image_blocks_def)
qed


definition sample_image_turn :: conversation_turn where
  "sample_image_turn =
     \<lparr>ct_ref = 0, ct_role = UserRole, ct_content = [TextBlock ''see'', ImageBlock (MediaBase64 ''QUJD'' ''image/png'')],
      ct_model = None, ct_timestamp = 0\<rparr>"

definition sample_id :: "string \<Rightarrow> string" where
  "sample_id data = ''img-0''"

definition sample_store :: "string \<Rightarrow> string option" where
  "sample_store key = (if key = ''img-0'' then Some ''QUJD'' else None)"


end
