(* ===== verification/Summarizer.thy ===== *)
theory Summarizer
  imports Handoff
begin

text \<open>
  The model-backed summarizer of a compaction (\<open>src/session/summarizer.ts\<close>): the excerpt of the evidence
  archive within its budget, the condensed transcript that stands in for it, the prompt, the class of a
  failed call, and the loop that retries once per class. The inference call is a parameter that gives the
  outcome of the n-th call; so are the reader of an archived payload and the abort signal of a call. A
  cause that does not parse as an inference error is no cause. Logging and the fields of the telemetry
  event other than the class are left out.

  The lemmas show that the excerpt stays within its budget and accounts for every occurrence, that the
  standing goal is pinned, and that a summary takes at most three calls.
\<close>

section \<open>The excerpt of the archive\<close>

datatype archive_kind =
    UserMessageKind | AssistantTextKind | ToolArgsKind | ToolResultKind | OverflowBlobKind | AttachmentKind
  | ToolFailureKind

datatype recording_lifecycle = Requested | Suspended | Denied | Admitted

record archive_occurrence =
  ao_id :: string
  ao_kind :: archive_kind
  ao_call_id :: "string option"
  ao_lifecycle :: "recording_lifecycle option"
  ao_gap :: "bool option"

fun archive_kind_name :: "archive_kind \<Rightarrow> string" where
  "archive_kind_name UserMessageKind = ''user_message''"
| "archive_kind_name AssistantTextKind = ''assistant_text''"
| "archive_kind_name ToolArgsKind = ''tool_args''"
| "archive_kind_name ToolResultKind = ''tool_result''"
| "archive_kind_name OverflowBlobKind = ''overflow_blob''"
| "archive_kind_name AttachmentKind = ''attachment''"
| "archive_kind_name ToolFailureKind = ''tool_failure''"

fun lifecycle_name :: "recording_lifecycle \<Rightarrow> string" where
  "lifecycle_name Requested = ''requested''"
| "lifecycle_name Suspended = ''suspended''"
| "lifecycle_name Denied = ''denied''"
| "lifecycle_name Admitted = ''admitted''"

definition summary_excerpt_default_budget_chars :: nat where
  "summary_excerpt_default_budget_chars = 80000"

definition kind_priority :: "archive_kind list" where
  "kind_priority =
     [UserMessageKind, AttachmentKind, AssistantTextKind, ToolArgsKind, ToolFailureKind, ToolResultKind,
      OverflowBlobKind]"

definition format_archive_ref :: "string \<Rightarrow> string" where
  "format_archive_ref occurrence_id = ''archive:///'' @ occurrence_id"

definition occurrence_heading :: "archive_occurrence \<Rightarrow> string" where
  "occurrence_heading occ =
     join '' ''
       ([''### '' @ archive_kind_name (ao_kind occ) @ '' '' @ format_archive_ref (ao_id occ)] @
        (case ao_call_id occ of None \<Rightarrow> [] | Some c \<Rightarrow> [''call='' @ c]) @
        (case ao_lifecycle occ of None \<Rightarrow> [] | Some l \<Rightarrow> [''lifecycle='' @ lifecycle_name l]) @
        (if ao_gap occ = Some True then [''[gap]''] else []))"

text \<open>The variables of the loop: the sections, the characters used and the occurrences omitted.\<close>

record excerpt_state =
  es_sections :: "string list"
  es_used :: nat
  es_omitted :: nat

definition excerpt_body :: "(string \<Rightarrow> string option) \<Rightarrow> archive_occurrence \<Rightarrow> string option" where
  "excerpt_body read_payload occ =
     (if ao_gap occ = Some True then Some ''(payload not stored)'' else read_payload (ao_id occ))"

definition excerpt_step ::
    "(string \<Rightarrow> string option) \<Rightarrow> nat \<Rightarrow> excerpt_state \<Rightarrow> archive_occurrence \<Rightarrow> excerpt_state" where
  "excerpt_step read_payload budget st occ =
     (if budget \<le> es_used st then st\<lparr>es_omitted := Suc (es_omitted st)\<rparr>
      else (case excerpt_body read_payload occ of
              None \<Rightarrow> st\<lparr>es_omitted := Suc (es_omitted st)\<rparr>
            | Some body \<Rightarrow>
                (let sect = occurrence_heading occ @ [newline] @ body;
                     separator = (if es_sections st \<noteq> [] then 2 else 0)
                 in if length sect + separator > budget - es_used st
                    then st\<lparr>es_omitted := Suc (es_omitted st)\<rparr>
                    else st\<lparr>es_sections := es_sections st @ [sect],
                            es_used := es_used st + (length sect + separator)\<rparr>)))"

definition by_kind_priority :: "archive_occurrence list \<Rightarrow> archive_occurrence list" where
  "by_kind_priority occs = concat (map (\<lambda>kind. filter (\<lambda>occ. ao_kind occ = kind) occs) kind_priority)"

definition excerpt_sections :: "(string \<Rightarrow> string option) \<Rightarrow> nat \<Rightarrow> archive_occurrence list \<Rightarrow> excerpt_state" where
  "excerpt_sections read_payload budget occs =
     foldl (excerpt_step read_payload budget) \<lparr>es_sections = [], es_used = 0, es_omitted = 0\<rparr> (by_kind_priority occs)"

definition omission_note :: "nat \<Rightarrow> string" where
  "omission_note n = dec n @ '' occurrence'' @ (if n = 1 then [] else ''s'') @ '' omitted''"

definition build_archive_summary_excerpt ::
    "(string \<Rightarrow> string option) \<Rightarrow> nat \<Rightarrow> archive_occurrence list \<Rightarrow> string" where
  "build_archive_summary_excerpt read_payload budget occs =
     (if occs = [] then []
      else (let st = excerpt_sections read_payload budget occs;
                excerpt = join [newline, newline] (es_sections st)
            in if es_omitted st = 0 then excerpt
               else if excerpt = [] then omission_note (es_omitted st)
               else excerpt @ [newline, newline] @ omission_note (es_omitted st)))"

section \<open>The condensed transcript\<close>

record workflow_context =
  wc_name :: "string option"
  wc_step_label :: "string option"
  wc_step_index :: "int option"
  wc_total :: "int option"

record summary_context =
  sc_workflow :: "workflow_context option"
  sc_activated_tools :: "string list option"
  sc_extra_instructions :: "string option"
  sc_prior_summary :: "string option"

definition empty_summary_context :: summary_context where
  "empty_summary_context =
     \<lparr>sc_workflow = None, sc_activated_tools = None, sc_extra_instructions = None, sc_prior_summary = None\<rparr>"

definition condensed_user_window :: nat where
  "condensed_user_window = 6"

definition last_n :: "nat \<Rightarrow> 'a list \<Rightarrow> 'a list" where
  "last_n n xs = drop (length xs - n) xs"

definition with_pinned_goal :: "string list \<Rightarrow> string list" where
  "with_pinned_goal msgs =
     (let recent = last_n condensed_user_window msgs
      in if length msgs \<le> condensed_user_window then recent
         else (case msgs of
                 [] \<Rightarrow> recent
               | goal # _ \<Rightarrow>
                   if goal \<notin> set recent then (''Goal (first user message):'' @ [newline] @ goal) # recent else recent))"

text \<open>\<open>https?://[^\s)]+\<close>, every match, its case as written.\<close>

definition link_scheme_length :: "string \<Rightarrow> nat option" where
  "link_scheme_length s =
     (if starts_with s ''http://'' then Some 7 else if starts_with s ''https://'' then Some 8 else None)"

function link_matches :: "string \<Rightarrow> string list" where
  "link_matches [] = []"
| "link_matches (c # s) =
     (case link_scheme_length (c # s) of
        None \<Rightarrow> link_matches s
      | Some n \<Rightarrow>
          (let body = url_body (drop n (c # s))
           in if body = [] then link_matches s
              else (take n (c # s) @ body) # link_matches (drop (length body) (drop n (c # s)))))"
  by pat_completeness auto

termination
  by (relation "measure length")
    (auto simp: link_scheme_length_def split: if_splits)

record condense_state =
  cs_user_messages :: "string list"
  cs_assistant_snippets :: "string list"
  cs_tool_names :: "string list"
  cs_files :: "string list"
  cs_links :: "string list"

definition add_nonempty :: "string \<Rightarrow> string list \<Rightarrow> string list" where
  "add_nonempty s xs = (if s \<noteq> [] then jset_add s xs else xs)"

definition condense_block :: "turn_role \<Rightarrow> condense_state \<Rightarrow> content_block \<Rightarrow> condense_state" where
  "condense_block role st block =
     (case block of
        TextBlock text \<Rightarrow>
          (let st1 = st\<lparr>cs_links := add_all (cs_links st) (link_matches text)\<rparr>
           in if role = UserRole then st1\<lparr>cs_user_messages := cs_user_messages st1 @ [take 400 text]\<rparr>
              else if role = AssistantRole \<and> text \<noteq> []
              then st1\<lparr>cs_assistant_snippets := cs_assistant_snippets st1 @ [take 300 text]\<rparr>
              else st1)
      | ToolCallBlock i name args \<Rightarrow>
          st\<lparr>cs_tool_names := jset_add name (cs_tool_names st),
             cs_files := add_nonempty (path_or_file args) (cs_files st),
             cs_links := add_nonempty (string_arg args ''url'') (cs_links st)\<rparr>
      | _ \<Rightarrow> st)"

definition condense_turn :: "condense_state \<Rightarrow> conversation_turn \<Rightarrow> condense_state" where
  "condense_turn st turn = foldl (condense_block (ct_role turn)) st (ct_content turn)"

definition empty_condense :: condense_state where
  "empty_condense =
     \<lparr>cs_user_messages = [], cs_assistant_snippets = [], cs_tool_names = [], cs_files = [], cs_links = []\<rparr>"

definition condense_turns :: "conversation_turn list \<Rightarrow> string" where
  "condense_turns turns =
     (let st = foldl condense_turn empty_condense turns;
          rule = [newline] @ ''---'' @ [newline]
      in join [newline, newline]
           ([''Turns dropped: '' @ dec (length turns)] @
            (if cs_tool_names st \<noteq> [] then [''Tools used: '' @ join '', '' (sort (cs_tool_names st))] else []) @
            (if cs_files st \<noteq> []
             then [''Files touched:'' @ [newline] @ join [newline] (map (\<lambda>f. ''- '' @ f) (take 40 (cs_files st)))] else []) @
            (if cs_links st \<noteq> []
             then [''Links/identifiers:'' @ [newline] @ join [newline] (map (\<lambda>l. ''- '' @ l) (take 30 (cs_links st)))]
             else []) @
            (if cs_user_messages st \<noteq> []
             then [''User messages (most recent last):'' @ [newline] @ join rule (with_pinned_goal (cs_user_messages st))]
             else []) @
            (if cs_assistant_snippets st \<noteq> []
             then [''Assistant notes (excerpts):'' @ [newline] @ join rule (last_n 8 (cs_assistant_snippets st))]
             else [])))"

section \<open>The prompt\<close>

definition workflow_step_text :: "workflow_context \<Rightarrow> string" where
  "workflow_step_text flow =
     (let label = (case wc_step_label flow of None \<Rightarrow> [] | Some l \<Rightarrow> l)
      in case (wc_step_index flow, wc_total flow) of
           (Some i, Some steps) \<Rightarrow>
             '' (step '' @ dec_int (i + 1) @ ''/'' @ dec_int steps @ (if label \<noteq> [] then '': '' @ label else []) @ '')''
         | _ \<Rightarrow> if label \<noteq> [] then '' (current step: '' @ label @ '')'' else [])"

definition workflow_part :: "summary_context \<Rightarrow> string list" where
  "workflow_part ctx =
     (case sc_workflow ctx of
        None \<Rightarrow> []
      | Some flow \<Rightarrow>
          (case wc_name flow of
             None \<Rightarrow> []
           | Some name \<Rightarrow>
               [''Active workflow: /'' @ name @ workflow_step_text flow @ [newline] @
                ''This session is mid-workflow '' @ em_dash @ '' preserve everything needed to resume it.'']))"

definition trimmed_part :: "string \<Rightarrow> string option \<Rightarrow> string list" where
  "trimmed_part intro text =
     (case text of
        None \<Rightarrow> []
      | Some t \<Rightarrow> if trim t \<noteq> [] then [intro @ [newline] @ trim t] else [])"

definition context_preamble :: "summary_context option \<Rightarrow> string" where
  "context_preamble ctx_opt =
     (let ctx = (case ctx_opt of None \<Rightarrow> empty_summary_context | Some c \<Rightarrow> c);
          tools = list_or_empty (sc_activated_tools ctx);
          parts = workflow_part ctx @
            (if tools \<noteq> []
             then [''Tools activated via tool_search and still callable directly: '' @ join '', '' tools] else []) @
            trimmed_part ''Operator compact instructions (honor these while keeping the sections above):''
              (sc_extra_instructions ctx) @
            trimmed_part (''Prior handoff summary (update this with what changed since '' @ em_dash @
                '' do not restate it wholesale):'')
              (sc_prior_summary ctx)
      in if parts = [] then [] else join [newline, newline] parts @ [newline, newline])"

definition build_summary_prompt ::
    "conversation_turn list \<Rightarrow> summary_context option \<Rightarrow> string option \<Rightarrow> string" where
  "build_summary_prompt turns ctx excerpt =
     (let body = (case excerpt of
          None \<Rightarrow> condense_turns turns
        | Some e \<Rightarrow> if e \<noteq> [] then e else condense_turns turns)
      in context_preamble ctx @ ''Session excerpt:'' @ [newline, newline] @ body)"

definition system_instruction :: string where
  "system_instruction =
     join [newline]
       [''You are compacting the context of an in-progress coding session so the agent'',
        ''can keep working with a much shorter history. Read the session excerpt and'',
        ''produce a tight, factual handoff. Do not invent anything not present in the'',
        ''excerpt. Use exactly these sections, each as a short markdown block:'',
        [],
        ''## What Happened'',
        ''Bullet the concrete work already done (files changed, decisions made, things'',
        ''discovered, things that failed and why).'',
        [],
        ''## What We'' @ [squote] @ ''re Doing'',
        ''One or two sentences on the current objective and, if a workflow is active,'',
        ''which workflow and step we are on.'',
        [],
        ''## Relevant Links'',
        ''URLs, file paths, identifiers (tickets, commits, symbols) that later turns'',
        ''will need. Omit the section if there are none.'',
        [],
        ''## Action Items'',
        ''Concrete things still owed, with enough detail to act on without re-reading'',
        ''the dropped history.'',
        [],
        ''## Next Steps'',
        ''The immediate next action(s) to take right now.'',
        [],
        ''Be specific and terse. Prefer paths, names, and exact values over prose.'',
        ''When the excerpt includes archive:/// refs, keep those identifiers so later'',
        ''turns can retrieve the evidence. Do not invent archive contents.'']"

text \<open>The turns of the call; their identities are never compared.\<close>

definition summary_prompt_turns ::
    "conversation_turn list \<Rightarrow> summary_context option \<Rightarrow> string option \<Rightarrow> conversation_turn list" where
  "summary_prompt_turns turns ctx excerpt =
     [\<lparr>ct_ref = 0, ct_role = SystemRole, ct_content = [TextBlock system_instruction], ct_model = None,
       ct_timestamp = (case turns of [] \<Rightarrow> 0 | t # _ \<Rightarrow> ct_timestamp t)\<rparr>,
      \<lparr>ct_ref = 0, ct_role = UserRole, ct_content = [TextBlock (build_summary_prompt turns ctx excerpt)],
       ct_model = None, ct_timestamp = 0\<rparr>]"

section \<open>The class of a failure\<close>

record inference_failure =
  if_category :: string
  if_status :: "nat option"
  if_message :: string

record call_error =
  te_is_error :: bool
  te_name :: string
  te_message :: string
  te_cause :: "inference_failure option"

datatype summarizer_failure_class =
    AuthFailure | QuotaFailure | ProviderFailure | TimeoutFailure | AbortedFailure | EmptyFailure | OtherFailure

fun failure_class_name :: "summarizer_failure_class \<Rightarrow> string" where
  "failure_class_name AuthFailure = ''auth''"
| "failure_class_name QuotaFailure = ''quota''"
| "failure_class_name ProviderFailure = ''provider''"
| "failure_class_name TimeoutFailure = ''timeout''"
| "failure_class_name AbortedFailure = ''aborted''"
| "failure_class_name EmptyFailure = ''empty''"
| "failure_class_name OtherFailure = ''failed''"

definition empty_summary_message :: string where
  "empty_summary_message = ''compaction summary returned empty text''"

definition provider_internal_error :: "string \<Rightarrow> bool" where
  "provider_internal_error message = has_infix (to_lower message) ''internal error during token generation''"

definition has_word :: "string \<Rightarrow> string \<Rightarrow> bool" where
  "has_word w message = word_search (match_literal w) False message"

text \<open>\<open>5\d\d\<close>, before a word boundary.\<close>

fun match_5xx :: "string \<Rightarrow> string option" where
  "match_5xx (a # b # c # rest) = (if a = CHR ''5'' \<and> is_digit b \<and> is_digit c then Some rest else None)"
| "match_5xx _ = None"

definition classify_cause :: "inference_failure \<Rightarrow> summarizer_failure_class" where
  "classify_cause cause =
     (if if_category cause = ''aborted'' then AbortedFailure
      else if if_category cause = ''timeout'' then TimeoutFailure
      else if if_category cause = ''credential_failure'' \<or> if_status cause = Some 401 \<or> if_status cause = Some 403
      then AuthFailure
      else if if_category cause = ''quota_exhausted'' \<or> if_status cause = Some 429 then QuotaFailure
      else if (case if_status cause of None \<Rightarrow> False | Some s \<Rightarrow> 500 \<le> s \<and> s < 600) \<or>
              provider_internal_error (if_message cause) then ProviderFailure
      else OtherFailure)"

definition classify_message :: "call_error \<Rightarrow> summarizer_failure_class" where
  "classify_message e =
     (let message = te_message e
      in if message = empty_summary_message then EmptyFailure
         else if te_is_error e \<and> te_name e = ''AbortError'' then AbortedFailure
         else if has_word ''timeout'' message \<or> has_word ''timed out'' message then TimeoutFailure
         else if has_word ''401'' message \<or> has_word ''403'' message \<or> has_word ''unauthorized'' message then AuthFailure
         else if has_word ''429'' message \<or> has_word ''quota'' message then QuotaFailure
         else if word_search match_5xx False message \<or> provider_internal_error message then ProviderFailure
         else OtherFailure)"

definition classify_summarizer_failure :: "call_error \<Rightarrow> summarizer_failure_class" where
  "classify_summarizer_failure e =
     (case (if te_is_error e then te_cause e else None) of
        Some cause \<Rightarrow> classify_cause cause
      | None \<Rightarrow> classify_message e)"

definition summarizer_stub_fallback_notice :: "summarizer_failure_class \<Rightarrow> call_error \<Rightarrow> string" where
  "summarizer_stub_fallback_notice failure_class e =
     (let first_line = trim (hd (split_char newline (te_message e)));
          detail = (if first_line \<noteq> [] \<and> first_line \<noteq> failure_class_name failure_class
                    then Some (if length first_line > 140 then take 140 first_line @ ''...'' else first_line)
                    else None);
          kind = (case detail of
              Some d \<Rightarrow> failure_class_name failure_class @ '': '' @ d
            | None \<Rightarrow> failure_class_name failure_class)
      in ''Compaction summary failed '' @ em_dash @ '' using a statistics-only stub ('' @ kind @ '')'')"

section \<open>The calls\<close>

text \<open>The n-th call gives the error it throws or its text; \<open>mo_aborted n\<close> is the state of its signal when it
  failed. A thrown value that is no error is wrapped in one.\<close>

record summarizer_options =
  mo_complete :: "nat \<Rightarrow> conversation_turn list \<Rightarrow> call_error + string"
  mo_aborted :: "nat \<Rightarrow> bool"
  mo_refresh_auth :: bool
  mo_max_chars :: nat

definition as_error :: "call_error \<Rightarrow> call_error" where
  "as_error e = (if te_is_error e then e else \<lparr>te_is_error = True, te_name = ''Error'', te_message = te_message e, te_cause = None\<rparr>)"

definition attempt_summary :: "summarizer_options \<Rightarrow> conversation_turn list \<Rightarrow> nat \<Rightarrow> call_error + string" where
  "attempt_summary opts prompt n =
     (case mo_complete opts n prompt of
        Inl e \<Rightarrow> Inl (as_error e)
      | Inr text \<Rightarrow>
          if text = []
          then Inl \<lparr>te_is_error = True, te_name = ''Error'', te_message = empty_summary_message, te_cause = None\<rparr>
          else Inr (if length text > mo_max_chars opts then take (mo_max_chars opts) text else text))"

text \<open>What a run came to: its result, its calls, the refreshes of the credential, and the class it reported to
  telemetry.\<close>

record summarizer_run =
  sr_result :: "call_error + string"
  sr_calls :: nat
  sr_refreshes :: nat
  sr_captured :: "summarizer_failure_class option"

definition retryable :: "summarizer_options \<Rightarrow> summarizer_failure_class \<Rightarrow> bool" where
  "retryable opts failure_class \<longleftrightarrow>
     failure_class = AuthFailure \<and> mo_refresh_auth opts \<or> failure_class = ProviderFailure"

function summarize_loop ::
    "summarizer_options \<Rightarrow> conversation_turn list \<Rightarrow> summarizer_failure_class list \<Rightarrow> nat \<Rightarrow> nat \<Rightarrow> summarizer_run" where
  "summarize_loop opts prompt retried n refreshes =
     (case attempt_summary opts prompt n of
        Inr text \<Rightarrow> \<lparr>sr_result = Inr text, sr_calls = Suc n, sr_refreshes = refreshes, sr_captured = None\<rparr>
      | Inl e \<Rightarrow>
          (let failure_class = classify_summarizer_failure e
           in if retryable opts failure_class \<and> failure_class \<notin> set retried
              then summarize_loop opts prompt (failure_class # retried) (Suc n)
                     (if failure_class = AuthFailure then Suc refreshes else refreshes)
              else \<lparr>sr_result = Inl e, sr_calls = Suc n, sr_refreshes = refreshes,
                    sr_captured = (if failure_class = AbortedFailure \<and> mo_aborted opts n then None
                                   else Some failure_class)\<rparr>))"
  by pat_completeness auto

termination
proof (relation "measure (\<lambda>(opts, prompt, retried, n, refreshes). card ({AuthFailure, ProviderFailure} - set retried))",
    goal_cases wf step)
  case (step opts prompt retried n refreshes e failure_class)
  then have "failure_class \<in> {AuthFailure, ProviderFailure} - set retried" by (auto simp: retryable_def)
  then have "card ({AuthFailure, ProviderFailure} - set (failure_class # retried)) < card ({AuthFailure, ProviderFailure} - set retried)"
    by (intro psubset_card_mono) auto
  then show ?case by simp
qed simp

declare summarize_loop.simps [simp del]

definition model_summarizer ::
    "summarizer_options \<Rightarrow> ((string \<Rightarrow> string option) \<times> archive_occurrence list) option \<Rightarrow>
     conversation_turn list \<Rightarrow> summary_context option \<Rightarrow> summarizer_run" where
  "model_summarizer opts archive turns ctx =
     (let excerpt = map_option (\<lambda>(read_payload, occs).
          build_archive_summary_excerpt read_payload summary_excerpt_default_budget_chars occs) archive
      in summarize_loop opts (summary_prompt_turns turns ctx excerpt) [] 0 0)"

section \<open>The excerpt stays within its budget\<close>

lemma length_join_snoc: "xs \<noteq> [] \<Longrightarrow> length (join sep (xs @ [x])) = length (join sep xs) + length sep + length x"
  by (induction sep xs rule: join.induct) auto

text \<open>The characters counted are those of the joined sections, and every occurrence seen is in a section or
  among the omitted.\<close>

definition excerpt_ok :: "nat \<Rightarrow> nat \<Rightarrow> excerpt_state \<Rightarrow> bool" where
  "excerpt_ok budget seen st \<longleftrightarrow>
     es_used st = length (join [newline, newline] (es_sections st)) \<and> es_used st \<le> budget \<and>
     length (es_sections st) + es_omitted st = seen"

lemma excerpt_step_ok: "excerpt_ok budget seen st \<Longrightarrow> excerpt_ok budget (Suc seen) (excerpt_step read_payload budget st occ)"
  by (auto simp: excerpt_step_def excerpt_ok_def Let_def length_join_snoc split: option.splits)

lemma excerpt_steps_ok:
  "excerpt_ok budget seen st \<Longrightarrow>
    excerpt_ok budget (seen + length occs) (foldl (excerpt_step read_payload budget) st occs)"
proof (induction occs arbitrary: seen st)
  case (Cons occ occs)
  then show ?case using excerpt_step_ok [OF Cons.prems] by fastforce
qed simp

lemma length_by_kind_priority: "length (by_kind_priority occs) = length occs"
proof (induction occs)
  case (Cons occ occs)
  then show ?case by (cases "ao_kind occ") (simp_all add: by_kind_priority_def kind_priority_def)
qed (simp add: by_kind_priority_def kind_priority_def)

lemma excerpt_sections_ok: "excerpt_ok budget (length occs) (excerpt_sections read_payload budget occs)"
  using excerpt_steps_ok [of budget 0 "\<lparr>es_sections = [], es_used = 0, es_omitted = 0\<rparr>" "by_kind_priority occs" read_payload]
  by (simp add: excerpt_sections_def excerpt_ok_def length_by_kind_priority)

text \<open>The archive excerpt keeps to its budget and hides nothing: it is the joined sections, never longer
  than the budget, and where occurrences did not fit or could not be read it ends with their number, which
  with the sections makes up all the occurrences.\<close>

theorem excerpt_within_budget:
  "\<exists>sections omitted.
     build_archive_summary_excerpt read_payload budget occs =
       join [newline, newline] (filter (\<lambda>part. part \<noteq> [])
         [join [newline, newline] sections, if omitted = 0 then [] else omission_note omitted]) \<and>
     length (join [newline, newline] sections) \<le> budget \<and> length sections + omitted = length occs"
proof -
  define st where "st = excerpt_sections read_payload budget occs"
  have st: "length (join [newline, newline] (es_sections st)) \<le> budget" "length (es_sections st) + es_omitted st = length occs"
    using excerpt_sections_ok [of budget occs read_payload] by (simp_all add: st_def excerpt_ok_def)
  have counted: "omission_note n \<noteq> []" for n by (simp add: omission_note_def)
  have "build_archive_summary_excerpt read_payload budget occs =
    join [newline, newline] (filter (\<lambda>part. part \<noteq> [])
      [join [newline, newline] (es_sections st), if es_omitted st = 0 then [] else omission_note (es_omitted st)])"
    using st(2) counted by (cases "occs = []") (simp_all add: build_archive_summary_excerpt_def st_def [symmetric] Let_def)
  then show ?thesis using st by blast
qed

section \<open>The standing goal is pinned\<close>

lemma pinned_goal_kept:
  assumes "msgs \<noteq> []"
  shows "hd msgs \<in> set (with_pinned_goal msgs) \<or>
    hd (with_pinned_goal msgs) = ''Goal (first user message):'' @ [newline] @ hd msgs"
  using assms by (cases msgs) (auto simp: with_pinned_goal_def last_n_def Let_def)

lemma length_with_pinned_goal: "length (with_pinned_goal msgs) \<le> Suc condensed_user_window"
  by (auto simp: with_pinned_goal_def last_n_def Let_def split: list.splits)

section \<open>At most three calls\<close>

text \<open>A call worth another one: it failed in a class that is retried.\<close>

definition retried_class :: "summarizer_options \<Rightarrow> conversation_turn list \<Rightarrow> nat \<Rightarrow> summarizer_failure_class option" where
  "retried_class opts prompt n =
     (case attempt_summary opts prompt n of
        Inr text \<Rightarrow> None
      | Inl e \<Rightarrow>
          if retryable opts (classify_summarizer_failure e) then Some (classify_summarizer_failure e) else None)"

definition retries_made :: "summarizer_options \<Rightarrow> conversation_turn list \<Rightarrow> nat \<Rightarrow> summarizer_failure_class list" where
  "retries_made opts prompt n = map (\<lambda>i. the (retried_class opts prompt i)) [0..<n]"

definition run_sound :: "summarizer_options \<Rightarrow> conversation_turn list \<Rightarrow> summarizer_run \<Rightarrow> bool" where
  "run_sound opts prompt r \<longleftrightarrow>
     (let m = sr_calls r - 1
      in sr_calls r = Suc m \<and> sr_result r = attempt_summary opts prompt m \<and>
         distinct (retries_made opts prompt m) \<and> list_all (\<lambda>i. retried_class opts prompt i \<noteq> None) [0..<m] \<and>
         sr_refreshes r = length (filter (\<lambda>c. c = AuthFailure) (retries_made opts prompt m)))"

lemma summarize_loop_runs:
  assumes "set retried = set (retries_made opts prompt n)" "distinct (retries_made opts prompt n)"
    and "list_all (\<lambda>i. retried_class opts prompt i \<noteq> None) [0..<n]"
    and "refreshes = length (filter (\<lambda>c. c = AuthFailure) (retries_made opts prompt n))"
  shows "run_sound opts prompt (summarize_loop opts prompt retried n refreshes)"
  using assms
proof (induction opts prompt retried n refreshes rule: summarize_loop.induct)
  case (1 opts prompt retried n refreshes)
  show ?case
  proof (cases "attempt_summary opts prompt n")
    case (Inr answer)
    then show ?thesis using 1(2,3,4,5) by (subst summarize_loop.simps) (simp add: run_sound_def)
  next
    case (Inl e)
    define c where "c = classify_summarizer_failure e"
    show ?thesis
    proof (cases "retryable opts c \<and> c \<notin> set retried")
      case True
      have c: "retried_class opts prompt n = Some c" using Inl True by (simp add: retried_class_def c_def)
      have made: "retries_made opts prompt (Suc n) = retries_made opts prompt n @ [c]"
        by (simp add: retries_made_def c)
      have loop: "summarize_loop opts prompt retried n refreshes =
        summarize_loop opts prompt (c # retried) (Suc n) (if c = AuthFailure then Suc refreshes else refreshes)"
        using Inl True by (subst summarize_loop.simps) (simp add: Let_def c_def)
      show ?thesis
        unfolding loop by (rule 1(1) [OF Inl c_def]) (use True 1(2,3,4,5) c made in auto)
    next
      case False
      have "summarize_loop opts prompt retried n refreshes =
        \<lparr>sr_result = Inl e, sr_calls = Suc n, sr_refreshes = refreshes,
         sr_captured = (if c = AbortedFailure \<and> mo_aborted opts n then None else Some c)\<rparr>"
        using Inl False by (subst summarize_loop.simps) (auto simp: Let_def c_def)
      then show ?thesis using 1(2,3,4,5) Inl by (simp add: run_sound_def)
    qed
  qed
qed

lemma retries_made_few:
  assumes "distinct (retries_made opts prompt m)" "list_all (\<lambda>i. retried_class opts prompt i \<noteq> None) [0..<m]"
  shows "m \<le> 2" "length (filter (\<lambda>c. c = AuthFailure) (retries_made opts prompt m)) \<le> 1"
    "\<not> mo_refresh_auth opts \<Longrightarrow> AuthFailure \<notin> set (retries_made opts prompt m)"
proof -
  have cls: "retryable opts c" if "c \<in> set (retries_made opts prompt m)" for c
    using that assms(2)
    by (fastforce simp: retries_made_def retried_class_def list_all_iff split: sum.splits if_splits)
  have "set (retries_made opts prompt m) \<subseteq> {AuthFailure, ProviderFailure}"
    using cls by (auto simp: retryable_def)
  then have "card (set (retries_made opts prompt m)) \<le> card {AuthFailure, ProviderFailure}" by (rule card_mono [rotated]) simp
  then show "m \<le> 2" using distinct_card [OF assms(1)] by (simp add: retries_made_def)
  show "length (filter (\<lambda>c. c = AuthFailure) (retries_made opts prompt m)) \<le> 1"
    using distinct_card [OF distinct_filter [OF assms(1)], of "\<lambda>c. c = AuthFailure"]
      card_mono [of "{AuthFailure}" "{c \<in> set (retries_made opts prompt m). c = AuthFailure}"] by auto
  show "AuthFailure \<notin> set (retries_made opts prompt m)" if "\<not> mo_refresh_auth opts"
    using cls that by (auto simp: retryable_def)
qed

text \<open>C34: A summary never stalls the session on retries: the summarizer makes at most three calls and refreshes
  the credential at most once, and not at all without a refresher; every call before the last failed in a
  class that is retried, no class twice; and what it returns or throws is the outcome of its last call.\<close>

theorem summary_calls_bounded:
  "\<exists>m. sr_calls (summarize_loop opts prompt [] 0 0) = Suc m \<and> m \<le> 2 \<and>
     sr_result (summarize_loop opts prompt [] 0 0) = attempt_summary opts prompt m \<and>
     distinct (retries_made opts prompt m) \<and> None \<notin> set (map (retried_class opts prompt) [0..<m]) \<and>
     sr_refreshes (summarize_loop opts prompt [] 0 0) \<le> (if mo_refresh_auth opts then 1 else 0)"
proof -
  let ?run = "summarize_loop opts prompt [] 0 0"
  have "run_sound opts prompt ?run" by (rule summarize_loop_runs) (simp_all add: retries_made_def)
  then obtain m where calls: "sr_calls ?run = Suc m" and answer: "sr_result ?run = attempt_summary opts prompt m"
    and made: "distinct (retries_made opts prompt m)" "list_all (\<lambda>i. retried_class opts prompt i \<noteq> None) [0..<m]"
    and refreshed: "sr_refreshes ?run = length (filter (\<lambda>c. c = AuthFailure) (retries_made opts prompt m))"
    unfolding run_sound_def Let_def by blast
  have "filter (\<lambda>c. c = AuthFailure) (retries_made opts prompt m) = []" if "\<not> mo_refresh_auth opts"
    using retries_made_few(3) [OF made that] by (auto simp: filter_empty_conv)
  then have "sr_refreshes ?run \<le> (if mo_refresh_auth opts then 1 else 0)"
    using retries_made_few(2) [OF made] refreshed by simp
  moreover have "None \<notin> set (map (retried_class opts prompt) [0..<m])"
    using made(2) by (force simp: list_all_iff)
  ultimately show ?thesis
    using calls answer made(1) retries_made_few(1) [OF made] by blast
qed

lemma summary_text_capped: "attempt_summary opts prompt n = Inr answer \<Longrightarrow> length answer \<le> mo_max_chars opts"
  by (auto simp: attempt_summary_def split: sum.splits if_splits)

end
