(* ===== verification/Compactor.thy ===== *)
theory Compactor
  imports CompactorTail CompactionVerify HandoffFile Attachments Summarizer
begin

text \<open>
  The fold itself (\<open>createPruningCompactor\<close> of \<open>src/session/compactor.ts\<close>): the tail is selected, images
  outside it are aged, the rest is summarised, the summary verified or repaired, the handoff built, and
  the spine put before the tail. The summarizer, the operator's context, the previous file, the URL parser
  and the content address of an image are parameters; the operator's context is read once. A turn the
  fold makes gets the identity 0. A statistic of the manifest is the pair of its key and value.

  The lemmas show that a fold that does not commit leaves the conversation as it was, that a committed one
  carries every continuation fact and denies no failure, that calls and results stay together in it, and
  that no two user turns follow each other.
\<close>

section \<open>Images outside the tail\<close>

record aged_images =
  ai_turns :: "conversation_turn list"
  ai_blobs :: "blob list"
  ai_count :: nat

definition has_image :: "conversation_turn \<Rightarrow> bool" where
  "has_image turn = list_ex is_image_block (ct_content turn)"

definition age_one ::
    "(string \<Rightarrow> string) \<Rightarrow> nat list \<Rightarrow> nat \<times> conversation_turn \<Rightarrow> conversation_turn \<times> blob list" where
  "age_one id_of picked entry =
     (case entry of (i, turn) \<Rightarrow>
        if i \<notin> set picked \<and> has_image turn then age_image_blocks id_of turn else (turn, []))"

definition age_images_outside_picked ::
    "(string \<Rightarrow> string) \<Rightarrow> conversation_turn list \<Rightarrow> nat list \<Rightarrow> aged_images" where
  "age_images_outside_picked id_of turns picked =
     (if turns = [] then \<lparr>ai_turns = turns, ai_blobs = [], ai_count = 0\<rparr>
      else if \<not> list_ex (\<lambda>(i, turn). i \<notin> set picked \<and> has_image turn) (enumerate 0 turns)
      then \<lparr>ai_turns = turns, ai_blobs = [], ai_count = 0\<rparr>
      else (let aged = map (age_one id_of picked) (enumerate 0 turns);
                blobs = concat (map snd aged)
            in \<lparr>ai_turns = map fst aged, ai_blobs = blobs, ai_count = length blobs\<rparr>))"

section \<open>Repeated failures\<close>

definition error_signature_prefix_chars :: nat where
  "error_signature_prefix_chars = 120"

definition errored_result_signature :: "call_index \<Rightarrow> string \<Rightarrow> content_block list \<Rightarrow> string" where
  "errored_result_signature index call parts =
     (let name = (case map_of index call of None \<Rightarrow> [] | Some info \<Rightarrow> ci_name info)
      in name @ [nul] @ take error_signature_prefix_chars (collapse_ws (joined_text parts)))"

text \<open>The last call seen with a signature, and the calls a later one repeats.\<close>

definition note_errored ::
    "call_index \<Rightarrow> (string \<times> string) list \<times> string list \<Rightarrow> content_block \<Rightarrow> (string \<times> string) list \<times> string list" where
  "note_errored index st block =
     (case block of
        ToolResultBlock call parts is_error \<Rightarrow>
          if \<not> is_error then st
          else (let (last_seen, repeated) = st;
                    signature = errored_result_signature index call parts
                in (AList.update signature call last_seen,
                    case map_of last_seen signature of None \<Rightarrow> repeated | Some previous \<Rightarrow> jset_add previous repeated))
      | _ \<Rightarrow> st)"

definition repeated_errored_result_call_ids :: "conversation_turn list \<Rightarrow> call_index \<Rightarrow> string list" where
  "repeated_errored_result_call_ids turns index = snd (foldl (note_errored index) ([], []) (blocks_of turns))"

section \<open>Neighbours\<close>

definition compact_spacer_turn :: "int \<Rightarrow> conversation_turn" where
  "compact_spacer_turn timestamp =
     \<lparr>ct_ref = 0, ct_role = AssistantRole, ct_content = [TextBlock compact_spacer_text],
      ct_model = Some harness_compact_spacer_model, ct_timestamp = timestamp\<rparr>"

definition coalescible :: "conversation_turn \<Rightarrow> conversation_turn \<Rightarrow> bool" where
  "coalescible prev turn \<longleftrightarrow>
     ct_role prev = ct_role turn \<and> \<not> carries_tool_result prev \<and> is_plain_text_turn turn \<and>
     \<not> is_compacted_summary_turn prev \<and> \<not> is_compacted_summary_turn turn \<and>
     \<not> is_harness_compact_spacer prev \<and> \<not> is_harness_compact_spacer turn"

definition coalesce_step :: "conversation_turn list \<Rightarrow> conversation_turn \<Rightarrow> conversation_turn list" where
  "coalesce_step out turn =
     (if out \<noteq> [] \<and> coalescible (last out) turn
      then butlast out @ [(last out)\<lparr>ct_content := ct_content (last out) @ ct_content turn\<rparr>]
      else out @ [turn])"

definition coalesce_adjacent_text_turns :: "conversation_turn list \<Rightarrow> conversation_turn list" where
  "coalesce_adjacent_text_turns turns = foldl coalesce_step [] turns"

definition separate_step :: "conversation_turn list \<Rightarrow> conversation_turn \<Rightarrow> conversation_turn list" where
  "separate_step out turn =
     (if out \<noteq> [] \<and> ct_role (last out) = UserRole \<and> ct_role turn = UserRole
      then out @ [compact_spacer_turn (ct_timestamp turn), turn] else out @ [turn])"

definition separate_adjacent_user_turns :: "conversation_turn list \<Rightarrow> conversation_turn list" where
  "separate_adjacent_user_turns turns = foldl separate_step [] turns"

section \<open>The prior spine and the statistics stub\<close>

definition extract_foldable_spine_text :: "conversation_turn list \<Rightarrow> string option" where
  "extract_foldable_spine_text turns =
     (let parts = concat (map (\<lambda>turn.
            if \<not> is_compacted_summary_turn turn then []
            else (case first_text_block (ct_content turn) of
                    None \<Rightarrow> []
                  | Some text \<Rightarrow> if text \<noteq> [] then [text] else [])) turns)
      in if parts = [] then None else Some (join [newline] parts))"

record turn_statistics =
  st_tool_names :: "string list"
  st_total_tokens :: nat
  st_last_user_message :: string
  st_tool_call_count :: nat

definition quarter :: "nat \<Rightarrow> nat" where
  "quarter n = (n + 3) div 4"

definition count_block :: "turn_statistics \<Rightarrow> content_block \<Rightarrow> turn_statistics" where
  "count_block st block =
     (case block of
        TextBlock text \<Rightarrow> st\<lparr>st_total_tokens := st_total_tokens st + quarter (length text)\<rparr>
      | ToolCallBlock i name args \<Rightarrow>
          st\<lparr>st_tool_names := jset_add name (st_tool_names st), st_tool_call_count := Suc (st_tool_call_count st),
             st_total_tokens := st_total_tokens st + quarter (length (json_stringify (JObj args)))\<rparr>
      | ToolResultBlock call parts is_error \<Rightarrow>
          st\<lparr>st_total_tokens := st_total_tokens st + quarter (result_content_size parts)\<rparr>
      | _ \<Rightarrow> st)"

definition count_turn :: "turn_statistics \<Rightarrow> conversation_turn \<Rightarrow> turn_statistics" where
  "count_turn st turn =
     (let st1 = foldl count_block st (ct_content turn)
      in if ct_role turn = UserRole
         then (case first_text_block (ct_content turn) of
                 None \<Rightarrow> st1
               | Some text \<Rightarrow> st1\<lparr>st_last_user_message := take 200 text\<rparr>)
         else st1)"

text \<open>\<open>slice(0, max - 3)\<close>: a negative end counts from the end of the text.\<close>

definition build_turn_summary :: "conversation_turn list \<Rightarrow> nat \<Rightarrow> string" where
  "build_turn_summary turns max_chars =
     (let st = foldl count_turn
            \<lparr>st_tool_names = [], st_total_tokens = 0, st_last_user_message = [], st_tool_call_count = 0\<rparr> turns;
          summary = join [newline]
            ([''Turns compacted: '' @ dec (length turns),
              ''Estimated tokens: ~'' @ dec (st_total_tokens st),
              ''Tools called: '' @ join '', '' (sort (st_tool_names st)),
              ''Total tool calls: '' @ dec (st_tool_call_count st)] @
             (if st_last_user_message st \<noteq> []
              then [''Last user message: '' @ [dquote] @ st_last_user_message st @ [dquote]] else []))
      in if length summary > max_chars
         then take (if max_chars \<ge> 3 then max_chars - 3 else length summary - (3 - max_chars)) summary @ ''...''
         else summary)"

section \<open>Configuration and outcome\<close>

record partial_shape =
  ps_tail_budget_tokens :: "int option"
  ps_max_tail_tool_output_chars :: "nat option"
  ps_excerpt_head :: "bool option"
  ps_excerpt_tail :: "bool option"
  ps_preserve_whole_user_messages :: "bool option"
  ps_pair_safe :: "bool option"

definition or_default :: "'a option \<Rightarrow> 'a \<Rightarrow> 'a" where
  "or_default v d = (case v of None \<Rightarrow> d | Some x \<Rightarrow> x)"

definition resolve_compaction_shape :: "partial_shape option \<Rightarrow> compaction_shape" where
  "resolve_compaction_shape p_opt =
     (case p_opt of
        None \<Rightarrow> default_tail_compaction_shape
      | Some p \<Rightarrow>
          (let d = default_tail_compaction_shape
           in \<lparr>sh_tail_budget_tokens = or_default (ps_tail_budget_tokens p) (sh_tail_budget_tokens d),
               sh_max_tail_tool_output_chars =
                 or_default (ps_max_tail_tool_output_chars p) (sh_max_tail_tool_output_chars d),
               sh_excerpt_head = or_default (ps_excerpt_head p) (sh_excerpt_head d),
               sh_excerpt_tail = or_default (ps_excerpt_tail p) (sh_excerpt_tail d),
               sh_preserve_whole_user_messages =
                 or_default (ps_preserve_whole_user_messages p) (sh_preserve_whole_user_messages d),
               sh_pair_safe = or_default (ps_pair_safe p) (sh_pair_safe d)\<rparr>))"

record compactor_config =
  cc_summary_max_chars :: nat
  cc_summarize :: "(conversation_turn list \<Rightarrow> summary_context option \<Rightarrow> call_error + string) option"
  cc_summary_context :: "summary_context option"
  cc_prior_handoff :: "string option"
  cc_shape :: "partial_shape option"
  cc_parse_url :: url_parser
  cc_image_id :: "string \<Rightarrow> string"

definition default_summary_max_chars :: nat where
  "default_summary_max_chars = 2000"

record strategy_result =
  rs_output :: "conversation_turn list"
  rs_parameters :: "(string \<times> json) list"
  rs_reason :: string
  rs_decisions :: "(string \<times> json) list"
  rs_blobs :: "blob list option"

definition shape_json :: "compaction_shape \<Rightarrow> json" where
  "shape_json shape =
     JObj [(''tailBudgetTokens'', JInt (sh_tail_budget_tokens shape)),
           (''maxTailToolOutputChars'', JInt (int (sh_max_tail_tool_output_chars shape))),
           (''excerptHead'', JBool (sh_excerpt_head shape)), (''excerptTail'', JBool (sh_excerpt_tail shape)),
           (''preserveWholeUserMessages'', JBool (sh_preserve_whole_user_messages shape)),
           (''pairSafe'', JBool (sh_pair_safe shape))]"

definition extra_instruction_parameter :: "compactor_config \<Rightarrow> (string \<times> json) list" where
  "extra_instruction_parameter cfg =
     (case cc_summary_context cfg of
        None \<Rightarrow> []
      | Some ctx \<Rightarrow>
          (case sc_extra_instructions ctx of
             None \<Rightarrow> []
           | Some text \<Rightarrow> if trim text = [] then [] else [(''extraInstructions'', JStr (trim text))]))"

definition jnat :: "nat \<Rightarrow> json" where
  "jnat n = JInt (int n)"

fun miss_kind_name :: "verify_miss_kind \<Rightarrow> string" where
  "miss_kind_name MissGoal = ''goal''"
| "miss_kind_name MissConstraint = ''constraint''"
| "miss_kind_name MissNextAction = ''nextAction''"
| "miss_kind_name MissExactName = ''exactName''"
| "miss_kind_name MissBlocker = ''blocker''"
| "miss_kind_name MissVerification = ''verification''"
| "miss_kind_name MissContradiction = ''contradiction''"

fun abort_reason_name :: "verify_abort_reason \<Rightarrow> string" where
  "abort_reason_name AbortContradiction = ''contradiction''"
| "abort_reason_name AbortRepairOverflow = ''repair-overflow''"

definition miss_kinds_json :: "verify_miss list \<Rightarrow> json" where
  "miss_kinds_json misses = JArr (map (\<lambda>m. JStr (miss_kind_name (vm_kind m))) misses)"

section \<open>The plan of a fold\<close>

record fold_plan =
  fp_shape :: compaction_shape
  fp_index :: call_index
  fp_tail :: tail_selection
  fp_aged :: aged_images
  fp_tail_turns :: "conversation_turn list"
  fp_excluded :: "conversation_turn list"

definition excluded_turns :: "conversation_turn list \<Rightarrow> nat list \<Rightarrow> conversation_turn list" where
  "excluded_turns turns picked = map snd (filter (\<lambda>(i, turn). i \<notin> set picked) (enumerate 0 turns))"

definition plan_fold :: "compactor_config \<Rightarrow> conversation_turn list \<Rightarrow> fold_plan" where
  "plan_fold cfg turns =
     (let shape = resolve_compaction_shape (cc_shape cfg);
          index = build_call_index turns;
          tail = select_tail shape turns (build_partner_index (build_pair_index turns));
          aged = age_images_outside_picked (cc_image_id cfg) turns (tl_picked tail)
      in \<lparr>fp_shape = shape, fp_index = index, fp_tail = tail, fp_aged = aged,
          fp_tail_turns = tail_turns (ai_turns aged) tail,
          fp_excluded = excluded_turns (ai_turns aged) (tl_picked tail)\<rparr>)"

definition stub_all :: "call_index \<Rightarrow> conversation_turn list \<Rightarrow> conversation_turn list" where
  "stub_all index turns =
     map (stub_superseded_reads (superseded_read_call_ids (build_path_to_reads turns index)) index) turns"

definition superseded_count :: "call_index \<Rightarrow> conversation_turn list \<Rightarrow> nat" where
  "superseded_count index turns = card (set (superseded_read_call_ids (build_path_to_reads turns index)))"

section \<open>The summary\<close>

definition summary_context_for :: "compactor_config \<Rightarrow> fold_plan \<Rightarrow> summary_context option" where
  "summary_context_for cfg plan =
     (case extract_foldable_spine_text (ai_turns (fp_aged plan)) of
        None \<Rightarrow> cc_summary_context cfg
      | Some prior \<Rightarrow>
          Some ((or_default (cc_summary_context cfg) empty_summary_context)\<lparr>sc_prior_summary := Some prior\<rparr>))"

text \<open>The summary and the failure it stands in for, or nothing when the operator aborted or there is no text.\<close>

definition summarize_turns :: "compactor_config \<Rightarrow> fold_plan \<Rightarrow> (string \<times> summarizer_failure_class option) option" where
  "summarize_turns cfg plan =
     (let folded = fp_excluded plan;
          stub = build_turn_summary folded (cc_summary_max_chars cfg);
          attempt = (case cc_summarize cfg of
              None \<Rightarrow> Inr stub
            | Some summarize \<Rightarrow> summarize folded (summary_context_for cfg plan));
          drafted = (case attempt of
              Inr summary \<Rightarrow> Some (summary, None)
            | Inl e \<Rightarrow>
                (let failure_class = classify_summarizer_failure e
                 in if failure_class = AbortedFailure then None else Some (stub, Some failure_class)))
      in case drafted of
           None \<Rightarrow> None
         | Some (summary, fallback) \<Rightarrow>
             if trim summary \<noteq> [] then Some (summary, fallback)
             else if trim stub = [] then None
             else Some (stub, Some (or_default fallback EmptyFailure)))"

section \<open>Verify and hand off\<close>

record handed_fold =
  hd_narrative :: string
  hd_handoff :: handoff_fold
  hd_overflow :: bool
  hd_verified :: verify_outcome

datatype hand_off = Kept verify_abort_reason "verify_miss list" | Handed handed_fold

definition spine_denial :: verify_miss where
  "spine_denial =
     missing MissContradiction ''spine denies failure while dropped turns record errors''"

definition handoff_carries :: "url_parser \<Rightarrow> handoff_fold \<Rightarrow> continuation_facts \<Rightarrow> bool" where
  "handoff_carries parse handoff facts =
     continuation_text_carries_facts parse (hf_blob_text handoff @ [newline] @ hf_spine_text handoff) facts"

definition spine_denies :: "handoff_fold \<Rightarrow> continuation_facts \<Rightarrow> bool" where
  "spine_denies handoff facts = text_denies_recorded_failures (hf_spine_text handoff) facts"

definition hand_off_fold ::
    "url_parser \<Rightarrow> nat \<Rightarrow> handoff_extract_opts \<Rightarrow> conversation_turn list \<Rightarrow> string \<Rightarrow> hand_off" where
  "hand_off_fold parse cap opts folded summary =
     (let facts = extract_continuation_facts folded;
          verified = verify_or_repair parse summary facts cap
      in if vo_aborted verified \<and> vo_abort_reason verified = Some AbortContradiction
         then Kept AbortContradiction (vo_misses verified)
         else (let narrative = vo_summary verified;
                   handoff = build_handoff_fold folded narrative opts
               in if \<not> vo_aborted verified \<and> spine_denies handoff facts
                  then Kept AbortContradiction (vo_misses verified @ [spine_denial])
                  else if \<not> vo_aborted verified
                  then Handed \<lparr>hd_narrative = narrative, hd_handoff = handoff, hd_overflow = False, hd_verified = verified\<rparr>
                  else if spine_denies handoff facts
                  then Kept AbortContradiction (vo_misses verified @ [spine_denial])
                  else (let narrative1 = (if \<not> handoff_carries parse handoff facts
                                          then repair_summary narrative facts (vo_misses verified) else narrative);
                            handoff1 = (if \<not> handoff_carries parse handoff facts
                                        then build_handoff_fold folded narrative1 opts else handoff)
                        in if spine_denies handoff1 facts \<or> \<not> handoff_carries parse handoff1 facts
                           then Kept AbortRepairOverflow (vo_misses verified)
                           else Handed \<lparr>hd_narrative = narrative1, hd_handoff = handoff1, hd_overflow = True,
                                        hd_verified = verified\<rparr>)))"

definition handoff_opts :: "compactor_config \<Rightarrow> summary_context option \<Rightarrow> handoff_extract_opts" where
  "handoff_opts cfg ctx =
     \<lparr>eo_prior_file_text = cc_prior_handoff cfg,
      eo_activated_tools = (case ctx of None \<Rightarrow> None | Some c \<Rightarrow> sc_activated_tools c)\<rparr>"

section \<open>The fold\<close>

datatype fold_outcome =
    BelowFloor
  | WholeTail fold_plan
  | SummarizeFailed fold_plan
  | KeptPrior fold_plan verify_abort_reason "verify_miss list"
  | Committed fold_plan "summarizer_failure_class option" handed_fold

definition decide_fold :: "compactor_config \<Rightarrow> conversation_turn list \<Rightarrow> fold_outcome" where
  "decide_fold cfg turns =
     (if length turns \<le> compact_noop_floor then BelowFloor
      else (let plan = plan_fold cfg turns
            in if fp_excluded plan = [] then WholeTail plan
               else (case summarize_turns cfg plan of
                       None \<Rightarrow> SummarizeFailed plan
                     | Some (summary, fallback) \<Rightarrow>
                         (case hand_off_fold (cc_parse_url cfg) (cc_summary_max_chars cfg)
                                 (handoff_opts cfg (summary_context_for cfg plan)) (fp_excluded plan) summary of
                            Kept reason misses \<Rightarrow> KeptPrior plan reason misses
                          | Handed handed \<Rightarrow> Committed plan fallback handed))))"

definition whole_tail_turns :: "fold_plan \<Rightarrow> conversation_turn list" where
  "whole_tail_turns plan =
     map (\<lambda>(i, turn). case map_of (tl_excerpted (fp_tail plan)) i of Some live \<Rightarrow> live | None \<Rightarrow> turn)
       (enumerate 0 (ai_turns (fp_aged plan)))"

definition summary_turn :: "fold_plan \<Rightarrow> handed_fold \<Rightarrow> conversation_turn" where
  "summary_turn plan handed =
     \<lparr>ct_ref = 0, ct_role = UserRole, ct_content = [TextBlock (hf_spine_text (hd_handoff handed))], ct_model = None,
      ct_timestamp = ct_timestamp (last (fp_excluded plan))\<rparr>"

definition live_output :: "fold_plan \<Rightarrow> handed_fold \<Rightarrow> conversation_turn list" where
  "live_output plan handed =
     separate_adjacent_user_turns (coalesce_adjacent_text_turns
       (summary_turn plan handed # stub_all (fp_index plan) (fp_tail_turns plan)))"

text \<open>The length of the UTF-8 encoding; the stand-ins for characters above U+07FF take three bytes.\<close>

definition utf8_length :: "string \<Rightarrow> nat" where
  "utf8_length s =
     sum_list (map (\<lambda>c. if (of_char c :: nat) < 128 then 1 else if (of_char c :: nat) < 160 then 3 else 2) s)"

definition shape_parameters :: "compactor_config \<Rightarrow> (string \<times> json) list" where
  "shape_parameters cfg =
     (''compactionShape'', shape_json (resolve_compaction_shape (cc_shape cfg))) # extra_instruction_parameter cfg"

definition with_trigger :: "string \<Rightarrow> (string \<times> json) list \<Rightarrow> (string \<times> json) list" where
  "with_trigger trigger decisions = decisions @ [(''trigger'', JStr trigger)]"

definition verify_decisions :: "handed_fold \<Rightarrow> (string \<times> json) list" where
  "verify_decisions handed =
     (let verified = hd_verified handed
      in if hd_overflow handed \<or> vo_repaired verified \<and> vo_misses verified \<noteq> []
         then [(''verifyRepaired'', JInt 1), (''verifyMissing'', miss_kinds_json (vo_misses verified))] else [])"

definition committed_decisions ::
    "fold_plan \<Rightarrow> summarizer_failure_class option \<Rightarrow> handed_fold \<Rightarrow> (string \<times> json) list" where
  "committed_decisions plan fallback handed =
     (let handoff = hd_handoff handed; tail = fp_tail plan
      in [(''summarizedTurnCount'', jnat (length (fp_excluded plan))), (''anchorTurnCount'', JInt 0),
          (''recentTurnCount'', jnat (length (fp_tail_turns plan))),
          (''tailBudgetTokens'', JInt (sh_tail_budget_tokens (fp_shape plan))),
          (''tailTokenEstimate'', JInt (tl_used tail)), (''shortenedToolOutputs'', jnat (tl_shortened tail)),
          (''summaryLength'', jnat (length (hd_narrative handed))),
          (''handoffBlobKey'', JStr (hf_blob_key handoff)),
          (''handoffSpineLength'', jnat (length (hf_spine_text handoff))),
          (''handoffFileLength'', jnat (utf8_length (hf_blob_text handoff))),
          (''agedImageCount'', jnat (ai_count (fp_aged plan))),
          (''supersededReadCount'', jnat (superseded_count (fp_index plan) (fp_tail_turns plan))),
          (''repeatedErrorCount'',
            jnat (card (set (repeated_errored_result_call_ids (fp_excluded plan) (fp_index plan))))),
          (''liveTokenEstimate'', JInt (estimate_context_tokens (live_output plan handed)))] @
         (case fallback of
            None \<Rightarrow> []
          | Some c \<Rightarrow> [(''summarizeFailed'', JInt 1), (''summarizeFailureKind'', JStr (failure_class_name c))]) @
         verify_decisions handed)"

definition committed_reason :: "fold_plan \<Rightarrow> summarizer_failure_class option \<Rightarrow> string" where
  "committed_reason plan fallback =
     ''compacted '' @ dec (length (fp_excluded plan)) @ '' turns, keeping '' @ dec (length (fp_tail_turns plan)) @ '' tail'' @
     (case fallback of
        None \<Rightarrow> []
      | Some c \<Rightarrow> '' (statistics-only stub: '' @ failure_class_name c @ '')'')"

definition blobs_or_none :: "blob list \<Rightarrow> blob list option" where
  "blobs_or_none blobs = (if blobs \<noteq> [] then Some blobs else None)"

definition handoff_blob :: "handoff_fold \<Rightarrow> blob" where
  "handoff_blob handoff = (hf_blob_key handoff, hf_blob_text handoff, ''text/markdown'')"

text \<open>The result of each outcome; one that folds nothing gives the turns as they came.\<close>

fun render_fold :: "compactor_config \<Rightarrow> string \<Rightarrow> conversation_turn list \<Rightarrow> fold_outcome \<Rightarrow> strategy_result" where
  "render_fold cfg trigger turns BelowFloor =
     \<lparr>rs_output = turns, rs_parameters = shape_parameters cfg, rs_reason = ''no compaction needed'',
      rs_decisions = with_trigger trigger [(''agedImageCount'', JInt 0)], rs_blobs = None\<rparr>"
| "render_fold cfg trigger turns (WholeTail plan) =
     (let live_turns = whole_tail_turns plan; output = stub_all (fp_index plan) live_turns; tail = fp_tail plan
      in \<lparr>rs_output = output, rs_parameters = shape_parameters cfg, rs_reason = ''no compaction needed'',
          rs_decisions = with_trigger trigger
            [(''tailBudgetTokens'', JInt (sh_tail_budget_tokens (fp_shape plan))),
             (''tailTokenEstimate'', JInt (tl_used tail)), (''shortenedToolOutputs'', jnat (tl_shortened tail)),
             (''agedImageCount'', jnat (ai_count (fp_aged plan))),
             (''supersededReadCount'', jnat (superseded_count (fp_index plan) live_turns)),
             (''liveTokenEstimate'', JInt (estimate_context_tokens output))],
          rs_blobs = blobs_or_none (ai_blobs (fp_aged plan))\<rparr>)"
| "render_fold cfg trigger turns (SummarizeFailed plan) =
     \<lparr>rs_output = turns, rs_parameters = shape_parameters cfg, rs_reason = ''summarize failed'',
      rs_decisions = with_trigger trigger
        [(''summarizeFailed'', JInt 1), (''agedImageCount'', jnat (ai_count (fp_aged plan)))],
      rs_blobs = None\<rparr>"
| "render_fold cfg trigger turns (KeptPrior plan reason misses) =
     \<lparr>rs_output = turns, rs_parameters = [(''compactionShape'', shape_json (fp_shape plan))],
      rs_reason = ''verify failed '' @ em_dash @ '' keeping prior context'',
      rs_decisions = with_trigger trigger
        [(''verifyAborted'', JInt 1), (''verifyAbortReason'', JStr (abort_reason_name reason)),
         (''verifyMissing'', miss_kinds_json misses), (''agedImageCount'', jnat (ai_count (fp_aged plan)))],
      rs_blobs = None\<rparr>"
| "render_fold cfg trigger turns (Committed plan fallback handed) =
     \<lparr>rs_output = live_output plan handed,
      rs_parameters = (''summaryMaxChars'', jnat (cc_summary_max_chars cfg)) # shape_parameters cfg,
      rs_reason = committed_reason plan fallback,
      rs_decisions = with_trigger trigger (committed_decisions plan fallback handed),
      rs_blobs = Some (ai_blobs (fp_aged plan) @ [handoff_blob (hd_handoff handed)])\<rparr>"

definition compactor_apply :: "compactor_config \<Rightarrow> string \<Rightarrow> conversation_turn list \<Rightarrow> strategy_result" where
  "compactor_apply cfg trigger turns = render_fold cfg trigger turns (decide_fold cfg turns)"

section \<open>Neighbours keep their blocks\<close>

lemma blocks_of_simps [simp]:
  "blocks_of [] = []" "blocks_of (t # ts) = ct_content t @ blocks_of ts"
  "blocks_of (ts @ us) = blocks_of ts @ blocks_of us"
  by (simp_all add: blocks_of_def)

lemma coalesce_step_blocks: "blocks_of (coalesce_step out turn) = blocks_of out @ ct_content turn"
proof (cases "out = []")
  case False
  then have "blocks_of out = blocks_of (butlast out) @ ct_content (last out)"
    by (metis append_butlast_last_id append_Nil2 blocks_of_simps)
  then show ?thesis by (simp add: coalesce_step_def)
qed (simp add: coalesce_step_def)

lemma coalesce_blocks: "blocks_of (coalesce_adjacent_text_turns turns) = blocks_of turns"
proof -
  have "blocks_of (foldl coalesce_step out turns) = blocks_of out @ blocks_of turns" for out
    by (induction turns arbitrary: out) (simp_all add: coalesce_step_blocks)
  then show ?thesis by (simp add: coalesce_adjacent_text_turns_def)
qed

lemma separate_step_call_blocks:
  "filter (\<lambda>b. is_call_of c b \<or> is_result_of c b) (blocks_of (separate_step out turn)) =
    filter (\<lambda>b. is_call_of c b \<or> is_result_of c b) (blocks_of out @ ct_content turn)"
  by (simp add: separate_step_def compact_spacer_turn_def)

lemma separate_call_blocks:
  "filter (\<lambda>b. is_call_of c b \<or> is_result_of c b) (blocks_of (separate_adjacent_user_turns turns)) =
    filter (\<lambda>b. is_call_of c b \<or> is_result_of c b) (blocks_of turns)"
proof -
  have "filter (\<lambda>b. is_call_of c b \<or> is_result_of c b) (blocks_of (foldl separate_step out turns)) =
    filter (\<lambda>b. is_call_of c b \<or> is_result_of c b) (blocks_of out @ blocks_of turns)" for out
  proof (induction turns arbitrary: out)
    case (Cons t ts)
    then show ?case using separate_step_call_blocks [of c out t] by simp
  qed simp
  then show ?thesis by (simp add: separate_adjacent_user_turns_def)
qed

definition user_pair :: "conversation_turn \<Rightarrow> conversation_turn \<Rightarrow> bool" where
  "user_pair a b \<longleftrightarrow> ct_role a = UserRole \<and> ct_role b = UserRole"

definition no_user_pair :: "conversation_turn list \<Rightarrow> bool" where
  "no_user_pair turns = successively (\<lambda>a b. \<not> user_pair a b) turns"

lemma separate_no_user_pair: "no_user_pair (separate_adjacent_user_turns turns)"
proof -
  have "no_user_pair out \<Longrightarrow> no_user_pair (foldl separate_step out turns)" for out
  proof (induction turns arbitrary: out)
    case (Cons t ts)
    have "no_user_pair (separate_step out t)"
      using Cons.prems
      by (auto simp: no_user_pair_def separate_step_def user_pair_def compact_spacer_turn_def successively_append_iff)
    then show ?case using Cons.IH by simp
  qed simp
  then show ?thesis by (simp add: separate_adjacent_user_turns_def no_user_pair_def)
qed

lemma hd_foldl_kept:
  assumes "\<And>out t. out \<noteq> [] \<Longrightarrow> hd out = h \<Longrightarrow> f out t \<noteq> [] \<and> hd (f out t) = h"
  shows "out \<noteq> [] \<Longrightarrow> hd out = h \<Longrightarrow> foldl f out ts \<noteq> [] \<and> hd (foldl f out ts) = h"
proof (induction ts arbitrary: out)
  case (Cons t ts)
  then show ?case using assms by simp
qed simp

lemma coalesce_hd:
  assumes "is_compacted_summary_turn t"
  shows "coalesce_adjacent_text_turns (t # ts) \<noteq> [] \<and> hd (coalesce_adjacent_text_turns (t # ts)) = t"
proof -
  have "foldl coalesce_step [t] ts \<noteq> [] \<and> hd (foldl coalesce_step [t] ts) = t"
  proof (rule hd_foldl_kept)
    fix out u
    assume out: "out \<noteq> []" "hd out = t"
    then obtain rest where r: "out = t # rest" by (cases out) auto
    show "coalesce_step out u \<noteq> [] \<and> hd (coalesce_step out u) = t"
      using assms by (cases rest) (auto simp: r coalesce_step_def coalescible_def)
  qed simp_all
  then show ?thesis by (simp add: coalesce_adjacent_text_turns_def coalesce_step_def)
qed

lemma separate_hd: "ts \<noteq> [] \<Longrightarrow> separate_adjacent_user_turns ts \<noteq> [] \<and> hd (separate_adjacent_user_turns ts) = hd ts"
proof -
  assume "ts \<noteq> []"
  then obtain t us where ts: "ts = t # us" by (cases ts) auto
  have "foldl separate_step [t] us \<noteq> [] \<and> hd (foldl separate_step [t] us) = t"
    by (rule hd_foldl_kept) (auto simp: separate_step_def)
  then show ?thesis by (simp add: separate_adjacent_user_turns_def separate_step_def ts)
qed

lemma summary_turn_summary:
  "hd_handoff handed = build_handoff_fold folded narrative opts \<Longrightarrow> is_compacted_summary_turn (summary_turn plan handed)"
  by (simp add: summary_turn_def is_compacted_summary_turn_def build_handoff_fold_def Let_def render_handoff_spine_def)

section \<open>What a committed fold carries\<close>

lemma verify_not_aborted:
  "\<not> vo_aborted (verify_or_repair parse summary facts cap) \<Longrightarrow>
    verify_compaction_summary parse (vo_summary (verify_or_repair parse summary facts cap)) facts = []"
  by (auto simp: verify_or_repair_def Let_def split: if_splits)

definition fold_sound :: "url_parser \<Rightarrow> handoff_extract_opts \<Rightarrow> conversation_turn list \<Rightarrow> handed_fold \<Rightarrow> bool" where
  "fold_sound parse opts folded handed \<longleftrightarrow>
     (let facts = extract_continuation_facts folded; handoff = hd_handoff handed
      in handoff = build_handoff_fold folded (hd_narrative handed) opts \<and>
         \<not> text_denies_recorded_failures (hf_spine_text handoff) facts \<and>
         (verify_compaction_summary parse (hd_narrative handed) facts = [] \<or>
          continuation_text_carries_facts parse (hf_blob_text handoff @ [newline] @ hf_spine_text handoff) facts))"

lemma hand_off_sound: "hand_off_fold parse cap opts folded summary = Handed handed \<Longrightarrow> fold_sound parse opts folded handed"
  using verify_not_aborted [of parse summary "extract_continuation_facts folded" cap]
  by (auto simp: hand_off_fold_def fold_sound_def Let_def spine_denies_def handoff_carries_def split: if_splits)

lemma committed_fold:
  assumes "decide_fold cfg turns = Committed plan fallback handed"
  shows "plan = plan_fold cfg turns" "fp_excluded plan \<noteq> []"
    "fold_sound (cc_parse_url cfg) (handoff_opts cfg (summary_context_for cfg plan)) (fp_excluded plan) handed"
  using assms hand_off_sound
  by (auto simp: decide_fold_def Let_def split: if_splits option.splits hand_off.splits)

section \<open>What the tail keeps\<close>

lemma aged_picked:
  assumes "i < length turns" "i \<in> set picked"
  shows "ai_turns (age_images_outside_picked id_of turns picked) ! i = turns ! i"
  using assms by (simp add: age_images_outside_picked_def Let_def age_one_def nth_enumerate_eq split: prod.split)

lemma length_aged [simp]: "length (ai_turns (age_images_outside_picked id_of turns picked)) = length turns"
  by (simp add: age_images_outside_picked_def Let_def)

lemma aged_tail_turns:
  "tail_turns (ai_turns (age_images_outside_picked id_of turns (tl_picked sel))) sel = tail_turns turns sel"
proof -
  have "js_at (ai_turns (age_images_outside_picked id_of turns (tl_picked sel))) i = js_at turns i"
    if "i \<in> set (tl_picked sel)" for i
    using that aged_picked [of i turns "tl_picked sel"] by (simp add: js_at_def)
  then show ?thesis unfolding tail_turns_def by (intro arg_cong [where f = concat] map_cong) simp_all
qed

text \<open>Calls and results survive an excerpt and a stub.\<close>

definition has_call :: "string \<Rightarrow> content_block list \<Rightarrow> bool" where
  "has_call c blocks = list_ex (is_call_of c) blocks"

definition has_result :: "string \<Rightarrow> content_block list \<Rightarrow> bool" where
  "has_result c blocks = list_ex (is_result_of c) blocks"

lemma has_append [simp]:
  "has_call c [] = False" "has_result c [] = False"
  "has_call c (xs @ ys) = (has_call c xs \<or> has_call c ys)" "has_result c (xs @ ys) = (has_result c xs \<or> has_result c ys)"
  by (simp_all add: has_call_def has_result_def)

lemma excerpt_block_has:
  "has_call c (fst (excerpt_block shape keep b)) = is_call_of c b"
  "has_result c (fst (excerpt_block shape keep b)) = is_result_of c b"
  by (cases b; simp add: excerpt_block_def has_call_def has_result_def)+

lemma concat_has:
  assumes "\<And>b. has_call c (f b) = is_call_of c b" "\<And>b. has_result c (f b) = is_result_of c b"
  shows "has_call c (concat (map f bs)) = has_call c bs" "has_result c (concat (map f bs)) = has_result c bs"
  using assms by (induction bs) (simp_all add: has_call_def has_result_def)

lemma excerpt_turn_has:
  "has_call c (ct_content (er_turn (excerpt_for shape turns i turn))) = has_call c (ct_content turn)"
  "has_result c (ct_content (er_turn (excerpt_for shape turns i turn))) = has_result c (ct_content turn)"
proof -
  let ?keep = "Some i = keep_thinking_at turns"
  let ?content = "concat (map fst (map (excerpt_block shape ?keep) (ct_content turn)))"
  have content: "has_call c ?content = has_call c (ct_content turn)" "has_result c ?content = has_result c (ct_content turn)"
    using concat_has [of c "\<lambda>b. fst (excerpt_block shape ?keep b)", OF excerpt_block_has] by (simp_all add: comp_def)
  have plain: "has_call c [TextBlock t] = has_call c []" "has_result c [TextBlock t] = has_result c []" for t
    by (simp_all add: has_call_def has_result_def)
  have "has_call c (if ?content = [] then [TextBlock thinking_only_omitted] else ?content) = has_call c (ct_content turn)"
    "has_result c (if ?content = [] then [TextBlock thinking_only_omitted] else ?content) = has_result c (ct_content turn)"
    unfolding content [symmetric] by (cases "?content = []"; simp only: if_True if_False plain)+
  then show "has_call c (ct_content (er_turn (excerpt_for shape turns i turn))) = has_call c (ct_content turn)"
    "has_result c (ct_content (er_turn (excerpt_for shape turns i turn))) = has_result c (ct_content turn)"
    unfolding excerpt_for_def excerpt_tail_turn_def Let_def by simp_all
qed

lemma stub_block_has:
  "is_call_of c (stub_block superseded index b) = is_call_of c b"
  "is_result_of c (stub_block superseded index b) = is_result_of c b"
  by (cases b; simp add: stub_block_def)+

lemma stub_all_has:
  "has_call c (blocks_of (stub_all index turns)) = has_call c (blocks_of turns)"
  "has_result c (blocks_of (stub_all index turns)) = has_result c (blocks_of turns)"
proof -
  have "has_call c (ct_content (stub_superseded_reads s index t)) = has_call c (ct_content t)"
    "has_result c (ct_content (stub_superseded_reads s index t)) = has_result c (ct_content t)" for s t
    by (auto simp: stub_superseded_reads_def has_call_def has_result_def list_ex_iff stub_block_has)
  then have "has_call c (blocks_of (map (stub_superseded_reads s index) ts)) = has_call c (blocks_of ts)"
    "has_result c (blocks_of (map (stub_superseded_reads s index) ts)) = has_result c (blocks_of ts)" for s ts
    by (induction ts) simp_all
  then show "has_call c (blocks_of (stub_all index turns)) = has_call c (blocks_of turns)"
    "has_result c (blocks_of (stub_all index turns)) = has_result c (blocks_of turns)"
    by (simp_all add: stub_all_def)
qed

lemma filter_eq_list_ex:
  assumes "filter P xs = filter P ys" "\<And>x. Q x \<Longrightarrow> P x"
  shows "list_ex Q xs = list_ex Q ys"
proof -
  have "list_ex Q zs = list_ex Q (filter P zs)" for zs using assms(2) by (induction zs) auto
  then show ?thesis using assms(1) by metis
qed

lemma live_output_has:
  "has_call c (blocks_of (live_output plan handed)) = has_call c (blocks_of (fp_tail_turns plan))"
  "has_result c (blocks_of (live_output plan handed)) = has_result c (blocks_of (fp_tail_turns plan))"
proof -
  let ?ts = "summary_turn plan handed # stub_all (fp_index plan) (fp_tail_turns plan)"
  have head: "\<not> has_call c (ct_content (summary_turn plan handed))" "\<not> has_result c (ct_content (summary_turn plan handed))"
    by (simp_all add: summary_turn_def has_call_def has_result_def)
  have same: "filter (\<lambda>b. is_call_of c b \<or> is_result_of c b) (blocks_of (live_output plan handed)) =
    filter (\<lambda>b. is_call_of c b \<or> is_result_of c b) (blocks_of ?ts)"
    by (simp only: live_output_def separate_call_blocks coalesce_blocks)
  have "has_call c (blocks_of (live_output plan handed)) = has_call c (blocks_of ?ts)"
    unfolding has_call_def by (rule filter_eq_list_ex [OF same]) simp
  moreover have "has_result c (blocks_of (live_output plan handed)) = has_result c (blocks_of ?ts)"
    unfolding has_result_def by (rule filter_eq_list_ex [OF same]) simp
  ultimately show "has_call c (blocks_of (live_output plan handed)) = has_call c (blocks_of (fp_tail_turns plan))"
    "has_result c (blocks_of (live_output plan handed)) = has_result c (blocks_of (fp_tail_turns plan))"
    by (simp_all add: stub_all_has head)
qed

section \<open>The fold as a whole\<close>

lemma has_turns:
  "has_call c (blocks_of turns) \<longleftrightarrow> (\<exists>i < length turns. has_call c (ct_content (turns ! i)))"
  "has_result c (blocks_of turns) \<longleftrightarrow> (\<exists>i < length turns. has_result c (ct_content (turns ! i)))"
proof -
  have "has_call c (blocks_of turns) = (\<exists>t \<in> set turns. has_call c (ct_content t))"
    "has_result c (blocks_of turns) = (\<exists>t \<in> set turns. has_result c (ct_content t))"
    by (induction turns) simp_all
  then show "has_call c (blocks_of turns) \<longleftrightarrow> (\<exists>i < length turns. has_call c (ct_content (turns ! i)))"
    "has_result c (blocks_of turns) \<longleftrightarrow> (\<exists>i < length turns. has_result c (ct_content (turns ! i)))"
    by (metis in_set_conv_nth)+
qed

lemma call_turns_iff: "i \<in> set (call_turns turns c) \<longleftrightarrow> i < length turns \<and> has_call c (ct_content (turns ! i))"
  by (force simp: call_turns_def indexed_blocks_iff has_call_def list_ex_iff image_iff)

lemma result_turns_iff: "i \<in> set (result_turns turns c) \<longleftrightarrow> i < length turns \<and> has_result c (ct_content (turns ! i))"
  by (force simp: result_turns_def indexed_blocks_iff has_result_def list_ex_iff image_iff)

lemma tail_of_plan:
  "fp_tail (plan_fold cfg turns) = tail_of (resolve_compaction_shape (cc_shape cfg)) turns"
  "fp_tail_turns (plan_fold cfg turns) = tail_turns turns (tail_of (resolve_compaction_shape (cc_shape cfg)) turns)"
  by (simp_all add: plan_fold_def tail_of_def Let_def aged_tail_turns)

lemma tail_turns_has:
  "has_call c (blocks_of (tail_turns turns (tail_of shape turns))) \<longleftrightarrow>
    (\<exists>i \<in> set (tl_picked (tail_of shape turns)). i \<in> set (call_turns turns c))"
  "has_result c (blocks_of (tail_turns turns (tail_of shape turns))) \<longleftrightarrow>
    (\<exists>i \<in> set (tl_picked (tail_of shape turns)). i \<in> set (result_turns turns c))"
proof -
  let ?sel = "tail_of shape turns"
  have ok: "tail_ok shape turns ?sel" unfolding tail_of_def by (rule select_tail_ok)
  then have valid: "i < length turns" if "i \<in> set (tl_picked ?sel)" for i
    using that by (auto simp: tail_ok_def list_all_iff pickable_def)
  have "has_call c (blocks_of (map (\<lambda>i. er_turn (excerpt_for shape turns i (turns ! i))) is)) =
      (\<exists>i \<in> set is. has_call c (ct_content (turns ! i)))"
    "has_result c (blocks_of (map (\<lambda>i. er_turn (excerpt_for shape turns i (turns ! i))) is)) =
      (\<exists>i \<in> set is. has_result c (ct_content (turns ! i)))" for "is"
    by (induction "is") (simp_all add: excerpt_turn_has)
  then show "has_call c (blocks_of (tail_turns turns ?sel)) \<longleftrightarrow>
      (\<exists>i \<in> set (tl_picked ?sel). i \<in> set (call_turns turns c))"
    "has_result c (blocks_of (tail_turns turns ?sel)) \<longleftrightarrow>
      (\<exists>i \<in> set (tl_picked ?sel). i \<in> set (result_turns turns c))"
    using valid by (auto simp: tail_turns_live [OF ok] call_turns_iff result_turns_iff)
qed

lemma no_excluded:
  assumes "excluded_turns turns picked = []" "i < length turns"
  shows "i \<in> set picked"
proof -
  have "(i, turns ! i) \<in> set (enumerate 0 turns)" using assms(2) by (simp add: in_set_enumerate_eq)
  then show ?thesis using assms(1) by (auto simp: excluded_turns_def filter_empty_conv)
qed

lemma whole_tail_has:
  assumes "fp_excluded (plan_fold cfg turns) = []"
  shows "has_call c (blocks_of (whole_tail_turns (plan_fold cfg turns))) = has_call c (blocks_of turns)"
    "has_result c (blocks_of (whole_tail_turns (plan_fold cfg turns))) = has_result c (blocks_of turns)"
proof -
  let ?shape = "resolve_compaction_shape (cc_shape cfg)" and ?plan = "plan_fold cfg turns"
  let ?sel = "tail_of ?shape turns"
  have aged: "fp_aged ?plan = age_images_outside_picked (cc_image_id cfg) turns (tl_picked ?sel)"
    by (simp add: plan_fold_def tail_of_def Let_def)
  have picked: "i \<in> set (tl_picked ?sel)" if "i < length turns" for i
    using assms no_excluded [of "ai_turns (fp_aged ?plan)" "tl_picked ?sel" i] that
    by (simp add: plan_fold_def tail_of_def Let_def aged)
  then have turns: "ai_turns (fp_aged ?plan) ! i = turns ! i" if "i < length turns" for i
    using that aged_picked by (simp add: aged)
  have ok: "tail_ok ?shape turns ?sel" unfolding tail_of_def by (rule select_tail_ok)
  have live: "whole_tail_turns ?plan ! i = er_turn (excerpt_for ?shape turns i (turns ! i))" if "i < length turns" for i
    using that picked [OF that] ok er_turn_unchanged [of ?shape turns i "turns ! i"] turns [OF that]
    by (simp add: whole_tail_turns_def tail_of_plan nth_enumerate_eq aged tail_ok_def)
  have "length (whole_tail_turns ?plan) = length turns" by (simp add: whole_tail_turns_def aged)
  then show "has_call c (blocks_of (whole_tail_turns ?plan)) = has_call c (blocks_of turns)"
    "has_result c (blocks_of (whole_tail_turns ?plan)) = has_result c (blocks_of turns)"
    unfolding has_turns by (auto simp: live excerpt_turn_has)
qed

lemma output_has:
  "has_call c (blocks_of (rs_output (compactor_apply cfg trigger turns))) =
    (case decide_fold cfg turns of
       Committed plan fallback handed \<Rightarrow>
         has_call c (blocks_of (tail_turns turns (tail_of (resolve_compaction_shape (cc_shape cfg)) turns)))
     | _ \<Rightarrow> has_call c (blocks_of turns))"
  "has_result c (blocks_of (rs_output (compactor_apply cfg trigger turns))) =
    (case decide_fold cfg turns of
       Committed plan fallback handed \<Rightarrow>
         has_result c (blocks_of (tail_turns turns (tail_of (resolve_compaction_shape (cc_shape cfg)) turns)))
     | _ \<Rightarrow> has_result c (blocks_of turns))"
proof -
  have whole: "plan = plan_fold cfg turns" "fp_excluded plan = []" if "decide_fold cfg turns = WholeTail plan" for plan
    using that by (auto simp: decide_fold_def Let_def split: if_splits option.splits hand_off.splits)
  have committed: "fp_tail_turns plan = tail_turns turns (tail_of (resolve_compaction_shape (cc_shape cfg)) turns)"
    if "decide_fold cfg turns = Committed plan fallback handed" for plan fallback handed
    using committed_fold(1) [OF that] by (simp add: tail_of_plan)
  show "has_call c (blocks_of (rs_output (compactor_apply cfg trigger turns))) =
    (case decide_fold cfg turns of
       Committed plan fallback handed \<Rightarrow>
         has_call c (blocks_of (tail_turns turns (tail_of (resolve_compaction_shape (cc_shape cfg)) turns)))
     | _ \<Rightarrow> has_call c (blocks_of turns))"
    by (cases "decide_fold cfg turns")
      (use whole whole_tail_has(1) [of cfg turns c] committed in
        \<open>auto simp: compactor_apply_def Let_def stub_all_has live_output_has\<close>)
  show "has_result c (blocks_of (rs_output (compactor_apply cfg trigger turns))) =
    (case decide_fold cfg turns of
       Committed plan fallback handed \<Rightarrow>
         has_result c (blocks_of (tail_turns turns (tail_of (resolve_compaction_shape (cc_shape cfg)) turns)))
     | _ \<Rightarrow> has_result c (blocks_of turns))"
    by (cases "decide_fold cfg turns")
      (use whole whole_tail_has(2) [of cfg turns c] committed in
        \<open>auto simp: compactor_apply_def Let_def stub_all_has live_output_has\<close>)
qed

text \<open>C32: A compaction commits whole or not at all. A fold that fails or is aborted gives the conversation back as
  it came and writes nothing; a committed one opens with the spine of the handoff whose file it writes as
  its last blob, and no two user turns follow each other in it.\<close>

theorem fold_commits_or_keeps:
  "let result = compactor_apply cfg trigger turns
   in case decide_fold cfg turns of
        Committed plan fallback handed \<Rightarrow>
          ct_content (hd (rs_output result)) = [TextBlock (hf_spine_text (hd_handoff handed))] \<and>
          ct_role (hd (rs_output result)) = UserRole \<and> no_user_pair (rs_output result) \<and>
          rs_blobs result = Some (ai_blobs (fp_aged plan) @ [handoff_blob (hd_handoff handed)])
      | WholeTail plan \<Rightarrow> length (rs_output result) = length turns
      | _ \<Rightarrow> rs_output result = turns \<and> rs_blobs result = None"
proof (cases "decide_fold cfg turns")
  case (WholeTail plan)
  then have "plan = plan_fold cfg turns"
    by (auto simp: decide_fold_def Let_def split: if_splits option.splits hand_off.splits)
  then show ?thesis
    using WholeTail by (simp add: compactor_apply_def whole_tail_turns_def stub_all_def plan_fold_def Let_def)
next
  case (Committed plan fallback handed)
  let ?rest = "stub_all (fp_index plan) (fp_tail_turns plan)"
  have "is_compacted_summary_turn (summary_turn plan handed)"
    using committed_fold(3) [OF Committed] unfolding fold_sound_def Let_def by (blast intro: summary_turn_summary)
  from coalesce_hd [OF this, of ?rest]
  have "hd (live_output plan handed) = summary_turn plan handed"
    using separate_hd [of "coalesce_adjacent_text_turns (summary_turn plan handed # ?rest)"] by (simp add: live_output_def)
  then show ?thesis
    using Committed separate_no_user_pair by (simp add: compactor_apply_def summary_turn_def live_output_def)
qed (simp_all add: compactor_apply_def)



definition plain_config :: compactor_config where
  "plain_config =
     \<lparr>cc_summary_max_chars = default_summary_max_chars, cc_summarize = None, cc_summary_context = None,
      cc_prior_handoff = None, cc_shape = None, cc_parse_url = no_urls, cc_image_id = (\<lambda>data. ''img-0'')\<rparr>"


text \<open>With a tail budget of nothing the newest turn stays and the one before it is folded and committed.\<close>

definition tight_config :: compactor_config where
  "tight_config = plain_config\<lparr>cc_shape := Some
     \<lparr>ps_tail_budget_tokens = Some 0, ps_max_tail_tool_output_chars = None, ps_excerpt_head = None,
      ps_excerpt_tail = None, ps_preserve_whole_user_messages = None, ps_pair_safe = None\<rparr>,
      cc_summarize := Some (\<lambda>turns ctx. Inr ''hi'')\<rparr>"

definition short_talk :: "conversation_turn list" where
  "short_talk = [sample_turn UserRole [TextBlock ''hi''], sample_turn AssistantRole [TextBlock ''yes'']]"

lemma fold_committed_example:
  "(case decide_fold tight_config short_talk of
      Committed plan fallback handed \<Rightarrow> length (fp_excluded plan) = 1 \<and> fallback = None
    | _ \<Rightarrow> False)"
  by code_simp

end
