(* ===== verification/SegmentedLog.thy ===== *)
theory SegmentedLog
  imports JsPrelude
begin

text \<open>
  The append-oriented writer of a session's history (\<open>src/session/incremental-jsonl.ts\<close>). A record is the
  identity of its object and the bytes of its line, \<open>JSON.stringify\<close> of it with a line end in UTF-8; a
  directory is the list of its files, each a name and its bytes. A write takes the state the closure keeps
  (nothing for a fresh writer) and the records, and gives the new state, the new directory and the
  modified paths; it is undefined where the code throws. A file system call that fails is not modelled.

  The lemmas show that the writer never throws, and that along every run of writes and restarts the
  segments on disk, read in order, are exactly the records of the last write.
\<close>

section \<open>Records, files and segment names\<close>

record log_record =
  lr_ref :: nat
  lr_json :: string

definition line_for :: "log_record \<Rightarrow> string" where
  "line_for x = lr_json x @ [newline]"

type_synonym directory = "(string \<times> string) list"

definition default_max_segment_bytes :: nat where
  "default_max_segment_bytes = 256 * 1024"

text \<open>The name before the last dot, and the extension from it on.\<close>

definition base_stem :: "string \<Rightarrow> string" where
  "base_stem base =
     (if CHR ''.'' \<notin> set base then base else rev (tl (dropWhile (\<lambda>c. c \<noteq> CHR ''.'') (rev base))))"

definition base_ext :: "string \<Rightarrow> string" where
  "base_ext base = drop (length (base_stem base)) base"

definition pad_start :: "nat \<Rightarrow> char \<Rightarrow> string \<Rightarrow> string" where
  "pad_start n c s = replicate (n - length s) c @ s"

definition segment_file_name :: "string \<Rightarrow> nat \<Rightarrow> string" where
  "segment_file_name base index =
     (if index = 0 then base
      else base_stem base @ ''-'' @ pad_start 4 (CHR ''0'') (dec index) @ base_ext base)"

definition path_exists :: "directory \<Rightarrow> string \<Rightarrow> bool" where
  "path_exists d name \<longleftrightarrow> map_of d name \<noteq> None"

text \<open>The walk over the indices ends at the first gap; a directory of n files has one among the first n + 1.\<close>

definition list_segment_files :: "directory \<Rightarrow> string \<Rightarrow> string list" where
  "list_segment_files d base =
     (if \<not> path_exists d base then []
      else base # takeWhile (path_exists d) (map (segment_file_name base) [1..<length d + 1]))"

text \<open>\<open>^stem-(\d+)ext$\<close>: the number of a segment file.\<close>

definition numbered_index :: "string \<Rightarrow> string \<Rightarrow> nat option" where
  "numbered_index base name =
     (let pre = base_stem base @ ''-''; ext = base_ext base;
          digits = take (length name - length pre - length ext) (drop (length pre) name)
      in if length pre + length ext \<le> length name \<and> starts_with name pre \<and> ends_with name ext \<and>
            digits \<noteq> [] \<and> list_all is_digit digits
         then Some (undec digits) else None)"

text \<open>Minus one stands for no segment.\<close>

definition highest_segment_index :: "directory \<Rightarrow> string \<Rightarrow> int" where
  "highest_segment_index d base =
     foldl (\<lambda>highest (name, bytes). case numbered_index base name of
              None \<Rightarrow> highest
            | Some index \<Rightarrow> if int index > highest then int index else highest)
       (if path_exists d base then 0 else -1) d"

definition file_text :: "directory \<Rightarrow> string \<Rightarrow> string" where
  "file_text d name = (case map_of d name of None \<Rightarrow> [] | Some bytes \<Rightarrow> bytes)"

definition read_extra_segment_texts :: "directory \<Rightarrow> string \<Rightarrow> string list" where
  "read_extra_segment_texts d base = map (file_text d) (tl (list_segment_files d base))"

section \<open>A write\<close>

record writer_state =
  ws_refs :: "nat list"
  ws_offsets :: "nat list"
  ws_seg_starts :: "nat list"
  ws_last_line :: string

record plan_entry =
  pe_index :: nat
  pe_keep_bytes :: nat
  pe_text :: string

fun common_prefix :: "nat list \<Rightarrow> log_record list \<Rightarrow> nat" where
  "common_prefix (r # refs) (x # records) = (if r = lr_ref x then Suc (common_prefix refs records) else 0)"
| "common_prefix _ _ = 0"

text \<open>The records that need no write: the same objects, the newest only while its line is the same.\<close>

definition kept_prefix :: "writer_state option \<Rightarrow> log_record list \<Rightarrow> nat" where
  "kept_prefix state records =
     (case state of
        None \<Rightarrow> 0
      | Some st \<Rightarrow>
          (let kept = common_prefix (ws_refs st) records
           in if kept = length (ws_refs st) \<and> kept > 0 \<and> line_for (records ! (kept - 1)) \<noteq> ws_last_line st
              then kept - 1 else kept))"

definition unchanged_records :: "writer_state option \<Rightarrow> log_record list \<Rightarrow> bool" where
  "unchanged_records state records =
     (case state of
        None \<Rightarrow> False
      | Some st \<Rightarrow> kept_prefix state records = length (ws_refs st) \<and> length records = kept_prefix state records)"

text \<open>The last segment that starts at or before the prefix, up to the first that starts after it.\<close>

fun first_segment :: "nat \<Rightarrow> nat \<Rightarrow> nat list \<Rightarrow> nat \<Rightarrow> nat" where
  "first_segment kept s [] acc = acc"
| "first_segment kept s (start # starts) acc =
     (if start \<le> kept then first_segment kept (Suc s) starts s else acc)"

record write_plan =
  wp_entries :: "plan_entry list"
  wp_seg_starts :: "nat list"
  wp_offsets :: "nat list"
  wp_active :: nat
  wp_bytes :: nat

definition append_text :: "string \<Rightarrow> plan_entry list \<Rightarrow> plan_entry list" where
  "append_text line entries = butlast entries @ [(last entries)\<lparr>pe_text := pe_text (last entries) @ line\<rparr>]"

definition plan_record :: "nat \<Rightarrow> write_plan \<Rightarrow> nat \<times> log_record \<Rightarrow> write_plan option" where
  "plan_record max_bytes wp entry =
     (let (i, x) = entry;
          line = line_for x;
          wp1 = (if wp_bytes wp \<ge> max_bytes
                 then wp\<lparr>wp_active := Suc (wp_active wp), wp_bytes := 0,
                         wp_entries := wp_entries wp @
                           [\<lparr>pe_index = Suc (wp_active wp), pe_keep_bytes = 0, pe_text = []\<rparr>],
                         wp_seg_starts := wp_seg_starts wp @ [i]\<rparr>
                 else wp)
      in if wp_entries wp1 = [] then None
         else map_option (\<lambda>prev_offset.
                wp1\<lparr>wp_entries := append_text line (wp_entries wp1), wp_bytes := wp_bytes wp1 + length line,
                    wp_offsets := wp_offsets wp1 @ [prev_offset + length line]\<rparr>)
              (js_at (wp_offsets wp1) i))"

fun plan_records :: "nat \<Rightarrow> write_plan \<Rightarrow> (nat \<times> log_record) list \<Rightarrow> write_plan option" where
  "plan_records max_bytes wp [] = Some wp"
| "plan_records max_bytes wp (entry # entries) =
     (case plan_record max_bytes wp entry of
        None \<Rightarrow> None
      | Some wp1 \<Rightarrow> plan_records max_bytes wp1 entries)"

text \<open>One entry of the plan, put on disk: a kept start is cut in place, or rebuilt when the file is shorter.\<close>

definition truncate_and_write :: "string \<Rightarrow> nat \<Rightarrow> string \<Rightarrow> string" where
  "truncate_and_write bytes keep text = take keep bytes @ text"

definition write_entry ::
    "string \<Rightarrow> bool \<Rightarrow> nat \<Rightarrow> nat \<Rightarrow> string \<Rightarrow> directory \<times> string list \<Rightarrow> plan_entry \<Rightarrow> directory \<times> string list" where
  "write_entry base fresh first_seg existing_first kept_text dm entry =
     (let (d, modified) = dm;
          is_first = (pe_index entry = first_seg);
          existing = (if is_first then existing_first else 0);
          name = segment_file_name base (pe_index entry)
      in if is_first \<and> pe_text entry = [] \<and> pe_keep_bytes entry = existing \<and> \<not> fresh then dm
         else if is_first \<and> \<not> fresh \<and> pe_keep_bytes entry > 0
         then (if pe_keep_bytes entry > length (file_text d name)
               then (AList.update name (kept_text @ pe_text entry) d, modified @ [name])
               else (AList.update name
                       (truncate_and_write (file_text d name) (pe_keep_bytes entry) (pe_text entry)) d,
                     modified @ [name]))
         else (AList.update name (pe_text entry) d, modified @ [name]))"

definition unlink_segment :: "string \<Rightarrow> directory \<times> string list \<Rightarrow> nat \<Rightarrow> directory \<times> string list" where
  "unlink_segment base dm s =
     (let (d, modified) = dm; name = segment_file_name base s
      in if path_exists d name then (AList.delete name d, modified @ [name]) else dm)"

text \<open>The entries written, then the segments past the last active one removed.\<close>

definition apply_plan ::
    "string \<Rightarrow> bool \<Rightarrow> nat \<Rightarrow> nat \<Rightarrow> string \<Rightarrow> nat \<Rightarrow> write_plan \<Rightarrow> directory \<Rightarrow> directory \<times> string list" where
  "apply_plan base fresh first_seg existing_first kept_text prev_count wp d =
     foldl (unlink_segment base)
       (foldl (write_entry base fresh first_seg existing_first kept_text) (d, []) (wp_entries wp))
       [Suc (wp_active wp)..<prev_count]"

definition previous_segment_count :: "writer_state option \<Rightarrow> directory \<Rightarrow> string \<Rightarrow> nat \<Rightarrow> nat" where
  "previous_segment_count state d base in_memory =
     (case state of
        Some st \<Rightarrow> in_memory
      | None \<Rightarrow> (let highest = highest_segment_index d base
                 in if highest + 1 > int in_memory then nat (highest + 1) else in_memory))"

definition write_segments ::
    "string \<Rightarrow> nat \<Rightarrow> writer_state option \<Rightarrow> directory \<Rightarrow> log_record list \<Rightarrow>
     (writer_state option \<times> directory \<times> string list) option" where
  "write_segments base max_bytes state d records =
     (let kept = kept_prefix state records
      in if unchanged_records state records then Some (state, d, [])
         else
           (let prev_starts = (case state of None \<Rightarrow> [0] | Some st \<Rightarrow> ws_seg_starts st);
                prev_offsets = (case state of None \<Rightarrow> [0] | Some st \<Rightarrow> ws_offsets st);
                prev_count = previous_segment_count state d base (length prev_starts);
                first_seg = first_segment kept 0 prev_starts 0
            in Option.bind (js_at prev_starts first_seg) (\<lambda>first_start.
               (let first_end = (case js_at prev_starts (Suc first_seg) of
                      Some e \<Rightarrow> e
                    | None \<Rightarrow> (case state of None \<Rightarrow> 0 | Some st \<Rightarrow> length (ws_refs st)))
                in Option.bind (js_at prev_offsets first_end) (\<lambda>end_offset.
                   Option.bind (js_at prev_offsets first_start) (\<lambda>start_offset.
                   (let offsets = take (Suc kept) prev_offsets
                    in Option.bind (js_at offsets kept) (\<lambda>keep_start.
                       (let keep = keep_start - start_offset
                        in Option.bind (plan_records max_bytes
                              \<lparr>wp_entries = [\<lparr>pe_index = first_seg, pe_keep_bytes = keep, pe_text = []\<rparr>],
                               wp_seg_starts = take (Suc first_seg) prev_starts, wp_offsets = offsets,
                               wp_active = first_seg, wp_bytes = keep\<rparr>
                              (drop kept (enumerate 0 records))) (\<lambda>wp.
                           (let kept_text = concat (map line_for (drop first_start (take kept records)));
                                (d1, modified) = apply_plan base (state = None) first_seg (end_offset - start_offset)
                                  kept_text prev_count wp d
                            in Some (Some \<lparr>ws_refs = map lr_ref records, ws_offsets = wp_offsets wp,
                                           ws_seg_starts = wp_seg_starts wp,
                                           ws_last_line = (if records \<noteq> [] then line_for (last records) else [])\<rparr>,
                                     d1, modified))))))))))))"

text \<open>What a load reads: the base segment and the ones after it.\<close>

definition read_log :: "directory \<Rightarrow> string \<Rightarrow> string" where
  "read_log d base = file_text d base @ concat (read_extra_segment_texts d base)"

section \<open>Segment names\<close>

lemma base_parts: "base_stem base @ base_ext base = base"
proof -
  have "base = rev (dropWhile P (rev base)) @ rev (takeWhile P (rev base))" for P
    by (metis rev_append rev_rev_ident takeWhile_dropWhile_id)
  then obtain u v where uv: "base = u @ v" "u = rev (dropWhile (\<lambda>c. c \<noteq> CHR ''.'') (rev base))" by blast
  show ?thesis
  proof (cases "CHR ''.'' \<in> set base")
    case True
    then have "u \<noteq> []" using uv(2) by (auto simp: dropWhile_eq_Nil_conv)
    then have "rev (tl (dropWhile (\<lambda>c. c \<noteq> CHR ''.'') (rev base))) = butlast u" using uv(2)
      by (metis butlast_rev)
    then have "base_stem base = butlast u" using True by (simp add: base_stem_def)
    moreover have "base = butlast u @ last u # v" using uv(1) \<open>u \<noteq> []\<close> by simp
    ultimately show ?thesis unfolding base_ext_def by (metis append_eq_conv_conj)
  qed (simp add: base_stem_def base_ext_def)
qed

lemma undec_zeros: "undec (replicate n (CHR ''0'') @ s) = undec s"
proof (induction n)
  case (Suc n)
  have "undec (CHR ''0'' # t) = undec t" for t by (simp add: undec_def)
  then show ?case using Suc by simp
qed simp

lemma undec_pad [simp]: "undec (pad_start n (CHR ''0'') (dec i)) = i"
  by (simp add: pad_start_def undec_zeros)

lemma dec_all_digits: "list_all is_digit (dec n)"
proof (induction n rule: dec.induct)
  case (1 n)
  have "is_digit (char_of (48 + m))" if "m < 10" for m :: nat
    using that by (simp add: is_digit_def in_range_def)
  then show ?case using 1 by (subst dec.simps) auto
qed

lemma pad_digits: "list_all is_digit (pad_start n (CHR ''0'') (dec i))" "pad_start n (CHR ''0'') (dec i) \<noteq> []"
proof -
  have "is_digit (CHR ''0'')" by code_simp
  then show "list_all is_digit (pad_start n (CHR ''0'') (dec i))"
    using dec_all_digits by (auto simp: pad_start_def list_all_iff)
  have "dec i \<noteq> []" by (subst dec.simps) simp
  then show "pad_start n (CHR ''0'') (dec i) \<noteq> []" by (simp add: pad_start_def)
qed

lemma segment_name_inject [simp]: "segment_file_name base s = segment_file_name base t \<longleftrightarrow> s = t"
proof
  assume eq: "segment_file_name base s = segment_file_name base t"
  have base: "base_stem base @ ''-'' @ p @ base_ext base \<noteq> base" for p
  proof
    assume "base_stem base @ ''-'' @ p @ base_ext base = base"
    then have "length (base_stem base @ ''-'' @ p @ base_ext base) = length (base_stem base @ base_ext base)"
      by (simp only: base_parts)
    then show False by simp
  qed
  show "s = t"
  proof (cases "s = 0 \<or> t = 0")
    case True
    then show ?thesis using eq base base [symmetric] by (auto simp: segment_file_name_def split: if_splits)
  next
    case False
    then have "pad_start 4 (CHR ''0'') (dec s) = pad_start 4 (CHR ''0'') (dec t)"
      using eq by (simp add: segment_file_name_def)
    then show ?thesis by (metis undec_pad)
  qed
qed simp

lemma numbered_segment: "s > 0 \<Longrightarrow> numbered_index base (segment_file_name base s) = Some s"
  using pad_digits [of 4 s]
  by (simp add: numbered_index_def segment_file_name_def Let_def starts_with_iff ends_with_def)

lemma highest_bounds:
  assumes "path_exists d (segment_file_name base s)"
  shows "int s \<le> highest_segment_index d base"
proof -
  let ?f = "\<lambda>highest (name, bytes). case numbered_index base name of
              None \<Rightarrow> highest
            | Some index \<Rightarrow> if int index > highest then int index else highest"
  have grows: "h \<le> foldl ?f h xs" for h :: int and xs :: directory
  proof (induction xs arbitrary: h)
    case (Cons x xs)
    have "h \<le> ?f h x" by (cases x) (simp split: option.split)
    then show ?case unfolding foldl_Cons using Cons [of "?f h x"] by (rule order_trans)
  qed simp
  have found: "int s \<le> foldl ?f h xs" if "(segment_file_name base s, b) \<in> set xs" "s > 0" for h b and xs :: directory
    using that
  proof (induction xs arbitrary: h)
    case (Cons x xs)
    show ?case
    proof (cases "x = (segment_file_name base s, b)")
      case True
      then show ?thesis using grows [of "max (int s) h" xs] Cons.prems(2) by (auto simp: numbered_segment max_def split: if_splits)
    next
      case False
      then show ?thesis using Cons by auto
    qed
  qed simp
  show ?thesis
  proof (cases "s = 0")
    case True
    then show ?thesis using assms grows [of 0 d] by (simp add: highest_segment_index_def segment_file_name_def)
  next
    case False
    obtain b where "map_of d (segment_file_name base s) = Some b" using assms by (auto simp: path_exists_def)
    then show ?thesis
      using found [OF map_of_SomeD] False unfolding highest_segment_index_def by blast
  qed
qed

section \<open>Lines, offsets and starts\<close>

definition offsets_of :: "string list \<Rightarrow> nat list" where
  "offsets_of ls = map (\<lambda>i. length (concat (take i ls))) [0..<Suc (length ls)]"

definition starts_of :: "string list list \<Rightarrow> nat list" where
  "starts_of segs = map (\<lambda>i. length (concat (take i segs))) [0..<length segs]"

lemma length_offsets [simp]: "length (offsets_of ls) = Suc (length ls)"
  by (simp add: offsets_of_def)

lemma length_starts [simp]: "length (starts_of segs) = length segs"
  by (simp add: starts_of_def)

lemma nth_offsets [simp]: "i \<le> length ls \<Longrightarrow> offsets_of ls ! i = length (concat (take i ls))"
  by (simp add: offsets_of_def del: upt_Suc)

lemma nth_starts [simp]: "i < length segs \<Longrightarrow> starts_of segs ! i = length (concat (take i segs))"
  by (simp add: starts_of_def)

lemma take_offsets: "k \<le> length ls \<Longrightarrow> take (Suc k) (offsets_of ls) = offsets_of (take k ls)"
  by (auto simp: offsets_of_def take_map take_upt min_absorb1 simp del: upt_Suc intro!: map_cong)

lemma take_starts: "k \<le> length segs \<Longrightarrow> take k (starts_of segs) = starts_of (take k segs)"
  by (auto simp: starts_of_def take_map take_upt min_absorb1 intro!: map_cong)

lemma offsets_snoc: "offsets_of (ls @ [l]) = offsets_of ls @ [length (concat ls) + length l]"
  by (simp add: offsets_of_def)

lemma starts_snoc: "starts_of (segs @ [seg]) = starts_of segs @ [length (concat segs)]"
  by (simp add: starts_of_def)

lemma starts_cong: "length segs = length segs' \<Longrightarrow> butlast segs = butlast segs' \<Longrightarrow> starts_of segs = starts_of segs'"
proof (rule nth_equalityI)
  have cut: "take i xs = take i (butlast xs)" if "i < length xs" for i and xs :: "string list list"
    using that by (simp add: butlast_conv_take min_def)
  fix i
  assume "length segs = length segs'" "butlast segs = butlast segs'" "i < length (starts_of segs)"
  then show "starts_of segs ! i = starts_of segs' ! i" using cut [of i segs] cut [of i segs'] by simp
qed simp

lemma concat_take_Suc: "i < length segs \<Longrightarrow> concat (take (Suc i) segs) = concat (take i segs) @ segs ! i"
  by (simp add: take_Suc_conv_app_nth)

section \<open>Segments that roll over\<close>

definition roll_step :: "nat \<Rightarrow> string list list \<Rightarrow> string \<Rightarrow> string list list" where
  "roll_step max_bytes segs line =
     (if length (concat (last segs)) \<ge> max_bytes then segs @ [[line]] else butlast segs @ [last segs @ [line]])"

lemma roll_step_nonempty [simp]: "roll_step max_bytes segs line \<noteq> []"
  by (simp add: roll_step_def)

lemma roll_step_concat: "segs \<noteq> [] \<Longrightarrow> concat (roll_step max_bytes segs line) = concat segs @ [line]"
proof -
  assume "segs \<noteq> []"
  then have "concat segs = concat (butlast segs) @ last segs"
    by (metis append_butlast_last_id concat.simps(1) concat.simps(2) concat_append append_Nil2)
  then show ?thesis by (simp add: roll_step_def)
qed

lemma roll_concat: "segs \<noteq> [] \<Longrightarrow> concat (foldl (roll_step max_bytes) segs lines) = concat segs @ lines"
  by (induction lines arbitrary: segs) (simp_all add: roll_step_concat)

lemma roll_keeps:
  assumes "segs \<noteq> []"
  shows "length segs \<le> length (foldl (roll_step max_bytes) segs lines) \<and>
    take (length segs - 1) (foldl (roll_step max_bytes) segs lines) = butlast segs \<and>
    (\<exists>more. foldl (roll_step max_bytes) segs lines ! (length segs - 1) = last segs @ more)"
  using assms
proof (induction lines arbitrary: segs)
  case Nil
  then show ?case by (simp add: butlast_conv_take last_conv_nth)
next
  case (Cons line lines)
  let ?n = "length segs - 1" and ?s = "roll_step max_bytes segs line"
  have grown: "length segs \<le> length ?s" "take ?n ?s = butlast segs" "\<exists>more. ?s ! ?n = last segs @ more"
    using Cons.prems
    by (auto simp: roll_step_def butlast_conv_take last_conv_nth nth_append)
  note ih = Cons.IH [of ?s, simplified]
  let ?r = "foldl (roll_step max_bytes) ?s lines"
  have n: "?n \<le> length ?s - 1" "?n < length ?s" using grown(1) Cons.prems by (cases segs; simp)+
  have "take ?n ?r = take ?n (take (length ?s - 1) ?r)" using n by simp
  then have t: "take ?n ?r = butlast segs" using ih grown(2) n by (simp add: butlast_conv_take)
  have "\<exists>more. ?r ! ?n = ?s ! ?n @ more"
  proof (cases "?n = length ?s - 1")
    case True
    then show ?thesis using ih by (simp add: last_conv_nth)
  next
    case False
    then have "?r ! ?n = take (length ?s - 1) ?r ! ?n" using n by simp
    then have "?r ! ?n = butlast ?s ! ?n" using ih by simp
    then show ?thesis using False n by (simp add: nth_butlast)
  qed
  then have "\<exists>more. ?r ! ?n = last segs @ more" using grown(3) by auto
  then show ?case using t ih grown(1) by auto
qed

section \<open>The plan follows the segments\<close>

definition planned :: "nat \<Rightarrow> nat \<Rightarrow> string list list \<Rightarrow> write_plan \<Rightarrow> bool" where
  "planned fs keep segs wp \<longleftrightarrow>
     fs < length segs \<and> keep \<le> length (concat (segs ! fs)) \<and>
     wp_seg_starts wp = starts_of segs \<and> wp_offsets wp = offsets_of (concat segs) \<and>
     wp_active wp = length segs - 1 \<and> wp_bytes wp = length (concat (last segs)) \<and>
     wp_entries wp =
       map (\<lambda>j. \<lparr>pe_index = j, pe_keep_bytes = (if j = fs then keep else 0),
                 pe_text = (if j = fs then drop keep (concat (segs ! fs)) else concat (segs ! j))\<rparr>)
         [fs..<length segs]"

lemma planned_record:
  assumes "planned fs keep segs wp"
  shows "\<exists>wp'. plan_record max_bytes wp (length (concat segs), x) = Some wp' \<and>
    planned fs keep (roll_step max_bytes segs (line_for x)) wp'"
proof -
  have p: "fs < length segs" "keep \<le> length (concat (segs ! fs))" "wp_seg_starts wp = starts_of segs"
    "wp_offsets wp = offsets_of (concat segs)" "wp_active wp = length segs - 1"
    "wp_bytes wp = length (concat (last segs))"
    "wp_entries wp = map (\<lambda>j. \<lparr>pe_index = j, pe_keep_bytes = (if j = fs then keep else 0),
                 pe_text = (if j = fs then drop keep (concat (segs ! fs)) else concat (segs ! j))\<rparr>)
         [fs..<length segs]"
    using assms by (simp_all add: planned_def)
  then have ne: "segs \<noteq> []" by auto
  have offset: "js_at (offsets_of (concat segs)) (length (concat segs)) = Some (length (concat (concat segs)))"
    by (simp add: js_at_def)
  show ?thesis
  proof (cases "max_bytes \<le> length (concat (last segs))")
    case True
    have "[fs..<Suc (length segs)] = [fs..<length segs] @ [length segs]" using p(1) by simp
    then show ?thesis
      using True p ne offset
      by (simp add: plan_record_def Let_def planned_def roll_step_def append_text_def offsets_snoc starts_snoc
          nth_append)
  next
    case False
    obtain m where m: "length segs = Suc m" using ne by (cases segs) auto
    let ?line = "line_for x"
    let ?segs = "butlast segs @ [last segs @ [?line]]"
    let ?entry = "\<lambda>segs' j. \<lparr>pe_index = j, pe_keep_bytes = (if j = fs then keep else 0),
                 pe_text = (if j = fs then drop keep (concat (segs' ! fs)) else concat (segs' ! j))\<rparr>"
    have upto: "[fs..<length segs] = [fs..<m] @ [m]" using p(1) m by simp
    have starts: "starts_of ?segs = starts_of segs" using ne by (intro starts_cong) simp_all
    have before: "?segs ! j = segs ! j" if "j < m" for j using that m by (simp add: nth_append nth_butlast)
    have at: "?segs ! m = segs ! m @ [?line]" using m ne by (simp add: nth_append last_conv_nth)
    have newest: "(?entry segs m)\<lparr>pe_text := pe_text (?entry segs m) @ ?line\<rparr> = ?entry ?segs m"
      using at p(2) by (cases "m = fs") auto
    have older: "map (?entry segs) [fs..<m] = map (?entry ?segs) [fs..<m]"
      using before by (intro map_cong) auto
    have entries: "append_text ?line (wp_entries wp) = map (?entry ?segs) [fs..<length ?segs]"
      using newest older m upto by (simp add: append_text_def p(7))
    have whole: "concat (butlast segs) @ last segs @ [?line] = concat segs @ [?line]"
      using roll_step_concat [OF ne, of max_bytes ?line] False by (simp add: roll_step_def)
    have offsets: "offsets_of (concat (butlast segs) @ last segs @ [?line]) =
      offsets_of (concat segs) @ [length (concat (concat segs)) + length ?line]"
      unfolding whole by (rule offsets_snoc)
    have "keep \<le> length (concat (?segs ! fs))"
      using p(1,2) before [of fs] at m by (cases "fs = m") auto
    moreover have "wp_entries wp \<noteq> []" using p(1) ne by (simp add: p(7))
    ultimately show ?thesis
      using False p(1,3-6) ne offset starts entries m
      by (simp add: plan_record_def Let_def planned_def roll_step_def offsets)
  qed
qed

lemma planned_records:
  assumes "planned fs keep segs wp" "i = length (concat segs)"
  shows "\<exists>wp'. plan_records max_bytes wp (enumerate i records) = Some wp' \<and>
    planned fs keep (foldl (roll_step max_bytes) segs (map line_for records)) wp'"
  using assms
proof (induction records arbitrary: segs wp i)
  case (Cons x records)
  obtain wp1 where wp1: "plan_record max_bytes wp (i, x) = Some wp1"
    "planned fs keep (roll_step max_bytes segs (line_for x)) wp1"
    using planned_record [OF Cons.prems(1)] Cons.prems(2) by blast
  have "segs \<noteq> []" using Cons.prems(1) by (auto simp: planned_def)
  then show ?case
    using Cons.IH [OF wp1(2), of "Suc i"] wp1(1) Cons.prems(2) by (simp add: roll_step_concat)
qed simp

section \<open>The plan on disk\<close>

definition plan_entry_of :: "nat \<Rightarrow> nat \<Rightarrow> string list list \<Rightarrow> nat \<Rightarrow> plan_entry" where
  "plan_entry_of fs keep segs j =
     \<lparr>pe_index = j, pe_keep_bytes = (if j = fs then keep else 0),
      pe_text = (if j = fs then drop keep (concat (segs ! fs)) else concat (segs ! j))\<rparr>"

text \<open>What the first entry needs of the file it continues.\<close>

definition first_ok ::
    "string \<Rightarrow> bool \<Rightarrow> nat \<Rightarrow> nat \<Rightarrow> nat \<Rightarrow> string \<Rightarrow> string list list \<Rightarrow> directory \<Rightarrow> bool" where
  "first_ok base fresh fs keep existing kept_text segs d \<longleftrightarrow>
     (let name = segment_file_name base fs
      in if fresh then keep = 0
         else kept_text = take keep (concat (segs ! fs)) \<and>
              (drop keep (concat (segs ! fs)) = [] \<and> keep = existing \<longrightarrow> map_of d name = Some (concat (segs ! fs))) \<and>
              (keep \<le> length (file_text d name) \<longrightarrow> take keep (file_text d name) = kept_text))"

lemma write_first_entry:
  assumes "first_ok base fresh fs keep existing kept_text segs d"
  shows "map_of (fst (write_entry base fresh fs existing kept_text (d, m) (plan_entry_of fs keep segs fs))) =
    (map_of d)(segment_file_name base fs \<mapsto> concat (segs ! fs))"
proof -
  let ?name = "segment_file_name base fs" and ?text = "concat (segs ! fs)"
  have cut: "take keep ?text @ drop keep ?text = ?text" by simp
  show ?thesis
  proof (cases "\<not> fresh \<and> drop keep ?text = [] \<and> keep = existing")
    case True
    then have "map_of d ?name = Some ?text" using assms by (simp add: first_ok_def Let_def)
    then show ?thesis using True by (auto simp: write_entry_def plan_entry_of_def Let_def fun_eq_iff)
  next
    case False
    have "fst (write_entry base fresh fs existing kept_text (d, m) (plan_entry_of fs keep segs fs)) =
      AList.update ?name ?text d"
    proof (cases "fresh \<or> keep = 0")
      case True
      then have "keep = 0" using assms by (auto simp: first_ok_def Let_def)
      then show ?thesis using False by (auto simp: write_entry_def plan_entry_of_def Let_def)
    next
      case short: False
      then have kept: "kept_text = take keep ?text" "keep \<le> length (file_text d ?name) \<Longrightarrow> take keep (file_text d ?name) = kept_text"
        using assms by (simp_all add: first_ok_def Let_def)
      then show ?thesis
        using False short cut
        by (cases "keep \<le> length (file_text d ?name)")
          (auto simp: write_entry_def plan_entry_of_def Let_def truncate_and_write_def)
    qed
    then show ?thesis by (simp add: update_conv')
  qed
qed

lemma write_other_entry:
  "j \<noteq> fs \<Longrightarrow> map_of (fst (write_entry base fresh fs existing kept_text (d, m) (plan_entry_of fs keep segs j))) =
    (map_of d)(segment_file_name base j \<mapsto> concat (segs ! j))"
  by (simp add: write_entry_def plan_entry_of_def Let_def update_conv')

lemma write_other_entries:
  assumes "fs \<notin> set js"
  shows "map_of (fst (foldl (write_entry base fresh fs existing kept_text) dm (map (plan_entry_of fs keep segs) js))) x =
    (if x \<in> segment_file_name base ` set js then Some (concat (segs ! (the_inv (segment_file_name base) x)))
     else map_of (fst dm) x)"
  using assms
proof (induction js arbitrary: dm)
  case (Cons j js)
  have inj: "inj (segment_file_name base)" by (simp add: inj_def)
  obtain d m where dm: "dm = (d, m)" by (cases dm)
  show ?case
    using Cons.prems Cons.IH [of "write_entry base fresh fs existing kept_text dm (plan_entry_of fs keep segs j)"]
      write_other_entry [of j fs base fresh existing kept_text d m keep segs]
    by (auto simp: dm the_inv_f_f [OF inj])
qed simp

lemma write_entries:
  assumes "first_ok base fresh fs keep existing kept_text segs d" "fs < n"
  shows "map_of (fst (foldl (write_entry base fresh fs existing kept_text) (d, m) (map (plan_entry_of fs keep segs) [fs..<n])))
      (segment_file_name base s) =
    (if fs \<le> s \<and> s < n then Some (concat (segs ! s)) else map_of d (segment_file_name base s))"
proof -
  have inj: "inj (segment_file_name base)" by (simp add: inj_def)
  have upto: "[fs..<n] = fs # [Suc fs..<n]" using assms(2) by (rule upt_conv_Cons)
  show ?thesis
    unfolding upto list.map foldl_Cons
    using write_other_entries [of fs "[Suc fs..<n]" base fresh existing kept_text
        "write_entry base fresh fs existing kept_text (d, m) (plan_entry_of fs keep segs fs)" keep segs "segment_file_name base s"]
      write_first_entry [OF assms(1), of m] assms(2)
    by (auto simp: the_inv_f_f [OF inj] image_iff)
qed

lemma unlink_segment_map:
  "map_of (fst (unlink_segment base dm j)) x = (if x = segment_file_name base j then None else map_of (fst dm) x)"
  by (cases dm) (auto simp: unlink_segment_def path_exists_def delete_conv' Let_def)

lemma unlink_segments:
  "map_of (fst (foldl (unlink_segment base) dm js)) x =
    (if x \<in> segment_file_name base ` set js then None else map_of (fst dm) x)"
  by (induction js arbitrary: dm) (auto simp: unlink_segment_map)

section \<open>What is kept\<close>

text \<open>The callers' contract: an object that was in the last write still serialises as it did, unless it was the
  newest one.\<close>

definition faithful :: "log_record list \<Rightarrow> log_record list \<Rightarrow> bool" where
  "faithful prev records \<longleftrightarrow>
     list_all (\<lambda>(x, y). lr_ref x = lr_ref y \<longrightarrow> lr_json x = lr_json y) (zip (butlast prev) records)"

lemma common_prefix_bounds:
  "common_prefix refs records \<le> length refs" "common_prefix refs records \<le> length records"
  by (induction refs records rule: common_prefix.induct) auto

lemma common_prefix_refs: "i < common_prefix refs records \<Longrightarrow> lr_ref (records ! i) = refs ! i"
proof (induction refs records arbitrary: i rule: common_prefix.induct)
  case (1 r refs x records)
  then show ?case by (cases i) (auto split: if_splits)
qed auto

lemma kept_prefix_bounds:
  assumes "ws_refs st = map lr_ref prev"
  shows "kept_prefix (Some st) records \<le> length prev" "kept_prefix (Some st) records \<le> length records"
  using common_prefix_bounds [of "ws_refs st" records] assms by (auto simp: kept_prefix_def Let_def)

lemma kept_prefix_lines:
  assumes "ws_refs st = map lr_ref prev" "prev \<noteq> [] \<Longrightarrow> ws_last_line st = line_for (last prev)" "faithful prev records"
  shows "take (kept_prefix (Some st) records) (map line_for records) = take (kept_prefix (Some st) records) (map line_for prev)"
proof (rule nth_equalityI)
  let ?k = "kept_prefix (Some st) records" and ?c = "common_prefix (ws_refs st) records"
  note bounds = kept_prefix_bounds [OF assms(1), of records]
  show "length (take ?k (map line_for records)) = length (take ?k (map line_for prev))" using bounds by simp
  fix i assume "i < length (take ?k (map line_for records))"
  then have i: "i < ?k" "i < length records" "i < length prev" using bounds by auto
  have k: "?k \<le> ?c" by (simp add: kept_prefix_def Let_def)
  then have same: "lr_ref (records ! i) = lr_ref (prev ! i)"
    using i common_prefix_refs [of i "ws_refs st" records] assms(1) by simp
  have "line_for (records ! i) = line_for (prev ! i)"
  proof (cases "Suc i < length prev")
    case True
    then have "i < length (zip (butlast prev) records)" using i by simp
    then have "zip (butlast prev) records ! i = (prev ! i, records ! i)" using True i by (simp add: nth_butlast)
    then have "(prev ! i, records ! i) \<in> set (zip (butlast prev) records)"
      using \<open>i < length (zip (butlast prev) records)\<close> by (metis nth_mem)
    then show ?thesis using assms(3) same by (fastforce simp: faithful_def list_all_iff line_for_def)
  next
    case False
    then have last: "i = length prev - 1" "prev \<noteq> []" using i by auto
    have full: "?c = length prev" "?k = length prev"
      using i k last common_prefix_bounds(1) [of "ws_refs st" records] assms(1) by auto
    then have "line_for (records ! (length prev - 1)) = ws_last_line st"
      using assms(1) last(2) by (cases prev) (auto simp: kept_prefix_def Let_def split: if_splits)
    then show ?thesis using last assms(2) by (simp add: last_conv_nth)
  qed
  then show "take ?k (map line_for records) ! i = take ?k (map line_for prev) ! i" using i by simp
qed

lemma first_segment_spec:
  assumes "segs \<noteq> []" "k \<le> length (concat segs)"
  defines "fs \<equiv> first_segment k 0 (starts_of segs) 0"
  shows "fs < length segs" "length (concat (take fs segs)) \<le> k" "k \<le> length (concat (take (Suc fs) segs))"
    "Suc fs < length segs \<Longrightarrow> k < length (concat (take (Suc fs) segs))"
proof -
  have scan: "first_segment k s starts acc =
      (if takeWhile (\<lambda>x. x \<le> k) starts = [] then acc else s + length (takeWhile (\<lambda>x. x \<le> k) starts) - 1)"
    for s acc and starts :: "nat list"
    by (induction starts arbitrary: s acc) auto
  let ?low = "takeWhile (\<lambda>x. x \<le> k) (starts_of segs)"
  have "starts_of segs \<noteq> []" "hd (starts_of segs) \<le> k"
    using assms(1) by (simp_all add: hd_conv_nth flip: length_greater_0_conv)
  then have low: "?low \<noteq> []" by (cases "starts_of segs") auto
  then have fs: "fs = length ?low - 1" by (simp add: fs_def scan)
  then have lt: "fs < length ?low" using low by simp
  moreover have "length ?low \<le> length segs" using length_takeWhile_le [of "\<lambda>x. x \<le> k" "starts_of segs"] by simp
  ultimately show in_range: "fs < length segs" by simp
  have "starts_of segs ! fs \<le> k" using lt by (metis nth_mem set_takeWhileD takeWhile_nth)
  then show "length (concat (take fs segs)) \<le> k" using in_range by simp
  show after: "k < length (concat (take (Suc fs) segs))" if "Suc fs < length segs"
  proof -
    have "Suc fs = length ?low" using fs low by simp
    then have "\<not> starts_of segs ! Suc fs \<le> k" using nth_length_takeWhile [of "\<lambda>x. x \<le> k" "starts_of segs"] that by simp
    then show ?thesis using that by simp
  qed
  show "k \<le> length (concat (take (Suc fs) segs))"
  proof (cases "Suc fs < length segs")
    case False
    then show ?thesis using in_range assms(2) by simp
  qed (use after in simp)
qed

section \<open>A write leaves the records on disk\<close>

text \<open>The files of the segments. A torn directory has lost the end of its newest segment, or all of it, while that
  segment was still open.\<close>

definition disk_ok :: "string \<Rightarrow> nat \<Rightarrow> bool \<Rightarrow> string list list \<Rightarrow> directory \<Rightarrow> bool" where
  "disk_ok base max_bytes torn segs d \<longleftrightarrow>
     (\<forall>s < length segs. \<not> (torn \<and> Suc s = length segs) \<longrightarrow> map_of d (segment_file_name base s) = Some (concat (segs ! s))) \<and>
     (torn \<longrightarrow> length (concat (last segs)) < max_bytes \<and>
        (\<exists>m. file_text d (segment_file_name base (length segs - 1)) = take m (concat (last segs)))) \<and>
     (\<forall>s \<ge> length segs. map_of d (segment_file_name base s) = None)"

definition writer_ok ::
    "string \<Rightarrow> nat \<Rightarrow> bool \<Rightarrow> writer_state option \<Rightarrow> directory \<Rightarrow> string list list \<Rightarrow> log_record list \<Rightarrow> bool" where
  "writer_ok base max_bytes torn state d segs prev \<longleftrightarrow>
     (case state of
        None \<Rightarrow> segs = [[]] \<and> prev = []
      | Some st \<Rightarrow>
          segs \<noteq> [] \<and> concat segs = map line_for prev \<and> ws_refs st = map lr_ref prev \<and>
          ws_offsets st = offsets_of (concat segs) \<and> ws_seg_starts st = starts_of segs \<and>
          ws_last_line st = (if prev \<noteq> [] then line_for (last prev) else []) \<and>
          disk_ok base max_bytes torn segs d)"

text \<open>What a write sees: the state it starts from, the segments that stand for it, and the records.\<close>

record write_view =
  wv_state :: "writer_state option"
  wv_segs :: "string list list"
  wv_records :: "log_record list"

definition view_ok :: "string \<Rightarrow> nat \<Rightarrow> bool \<Rightarrow> directory \<Rightarrow> log_record list \<Rightarrow> write_view \<Rightarrow> bool" where
  "view_ok base max_bytes torn d prev w \<longleftrightarrow>
     writer_ok base max_bytes torn (wv_state w) d (wv_segs w) prev \<and> faithful prev (wv_records w) \<and>
     \<not> unchanged_records (wv_state w) (wv_records w)"

text \<open>The kept records, the first segment touched, where it starts, the lines and bytes of it that are kept, the
  segments the write starts from and leaves, and the bytes the touched one had.\<close>

definition view_k :: "write_view \<Rightarrow> nat" where
  "view_k w = kept_prefix (wv_state w) (wv_records w)"

definition view_fs :: "write_view \<Rightarrow> nat" where
  "view_fs w = first_segment (view_k w) 0 (starts_of (wv_segs w)) 0"

definition view_start :: "write_view \<Rightarrow> nat" where
  "view_start w = length (concat (take (view_fs w) (wv_segs w)))"

definition view_kept :: "write_view \<Rightarrow> string list" where
  "view_kept w = take (view_k w - view_start w) (wv_segs w ! view_fs w)"

definition view_keep :: "write_view \<Rightarrow> nat" where
  "view_keep w = length (concat (view_kept w))"

definition view_seeds :: "write_view \<Rightarrow> string list list" where
  "view_seeds w = take (view_fs w) (wv_segs w) @ [view_kept w]"

definition view_lines :: "write_view \<Rightarrow> string list" where
  "view_lines w = map line_for (drop (view_k w) (wv_records w))"

definition view_segs :: "nat \<Rightarrow> write_view \<Rightarrow> string list list" where
  "view_segs max_bytes w = foldl (roll_step max_bytes) (view_seeds w) (view_lines w)"

definition view_existing :: "write_view \<Rightarrow> nat" where
  "view_existing w = length (concat (wv_segs w ! view_fs w))"

lemma view_okD:
  assumes "view_ok base max_bytes torn d prev w"
  shows "writer_ok base max_bytes torn (wv_state w) d (wv_segs w) prev" "faithful prev (wv_records w)"
    "\<not> unchanged_records (wv_state w) (wv_records w)" "wv_segs w \<noteq> []" "concat (wv_segs w) = map line_for prev"
  using assms by (auto simp: view_ok_def writer_ok_def split: option.splits)

lemma view_state:
  assumes "view_ok base max_bytes torn d prev w" "wv_state w = Some st"
  shows "ws_refs st = map lr_ref prev" "prev \<noteq> [] \<Longrightarrow> ws_last_line st = line_for (last prev)"
    "ws_offsets st = offsets_of (map line_for prev)" "ws_seg_starts st = starts_of (wv_segs w)"
    "disk_ok base max_bytes torn (wv_segs w) d"
  using view_okD(1,5) [OF assms(1)] assms(2) by (simp_all add: writer_ok_def)

lemma view_fresh:
  assumes "view_ok base max_bytes torn d prev w" "wv_state w = None"
  shows "wv_segs w = [[]]" "prev = []" "view_k w = 0" "view_fs w = 0" "view_keep w = 0"
proof -
  show segs: "wv_segs w = [[]]" "prev = []" using view_okD(1) [OF assms(1)] assms(2) by (simp_all add: writer_ok_def)
  show k: "view_k w = 0" using assms(2) by (simp add: view_k_def kept_prefix_def)
  show "view_fs w = 0" by (simp add: view_fs_def k segs starts_of_def)
  then show "view_keep w = 0" by (simp add: view_keep_def view_kept_def segs k)
qed

lemma view_k_bounds:
  assumes "view_ok base max_bytes torn d prev w"
  shows "view_k w \<le> length prev" "view_k w \<le> length (wv_records w)"
    "take (view_k w) (map line_for (wv_records w)) = take (view_k w) (map line_for prev)"
proof -
  have "view_k w \<le> length prev \<and> view_k w \<le> length (wv_records w) \<and>
    take (view_k w) (map line_for (wv_records w)) = take (view_k w) (map line_for prev)"
  proof (cases "wv_state w")
    case None
    then show ?thesis using view_fresh(3) [OF assms] by simp
  next
    case (Some st)
    note st = view_state(1,2) [OF assms Some]
    show ?thesis
      unfolding view_k_def Some
      using kept_prefix_bounds [OF st(1)] kept_prefix_lines [OF st view_okD(2) [OF assms]] by blast
  qed
  then show "view_k w \<le> length prev" "view_k w \<le> length (wv_records w)"
    "take (view_k w) (map line_for (wv_records w)) = take (view_k w) (map line_for prev)"
    by blast+
qed

lemma view_fs_spec:
  assumes "view_ok base max_bytes torn d prev w"
  shows "view_fs w < length (wv_segs w)" "view_start w \<le> view_k w"
    "view_k w \<le> view_start w + length (wv_segs w ! view_fs w)"
    "Suc (view_fs w) < length (wv_segs w) \<Longrightarrow> view_k w < view_start w + length (wv_segs w ! view_fs w)"
proof -
  have "view_k w \<le> length (concat (wv_segs w))" using view_k_bounds(1) [OF assms] by (simp add: view_okD(5) [OF assms])
  note spec = first_segment_spec [OF view_okD(4) [OF assms] this, folded view_fs_def]
  show in_range: "view_fs w < length (wv_segs w)" "view_start w \<le> view_k w" using spec(1,2) by (simp_all add: view_start_def)
  show "view_k w \<le> view_start w + length (wv_segs w ! view_fs w)"
    "Suc (view_fs w) < length (wv_segs w) \<Longrightarrow> view_k w < view_start w + length (wv_segs w ! view_fs w)"
    using spec(3,4) in_range by (simp_all add: view_start_def concat_take_Suc)
qed

lemma view_seeds_concat:
  assumes "view_ok base max_bytes torn d prev w"
  shows "concat (view_seeds w) = take (view_k w) (map line_for prev)"
proof -
  have "concat (wv_segs w) =
      concat (take (view_fs w) (wv_segs w)) @ wv_segs w ! view_fs w @ concat (drop (Suc (view_fs w)) (wv_segs w))"
    using view_fs_spec(1) [OF assms] by (metis Cons_nth_drop_Suc append_take_drop_id concat.simps(2) concat_append)
  then show ?thesis
    using view_fs_spec(2,3) [OF assms]
    by (simp add: view_okD(5) [OF assms, symmetric] view_seeds_def view_kept_def view_start_def)
qed

lemma view_segs_concat:
  assumes "view_ok base max_bytes torn d prev w"
  shows "concat (view_segs max_bytes w) = map line_for (wv_records w)"
proof -
  have "concat (view_segs max_bytes w) = concat (view_seeds w) @ view_lines w"
    unfolding view_segs_def by (rule roll_concat) (simp add: view_seeds_def)
  then show ?thesis
    unfolding view_seeds_concat [OF assms] view_lines_def view_k_bounds(3) [OF assms, symmetric]
    by (metis append_take_drop_id drop_map)
qed

lemma view_segs_keep:
  assumes "view_ok base max_bytes torn d prev w"
  shows "view_fs w < length (view_segs max_bytes w)"
    "take (view_fs w) (view_segs max_bytes w) = take (view_fs w) (wv_segs w)"
    "\<exists>rest. view_segs max_bytes w ! view_fs w = view_kept w @ rest"
  using roll_keeps [of "view_seeds w" max_bytes "view_lines w"] view_fs_spec(1) [OF assms]
  by (auto simp: view_segs_def view_seeds_def min_def)

lemma view_kept_bytes:
  assumes "view_ok base max_bytes torn d prev w"
  shows "view_keep w \<le> length (concat (view_segs max_bytes w ! view_fs w))"
    "take (view_keep w) (concat (view_segs max_bytes w ! view_fs w)) = concat (view_kept w)"
  using view_segs_keep(3) [OF assms] by (auto simp: view_keep_def)

lemma view_kept_text:
  assumes "view_ok base max_bytes torn d prev w"
  shows "concat (map line_for (drop (view_start w) (take (view_k w) (wv_records w)))) = concat (view_kept w)"
proof -
  have "map line_for (drop (view_start w) (take (view_k w) (wv_records w))) = drop (view_start w) (concat (view_seeds w))"
    unfolding view_seeds_concat [OF assms] view_k_bounds(3) [OF assms, symmetric] by (simp add: take_map drop_map)
  then show ?thesis by (simp add: view_seeds_def view_start_def)
qed

lemma view_drop_shortens:
  assumes "view_ok base max_bytes torn d prev w" "view_k w < view_start w + length (wv_segs w ! view_fs w)"
  shows "view_keep w < view_existing w"
proof -
  let ?seg = "wv_segs w ! view_fs w" and ?n = "view_k w - view_start w"
  have rest: "drop ?n ?seg \<noteq> []" using assms(2) view_fs_spec(2) [OF assms(1)] by simp
  have "set ?seg \<subseteq> set (concat (wv_segs w))" using view_fs_spec(1) [OF assms(1)] by (auto intro: nth_mem)
  then have "l \<noteq> []" if "l \<in> set (drop ?n ?seg)" for l
    using that set_drop_subset [of ?n ?seg] by (auto simp: view_okD(5) [OF assms(1)] line_for_def)
  then have "concat (drop ?n ?seg) \<noteq> []" using rest by (cases "drop ?n ?seg") auto
  moreover have "concat ?seg = concat (view_kept w) @ concat (drop ?n ?seg)"
    unfolding view_kept_def by (metis append_take_drop_id concat_append)
  ultimately show ?thesis by (simp add: view_existing_def view_keep_def)
qed

text \<open>A first entry that leaves its file alone has nothing left to continue, so its segment was not torn.\<close>

lemma view_untouched:
  assumes view: "view_ok base max_bytes torn d prev w" and st: "wv_state w = Some st"
    and full: "drop (view_keep w) (concat (view_segs max_bytes w ! view_fs w)) = []" "view_keep w = view_existing w"
  shows "map_of d (segment_file_name base (view_fs w)) = Some (concat (view_segs max_bytes w ! view_fs w))"
proof -
  let ?seg = "wv_segs w ! view_fs w"
  note fs = view_fs_spec [OF view]
  have k: "view_k w = view_start w + length ?seg" using view_drop_shortens [OF view] fs(3) full(2) by fastforce
  then have seg: "view_kept w = ?seg" by (simp add: view_kept_def)
  have "\<not> (torn \<and> Suc (view_fs w) = length (wv_segs w))"
  proof
    assume torn: "torn \<and> Suc (view_fs w) = length (wv_segs w)"
    then have "length (wv_segs w) - 1 = view_fs w" by linarith
    then have lst: "last (wv_segs w) = ?seg" using view_okD(4) [OF view] by (simp add: last_conv_nth)
    have "view_k w = length (concat (wv_segs w))"
      using torn k fs(1) concat_take_Suc [OF fs(1)] by (simp add: view_start_def)
    then have "view_k w = length prev" by (simp add: view_okD(5) [OF view])
    then have "view_k w < length (wv_records w)"
      using view_okD(3) [OF view] view_k_bounds(2) [OF view] view_state(1) [OF view st]
      by (auto simp: unchanged_records_def st view_k_def)
    then obtain l ls where lines: "view_lines w = l # ls" "l \<noteq> []"
      by (cases "drop (view_k w) (wv_records w)") (auto simp: view_lines_def line_for_def)
    have "length (concat (last (wv_segs w))) < max_bytes" using view_state(5) [OF view st] torn by (simp add: disk_ok_def)
    then have "length (concat (view_kept w)) < max_bytes"
      using seg lst by simp
    then have "roll_step max_bytes (view_seeds w) l = take (view_fs w) (wv_segs w) @ [view_kept w @ [l]]"
      by (simp add: roll_step_def view_seeds_def)
    then have "view_segs max_bytes w = foldl (roll_step max_bytes) (take (view_fs w) (wv_segs w) @ [view_kept w @ [l]]) ls"
      by (simp add: view_segs_def lines(1))
    then have "\<exists>rest. view_segs max_bytes w ! view_fs w = (view_kept w @ [l]) @ rest"
      using roll_keeps [of "take (view_fs w) (wv_segs w) @ [view_kept w @ [l]]" max_bytes ls] fs(1) by (auto simp: min_def)
    then show False using full(1) lines(2) by (auto simp: view_keep_def)
  qed
  then have "map_of d (segment_file_name base (view_fs w)) = Some (concat ?seg)"
    using view_state(5) [OF view st] fs(1) by (simp add: disk_ok_def)
  moreover have "concat (view_segs max_bytes w ! view_fs w) = concat ?seg"
    using full(1) view_kept_bytes [OF view] seg by simp
  ultimately show ?thesis by simp
qed

lemma view_first_ok:
  assumes view: "view_ok base max_bytes torn d prev w"
  shows "first_ok base (wv_state w = None) (view_fs w) (view_keep w) (view_existing w) (concat (view_kept w))
    (view_segs max_bytes w) d"
proof (cases "wv_state w")
  case None
  then show ?thesis using view_fresh(5) [OF view] by (simp add: first_ok_def)
next
  case (Some st)
  let ?name = "segment_file_name base (view_fs w)" and ?seg = "wv_segs w ! view_fs w"
  note disk = view_state(5) [OF view Some] and fs = view_fs_spec(1) [OF view]
  have whole: "concat ?seg = concat (view_kept w) @ concat (drop (view_k w - view_start w) ?seg)"
    unfolding view_kept_def by (metis append_take_drop_id concat_append)
  have "take (view_keep w) (file_text d ?name) = concat (view_kept w)" if "view_keep w \<le> length (file_text d ?name)"
  proof (cases "torn \<and> Suc (view_fs w) = length (wv_segs w)")
    case True
    then have idx: "length (wv_segs w) - 1 = view_fs w" by linarith
    then have "last (wv_segs w) = ?seg" using view_okD(4) [OF view] by (simp add: last_conv_nth)
    then obtain m where cut: "file_text d ?name = take m (concat ?seg)" using disk True idx by (auto simp: disk_ok_def)
    then have "view_keep w \<le> m" using that by (simp add: cut)
    then have "take (view_keep w) (file_text d ?name) = take (view_keep w) (concat ?seg)" by (simp add: cut min_absorb1)
    then show ?thesis by (simp add: whole view_keep_def)
  next
    case False
    then have "map_of d ?name = Some (concat ?seg)" using disk fs by (auto simp: disk_ok_def)
    then show ?thesis using whole by (simp add: file_text_def view_keep_def)
  qed
  then show ?thesis
    using Some view_kept_bytes [OF view] view_untouched [OF view Some] by (simp add: first_ok_def Let_def)
qed

lemma drop_enumerate: "drop k (enumerate n xs) = enumerate (n + k) (drop k xs)"
  by (rule nth_equalityI) (simp_all add: nth_enumerate_eq)

lemma view_starts:
  assumes "view_ok base max_bytes torn d prev w"
  shows "(case wv_state w of None \<Rightarrow> [0] | Some st \<Rightarrow> ws_seg_starts st) = starts_of (wv_segs w)"
    "(case wv_state w of None \<Rightarrow> [0] | Some st \<Rightarrow> ws_offsets st) = offsets_of (map line_for prev)"
    "(case wv_state w of None \<Rightarrow> 0 | Some st \<Rightarrow> length (ws_refs st)) = length prev"
proof -
  show "(case wv_state w of None \<Rightarrow> [0] | Some st \<Rightarrow> ws_seg_starts st) = starts_of (wv_segs w)"
    using view_fresh(1) [OF assms] view_state(4) [OF assms] by (cases "wv_state w") (simp_all add: starts_of_def)
  show "(case wv_state w of None \<Rightarrow> [0] | Some st \<Rightarrow> ws_offsets st) = offsets_of (map line_for prev)"
    using view_fresh(2) [OF assms] view_state(3) [OF assms] by (cases "wv_state w") (simp_all add: offsets_of_def)
  show "(case wv_state w of None \<Rightarrow> 0 | Some st \<Rightarrow> length (ws_refs st)) = length prev"
    using view_fresh(2) [OF assms] view_state(1) [OF assms] by (cases "wv_state w") simp_all
qed

text \<open>The offsets the code reads off its tables.\<close>

lemma view_offsets:
  assumes "view_ok base max_bytes torn d prev w"
  defines "last_of \<equiv> length (concat (take (Suc (view_fs w)) (wv_segs w)))"
  shows "js_at (starts_of (wv_segs w)) (view_fs w) = Some (view_start w)"
    "(case js_at (starts_of (wv_segs w)) (Suc (view_fs w)) of Some e \<Rightarrow> e
       | None \<Rightarrow> (case wv_state w of None \<Rightarrow> 0 | Some st \<Rightarrow> length (ws_refs st))) = last_of"
    "\<exists>e s. js_at (offsets_of (map line_for prev)) last_of = Some e \<and>
      js_at (offsets_of (map line_for prev)) (view_start w) = Some s \<and> e - s = view_existing w \<and>
      js_at (offsets_of (take (view_k w) (map line_for prev))) (view_k w) = Some (s + view_keep w)"
proof -
  let ?segs = "wv_segs w" and ?L = "map line_for prev"
  note fs = view_fs_spec(1) [OF assms(1)] and L = view_okD(5) [OF assms(1)]
  show "js_at (starts_of ?segs) (view_fs w) = Some (view_start w)" using fs by (simp add: js_at_def view_start_def)
  show "(case js_at (starts_of ?segs) (Suc (view_fs w)) of Some e \<Rightarrow> e
       | None \<Rightarrow> (case wv_state w of None \<Rightarrow> 0 | Some st \<Rightarrow> length (ws_refs st))) = last_of"
  proof (cases "Suc (view_fs w) < length ?segs")
    case False
    then have "take (Suc (view_fs w)) ?segs = ?segs" using fs by simp
    moreover have "length (concat ?segs) = length prev" by (simp add: L)
    ultimately show ?thesis using False view_starts(3) [OF assms(1)] by (simp add: js_at_def last_of_def)
  qed (simp add: js_at_def last_of_def)
  have cut: "take (length (concat (take i ?segs))) ?L = concat (take i ?segs)" for i
    by (metis L append_eq_conv_conj append_take_drop_id concat_append)
  have le: "length (concat (take i ?segs)) \<le> length ?L" for i
    by (metis L append_take_drop_id concat_append length_append le_add1)
  have "js_at (offsets_of ?L) (length (concat (take i ?segs))) = Some (length (concat (concat (take i ?segs))))" for i
    using le [of i] by (simp add: js_at_def cut)
  moreover have "concat (concat (take (Suc (view_fs w)) ?segs)) = concat (concat (take (view_fs w) ?segs)) @ concat (?segs ! view_fs w)"
    using fs by (simp add: concat_take_Suc)
  moreover have "js_at (offsets_of (take (view_k w) ?L)) (view_k w) = Some (length (concat (concat (view_seeds w))))"
    using view_k_bounds(1) [OF assms(1)] by (simp add: js_at_def view_seeds_concat [OF assms(1)])
  ultimately show "\<exists>e s. js_at (offsets_of ?L) last_of = Some e \<and> js_at (offsets_of ?L) (view_start w) = Some s \<and>
      e - s = view_existing w \<and> js_at (offsets_of (take (view_k w) ?L)) (view_k w) = Some (s + view_keep w)"
    by (simp add: last_of_def view_start_def view_existing_def view_keep_def view_seeds_def)
qed

lemma view_planned:
  assumes "view_ok base max_bytes torn d prev w"
  shows "planned (view_fs w) (view_keep w) (view_seeds w)
    \<lparr>wp_entries = [\<lparr>pe_index = view_fs w, pe_keep_bytes = view_keep w, pe_text = []\<rparr>],
     wp_seg_starts = take (Suc (view_fs w)) (starts_of (wv_segs w)),
     wp_offsets = take (Suc (view_k w)) (offsets_of (map line_for prev)), wp_active = view_fs w, wp_bytes = view_keep w\<rparr>"
proof -
  note fs = view_fs_spec(1) [OF assms]
  have len: "length (view_seeds w) = Suc (view_fs w)" using fs by (simp add: view_seeds_def)
  have "starts_of (take (Suc (view_fs w)) (wv_segs w)) = starts_of (view_seeds w)"
    using fs by (intro starts_cong) (simp_all add: view_seeds_def butlast_take)
  then have starts: "take (Suc (view_fs w)) (starts_of (wv_segs w)) = starts_of (view_seeds w)"
    using fs by (simp add: take_starts)
  have offsets: "take (Suc (view_k w)) (offsets_of (map line_for prev)) = offsets_of (concat (view_seeds w))"
    using view_k_bounds(1) [OF assms] by (simp add: take_offsets view_seeds_concat [OF assms])
  have seed: "view_seeds w ! view_fs w = view_kept w" "last (view_seeds w) = view_kept w"
    using fs by (simp_all add: view_seeds_def nth_append)
  show ?thesis by (simp add: planned_def len starts offsets seed view_keep_def)
qed

lemma write_segments_view:
  assumes view: "view_ok base max_bytes torn d prev w"
  shows "\<exists>wp dm. planned (view_fs w) (view_keep w) (view_segs max_bytes w) wp \<and>
    dm = apply_plan base (wv_state w = None) (view_fs w) (view_existing w) (concat (view_kept w))
      (previous_segment_count (wv_state w) d base (length (wv_segs w))) wp d \<and>
    write_segments base max_bytes (wv_state w) d (wv_records w) =
      Some (Some \<lparr>ws_refs = map lr_ref (wv_records w), ws_offsets = wp_offsets wp, ws_seg_starts = wp_seg_starts wp,
                  ws_last_line = (if wv_records w \<noteq> [] then line_for (last (wv_records w)) else [])\<rparr>, fst dm, snd dm)"
proof -
  let ?wp0 = "\<lparr>wp_entries = [\<lparr>pe_index = view_fs w, pe_keep_bytes = view_keep w, pe_text = []\<rparr>],
     wp_seg_starts = take (Suc (view_fs w)) (starts_of (wv_segs w)),
     wp_offsets = take (Suc (view_k w)) (offsets_of (map line_for prev)), wp_active = view_fs w, wp_bytes = view_keep w\<rparr>"
  obtain e s where off: "js_at (offsets_of (map line_for prev)) (length (concat (take (Suc (view_fs w)) (wv_segs w)))) = Some e"
    "js_at (offsets_of (map line_for prev)) (view_start w) = Some s" "e - s = view_existing w"
    "js_at (offsets_of (take (view_k w) (map line_for prev))) (view_k w) = Some (s + view_keep w)"
    using view_offsets(3) [OF view] by blast
  have k: "view_k w = length (concat (view_seeds w))"
    using view_k_bounds(1) [OF view] by (simp add: view_seeds_concat [OF view])
  then obtain wp where wp: "plan_records max_bytes ?wp0 (drop (view_k w) (enumerate 0 (wv_records w))) = Some wp"
    "planned (view_fs w) (view_keep w) (view_segs max_bytes w) wp"
    using planned_records [OF view_planned [OF view], of "view_k w" max_bytes "drop (view_k w) (wv_records w)"]
    by (auto simp: drop_enumerate view_segs_def view_lines_def)
  have taken: "take (Suc (view_k w)) (offsets_of (map line_for prev)) = offsets_of (take (view_k w) (map line_for prev))"
    using view_k_bounds(1) [OF view] by (simp add: take_offsets)
  show ?thesis
    using view_okD(3) [OF view] wp off view_offsets(1,2) [OF view] view_kept_text [OF view]
    by (intro exI [of _ wp])
      (simp add: write_segments_def view_starts [OF view] view_k_def [symmetric] view_fs_def [symmetric] taken Let_def
        split_beta)
qed

lemma write_segments_ok:
  assumes view: "view_ok base max_bytes torn d prev w"
  shows "\<exists>st' d' modified.
    write_segments base max_bytes (wv_state w) d (wv_records w) = Some (Some st', d', modified) \<and>
    writer_ok base max_bytes False (Some st') d' (view_segs max_bytes w) (wv_records w)"
proof -
  let ?segs = "view_segs max_bytes w" and ?fs = "view_fs w"
  let ?count = "previous_segment_count (wv_state w) d base (length (wv_segs w))"
  obtain wp dm where wp: "planned ?fs (view_keep w) ?segs wp"
    and dm: "dm = apply_plan base (wv_state w = None) ?fs (view_existing w) (concat (view_kept w)) ?count wp d"
    and run: "write_segments base max_bytes (wv_state w) d (wv_records w) =
      Some (Some \<lparr>ws_refs = map lr_ref (wv_records w), ws_offsets = wp_offsets wp, ws_seg_starts = wp_seg_starts wp,
                  ws_last_line = (if wv_records w \<noteq> [] then line_for (last (wv_records w)) else [])\<rparr>, fst dm, snd dm)"
    using write_segments_view [OF view] by blast
  have fs: "?fs < length ?segs" and active: "Suc (wp_active wp) = length ?segs"
    and entries: "wp_entries wp = map (plan_entry_of ?fs (view_keep w) ?segs) [?fs..<length ?segs]"
    using wp by (auto simp: planned_def plan_entry_of_def)
  have files: "map_of (fst dm) (segment_file_name base s) =
      (if s < ?count \<and> length ?segs \<le> s then None
       else if ?fs \<le> s \<and> s < length ?segs then Some (concat (?segs ! s)) else map_of d (segment_file_name base s))" for s
    unfolding dm apply_plan_def entries active unlink_segments
    using write_entries [OF view_first_ok [OF view] fs, of "[]" s] by (auto simp: image_iff)
  have before: "map_of d (segment_file_name base s) = Some (concat (?segs ! s))" if "s < ?fs" for s
  proof -
    have "wv_state w \<noteq> None" using that view_fresh(4) [OF view] by auto
    then obtain st where st: "wv_state w = Some st" by blast
    have "?segs ! s = wv_segs w ! s" using that view_segs_keep(2) [OF view] by (metis nth_take)
    then show ?thesis
      using view_state(5) [OF view st] that view_fs_spec(1) [OF view] by (simp add: disk_ok_def)
  qed
  have after: "map_of d (segment_file_name base s) = None" if "length ?segs \<le> s" "\<not> s < ?count" for s
  proof (cases "wv_state w")
    case None
    then have "highest_segment_index d base < int s"
      using that view_fresh(1) [OF view] by (auto simp: previous_segment_count_def Let_def split: if_splits)
    then show ?thesis
      using highest_bounds [of d base s] by (cases "map_of d (segment_file_name base s)") (auto simp: path_exists_def)
  next
    case (Some st)
    then have "length (wv_segs w) \<le> s" using that by (simp add: previous_segment_count_def)
    then show ?thesis using view_state(5) [OF view Some] by (simp add: disk_ok_def)
  qed
  have "disk_ok base max_bytes False ?segs (fst dm)"
    using files before after by (auto simp: disk_ok_def)
  moreover have "?segs \<noteq> []" using fs by auto
  ultimately show ?thesis
    using wp view_segs_concat [OF view] by (cases dm) (simp add: run writer_ok_def planned_def)
qed

section \<open>Reading back\<close>

lemma disk_ok_reads:
  assumes "disk_ok base max_bytes False segs d" "segs \<noteq> []"
  shows "read_log d base = concat (concat segs)"
proof -
  let ?name = "segment_file_name base"
  obtain m where m: "length segs = Suc m" using assms(2) by (cases segs) auto
  have files: "map_of d (?name s) = Some (concat (segs ! s))" if "s \<le> m" for s
    using assms(1) that m by (simp add: disk_ok_def)
  have gap: "map_of d (?name (Suc m)) = None" using assms(1) m by (simp add: disk_ok_def)
  have "card (?name ` {0..m}) \<le> card (set (map fst d))"
  proof (rule card_mono)
    show "?name ` {0..m} \<subseteq> set (map fst d)" using map_of_SomeD [OF files] by force
  qed simp
  moreover have "card (?name ` {0..m}) = Suc m" by (subst card_image) (simp_all add: inj_on_def)
  ultimately have enough: "Suc m \<le> length d" using card_length [of "map fst d"] by simp
  then have "[1..<length d + 1] = [1..<Suc m] @ Suc m # [Suc (Suc m)..<length d + 1]"
    by (metis Suc_eq_plus1 le_imp_less_Suc less_eq_Suc_le upt_conv_Cons upt_add_eq_append le_add_diff_inverse Suc_le_mono
        le_SucI One_nat_def zero_less_Suc)
  then have "takeWhile (path_exists d) (map ?name [1..<length d + 1]) = map ?name [1..<Suc m]"
    using files gap by (simp add: takeWhile_append path_exists_def)
  moreover have "path_exists d base" using files [of 0] by (simp add: path_exists_def segment_file_name_def)
  ultimately have "list_segment_files d base = map ?name [0..<Suc m]"
    by (simp add: list_segment_files_def upt_conv_Cons [of 0] segment_file_name_def del: upt_Suc)
  moreover have "file_text d base = file_text d (?name 0)" by (simp add: segment_file_name_def)
  ultimately have "read_log d base = concat (map (\<lambda>s. file_text d (?name s)) [0..<Suc m])"
    by (simp add: read_log_def read_extra_segment_texts_def upt_conv_Cons [of 0] comp_def del: upt_Suc)
  also have "\<dots> = concat (map (\<lambda>s. concat (segs ! s)) [0..<Suc m])"
    using files by (intro arg_cong [where f = concat] map_cong) (auto simp: file_text_def less_Suc_eq_le simp del: upt_Suc)
  also have "map (\<lambda>s. concat (segs ! s)) [0..<Suc m] = map concat segs"
    by (rule nth_equalityI) (simp_all add: m del: upt_Suc)
  also have "concat (map concat segs) = concat (concat segs)" by (induction segs) simp_all
  finally show ?thesis .
qed

section \<open>Runs of the writer\<close>

text \<open>A write; a restart of the process, which forgets the writer's state; and a crash or an outside program that
  cuts the newest segment short while it is still open. A run keeps the writer, the directory, whether the
  newest segment is torn, and the records of the last write.\<close>

datatype log_step = WriteLog "log_record list" | RestartWriter | TearNewest nat

type_synonym log_run = "writer_state option \<times> directory \<times> bool \<times> log_record list"

definition newest_bytes :: "writer_state \<Rightarrow> nat" where
  "newest_bytes st = last (ws_offsets st) - ws_offsets st ! last (ws_seg_starts st)"

definition tear_file :: "string \<Rightarrow> nat \<Rightarrow> directory \<Rightarrow> directory" where
  "tear_file name m d =
     (case map_of d name of None \<Rightarrow> d | Some bytes \<Rightarrow> AList.update name (take m bytes) d)"

fun log_step_run :: "string \<Rightarrow> nat \<Rightarrow> log_run \<Rightarrow> log_step \<Rightarrow> log_run option" where
  "log_step_run base max_bytes (state, d, torn, written) (WriteLog records) =
     map_option (\<lambda>(state1, d1, modified). (state1, d1, torn \<and> unchanged_records state records, records))
       (write_segments base max_bytes state d records)"
| "log_step_run base max_bytes (state, d, torn, written) RestartWriter = Some (None, d, torn, written)"
| "log_step_run base max_bytes (state, d, torn, written) (TearNewest m) =
     Some (case state of
             None \<Rightarrow> (state, d, torn, written)
           | Some st \<Rightarrow>
               if newest_bytes st < max_bytes
               then (state, tear_file (segment_file_name base (length (ws_seg_starts st) - 1)) m d, True, written)
               else (state, d, torn, written))"

fun log_run_steps :: "string \<Rightarrow> nat \<Rightarrow> log_run \<Rightarrow> log_step list \<Rightarrow> log_run option" where
  "log_run_steps base max_bytes r [] = Some r"
| "log_run_steps base max_bytes r (step # steps) =
     Option.bind (log_step_run base max_bytes r step) (\<lambda>r1. log_run_steps base max_bytes r1 steps)"

text \<open>The contract of the callers along a run; a fresh writer asks nothing of its first write.\<close>

fun faithful_run :: "log_record list \<Rightarrow> log_step list \<Rightarrow> bool" where
  "faithful_run prev [] = True"
| "faithful_run prev (WriteLog records # steps) = (faithful prev records \<and> faithful_run records steps)"
| "faithful_run prev (RestartWriter # steps) = faithful_run [] steps"
| "faithful_run prev (TearNewest m # steps) = faithful_run prev steps"

definition run_prev :: "log_run \<Rightarrow> log_record list" where
  "run_prev r = (case r of (state, d, torn, written) \<Rightarrow> if state = None then [] else written)"

definition run_ok :: "string \<Rightarrow> nat \<Rightarrow> log_run \<Rightarrow> bool" where
  "run_ok base max_bytes r \<longleftrightarrow>
     (case r of (state, d, torn, written) \<Rightarrow> \<exists>segs. writer_ok base max_bytes torn state d segs (run_prev r))"

lemma unchanged_write_ok:
  assumes ok: "writer_ok base max_bytes torn (Some st) d segs prev" and contract: "faithful prev records"
    and same: "unchanged_records (Some st) records"
  shows "writer_ok base max_bytes torn (Some st) d segs records"
proof -
  have st: "ws_refs st = map lr_ref prev" "prev \<noteq> [] \<Longrightarrow> ws_last_line st = line_for (last prev)"
    using ok by (simp_all add: writer_ok_def)
  have k: "kept_prefix (Some st) records = length prev" "length records = length prev"
    using same st(1) by (simp_all add: unchanged_records_def)
  then have lines: "map line_for records = map line_for prev" using kept_prefix_lines [OF st contract] by simp
  have "common_prefix (ws_refs st) records \<ge> length prev"
    using k(1) by (auto simp: kept_prefix_def Let_def split: if_splits)
  then have "lr_ref (records ! i) = map lr_ref prev ! i" if "i < length prev" for i
    using that common_prefix_refs [of i "ws_refs st" records] st(1) by simp
  then have refs: "map lr_ref records = map lr_ref prev" using k(2) by (intro nth_equalityI) simp_all
  have "line_for (last records) = line_for (last prev)" if "prev \<noteq> []"
    using that lines k(2) by (metis last_map map_is_Nil_conv)
  moreover have "records = [] \<longleftrightarrow> prev = []" using k(2) by auto
  ultimately show ?thesis using ok lines refs by (simp add: writer_ok_def)
qed

lemma write_run_ok:
  assumes "run_ok base max_bytes (state, d, torn, written)" "faithful (run_prev (state, d, torn, written)) records"
  shows "\<exists>state1 d1 torn1. log_step_run base max_bytes (state, d, torn, written) (WriteLog records) =
      Some (state1, d1, torn1, records) \<and> state1 \<noteq> None \<and> run_ok base max_bytes (state1, d1, torn1, records)"
proof -
  obtain segs where ok: "writer_ok base max_bytes torn state d segs (run_prev (state, d, torn, written))"
    using assms(1) by (auto simp: run_ok_def)
  show ?thesis
  proof (cases "unchanged_records state records")
    case True
    then obtain st where st: "state = Some st" by (auto simp: unchanged_records_def split: option.splits)
    have "writer_ok base max_bytes torn (Some st) d segs records"
      using unchanged_write_ok [OF ok [unfolded st] assms(2) [unfolded st]] True st by simp
    then show ?thesis using True st by (auto simp: write_segments_def Let_def run_ok_def run_prev_def)
  next
    case False
    let ?w = "\<lparr>wv_state = state, wv_segs = segs, wv_records = records\<rparr>"
    have "view_ok base max_bytes torn d (run_prev (state, d, torn, written)) ?w"
      using ok assms(2) False by (simp add: view_ok_def)
    from write_segments_ok [OF this] False show ?thesis by (fastforce simp: run_ok_def run_prev_def)
  qed
qed

lemma tear_ok:
  assumes "writer_ok base max_bytes torn (Some st) d segs prev" "newest_bytes st < max_bytes"
  shows "writer_ok base max_bytes True (Some st)
    (tear_file (segment_file_name base (length (ws_seg_starts st) - 1)) m d) segs prev"
proof -
  let ?name = "segment_file_name base" and ?last = "length segs - 1"
  have segs: "segs \<noteq> []" and disk: "disk_ok base max_bytes torn segs d"
    and starts: "ws_seg_starts st = starts_of segs" and offsets: "ws_offsets st = offsets_of (concat segs)"
    using assms(1) by (simp_all add: writer_ok_def)
  have lst: "last segs = segs ! ?last" "?last < length segs" using segs by (simp_all add: last_conv_nth)
  have "concat segs = concat (butlast segs) @ last segs"
    using segs by (metis append_butlast_last_id concat.simps concat_append append_Nil2)
  moreover have "last (starts_of segs) = length (concat (butlast segs))"
    using segs by (simp add: last_conv_nth starts_of_def butlast_conv_take)
  moreover have "last (offsets_of (concat segs)) = length (concat (concat segs))"
    by (simp add: offsets_of_def)
  ultimately have "newest_bytes st = length (concat (last segs))"
    by (simp add: newest_bytes_def starts offsets)
  then have small: "length (concat (last segs)) < max_bytes" using assms(2) by simp
  have "\<exists>n. file_text d (?name ?last) = take n (concat (last segs))"
  proof (cases torn)
    case False
    then have "file_text d (?name ?last) = concat (last segs)" using disk lst by (simp add: disk_ok_def file_text_def)
    then show ?thesis by (intro exI [of _ "length (concat (last segs))"]) simp
  qed (use disk in \<open>auto simp: disk_ok_def\<close>)
  then obtain n where n: "file_text d (?name ?last) = take n (concat (last segs))" by blast
  let ?d = "tear_file (?name ?last) m d"
  have "file_text ?d (?name ?last) = take m (file_text d (?name ?last))"
    by (cases "map_of d (?name ?last)") (simp_all add: tear_file_def file_text_def update_conv')
  then have "file_text ?d (?name ?last) = take (min m n) (concat (last segs))" by (simp only: n take_take)
  moreover have "map_of ?d (?name s) = map_of d (?name s)" if "s \<noteq> ?last" for s
    using that by (simp add: tear_file_def update_conv' split: option.split)
  moreover have "s \<noteq> ?last" if "length segs \<le> s" for s using that lst(2) by simp
  ultimately have "disk_ok base max_bytes True segs ?d"
    using disk small segs by (auto simp: disk_ok_def)
  then show ?thesis using assms(1) by (simp add: writer_ok_def starts)
qed

lemma log_run_ok:
  assumes "run_ok base max_bytes r" "faithful_run (run_prev r) steps"
  shows "\<exists>r1. log_run_steps base max_bytes r steps = Some r1 \<and> run_ok base max_bytes r1"
  using assms
proof (induction steps arbitrary: r)
  case (Cons step steps)
  obtain state d torn written where r: "r = (state, d, torn, written)" by (cases r)
  have "\<exists>r1. log_step_run base max_bytes r step = Some r1 \<and> run_ok base max_bytes r1 \<and> faithful_run (run_prev r1) steps"
  proof (cases step)
    case (WriteLog records)
    then show ?thesis
      using write_run_ok [of base max_bytes state d torn written records] Cons.prems
      by (fastforce simp: r run_prev_def)
  next
    case RestartWriter
    then show ?thesis using Cons.prems by (auto simp: r run_prev_def run_ok_def writer_ok_def)
  next
    case (TearNewest m)
    show ?thesis
    proof (cases state)
      case None
      then show ?thesis using Cons.prems TearNewest by (simp add: r run_prev_def)
    next
      case (Some st)
      then show ?thesis
        using Cons.prems TearNewest tear_ok [of base max_bytes torn st d _ written m]
        by (fastforce simp: r run_prev_def run_ok_def)
    qed
  qed
  then show ?case using Cons.IH by fastforce
qed simp


section \<open>What the caller stages\<close>

lemma write_entry_staged:
  "set (snd dm) \<subseteq> set (snd (write_entry base fresh fs existing kept_text dm entry))"
  "map_of (fst (write_entry base fresh fs existing kept_text dm entry)) x = map_of (fst dm) x \<or>
    x \<in> set (snd (write_entry base fresh fs existing kept_text dm entry))"
  by (cases dm; auto simp: write_entry_def Let_def update_conv')+

lemma unlink_staged:
  "set (snd dm) \<subseteq> set (snd (unlink_segment base dm s))"
  "map_of (fst (unlink_segment base dm s)) x = map_of (fst dm) x \<or> x \<in> set (snd (unlink_segment base dm s))"
  by (cases dm; auto simp: unlink_segment_def Let_def delete_conv')+

lemma foldl_staged:
  assumes "\<And>dm y. set (snd dm) \<subseteq> set (snd (f dm y))"
    and "\<And>dm y x. map_of (fst (f dm y)) x = map_of (fst dm) x \<or> x \<in> set (snd (f dm y))"
  shows "set (snd dm) \<subseteq> set (snd (foldl f dm ys)) \<and>
    (map_of (fst (foldl f dm ys)) x = map_of (fst dm) x \<or> x \<in> set (snd (foldl f dm ys)))"
proof (induction ys arbitrary: dm)
  case (Cons y ys)
  have step: "set (snd dm) \<subseteq> set (snd (f dm y))" "map_of (fst (f dm y)) x = map_of (fst dm) x \<or> x \<in> set (snd (f dm y))"
    by (rule assms)+
  show ?case using step Cons.IH [of "f dm y"] unfolding foldl_Cons by (metis subset_iff)
qed simp

lemma apply_plan_staged:
  "map_of (fst (apply_plan base fresh fs existing kept_text segs wp d)) x = map_of d x \<or>
    x \<in> set (snd (apply_plan base fresh fs existing kept_text segs wp d))"
proof -
  let ?e = "foldl (write_entry base fresh fs existing kept_text) (d, []) (wp_entries wp)"
  have "map_of (fst ?e) x = map_of d x \<or> x \<in> set (snd ?e)"
    using foldl_staged [of "write_entry base fresh fs existing kept_text" "(d, [])" "wp_entries wp" x, OF write_entry_staged]
    by simp
  then show ?thesis
    using foldl_staged [of "unlink_segment base" ?e "[Suc (wp_active wp)..<segs]" x, OF unlink_staged]
    unfolding apply_plan_def by (elim conjE disjE) (auto dest: subsetD)
qed

text \<open>C6: The writer reports every segment file it creates, changes or removes, so staging the reported paths
  stages the whole change.\<close>

theorem write_reports_changes:
  "case write_segments base max_bytes state d records of
     None \<Rightarrow> True
   | Some (state1, d1, modified) \<Rightarrow> {name. map_of d1 name \<noteq> map_of d name} \<subseteq> set modified"
proof (cases "write_segments base max_bytes state d records")
  case (Some r)
  obtain state1 d1 modified where r: "r = (state1, d1, modified)" by (cases r)
  have "map_of d1 x = map_of d x \<or> x \<in> set modified" for x
  proof (cases "unchanged_records state records")
    case False
    then obtain fresh fs existing kept_text segs wp where "apply_plan base fresh fs existing kept_text segs wp d = (d1, modified)"
      using Some unfolding r write_segments_def Let_def
      by (auto simp: bind_eq_Some_conv simp del: split_paired_Ex split: prod.splits)
    then show ?thesis using apply_plan_staged [of base fresh fs existing kept_text segs wp d x] by simp
  qed (use Some r in \<open>simp add: write_segments_def Let_def\<close>)
  then show ?thesis unfolding Some r by auto
qed simp

text \<open>A directory with a stale segment, a first write, an append after the newest segment was cut.\<close>

definition sample_steps :: "log_step list" where
  "sample_steps =
     [WriteLog [\<lparr>lr_ref = 1, lr_json = ''1''\<rparr>, \<lparr>lr_ref = 2, lr_json = ''2''\<rparr>, \<lparr>lr_ref = 3, lr_json = ''3''\<rparr>],
      TearNewest 0]"

definition sample_history :: "log_record list" where
  "sample_history =
     [\<lparr>lr_ref = 1, lr_json = ''1''\<rparr>, \<lparr>lr_ref = 2, lr_json = ''2''\<rparr>, \<lparr>lr_ref = 3, lr_json = ''33''\<rparr>,
      \<lparr>lr_ref = 4, lr_json = ''4''\<rparr>]"


lemma sample_log_on_disk:
  "map_option (\<lambda>(state, d1, torn, written). (d1, torn))
     (log_run_steps ''t.jsonl'' 4 (None, [(''t-0007.jsonl'', ''stale'')], False, []) (sample_steps @ [WriteLog sample_history])) =
   Some ([(''t.jsonl'', [CHR ''1'', newline, CHR ''2'', newline]),
          (''t-0001.jsonl'', [CHR ''3'', CHR ''3'', newline, CHR ''4'', newline])], False)"
  by code_simp

end
