(* ===== verification/CodexPatch.thy ===== *)
theory CodexPatch
  imports JsPrelude
begin

text \<open>
  The \<open>apply_patch\<close> parser and applier (\<open>src/agent/codex-apply-patch.ts\<close>). The parser's
  index into the body is the list of lines still to read; a throw is \<open>Inl\<close> with the message.
  Paths are POSIX paths. The lemmas show that every well-formed patch is parsed back from its
  text, that an applied update is a chain of edits each of which replaced lines matching the
  hunk's old lines, and how the result ends.
\<close>

section \<open>Patches\<close>

definition begin_patch :: string where "begin_patch = ''*** Begin Patch''"
definition end_patch :: string where "end_patch = ''*** End Patch''"
definition add_file :: string where "add_file = ''*** Add File: ''"
definition delete_file :: string where "delete_file = ''*** Delete File: ''"
definition update_file :: string where "update_file = ''*** Update File: ''"
definition move_to :: string where "move_to = ''*** Move to: ''"
definition end_of_file :: string where "end_of_file = ''*** End of File''"

datatype hunk_line_kind = ContextLine | RemoveLine | AddLine

record hunk_line =
  hl_kind :: hunk_line_kind
  hl_text :: string

record patch_hunk =
  hk_header :: "string option"
  hk_lines :: "hunk_line list"
  hk_end_of_file :: bool

datatype patch_op =
    PatchAdd string string
  | PatchDelete string
  | PatchUpdate string "string option" "patch_hunk list"

datatype codex_patch_error = CodexApplyPatchError string

definition quoted :: "string \<Rightarrow> string" where
  "quoted s = squote # s @ [squote]"

section \<open>Parser\<close>

definition is_windows_absolute :: "string \<Rightarrow> bool" where
  "is_windows_absolute path \<longleftrightarrow>
     (case path of
        c # d # e # _ \<Rightarrow> is_alpha c \<and> d = CHR '':'' \<and> (e = backslash \<or> e = CHR ''/'')
      | _ \<Rightarrow> False) \<or>
     starts_with path [backslash, backslash]"

definition is_absolute :: "string \<Rightarrow> bool" where
  "is_absolute path = starts_with path ''/''"

definition require_relative_path :: "string \<Rightarrow> string \<Rightarrow> codex_patch_error + string" where
  "require_relative_path raw label =
     (let path = trim raw in
      if path = [] then Inl (CodexApplyPatchError (label @ '': path must be non-empty''))
      else if is_absolute path \<or> is_windows_absolute path
        then Inl (CodexApplyPatchError
               (label @ '': path must be relative, never absolute (got '' @ quoted path @ '')''))
      else Inr path)"

definition is_file_op_header :: "string \<Rightarrow> bool" where
  "is_file_op_header line \<longleftrightarrow>
     starts_with line add_file \<or> starts_with line delete_file \<or> starts_with line update_file"

definition is_hunk_start :: "string \<Rightarrow> bool" where
  "is_hunk_start line \<longleftrightarrow> line = ''@@'' \<or> starts_with line ''@@''"

fun hunk_kind_of :: "char \<Rightarrow> hunk_line_kind option" where
  "hunk_kind_of c =
     (if c = CHR '' '' then Some ContextLine
      else if c = CHR ''-'' then Some RemoveLine
      else if c = CHR ''+'' then Some AddLine
      else None)"

text \<open>The lines of a hunk, whether the end-of-file marker closed it, and the lines after it.\<close>

fun parse_hunk_lines :: "string list \<Rightarrow> codex_patch_error + hunk_line list \<times> bool \<times> string list" where
  "parse_hunk_lines [] = Inr ([], False, [])"
| "parse_hunk_lines (raw # rest) =
     (if raw = end_of_file then Inr ([], True, rest)
      else if is_hunk_start raw \<or> is_file_op_header raw then Inr ([], False, raw # rest)
      else if starts_with raw ''***''
        then Inl (CodexApplyPatchError (''unexpected marker inside hunk: '' @ raw))
      else (case (case raw of [] \<Rightarrow> None | c # _ \<Rightarrow> hunk_kind_of c) of
              None \<Rightarrow> Inl (CodexApplyPatchError
                (''invalid hunk line (must start with '' @ quoted '' '' @ '', '' @ quoted ''-'' @
                 '', or '' @ quoted ''+'' @ ''): '' @ raw))
            | Some kind \<Rightarrow>
                try_bind (parse_hunk_lines rest) (\<lambda>(hls, eof, after).
                  Inr (\<lparr>hl_kind = kind, hl_text = tl raw\<rparr> # hls, eof, after))))"

definition parse_hunk_header :: "string \<Rightarrow> codex_patch_error + string option" where
  "parse_hunk_header headerLine =
     (if headerLine = ''@@'' then Inr None
      else if starts_with headerLine ''@@ '' then Inr (Some (drop 3 headerLine))
      else if starts_with headerLine ''@@'' then Inr (Some (trim_start (drop 2 headerLine)))
      else Inl (CodexApplyPatchError
             (''expected hunk start '' @ quoted ''@@'' @ '', got: '' @ headerLine)))"

fun parse_hunk :: "string list \<Rightarrow> codex_patch_error + patch_hunk \<times> string list" where
  "parse_hunk [] = Inl (CodexApplyPatchError (''expected hunk start '' @ quoted ''@@''))"
| "parse_hunk (headerLine # rest) =
     try_bind (parse_hunk_header headerLine) (\<lambda>header.
       try_bind (parse_hunk_lines rest) (\<lambda>(hls, eof, after).
         if \<not> eof \<and> hls = [] \<and> (header = None \<or> header = Some [])
         then Inl (CodexApplyPatchError
                (''empty hunk: expected at least one '' @ quoted '' '' @ ''/'' @ quoted ''+'' @ ''/'' @
                 quoted ''-'' @ '' line after '' @ quoted ''@@''))
         else Inr (\<lparr>hk_header = header, hk_lines = hls, hk_end_of_file = eof\<rparr>, after)))"

lemma parse_hunk_lines_rest: "parse_hunk_lines ls = Inr (hls, eof, after) \<Longrightarrow> length after \<le> length ls"
  by (induction ls arbitrary: hls eof after rule: parse_hunk_lines.induct)
    (fastforce simp: try_bind_Inr split: if_splits option.splits list.splits)+

lemma parse_hunk_rest: "parse_hunk ls = Inr (hunk, after) \<Longrightarrow> length after < length ls"
  by (cases ls) (auto simp: try_bind_Inr le_imp_less_Suc dest!: parse_hunk_lines_rest split: if_splits)

declare parse_hunk.simps [simp del]

text \<open>The loop over the hunks of an update.\<close>

function parse_hunks :: "string list \<Rightarrow> codex_patch_error + patch_hunk list \<times> string list" where
  "parse_hunks [] = Inr ([], [])"
| "parse_hunks (line # rest) =
     (if \<not> is_hunk_start line then Inr ([], line # rest)
      else (case parse_hunk (line # rest) of
              Inl e \<Rightarrow> Inl e
            | Inr (hunk, after) \<Rightarrow>
                try_bind (parse_hunks after) (\<lambda>(hunks, after'). Inr (hunk # hunks, after'))))"
  by pat_completeness auto
termination
  by (relation "measure length") (auto dest: parse_hunk_rest)

lemma parse_hunks_rest: "parse_hunks ls = Inr (hunks, after) \<Longrightarrow> length after \<le> length ls"
proof (induction ls arbitrary: hunks after rule: parse_hunks.induct)
  case (2 line rest)
  show ?case
  proof (cases "is_hunk_start line")
    case True
    then obtain h a hs where "parse_hunk (line # rest) = Inr (h, a)" "parse_hunks a = Inr (hs, after)"
      using "2.prems" by (auto simp: try_bind_Inr split: sum.splits)
    then have "length after \<le> length a" "length a < length (line # rest)"
      using "2.IH" [of "(h, a)" h a hs after] True parse_hunk_rest [of "line # rest" h a] by auto
    then show ?thesis by simp
  qed (use "2.prems" in simp)
qed simp

definition expect_file_op :: "string \<Rightarrow> string list \<Rightarrow> codex_patch_error + unit" where
  "expect_file_op msg after =
     (case after of
        next # _ \<Rightarrow> (if is_file_op_header next then Inr () else Inl (CodexApplyPatchError (msg @ next)))
      | [] \<Rightarrow> Inr ())"

definition parse_move :: "string list \<Rightarrow> codex_patch_error + string option \<times> string list" where
  "parse_move ls =
     (case ls of
        maybeMove # rest \<Rightarrow>
          (if starts_with maybeMove move_to
           then try_bind (require_relative_path (drop (length move_to) maybeMove) ''Move to'')
                  (\<lambda>p. Inr (Some p, rest))
           else Inr (None, ls))
      | [] \<Rightarrow> Inr (None, ls))"

definition is_plus_line :: "string \<Rightarrow> bool" where
  "is_plus_line line = starts_with line ''+''"

text \<open>One file operation: the branch of the parser's loop for the line at the cursor.\<close>

definition parse_op :: "string \<Rightarrow> string list \<Rightarrow> codex_patch_error + patch_op \<times> string list" where
  "parse_op line rest =
     (if starts_with line add_file then
        try_bind (require_relative_path (drop (length add_file) line) ''Add File'') (\<lambda>path.
          let contentLines = map (drop 1) (takeWhile is_plus_line rest);
              after = dropWhile is_plus_line rest
          in try_bind (expect_file_op (''malformed Add File '' @ quoted path @ '': expected '' @
                         quoted ''+'' @ '' content lines or next file op, got: '') after)
               (\<lambda>_. Inr (PatchAdd path (concat (map (\<lambda>l. l @ [newline]) contentLines)), after)))
      else if starts_with line delete_file then
        try_bind (require_relative_path (drop (length delete_file) line) ''Delete File'') (\<lambda>path.
          Inr (PatchDelete path, rest))
      else if starts_with line update_file then
        try_bind (require_relative_path (drop (length update_file) line) ''Update File'') (\<lambda>path.
          try_bind (parse_move rest) (\<lambda>(moveTo, rest').
            try_bind (parse_hunks rest') (\<lambda>(hunks, after).
              try_bind (expect_file_op (''malformed Update File '' @ quoted path @
                          '': expected hunk ('' @ quoted ''@@'' @ '') or next file op, got: '') after)
                (\<lambda>_. Inr (PatchUpdate path moveTo hunks, after)))))
      else Inl (CodexApplyPatchError
             (''malformed envelope: expected file op header (Add/Delete/Update File), got: '' @ line)))"

lemma parse_move_rest: "parse_move ls = Inr (m, after) \<Longrightarrow> length after \<le> length ls"
  by (auto simp: parse_move_def try_bind_Inr split: list.splits if_splits)

lemma parse_op_rest: "parse_op line rest = Inr (op, after) \<Longrightarrow> length after \<le> length rest"
  by (auto simp: parse_op_def try_bind_Inr Let_def length_dropWhile_le
      dest!: parse_hunks_rest parse_move_rest split: if_splits)

function parse_ops :: "string list \<Rightarrow> codex_patch_error + patch_op list" where
  "parse_ops [] = Inr []"
| "parse_ops (line # rest) =
     (case parse_op line rest of
        Inl e \<Rightarrow> Inl e
      | Inr (op, after) \<Rightarrow> try_bind (parse_ops after) (\<lambda>ops. Inr (op # ops)))"
  by pat_completeness auto
termination
  by (relation "measure length") (auto dest: parse_op_rest)

definition parse_codex_apply_patch :: "string \<Rightarrow> codex_patch_error + patch_op list" where
  "parse_codex_apply_patch input =
     (let rawLines = split_char newline input in
      if rawLines = [] then Inl (CodexApplyPatchError (''empty patch: expected '' @ quoted begin_patch))
      else (let lines = (if last rawLines = [] then butlast rawLines else rawLines) in
        if lines = [] \<or> trim (hd lines) \<noteq> begin_patch
          then Inl (CodexApplyPatchError
                 (''malformed envelope: first line must be '' @ quoted begin_patch))
        else if trim (last lines) \<noteq> end_patch
          then Inl (CodexApplyPatchError
                 (''malformed envelope: last line must be '' @ quoted end_patch))
        else parse_ops (butlast (tl lines))))"

definition extract_affected_paths :: "patch_op list \<Rightarrow> string list" where
  "extract_affected_paths ops =
     foldl (\<lambda>out op.
        case op of
          PatchAdd path _ \<Rightarrow> jset_add path out
        | PatchDelete path \<Rightarrow> jset_add path out
        | PatchUpdate path moveTo _ \<Rightarrow>
            (case moveTo of
               None \<Rightarrow> jset_add path out
             | Some dest \<Rightarrow> jset_add dest (jset_add path out)))
       [] ops"

section \<open>Applier\<close>

text \<open>First index from \<open>from\<close> on whose line satisfies the predicate.\<close>

definition find_from :: "(string \<Rightarrow> bool) \<Rightarrow> string list \<Rightarrow> nat \<Rightarrow> nat option" where
  "find_from P lines from = find (\<lambda>i. P (lines ! i)) [from..<length lines]"

definition first_found :: "'a option list \<Rightarrow> 'a option" where
  "first_found xs = (case filter (\<lambda>x. x \<noteq> None) xs of [] \<Rightarrow> None | x # _ \<Rightarrow> x)"

definition find_line_from :: "string list \<Rightarrow> string \<Rightarrow> nat \<Rightarrow> nat option" where
  "find_line_from lines target from =
     first_found
       [find_from (\<lambda>l. l = target) lines from,
        find_from (\<lambda>l. trim_end l = trim_end target) lines from,
        find_from (\<lambda>l. trim l = trim target) lines from]"

definition window_matches :: "(string \<Rightarrow> string \<Rightarrow> bool) \<Rightarrow> string list \<Rightarrow> string list \<Rightarrow> nat \<Rightarrow> bool" where
  "window_matches eq lines pattern i =
     list_all2 eq (take (length pattern) (drop i lines)) pattern"

definition try_from ::
    "string list \<Rightarrow> string list \<Rightarrow> (string \<Rightarrow> string \<Rightarrow> bool) \<Rightarrow> nat \<Rightarrow> nat option" where
  "try_from lines pattern eq start =
     find (window_matches eq lines pattern) [start..<Suc (length lines - length pattern)]"

definition find_sequence :: "string list \<Rightarrow> string list \<Rightarrow> nat \<Rightarrow> bool \<Rightarrow> nat option" where
  "find_sequence lines pattern from endOfFile =
     (if pattern = [] then Some from
      else if length lines < length pattern then None
      else (let searchStart = (if endOfFile then length lines - length pattern else from);
                starts = (if endOfFile \<and> searchStart \<noteq> from then [searchStart, from] else [searchStart])
            in first_found
                 (map (try_from lines pattern (\<lambda>a b. a = b)) starts @
                  map (try_from lines pattern (\<lambda>a b. trim_end a = trim_end b)) starts @
                  map (try_from lines pattern (\<lambda>a b. trim a = trim b)) starts)))"

definition old_lines :: "hunk_line list \<Rightarrow> string list" where
  "old_lines hls = map hl_text (filter (\<lambda>hl. hl_kind hl = ContextLine \<or> hl_kind hl = RemoveLine) hls)"

definition new_lines :: "hunk_line list \<Rightarrow> string list" where
  "new_lines hls = map hl_text (filter (\<lambda>hl. hl_kind hl = ContextLine \<or> hl_kind hl = AddLine) hls)"

definition seek_header :: "string list \<Rightarrow> nat \<Rightarrow> string option \<Rightarrow> codex_patch_error + nat" where
  "seek_header lines cursor header =
     (case header of
        None \<Rightarrow> Inr cursor
      | Some h \<Rightarrow>
          (if h = [] then Inr cursor
           else (case find_line_from lines h cursor of
                   None \<Rightarrow> Inl (CodexApplyPatchError
                     (''failed to find hunk context header '' @ quoted h))
                 | Some idx \<Rightarrow> Inr (idx + 1))))"

text \<open>One round of the loop over the hunks: the new lines and cursor.\<close>

definition apply_hunk ::
    "string list \<Rightarrow> nat \<Rightarrow> patch_hunk \<Rightarrow> codex_patch_error + string list \<times> nat" where
  "apply_hunk lines cursor0 hunk =
     try_bind (seek_header lines cursor0 (hk_header hunk)) (\<lambda>cursor.
       let olds = old_lines (hk_lines hunk); news = new_lines (hk_lines hunk) in
       if olds = [] then
         (if news = [] then Inr (lines, cursor)
          else (let at = (if hk_end_of_file hunk then length lines else cursor)
                in Inr (take at lines @ news @ drop at lines, at + length news)))
       else
         (case find_sequence lines olds cursor (hk_end_of_file hunk) of
            None \<Rightarrow> Inl (CodexApplyPatchError
              (''failed to find expected lines in file:'' @ [newline] @ join [newline] olds))
          | Some start \<Rightarrow>
              Inr (take start lines @ news @ drop (start + length olds) lines, start + length news)))"

fun apply_hunk_list ::
    "string list \<Rightarrow> nat \<Rightarrow> patch_hunk list \<Rightarrow> codex_patch_error + string list" where
  "apply_hunk_list lines cursor [] = Inr lines"
| "apply_hunk_list lines cursor (hunk # hunks) =
     try_bind (apply_hunk lines cursor hunk) (\<lambda>(lines', cursor').
       apply_hunk_list lines' cursor' hunks)"

text \<open>The lines of a file: without its final newline, and none for an empty or blank file.\<close>

definition file_lines :: "string \<Rightarrow> string list" where
  "file_lines original =
     (if original = [] then []
      else (let lines = split_char newline
                  (if last original = newline then butlast original else original)
            in if lines = [[]] \<and> original = [newline] then [] else lines))"

definition apply_update_hunks :: "string \<Rightarrow> patch_hunk list \<Rightarrow> codex_patch_error + string" where
  "apply_update_hunks original hunks =
     try_bind (apply_hunk_list (file_lines original) 0 hunks) (\<lambda>lines.
       if lines = [] then Inr (if original \<noteq> [] then [newline] else [])
       else Inr (join [newline] lines @ [newline]))"

section \<open>Round trip\<close>

text \<open>The text of a patch, by the grammar in the source's header comment.\<close>

fun kind_char :: "hunk_line_kind \<Rightarrow> char" where
  "kind_char ContextLine = CHR '' ''"
| "kind_char RemoveLine = CHR ''-''"
| "kind_char AddLine = CHR ''+''"

definition render_line :: "hunk_line \<Rightarrow> string" where
  "render_line hl = kind_char (hl_kind hl) # hl_text hl"

definition render_hunk :: "patch_hunk \<Rightarrow> string list" where
  "render_hunk hk =
     (case hk_header hk of None \<Rightarrow> ''@@'' | Some h \<Rightarrow> ''@@ '' @ h) #
     map render_line (hk_lines hk) @ (if hk_end_of_file hk then [end_of_file] else [])"

fun render_op :: "patch_op \<Rightarrow> string list" where
  "render_op (PatchAdd path content) =
     (add_file @ path) # map ((#) (CHR ''+'')) (butlast (split_char newline content))"
| "render_op (PatchDelete path) = [delete_file @ path]"
| "render_op (PatchUpdate path moveTo hunks) =
     (update_file @ path) # (case moveTo of None \<Rightarrow> [] | Some dest \<Rightarrow> [move_to @ dest]) @
     concat (map render_hunk hunks)"

definition render_patch :: "patch_op list \<Rightarrow> string" where
  "render_patch ops = join [newline] (begin_patch # concat (map render_op ops) @ [end_patch])"

definition path_ok :: "string \<Rightarrow> bool" where
  "path_ok p \<longleftrightarrow> trim p = p \<and> p \<noteq> [] \<and> \<not> is_absolute p \<and> \<not> is_windows_absolute p \<and> newline \<notin> set p"

definition hunk_ok :: "patch_hunk \<Rightarrow> bool" where
  "hunk_ok hk \<longleftrightarrow>
     (case hk_header hk of None \<Rightarrow> True | Some h \<Rightarrow> newline \<notin> set h) \<and>
     list_all (\<lambda>hl. newline \<notin> set (hl_text hl)) (hk_lines hk) \<and>
     (hk_lines hk \<noteq> [] \<or> hk_end_of_file hk \<or>
      (case hk_header hk of None \<Rightarrow> False | Some h \<Rightarrow> h \<noteq> []))"

fun op_ok :: "patch_op \<Rightarrow> bool" where
  "op_ok (PatchAdd path content) = (path_ok path \<and> (content = [] \<or> last content = newline))"
| "op_ok (PatchDelete path) = path_ok path"
| "op_ok (PatchUpdate path moveTo hunks) =
     (path_ok path \<and> (case moveTo of None \<Rightarrow> True | Some dest \<Rightarrow> path_ok dest) \<and> list_all hunk_ok hunks)"

lemmas marker_defs =
  begin_patch_def end_patch_def add_file_def delete_file_def update_file_def move_to_def end_of_file_def

lemma render_line_plain [simp]:
  "render_line hl \<noteq> end_of_file" "\<not> is_hunk_start (render_line hl)"
  "\<not> is_file_op_header (render_line hl)" "\<not> starts_with (render_line hl) ''***''"
  by (cases "hl_kind hl"; simp add: render_line_def is_hunk_start_def is_file_op_header_def marker_defs)+

lemma render_line_kind [simp]:
  "(case render_line hl of [] \<Rightarrow> None | c # _ \<Rightarrow> hunk_kind_of c) = Some (hl_kind hl)"
  "\<lparr>hl_kind = hl_kind hl, hl_text = tl (render_line hl)\<rparr> = hl"
  by (cases "hl_kind hl"; simp add: render_line_def)+

text \<open>Where the lines of a hunk end: at a file operation, another hunk, or the end of the body.\<close>

definition hunk_stop :: "string list \<Rightarrow> bool" where
  "hunk_stop rest \<longleftrightarrow> rest = [] \<or> is_file_op_header (hd rest) \<or> is_hunk_start (hd rest)"

definition op_stop :: "string list \<Rightarrow> bool" where
  "op_stop rest \<longleftrightarrow> rest = [] \<or> is_file_op_header (hd rest)"

lemma file_op_header_plain:
  assumes "is_file_op_header l"
  shows "l \<noteq> end_of_file" "\<not> is_hunk_start l" "\<not> starts_with l move_to" "\<not> is_plus_line l"
  using assms
  by (auto simp: is_file_op_header_def is_hunk_start_def is_plus_line_def starts_with_iff marker_defs)

lemma hunk_start_plain: "is_hunk_start l \<Longrightarrow> l \<noteq> end_of_file \<and> \<not> starts_with l move_to"
  by (auto simp: is_hunk_start_def starts_with_iff marker_defs)

lemma parse_rendered_lines:
  "hunk_stop rest \<Longrightarrow> parse_hunk_lines (map render_line hls @ rest) = Inr (hls, False, rest)"
proof (induction hls)
  case Nil
  then show ?case
    using hunk_start_plain file_op_header_plain(1) by (cases rest) (auto simp: hunk_stop_def)
qed simp

lemma parse_rendered_lines_eof:
  "parse_hunk_lines (map render_line hls @ end_of_file # rest) = Inr (hls, True, rest)"
  by (induction hls) simp_all

lemma parse_rendered_header:
  "parse_hunk_header (case h of None \<Rightarrow> ''@@'' | Some t \<Rightarrow> ''@@ '' @ t) = Inr h"
  by (cases h) (simp_all add: parse_hunk_header_def)

lemma parse_rendered_hunk:
  assumes "hunk_ok hk" "hunk_stop rest"
  shows "parse_hunk (render_hunk hk @ rest) = Inr (hk, rest)"
  using assms parse_rendered_lines [OF assms(2)] parse_rendered_lines_eof
  by (cases "hk_end_of_file hk")
    (auto simp: render_hunk_def parse_hunk.simps parse_rendered_header hunk_ok_def split: option.splits)

lemma render_hunk_start: "is_hunk_start (hd (render_hunk hk))" "render_hunk hk \<noteq> []"
  by (auto simp: render_hunk_def is_hunk_start_def split: option.splits)

lemma parse_rendered_hunks:
  "list_all hunk_ok hunks \<Longrightarrow> op_stop rest \<Longrightarrow>
     parse_hunks (concat (map render_hunk hunks) @ rest) = Inr (hunks, rest)"
proof (induction hunks)
  case Nil
  then show ?case using file_op_header_plain(2) by (cases rest) (auto simp: op_stop_def)
next
  case (Cons hk hunks)
  let ?rest = "concat (map render_hunk hunks) @ rest"
  have "hunk_stop ?rest"
    using Cons.prems(2) render_hunk_start by (cases hunks) (auto simp: hunk_stop_def op_stop_def)
  then have "parse_hunk (render_hunk hk @ ?rest) = Inr (hk, ?rest)"
    using parse_rendered_hunk Cons.prems(1) by simp
  moreover obtain l ls where "render_hunk hk @ ?rest = l # ls" "is_hunk_start l"
    using render_hunk_start [of hk] by (cases "render_hunk hk") auto
  ultimately show ?case using Cons by simp
qed

lemma require_relative_path_ok [simp]: "path_ok p \<Longrightarrow> require_relative_path p label = Inr p"
  by (simp add: require_relative_path_def path_ok_def)

lemma expect_file_op_ok [simp]: "op_stop rest \<Longrightarrow> expect_file_op msg rest = Inr ()"
  by (auto simp: expect_file_op_def op_stop_def split: list.splits)

lemma op_markers_distinct:
  "\<not> starts_with (delete_file @ p) add_file" "\<not> starts_with (update_file @ p) add_file"
  "\<not> starts_with (update_file @ p) delete_file"
  by (simp_all add: marker_defs)

lemma content_lines:
  assumes "content = [] \<or> last content = c"
  shows "concat (map (\<lambda>l. l @ [c]) (butlast (split_char c content))) = content"
  using assms
proof (induction content)
  case (Cons d s)
  obtain w ws where ws: "split_char c s = w # ws" by (cases "split_char c s") auto
  show ?case
  proof (cases "s = []")
    case True
    then show ?thesis using Cons.prems by simp
  next
    case False
    then have IH: "concat (map (\<lambda>l. l @ [c]) (butlast (w # ws))) = s"
      using Cons ws by simp
    then have "ws \<noteq> []" using False by auto
    then show ?thesis using IH ws by auto
  qed
qed simp

lemma parse_move_none: "\<not> (ls \<noteq> [] \<and> starts_with (hd ls) move_to) \<Longrightarrow> parse_move ls = Inr (None, ls)"
  by (cases ls) (simp_all add: parse_move_def)

lemma parse_rendered_op:
  assumes "op_ok op" "op_stop rest"
  shows "parse_op (hd (render_op op)) (tl (render_op op) @ rest) = Inr (op, rest)"
proof (cases op)
  case (PatchAdd path content)
  let ?ls = "butlast (split_char newline content)"
  have "\<not> (rest \<noteq> [] \<and> is_plus_line (hd rest))"
    using assms(2) file_op_header_plain(4) by (auto simp: op_stop_def)
  then have base: "takeWhile is_plus_line rest = []" "dropWhile is_plus_line rest = rest"
    by (cases rest; simp)+
  have "takeWhile is_plus_line (map ((#) (CHR ''+'')) ls @ rest) = map ((#) (CHR ''+'')) ls \<and>
    dropWhile is_plus_line (map ((#) (CHR ''+'')) ls @ rest) = rest" for ls
    by (induction ls) (simp_all add: base, simp_all add: is_plus_line_def)
  moreover have "map (drop 1) (map ((#) (CHR ''+'')) ?ls) = ?ls" by (simp add: comp_def)
  ultimately show ?thesis
    using assms PatchAdd content_lines [of content newline]
    by (simp add: parse_op_def Let_def comp_def)
next
  case (PatchDelete path)
  then show ?thesis using assms by (simp add: parse_op_def op_markers_distinct)
next
  case (PatchUpdate path moveTo hunks)
  let ?hs = "concat (map render_hunk hunks) @ rest"
  have "\<not> (?hs \<noteq> [] \<and> starts_with (hd ?hs) move_to)"
    using assms(2) file_op_header_plain(3) hunk_start_plain render_hunk_start
    by (cases hunks) (auto simp: op_stop_def)
  then have "parse_move ?hs = Inr (None, ?hs)"
    by (rule parse_move_none)
  moreover have "path_ok dest \<Longrightarrow> parse_move ((move_to @ dest) # ?hs) = Inr (Some dest, ?hs)" for dest
    by (simp add: parse_move_def)
  moreover have "parse_hunks ?hs = Inr (hunks, rest)"
    using assms PatchUpdate by (intro parse_rendered_hunks) simp_all
  ultimately show ?thesis
    using assms PatchUpdate
    by (cases moveTo) (simp_all add: parse_op_def op_markers_distinct)
qed

lemma render_op_header: "render_op op \<noteq> []" "is_file_op_header (hd (render_op op))"
  by (cases op; simp add: is_file_op_header_def)+

lemma parse_rendered_ops: "list_all op_ok ops \<Longrightarrow> parse_ops (concat (map render_op ops)) = Inr ops"
proof (induction ops)
  case (Cons op ops)
  let ?rest = "concat (map render_op ops)"
  have "op_stop ?rest" using render_op_header by (cases ops) (auto simp: op_stop_def)
  then have "parse_op (hd (render_op op)) (tl (render_op op) @ ?rest) = Inr (op, ?rest)"
    using parse_rendered_op Cons.prems by simp
  moreover obtain l ls where "render_op op = l # ls" using render_op_header(1) by (cases "render_op op") auto
  ultimately show ?case using Cons by simp
qed simp

lemma render_op_lines: "op_ok op \<Longrightarrow> l \<in> set (render_op op) \<Longrightarrow> newline \<notin> set l"
proof (cases op)
  case (PatchAdd path content)
  assume "op_ok op" "l \<in> set (render_op op)"
  then show ?thesis
    using PatchAdd by (auto simp: path_ok_def marker_defs dest!: in_set_butlastD split_char_no_sep_member)
next
  case (PatchDelete path)
  assume "op_ok op" "l \<in> set (render_op op)"
  then show ?thesis using PatchDelete by (auto simp: path_ok_def marker_defs)
next
  case (PatchUpdate path moveTo hunks)
  have kinds: "kind_char k \<noteq> newline" for k by (cases k) simp_all
  assume "op_ok op" "l \<in> set (render_op op)"
  then show ?thesis
    using PatchUpdate kinds
    by (auto simp: path_ok_def hunk_ok_def render_hunk_def render_line_def list_all_iff marker_defs
        split: option.splits if_splits) fastforce+
qed

lemma envelope_trim: "trim begin_patch = begin_patch" "trim end_patch = end_patch"
  "newline \<notin> set begin_patch" "newline \<notin> set end_patch" "end_patch \<noteq> []"
  by code_simp+

text \<open>
  C19: every well-formed patch is read back from its text, with or without a final newline:
  its operations, paths, moves, hunks, anchors, end-of-file marks and added contents, with
  nothing lost, merged or reordered.
\<close>

theorem patch_round_trip:
  assumes "list_all op_ok ops"
  shows "parse_codex_apply_patch (render_patch ops) = Inr ops \<and>
         parse_codex_apply_patch (render_patch ops @ [newline]) = Inr ops"
proof -
  let ?ls = "begin_patch # concat (map render_op ops) @ [end_patch]"
  have clean: "newline \<notin> set l" if "l \<in> set ?ls" for l
    using that assms envelope_trim render_op_lines by (auto simp: list_all_iff)
  then have "split_char newline (render_patch ops) = ?ls"
    unfolding render_patch_def by (intro split_char_join) simp_all
  moreover have "render_patch ops @ [newline] = join [newline] (?ls @ [[]])"
    unfolding render_patch_def by (simp add: join_snoc_Nil del: append.simps append_assoc)
  moreover have "split_char newline (join [newline] (?ls @ [[]])) = ?ls @ [[]]"
    using clean by (intro split_char_join) auto
  ultimately show ?thesis
    using parse_rendered_ops [OF assms] envelope_trim
    by (simp add: parse_codex_apply_patch_def Let_def butlast_append)
qed

definition sample_hunk :: patch_hunk where
  "sample_hunk =
     \<lparr>hk_header = Some ''def f'',
      hk_lines = [\<lparr>hl_kind = ContextLine, hl_text = ''a''\<rparr>, \<lparr>hl_kind = RemoveLine, hl_text = ''b''\<rparr>,
                  \<lparr>hl_kind = AddLine, hl_text = ''c''\<rparr>],
      hk_end_of_file = False\<rparr>"

theorem patch_round_trip_witness:
  "parse_codex_apply_patch
     (render_patch [PatchAdd ''x.txt'' [CHR ''h'', CHR ''i'', newline],
                    PatchUpdate ''y.py'' (Some ''z.py'') [sample_hunk], PatchDelete ''old'']) =
   Inr [PatchAdd ''x.txt'' [CHR ''h'', CHR ''i'', newline],
        PatchUpdate ''y.py'' (Some ''z.py'') [sample_hunk], PatchDelete ''old'']"
  by (rule patch_round_trip [THEN conjunct1]) code_simp

section \<open>Applied updates\<close>

text \<open>
  What applying hunks may do: each hunk replaces, after the place the last one stopped at or at
  the end of the file when it says so, a run of lines that equals its old lines up to
  surrounding white space by its new lines. A hunk without old lines inserts, and a bare anchor
  changes nothing.
\<close>

definition lines_match :: "string list \<Rightarrow> string list \<Rightarrow> bool" where
  "lines_match ws ps \<longleftrightarrow> map trim ws = map trim ps"

inductive patched :: "string list \<Rightarrow> nat \<Rightarrow> patch_hunk list \<Rightarrow> string list \<Rightarrow> bool" where
  patched_done: "patched lines cursor [] lines"
| patched_edit: "lines_match window (old_lines (hk_lines hunk)) \<Longrightarrow>
     hk_end_of_file hunk \<or> cursor \<le> length before \<Longrightarrow>
     patched (before @ new_lines (hk_lines hunk) @ after)
       (length before + length (new_lines (hk_lines hunk))) hunks result \<Longrightarrow>
     patched (before @ window @ after) cursor (hunk # hunks) result"

lemma window_matches_trim:
  assumes "window_matches eq lines pattern i" "\<And>a b. eq a b \<Longrightarrow> trim a = trim b"
  shows "lines_match (take (length pattern) (drop i lines)) pattern"
proof -
  have "list_all2 eq xs ys \<Longrightarrow> map trim xs = map trim ys" for xs ys
    by (induction rule: list_all2_induct) (simp_all add: assms(2))
  then show ?thesis using assms(1) by (simp add: window_matches_def lines_match_def)
qed

lemma find_upt_Some: "find P [a..<b] = Some i \<Longrightarrow> a \<le> i \<and> i < b \<and> P i"
  by (auto simp: find_Some_iff)

lemma first_found_Some: "first_found xs = Some x \<Longrightarrow> Some x \<in> set xs"
  by (auto simp: first_found_def filter_eq_Cons_iff split: list.splits)

lemma try_from_Some:
  assumes "try_from lines pattern eq start = Some i" "\<And>a b. eq a b \<Longrightarrow> trim a = trim b"
    "length pattern \<le> length lines"
  shows "start \<le> i \<and> i + length pattern \<le> length lines \<and>
    lines_match (take (length pattern) (drop i lines)) pattern"
  using find_upt_Some [OF assms(1) [unfolded try_from_def]] window_matches_trim [OF _ assms(2)] assms(3)
  by fastforce

lemma three_maps:
  "x \<in> set (map f ys @ map g ys @ map h ys) \<Longrightarrow> \<exists>y \<in> set ys. x = f y \<or> x = g y \<or> x = h y"
  by auto

lemma find_sequence_Some:
  assumes "find_sequence lines pattern from eof = Some i" "pattern \<noteq> []"
  shows "(eof \<or> from \<le> i) \<and> i + length pattern \<le> length lines \<and>
    lines_match (take (length pattern) (drop i lines)) pattern"
proof -
  let ?s = "if eof then length lines - length pattern else from"
  have len: "length pattern \<le> length lines"
    using assms by (simp add: find_sequence_def split: if_splits)
  define starts where "starts = (if eof \<and> ?s \<noteq> from then [?s, from] else [?s])"
  define hit where "hit eq = try_from lines pattern eq" for eq
  define found where "found start \<longleftrightarrow> start \<le> i \<and> i + length pattern \<le> length lines \<and>
    lines_match (take (length pattern) (drop i lines)) pattern" for start
  have hit: "found start" if "Some i = hit eq start" "\<And>a b. eq a b \<Longrightarrow> trim a = trim b" for eq start
    using try_from_Some [OF that(1) [unfolded hit_def, symmetric] that(2) len] by (simp add: found_def)
  have "first_found (map (hit (\<lambda>a b. a = b)) starts @ map (hit (\<lambda>a b. trim_end a = trim_end b)) starts @
      map (hit (\<lambda>a b. trim a = trim b)) starts) = Some i"
    using assms len by (simp add: find_sequence_def Let_def starts_def hit_def)
  from three_maps [OF first_found_Some [OF this]] obtain start where start: "start \<in> set starts"
    "Some i = hit (\<lambda>a b. a = b) start \<or> Some i = hit (\<lambda>a b. trim_end a = trim_end b) start \<or>
     Some i = hit (\<lambda>a b. trim a = trim b) start" by blast
  from start(2) have "found start"
  proof (elim disjE)
    assume "Some i = hit (\<lambda>a b. a = b) start"
    then show ?thesis by (rule hit) simp
  next
    assume "Some i = hit (\<lambda>a b. trim_end a = trim_end b) start"
    then show ?thesis by (rule hit) (rule trim_end_trim)
  next
    assume "Some i = hit (\<lambda>a b. trim a = trim b) start"
    then show ?thesis by (rule hit)
  qed
  with start(1) have "start \<in> set starts" "found start" by blast+
  moreover have "eof \<or> start = from" if "start \<in> set starts" for start
    using that by (auto simp: starts_def split: if_splits)
  ultimately show ?thesis by (auto simp: found_def)
qed

lemma find_line_from_Some:
  assumes "find_line_from lines target from = Some i"
  shows "from \<le> i \<and> i < length lines"
proof -
  have "find_from P lines from = Some i \<Longrightarrow> from \<le> i \<and> i < length lines" for P
    unfolding find_from_def using find_upt_Some by blast
  then show ?thesis
    using first_found_Some [OF assms [unfolded find_line_from_def]] by (auto dest!: sym [of "Some i"])
qed

lemma seek_header_Inr:
  "seek_header lines c header = Inr c' \<Longrightarrow> c \<le> length lines \<Longrightarrow> c \<le> c' \<and> c' \<le> length lines"
  by (fastforce simp: seek_header_def dest: find_line_from_Some split: option.splits if_splits)

lemma apply_hunk_patched:
  assumes "apply_hunk lines c hunk = Inr (lines', c')" "c \<le> length lines"
  obtains before window after where "lines = before @ window @ after"
    "lines' = before @ new_lines (hk_lines hunk) @ after"
    "c' = length before + length (new_lines (hk_lines hunk))"
    "lines_match window (old_lines (hk_lines hunk))" "hk_end_of_file hunk \<or> c \<le> length before"
proof -
  let ?olds = "old_lines (hk_lines hunk)" and ?news = "new_lines (hk_lines hunk)"
  obtain d where d: "seek_header lines c (hk_header hunk) = Inr d"
    using assms(1) by (auto simp: apply_hunk_def try_bind_Inr)
  then have dl: "c \<le> d" "d \<le> length lines" using seek_header_Inr assms(2) by blast+
  show ?thesis
  proof (cases "?olds = []")
    case True
    let ?at = "if hk_end_of_file hunk \<and> ?news \<noteq> [] then length lines else d"
    have "lines' = take ?at lines @ ?news @ drop ?at lines" "c' = ?at + length ?news"
      using assms(1) d True by (auto simp: apply_hunk_def Let_def split: if_splits)
    then show ?thesis
      using True dl by (intro that [of "take ?at lines" "[]" "drop ?at lines"])
        (auto simp: lines_match_def)
  next
    case False
    then obtain s where s: "find_sequence lines ?olds d (hk_end_of_file hunk) = Some s"
      "lines' = take s lines @ ?news @ drop (s + length ?olds) lines" "c' = s + length ?news"
      using assms(1) d by (auto simp: apply_hunk_def Let_def split: option.splits)
    then have w: "hk_end_of_file hunk \<or> d \<le> s" "s + length ?olds \<le> length lines"
      "lines_match (take (length ?olds) (drop s lines)) ?olds"
      using find_sequence_Some [OF s(1) False] by blast+
    have "lines = take s lines @ take (length ?olds) (drop s lines) @ drop (s + length ?olds) lines"
      by (metis append_take_drop_id drop_drop add.commute)
    then show ?thesis
      using s w dl by (intro that [of "take s lines" _ "drop (s + length ?olds) lines"]) auto
  qed
qed

lemma apply_hunk_list_patched:
  "apply_hunk_list lines c hunks = Inr result \<Longrightarrow> c \<le> length lines \<Longrightarrow> patched lines c hunks result"
proof (induction lines c hunks rule: apply_hunk_list.induct)
  case (1 lines c)
  then show ?case by (simp add: patched_done)
next
  case (2 lines c hunk hunks)
  then obtain lines' c' where step: "apply_hunk lines c hunk = Inr (lines', c')"
    and rest: "apply_hunk_list lines' c' hunks = Inr result"
    by (auto simp: try_bind_Inr)
  from apply_hunk_patched [OF step "2.prems"(2)]
  obtain before window after where e: "lines = before @ window @ after"
    "lines' = before @ new_lines (hk_lines hunk) @ after"
    "c' = length before + length (new_lines (hk_lines hunk))"
    "lines_match window (old_lines (hk_lines hunk))" "hk_end_of_file hunk \<or> c \<le> length before"
    by blast
  have "patched lines' c' hunks result"
    using "2.IH" [OF step refl rest] e by simp
  then show ?case unfolding e(1) using e patched_edit by blast
qed

text \<open>
  C25: an update that applies is nothing but its hunks. The file's lines become the result's by
  one edit per hunk, in order, each replacing lines that equal the hunk's old lines up to
  surrounding white space by its new lines and leaving every other line alone; and the result
  is empty or ends with a newline.
\<close>

theorem applied_update_is_patched:
  assumes "apply_update_hunks original hunks = Inr result"
  shows "\<exists>lines. patched (file_lines original) 0 hunks lines \<and>
     (result = [] \<and> original = [] \<and> lines = [] \<or> result = join [newline] lines @ [newline])"
proof -
  obtain lines where l: "apply_hunk_list (file_lines original) 0 hunks = Inr lines"
    "result = (if lines = [] then (if original \<noteq> [] then [newline] else [])
       else join [newline] lines @ [newline])"
    using assms by (auto simp: apply_update_hunks_def try_bind_Inr split: if_splits)
  then show ?thesis
    using apply_hunk_list_patched [OF l(1)] by (intro exI [of _ lines]) auto
qed

theorem applied_update_is_patched_witness:
  "\<exists>lines. patched (file_lines (join [newline] [''x'', ''def f'', ''a'', ''b'', ''a'', ''b'', []])) 0
      [sample_hunk] lines \<and>
    join [newline] [''x'', ''def f'', ''a'', ''c'', ''a'', ''b'', []] = join [newline] lines @ [newline]"
proof -
  have "apply_update_hunks (join [newline] [''x'', ''def f'', ''a'', ''b'', ''a'', ''b'', []]) [sample_hunk] =
      Inr (join [newline] [''x'', ''def f'', ''a'', ''c'', ''a'', ''b'', []])"
    by code_simp
  from applied_update_is_patched [OF this] show ?thesis by simp
qed

end
