(* ===== verification/LineRange.thy ===== *)
theory LineRange
  imports JsPrelude
begin

text \<open>
  Line-range edits of \<open>edit_file\<close> (\<open>src/plugins/edit-file-line-range.ts\<close>): which of the two
  modes a call asks for, the split of a file into lines and back, the edit, and the tool around
  it over a file store. The lemmas show that splitting loses nothing, that an edit changes no
  line outside its range and keeps the file's line ends, and that the two modes never mix.
\<close>

section \<open>Modes\<close>

datatype edit_file_mode =
    SubstringMode string string string bool
  | LineRangeMode string int int string
  | InvalidMode string

definition optional_int :: "json option \<Rightarrow> int option" where
  "optional_int v = (case v of Some (JInt n) \<Rightarrow> Some n | _ \<Rightarrow> None)"

definition has_old_string_arg :: "(string \<times> json) list \<Rightarrow> bool" where
  "has_old_string_arg args = (case jfield args ''old_string'' of Some (JStr s) \<Rightarrow> s \<noteq> [] | _ \<Rightarrow> False)"

definition valid_line_number :: "json option \<Rightarrow> int option" where
  "valid_line_number v =
     (case optional_int v of Some n \<Rightarrow> (if 1 \<le> n then Some n else None) | None \<Rightarrow> None)"

definition has_line_range_args :: "(string \<times> json) list \<Rightarrow> bool" where
  "has_line_range_args args \<longleftrightarrow>
     valid_line_number (jfield args ''start_line'') \<noteq> None \<or>
     valid_line_number (jfield args ''end_line'') \<noteq> None"

definition describe_received :: "(string \<times> json) list \<Rightarrow> string" where
  "describe_received args =
     join '', ''
       [(case jfield args ''old_string'' of
           Some (JStr old) \<Rightarrow> ''old_string (len '' @ dec (length old) @ '')''
         | _ \<Rightarrow> ''no old_string''),
        (case jfield args ''start_line'' of
           None \<Rightarrow> ''no start_line'' | Some v \<Rightarrow> ''start_line='' @ json_stringify v),
        (case jfield args ''end_line'' of
           None \<Rightarrow> ''no end_line'' | Some v \<Rightarrow> ''end_line='' @ json_stringify v)]"

definition mixed_mode_message :: "(string \<times> json) list \<Rightarrow> string" where
  "mixed_mode_message args =
     ''edit_file: received '' @ describe_received args @ ''; only one edit mode is allowed. '' @
     ''Omit old_string to use line-range mode, or omit start_line/end_line to use substring mode.''"

definition parse_line_range_fields :: "string \<Rightarrow> string \<Rightarrow> (string \<times> json) list \<Rightarrow> edit_file_mode" where
  "parse_line_range_fields path new_string args =
     (case (optional_int (jfield args ''start_line''), optional_int (jfield args ''end_line'')) of
        (Some start_line, Some end_line) \<Rightarrow>
          (if start_line < 1 \<or> end_line < 1 then InvalidMode ''start_line and end_line must be >= 1''
           else if end_line < start_line
             then InvalidMode (''start_line ('' @ dec_int start_line @ '') must be <= end_line ('' @
                    dec_int end_line @ '')'')
           else LineRangeMode path start_line end_line new_string)
      | _ \<Rightarrow> InvalidMode
            ''edit_file line-range mode requires both start_line and end_line (1-based inclusive)'')"

text \<open>The choice once the path and the new text are there.\<close>

definition choose_edit_mode :: "string \<Rightarrow> string \<Rightarrow> (string \<times> json) list \<Rightarrow> edit_file_mode" where
  "choose_edit_mode path new_string args =
     (let substring = has_old_string_arg args; lineRange = has_line_range_args args in
      if substring \<and> lineRange then InvalidMode (mixed_mode_message args)
      else if lineRange then parse_line_range_fields path new_string args
      else (case jfield args ''old_string'' of
              Some (JStr old) \<Rightarrow>
                (if old \<noteq> []
                 then SubstringMode path old new_string (js_truthy (jfield args ''replace_all''))
                 else InvalidMode
                   (''edit_file: old_string is empty; provide the exact text to replace (substring mode), '' @
                    ''or omit it and send start_line/end_line >= 1 (line-range mode). '' @
                    ''Received '' @ describe_received args @ ''.''))
            | _ \<Rightarrow> InvalidMode
                (''edit_file requires old_string (substring mode) or start_line and end_line (line-range mode); '' @
                 ''received '' @ describe_received args)))"

definition parse_edit_file_mode :: "(string \<times> json) list \<Rightarrow> edit_file_mode" where
  "parse_edit_file_mode args =
     (case jfield args ''path'' of
        Some (JStr path) \<Rightarrow>
          (if path = [] then InvalidMode ''argument \"path\" is required''
           else (case jfield args ''new_string'' of
                   Some (JStr new_string) \<Rightarrow> choose_edit_mode path new_string args
                 | _ \<Rightarrow> InvalidMode ''argument \"new_string\" is required''))
      | _ \<Rightarrow> InvalidMode ''argument \"path\" is required'')"

section \<open>Lines of a file\<close>

definition lf :: string where "lf = [newline]"
definition crlf :: string where "crlf = [carriage, newline]"

record file_split =
  sp_lines :: "string list"
  sp_newline :: string
  sp_trailing :: bool

definition split_file_lines :: "string \<Rightarrow> file_split" where
  "split_file_lines content =
     (let nl = (if has_infix content crlf then crlf else lf);
          trailing = (content \<noteq> [] \<and> ends_with content nl);
          lines = (if nl = crlf then split_str crlf content else split_char newline content)
      in \<lparr>sp_lines = (if trailing \<and> lines \<noteq> [] \<and> last lines = [] then butlast lines else lines),
          sp_newline = nl, sp_trailing = trailing\<rparr>)"

text \<open>\<open>replace(/\\r\\n/g, "\\n").replace(/\\r/g, "\\n")\<close>.\<close>

fun normalize_newlines :: "string \<Rightarrow> string" where
  "normalize_newlines [] = []"
| "normalize_newlines (c # s) =
     (if c = carriage
      then newline # (case s of [] \<Rightarrow> [] | d # r \<Rightarrow> (if d = newline then normalize_newlines r
                                              else normalize_newlines (d # r)))
      else c # normalize_newlines s)"

definition split_new_string_lines :: "string \<Rightarrow> string list" where
  "split_new_string_lines newString =
     (if newString = [] then []
      else (let normalized = normalize_newlines newString;
                parts = split_char newline normalized
            in if ends_with normalized lf \<and> parts \<noteq> [] \<and> last parts = [] then butlast parts else parts))"

definition join_file_lines :: "string list \<Rightarrow> string \<Rightarrow> bool \<Rightarrow> string" where
  "join_file_lines lines nl trailing =
     (if lines = [] then (if trailing then nl else [])
      else (let body = join nl lines in if trailing then body @ nl else body))"

text \<open>Line numbers are at least one, as the mode parser makes sure of.\<close>

definition apply_line_range_edit :: "string \<Rightarrow> nat \<Rightarrow> nat \<Rightarrow> string \<Rightarrow> string + string" where
  "apply_line_range_edit content startLine endLine newString =
     (let sp = split_file_lines content; lines = sp_lines sp in
      if lines = [] then Inl ''cannot replace lines in an empty file''
      else if length lines < startLine \<or> length lines < endLine
        then Inl (''line range '' @ dec startLine @ ''-'' @ dec endLine @
               '' is out of range (file has '' @ dec (length lines) @ '' line(s))'')
      else (let merged = take (startLine - 1) lines @ split_new_string_lines newString @
                           drop endLine lines;
                keepTrailing = (if endLine = length lines
                                then ends_with newString lf \<or> ends_with newString crlf
                                else sp_trailing sp)
            in Inr (join_file_lines merged (sp_newline sp) keepTrailing)))"

definition format_line_range_success :: "string \<Rightarrow> nat \<Rightarrow> nat \<Rightarrow> string" where
  "format_line_range_success path startLine endLine =
     (if startLine = endLine then ''replaced line '' @ dec startLine @ '' in '' @ path
      else ''replaced lines '' @ dec startLine @ ''-'' @ dec endLine @ '' in '' @ path)"

section \<open>The tool\<close>

text \<open>
  A file store answers a read with the decoded contents or an error, and a write may fail.
  \<open>aborted\<close> are the abort signal's states at its two checks.
\<close>

datatype fs_error = ENOENT | EACCES | EISDIR | OtherFsError string

record file_store =
  fs_read :: "string \<Rightarrow> fs_error + string"
  fs_write_error :: "string \<Rightarrow> fs_error option"

datatype edit_error = EditAborted | EditError string | EditFsError fs_error

definition read_failure :: "string \<Rightarrow> fs_error \<Rightarrow> edit_error" where
  "read_failure path e =
     (case e of
        ENOENT \<Rightarrow> EditError (''file not found: '' @ path)
      | EACCES \<Rightarrow> EditError (''permission denied: '' @ path)
      | EISDIR \<Rightarrow> EditError (''path is a directory: '' @ path)
      | OtherFsError m \<Rightarrow> EditFsError e)"

definition run_edit_file_line_range ::
    "string \<Rightarrow> nat \<Rightarrow> nat \<Rightarrow> string \<Rightarrow> bool \<times> bool \<Rightarrow> file_store \<Rightarrow> (edit_error + string) \<times> file_store" where
  "run_edit_file_line_range path startLine endLine newString aborted fs =
     (if fst aborted then (Inl EditAborted, fs)
      else (case fs_read fs path of
        Inl e \<Rightarrow> (Inl (read_failure path e), fs)
      | Inr content \<Rightarrow>
          (if CHR 0x00 \<in> set content
           then (Inl (EditError (''refusing to edit binary file: '' @ path)), fs)
           else (case apply_line_range_edit content startLine endLine newString of
                   Inl m \<Rightarrow> (Inl (EditError m), fs)
                 | Inr newContent \<Rightarrow>
                     (if snd aborted then (Inl EditAborted, fs)
                      else (case fs_write_error fs path of
                              Some EACCES \<Rightarrow> (Inl (EditError (''permission denied: '' @ path)), fs)
                            | Some e \<Rightarrow> (Inl (EditFsError e), fs)
                            | None \<Rightarrow>
                                (Inr (format_line_range_success path startLine endLine),
                                 fs\<lparr>fs_read := (fs_read fs)(path := Inr newContent)\<rparr>)))))))"

section \<open>Splitting loses nothing\<close>

lemma join_butlast:
  assumes "ls \<noteq> []" "last ls = []" "ls \<noteq> [[]]"
  shows "join nl (butlast ls) @ nl = join nl ls"
proof -
  have "butlast ls \<noteq> []" using assms by (metis append_butlast_last_id append_Nil)
  then have "join nl (butlast ls @ [[]]) = join nl (butlast ls) @ nl" by (rule join_snoc_Nil)
  then show ?thesis using assms append_butlast_last_id [of ls] by simp
qed

lemma crlf_neq_lf [simp]: "crlf \<noteq> lf" "lf \<noteq> crlf" "crlf \<noteq> []" "lf \<noteq> []"
  by (simp_all add: crlf_def lf_def)

lemma last_split_char: "last (split_char c (t @ [c])) = []"
proof (induction t)
  case (Cons d t)
  obtain w ws where ws: "split_char c (t @ [c]) = w # ws" by (cases "split_char c (t @ [c])") auto
  have "ws \<noteq> []"
  proof
    assume "ws = []"
    then have "w = t @ [c]" using ws join_split_char [of c "t @ [c]"] by simp
    moreover have "c \<notin> set w" using ws split_char_no_sep_member [of w c "t @ [c]"] by simp
    ultimately show False by simp
  qed
  then show ?case using Cons ws by simp
qed simp

lemma last_split_crlf: "last (split_str_aux crlf cur (t @ crlf)) = []"
proof (induction crlf cur "t @ crlf" arbitrary: t rule: split_str_aux.induct)
  case (1 cur)
  then show ?case by (simp add: crlf_def)
next
  case (2 cur c s)
  show ?case
  proof (cases "starts_with (c # s) crlf")
    case True
    show ?thesis
    proof (cases t)
      case Nil
      then show ?thesis using 2 True by (simp add: crlf_def)
    next
      case (Cons d t')
      then obtain e t2 where "t' = e # t2" using 2 True by (cases t') (auto simp: crlf_def)
      then have d: "drop (length crlf) (c # s) = t2 @ crlf" using 2 Cons by (simp add: crlf_def)
      then have "last (split_str_aux crlf [] (drop (length crlf) (c # s))) = []"
        using "2.hyps"(1) True by simp
      moreover have "split_str_aux crlf cur (t @ crlf) =
          rev cur # split_str_aux crlf [] (drop (length crlf) (c # s))"
        using True unfolding "2.hyps"(3) [symmetric] by simp
      ultimately show ?thesis by simp
    qed
  next
    case False
    then obtain t' where "t = c # t'" "s = t' @ crlf" using 2 by (cases t) auto
    then show ?thesis using "2.hyps" False by auto
  qed
qed

text \<open>The pieces of a file before the trailing one is dropped.\<close>

definition file_pieces :: "string \<Rightarrow> string list" where
  "file_pieces content =
     (if has_infix content crlf then split_str crlf content else split_char newline content)"

lemma file_pieces_join:
  "join (sp_newline (split_file_lines content)) (file_pieces content) = content"
  by (simp add: split_file_lines_def file_pieces_def Let_def lf_def join_split_char join_split_str)

lemma file_pieces_last:
  assumes "sp_trailing (split_file_lines content)"
  shows "last (file_pieces content) = []"
  using assms
  by (auto simp: split_file_lines_def file_pieces_def Let_def ends_with_iff split_str_def
      last_split_crlf last_split_char lf_def split: if_splits)

lemma split_file_lines_lines:
  "sp_lines (split_file_lines content) =
     (if sp_trailing (split_file_lines content) then butlast (file_pieces content)
      else file_pieces content)"
  using file_pieces_last [of content]
  by (auto simp: split_file_lines_def file_pieces_def Let_def split: if_splits)

lemma file_pieces_not_Nil: "file_pieces content \<noteq> []"
  by (simp add: file_pieces_def)

lemma split_join_lines:
  fixes content
  defines "sp \<equiv> split_file_lines content"
  shows "join_file_lines (sp_lines sp) (sp_newline sp) (sp_trailing sp) = content" "sp_lines sp \<noteq> []"
proof -
  have trailing: "content \<noteq> []" if "sp_trailing sp"
    using that by (simp add: sp_def split_file_lines_def Let_def)
  have not_single: "file_pieces content \<noteq> [[]]" if "sp_trailing sp"
    using trailing [OF that] file_pieces_join [of content] by auto
  show ne: "sp_lines sp \<noteq> []"
  proof (cases "sp_trailing sp")
    case True
    then have "file_pieces content \<noteq> [last (file_pieces content)]"
      using not_single file_pieces_last [of content] by (simp add: sp_def)
    then have "butlast (file_pieces content) \<noteq> []"
      by (metis append_butlast_last_id append_Nil file_pieces_not_Nil)
    then show ?thesis using True by (simp add: sp_def split_file_lines_lines)
  next
    case False
    then show ?thesis using file_pieces_not_Nil by (simp add: sp_def split_file_lines_lines)
  qed
  show "join_file_lines (sp_lines sp) (sp_newline sp) (sp_trailing sp) = content"
  proof (cases "sp_trailing sp")
    case True
    then have "join (sp_newline sp) (butlast (file_pieces content)) @ sp_newline sp = content"
      using join_butlast [OF file_pieces_not_Nil file_pieces_last not_single] file_pieces_join
      by (simp add: sp_def)
    then show ?thesis
      using True ne by (simp add: join_file_lines_def sp_def split_file_lines_lines Let_def)
  next
    case False
    then show ?thesis
      using ne file_pieces_join by (simp add: join_file_lines_def sp_def split_file_lines_lines Let_def)
  qed
qed

text \<open>
  A file is put back exactly from its lines, its line end and its trailing-newline flag,
  whichever and however mixed its line ends are; and it always has a line, so the error for an
  empty file is never raised: an empty file has one empty line, which can be replaced.
\<close>

theorem split_join_file_lines:
  "(let sp = split_file_lines content
    in join_file_lines (sp_lines sp) (sp_newline sp) (sp_trailing sp) = content) \<and>
   apply_line_range_edit content startLine endLine newString \<noteq>
     Inl ''cannot replace lines in an empty file'' \<and>
   apply_line_range_edit [] 1 1 ''x'' = Inr ''x''"
proof -
  have "apply_line_range_edit [] 1 1 ''x'' = Inr ''x''" by code_simp
  then show ?thesis
    using split_join_lines [of content] by (auto simp: apply_line_range_edit_def Let_def)
qed

section \<open>An edit keeps every other line\<close>

definition clean_line :: "string \<Rightarrow> bool" where
  "clean_line l \<longleftrightarrow> newline \<notin> set l \<and> carriage \<notin> set l"

lemma split_crlf_append:
  "carriage \<notin> set w \<Longrightarrow> split_str_aux crlf cur (w @ crlf @ s) = (rev cur @ w) # split_str_aux crlf [] s"
  by (induction w arbitrary: cur) (auto simp: crlf_def)

lemma split_crlf_word: "carriage \<notin> set w \<Longrightarrow> split_str_aux crlf cur w = [rev cur @ w]"
proof (induction w arbitrary: cur)
  case (Cons c w)
  then show ?case by (auto simp: crlf_def)
qed simp

lemma split_crlf_join:
  "ws \<noteq> [] \<Longrightarrow> (\<And>w. w \<in> set ws \<Longrightarrow> carriage \<notin> set w) \<Longrightarrow> split_str crlf (join crlf ws) = ws"
  unfolding split_str_def
proof (induction ws rule: induct_list012)
  case (2 w)
  then show ?case by (simp add: split_crlf_word)
next
  case (3 w v ws)
  then have "split_str_aux crlf [] (join crlf (v # ws)) = v # ws" by simp
  then show ?case using 3 split_crlf_append [of w "[]" "join crlf (v # ws)"] by simp
qed simp

lemma set_join: "x \<in> set (join sep ws) \<Longrightarrow> x \<in> set sep \<or> (\<exists>w \<in> set ws. x \<in> set w)"
  by (induction sep ws rule: join.induct) auto

lemma join_last: "ws \<noteq> [] \<Longrightarrow> \<exists>t. join sep ws = t @ last ws"
proof (induction sep ws rule: join.induct)
  case (3 sep w v ws)
  then obtain t where "join sep (v # ws) = t @ last (v # ws)" by auto
  then have "join sep (w # v # ws) = (w @ sep @ t) @ last (w # v # ws)" by simp
  then show ?case by blast
qed auto

lemma join_has_sep: "2 \<le> length ws \<Longrightarrow> has_infix (join sep ws) sep"
  by (cases ws rule: list.exhaust; cases "tl ws") (auto simp: includes_iff)

lemma split_written_lines:
  assumes "nl = lf \<or> nl = crlf" "list_all clean_line ls" "2 \<le> length ls" "tr \<or> last ls \<noteq> []"
  shows "split_file_lines (join_file_lines ls nl tr) =
           \<lparr>sp_lines = ls, sp_newline = nl, sp_trailing = tr\<rparr>"
proof -
  let ?text = "join nl ls @ (if tr then nl else [])"
  have ls: "ls \<noteq> []" using assms(3) by auto
  have written: "join_file_lines ls nl tr = ?text" using ls by (simp add: join_file_lines_def Let_def)
  have style: "has_infix ?text crlf \<longleftrightarrow> nl = crlf"
  proof
    assume "has_infix ?text crlf"
    then have "carriage \<in> set ?text"
      unfolding includes_iff crlf_def by (metis in_set_conv_decomp append_Cons append_Nil)
    then have "carriage \<in> set nl"
      using assms(2) set_join [of carriage nl ls] by (auto simp: clean_line_def list_all_iff split: if_splits)
    then show "nl = crlf" using assms(1) by (auto simp: lf_def)
  next
    assume "nl = crlf"
    then obtain a b where "join nl ls = a @ crlf @ b"
      using join_has_sep [OF assms(3), of nl] by (auto simp: includes_iff)
    then show "has_infix ?text crlf" by (auto simp: includes_iff)
  qed
  have ends: "ends_with ?text nl \<longleftrightarrow> tr"
  proof (cases tr)
    case False
    obtain t where "join nl ls = t @ last ls" using join_last [OF ls] by blast
    then have "last ?text = last (last ls)" using False assms(4) by simp
    moreover have "clean_line (last ls)" using assms(2) ls by (simp add: list_all_iff)
    ultimately have "last ?text \<noteq> newline"
      using False assms(4) last_in_set [of "last ls"] by (metis clean_line_def)
    moreover have "ends_with ?text nl \<Longrightarrow> last ?text = newline"
      using assms(1) by (auto simp: ends_with_iff lf_def crlf_def)
    ultimately show ?thesis using False by blast
  qed simp
  have pieces: "file_pieces ?text = ls @ (if tr then [[]] else [])"
  proof -
    have t: "?text = join nl (ls @ (if tr then [[]] else []))" using ls by (simp add: join_snoc_Nil)
    have "carriage \<notin> set w \<and> newline \<notin> set w" if "w \<in> set (ls @ (if tr then [[]] else []))" for w
      using that assms(2) by (auto simp: clean_line_def list_all_iff split: if_splits)
    then show ?thesis
      unfolding t using assms(1) ls style [unfolded t]
        split_crlf_join [of "ls @ (if tr then [[]] else [])"]
        split_char_join [of "ls @ (if tr then [[]] else [])" newline]
      by (auto simp: file_pieces_def lf_def)
  qed
  have "?text \<noteq> []"
    using assms(1,4) join_last [OF ls, of nl] by (cases tr) (auto simp: lf_def crlf_def)
  then have "sp_trailing (split_file_lines ?text) = tr" "sp_newline (split_file_lines ?text) = nl"
    using style ends assms(1) by (auto simp: split_file_lines_def Let_def)
  then show ?thesis
    unfolding written using pieces split_file_lines_lines [of ?text]
    by (cases tr) (auto intro!: file_split.equality simp: butlast_append)
qed

text \<open>
  An edit replaces its range and nothing else. In a file of two lines or more, with either
  line end and with or without a final newline, replacing a non-empty range gives the file with
  the new text's lines in its place, every line before and after it as it was, the same line
  end throughout, and the same ending unless the range reaches the last line, when the new
  text decides.
\<close>

theorem line_range_edit_frame:
  assumes "nl = lf \<or> nl = crlf" and "list_all clean_line (pre @ mid @ post)"
    and "mid \<noteq> []" and "2 \<le> length (pre @ mid @ post)" and "tr \<or> last (pre @ mid @ post) \<noteq> []"
  shows "apply_line_range_edit (join_file_lines (pre @ mid @ post) nl tr)
           (length pre + 1) (length pre + length mid) newString =
         Inr (join_file_lines (pre @ split_new_string_lines newString @ post) nl
                (if post = [] then ends_with newString lf else tr))"
proof -
  have "crlf = [carriage] @ lf" by (simp add: crlf_def lf_def)
  then have "ends_with newString crlf \<Longrightarrow> ends_with newString lf"
    unfolding ends_with_iff by (metis append_assoc)
  then have keep: "(ends_with newString lf \<or> ends_with newString crlf) = ends_with newString lf" by blast
  show ?thesis
    using split_written_lines [OF assms(1,2,4,5)] assms(3)
    by (simp add: apply_line_range_edit_def Let_def keep)
qed

theorem line_range_edit_frame_witness:
  "apply_line_range_edit (join_file_lines [''a'', ''b'', ''c''] crlf True) 2 2 ''B'' =
     Inr (join_file_lines [''a'', ''B'', ''c''] crlf True)"
proof -
  have "split_new_string_lines ''B'' = [''B'']" by code_simp
  then show ?thesis
    using line_range_edit_frame [of crlf "[''a'']" "[''b'']" "[''c'']" True "''B''"]
    by (simp add: clean_line_def numeral_2_eq_2)
qed

lemma parse_line_range_fields_cases:
  "(\<exists>s e. parse_line_range_fields path new args = LineRangeMode path s e new \<and> 1 \<le> s \<and> s \<le> e \<and>
      jfield args ''start_line'' = Some (JInt s) \<and> jfield args ''end_line'' = Some (JInt e)) \<or>
   (\<exists>m. parse_line_range_fields path new args = InvalidMode m)"
  by (auto simp: parse_line_range_fields_def optional_int_def split: option.splits json.splits)

lemma parse_edit_file_mode_cases:
  obtains (invalid) m where "parse_edit_file_mode args = InvalidMode m"
  | (given) path new where "jfield args ''path'' = Some (JStr path)" "path \<noteq> []"
      "jfield args ''new_string'' = Some (JStr new)"
proof -
  show ?thesis
  proof (cases "\<exists>path new. jfield args ''path'' = Some (JStr path) \<and> path \<noteq> [] \<and>
      jfield args ''new_string'' = Some (JStr new)")
    case True
    then show ?thesis using given by blast
  next
    case False
    then have "\<exists>m. parse_edit_file_mode args = InvalidMode m"
      unfolding parse_edit_file_mode_def by (simp split: option.split json.split) blast
    then show ?thesis using invalid by blast
  qed
qed

text \<open>
  The two modes never mix. A call that is parsed as a substring edit gives no valid line
  number and a non-empty old text; one parsed as a line-range edit gives no old text, and both
  its line numbers, in order and from one up; every other call is an error.
\<close>

theorem edit_modes_exclusive:
  "(case parse_edit_file_mode args of
      SubstringMode path old new all \<Rightarrow>
        \<not> has_line_range_args args \<and> old \<noteq> [] \<and> jfield args ''old_string'' = Some (JStr old) \<and>
        path \<noteq> [] \<and> jfield args ''new_string'' = Some (JStr new)
    | LineRangeMode path s e new \<Rightarrow>
        \<not> has_old_string_arg args \<and> 1 \<le> s \<and> s \<le> e \<and>
        jfield args ''start_line'' = Some (JInt s) \<and> jfield args ''end_line'' = Some (JInt e) \<and>
        path \<noteq> [] \<and> jfield args ''new_string'' = Some (JStr new)
    | InvalidMode m \<Rightarrow> True)"
proof (rule parse_edit_file_mode_cases [of args])
  fix path new
  assume given: "jfield args ''path'' = Some (JStr path)" "path \<noteq> []"
    "jfield args ''new_string'' = Some (JStr new)"
  show ?thesis
  proof (cases "has_line_range_args args")
    case True
    then show ?thesis
      using given parse_line_range_fields_cases [of path new args]
      by (auto simp: parse_edit_file_mode_def choose_edit_mode_def Let_def)
  next
    case False
    then show ?thesis
      using given
      by (auto simp: parse_edit_file_mode_def choose_edit_mode_def Let_def has_old_string_arg_def
          split: option.splits json.splits)
  qed
qed simp

end
