(* ===== verification/DeliveryQueue.thy ===== *)
theory DeliveryQueue
  imports JsPrelude "HOL-Library.Multiset"
begin

text \<open>
  The mid-run queue of operator messages (first half of \<open>src/tui/delivery-queue.ts\<close>): its
  state and operations, the guarded delivery to an agent, and the notices shown for a delivery
  that failed. An attachment is its name. The lemmas show that no message is lost, duplicated
  or delivered twice along any sequence of operations, and the order messages are drained in.
\<close>

section \<open>Deliveries\<close>

datatype not_delivered_reason = AgentClosed | SessionUnavailable | Superseded | PreparationFailed

datatype delivery_result =
    Accepted
  | NotDelivered not_delivered_reason string
  | Uncertain string

text \<open>How the call into the live agent ends.\<close>

datatype live_delivery = DeliverReturns | DeliverThrowsClosed string | DeliverThrows string

definition deliver_agent_message :: "string option \<Rightarrow> live_delivery \<Rightarrow> delivery_result" where
  "deliver_agent_message fatal live =
     (case fatal of
        Some message \<Rightarrow> NotDelivered SessionUnavailable message
      | None \<Rightarrow>
          (case live of
             DeliverReturns \<Rightarrow> Accepted
           | DeliverThrowsClosed message \<Rightarrow> NotDelivered AgentClosed message
           | DeliverThrows message \<Rightarrow> Uncertain message))"

definition run_generation_guarded_deliver ::
    "bool \<Rightarrow> delivery_result \<Rightarrow> delivery_result \<Rightarrow> delivery_result" where
  "run_generation_guarded_deliver stillCurrent delivered stale =
     (if \<not> stillCurrent then stale else delivered)"

fun compaction_continuation_is_superseded :: "delivery_result \<Rightarrow> bool" where
  "compaction_continuation_is_superseded (NotDelivered Superseded _) = True"
| "compaction_continuation_is_superseded _ = False"

text \<open>
  One hop of a compaction continuation: its result, whether it was handed back as superseded,
  and how often it called the agent. \<open>first\<close> and \<open>second\<close> are what the calls would return.
\<close>

definition settle_compaction_continuation_hop ::
    "bool \<Rightarrow> delivery_result \<Rightarrow> delivery_result \<Rightarrow> delivery_result \<times> bool \<times> nat" where
  "settle_compaction_continuation_hop stillCurrent first second =
     (let calls = (if stillCurrent then 1 else 0);
          r = run_generation_guarded_deliver stillCurrent first
                (NotDelivered Superseded ''session identity changed before delivery'')
      in if compaction_continuation_is_superseded r then (r, True, calls)
         else if (\<exists>d. r = NotDelivered AgentClosed d) then (second, False, calls + 1)
         else (r, False, calls))"

text \<open>
  The hops of one continuation: a superseded hop schedules the next one, and one that is not
  reports its result. The list holds what each hop finds when the queue runs it.
\<close>

fun compaction_continuation_hops ::
    "(bool \<times> delivery_result \<times> delivery_result) list \<Rightarrow> delivery_result option" where
  "compaction_continuation_hops [] = None"
| "compaction_continuation_hops ((current, first, second) # hops) =
     (case settle_compaction_continuation_hop current first second of
        (r, superseded, _) \<Rightarrow>
          (if superseded \<or> compaction_continuation_is_superseded r
           then (if superseded then compaction_continuation_hops hops else None)
           else Some r))"

datatype disposition = Restored | Deferred | NoDisposition

definition append_disposition :: "string \<Rightarrow> disposition \<Rightarrow> string" where
  "append_disposition base d =
     (case d of
        Restored \<Rightarrow> base @ '' It is back in the prompt; press Enter to send it.''
      | Deferred \<Rightarrow>
          base @ '' Your current draft is unchanged; the message will return to the prompt after you send it.''
      | NoDisposition \<Rightarrow> base)"

fun delivery_result_notice :: "delivery_result \<Rightarrow> disposition \<Rightarrow> string" where
  "delivery_result_notice (Uncertain detail) d =
     append_disposition
       (''Delivery failed: '' @ detail @
        ''. Delivery status is uncertain; review the transcript before sending again.'') d"
| "delivery_result_notice (NotDelivered reason detail) d =
     (if reason = AgentClosed
      then (case d of
              Restored \<Rightarrow>
                ''Message not delivered because the agent closed. It is back in the prompt; press Enter to send it.''
            | Deferred \<Rightarrow>
                ''Message not delivered because the agent closed. Your current draft is unchanged; the message will return to the prompt after you send it.''
            | NoDisposition \<Rightarrow> ''Message not delivered because the agent closed.'')
      else append_disposition (''Message not delivered: '' @ detail) d)"
| "delivery_result_notice Accepted d = []"

section \<open>The queue\<close>

datatype queue_kind = QueueKind | SteerKind

record queue_item =
  qi_id :: string
  qi_text :: string
  qi_kind :: queue_kind
  qi_enqueued_at :: int
  qi_attachments :: "string list option"
  qi_operator_originated :: "bool option"

datatype run_state = RunIdle | RunBusy

record session_queue =
  sq_run :: run_state
  sq_items :: "queue_item list"
  sq_interrupt_flash :: bool
  sq_next_id :: nat
  sq_paused :: bool

definition create_session_queue :: "run_state \<Rightarrow> session_queue" where
  "create_session_queue run =
     \<lparr>sq_run = run, sq_items = [], sq_interrupt_flash = False, sq_next_id = 1, sq_paused = False\<rparr>"

definition is_kind :: "queue_kind \<Rightarrow> queue_item \<Rightarrow> bool" where
  "is_kind k i \<longleftrightarrow> qi_kind i = k"

definition badge_count :: "session_queue \<Rightarrow> nat" where
  "badge_count q = length (sq_items q)"

definition steer_count :: "session_queue \<Rightarrow> nat" where
  "steer_count q = length (filter (is_kind SteerKind) (sq_items q))"

definition queue_count :: "session_queue \<Rightarrow> nat" where
  "queue_count q = length (filter (is_kind QueueKind) (sq_items q))"

definition set_run_state :: "run_state \<Rightarrow> session_queue \<Rightarrow> session_queue" where
  "set_run_state run q = (if sq_run q = run then q else q\<lparr>sq_run := run\<rparr>)"

definition item_id :: "nat \<Rightarrow> string" where
  "item_id n = ''q'' @ dec n"

definition enqueue_item ::
    "string \<Rightarrow> queue_kind \<Rightarrow> int \<Rightarrow> string list option \<Rightarrow> session_queue \<Rightarrow> session_queue" where
  "enqueue_item text_in kind now attachments q =
     (let t = trim text_in in
      if t = [] \<and> (attachments = None \<or> attachments = Some []) then q
      else q\<lparr>sq_items := sq_items q @
               [\<lparr>qi_id = item_id (sq_next_id q), qi_text = t, qi_kind = kind, qi_enqueued_at = now,
                 qi_attachments = (if attachments = Some [] then None else attachments),
                 qi_operator_originated = None\<rparr>],
             sq_next_id := sq_next_id q + 1,
             sq_interrupt_flash := False\<rparr>)"

definition enqueue_steer :: "string \<Rightarrow> int \<Rightarrow> string list option \<Rightarrow> session_queue \<Rightarrow> session_queue" where
  "enqueue_steer text_in now attachments q = enqueue_item text_in SteerKind now attachments q"

definition interrupt :: "session_queue \<Rightarrow> session_queue" where
  "interrupt q = q\<lparr>sq_run := RunIdle, sq_interrupt_flash := True\<rparr>"

definition clear_interrupt_flash :: "session_queue \<Rightarrow> session_queue" where
  "clear_interrupt_flash q =
     (if \<not> sq_interrupt_flash q then q else q\<lparr>sq_interrupt_flash := False\<rparr>)"

definition pause :: "session_queue \<Rightarrow> session_queue" where
  "pause q = (if sq_paused q then q else q\<lparr>sq_paused := True\<rparr>)"

definition resume_for_send :: "session_queue \<Rightarrow> session_queue" where
  "resume_for_send q = (if \<not> sq_paused q then q else q\<lparr>sq_paused := False\<rparr>)"

definition cancel_last :: "session_queue \<Rightarrow> session_queue \<times> queue_item option" where
  "cancel_last q =
     (if sq_items q = [] then (q, None)
      else (q\<lparr>sq_items := butlast (sq_items q)\<rparr>, Some (last (sq_items q))))"

definition cancel_item :: "string \<Rightarrow> session_queue \<Rightarrow> session_queue \<times> queue_item option" where
  "cancel_item i q =
     (case find_index (\<lambda>item. qi_id item = i) (sq_items q) of
        None \<Rightarrow> (q, None)
      | Some index \<Rightarrow>
          (q\<lparr>sq_items := remove_at index (sq_items q)\<rparr>, Some (sq_items q ! index)))"

definition drain_order :: "session_queue \<Rightarrow> queue_item list" where
  "drain_order q =
     filter (is_kind SteerKind) (sq_items q) @ filter (is_kind QueueKind) (sq_items q)"

definition drain_one :: "queue_kind option \<Rightarrow> session_queue \<Rightarrow> session_queue \<times> queue_item option" where
  "drain_one kind q =
     (case (case kind of None \<Rightarrow> drain_order q | Some k \<Rightarrow> filter (is_kind k) (sq_items q)) of
        [] \<Rightarrow> (q, None)
      | item # _ \<Rightarrow>
          (q\<lparr>sq_items := filter (\<lambda>i. qi_id i \<noteq> qi_id item) (sq_items q)\<rparr>, Some item))"

lemma drain_one_member:
  assumes "drain_one kind q = (q', Some item)"
  shows "item \<in> set (sq_items q)" "sq_items q' = filter (\<lambda>i. qi_id i \<noteq> qi_id item) (sq_items q)"
proof -
  let ?order = "case kind of None \<Rightarrow> drain_order q | Some k \<Rightarrow> filter (is_kind k) (sq_items q)"
  obtain rest where o: "?order = item # rest"
    and q': "q' = q\<lparr>sq_items := filter (\<lambda>i. qi_id i \<noteq> qi_id item) (sq_items q)\<rparr>"
    using assms by (auto simp: drain_one_def split: list.splits)
  have "item \<in> set ?order" unfolding o by simp
  then show "item \<in> set (sq_items q)" by (auto simp: drain_order_def split: option.splits)
  show "sq_items q' = filter (\<lambda>i. qi_id i \<noteq> qi_id item) (sq_items q)" by (simp add: q')
qed

lemma drain_one_shorter:
  assumes "drain_one kind q = (q', Some item)"
  shows "length (sq_items q') < length (sq_items q)"
  unfolding drain_one_member(2) [OF assms]
  using drain_one_member(1) [OF assms] by (intro length_filter_less) auto

text \<open>\<open>drainSteersOnly\<close>, and the loop of a host that drains everything.\<close>

function drain_all :: "queue_kind option \<Rightarrow> session_queue \<Rightarrow> session_queue \<times> queue_item list" where
  "drain_all kind q =
     (case drain_one kind q of
        (q', None) \<Rightarrow> (q, [])
      | (q', Some item) \<Rightarrow> (case drain_all kind q' of (q'', items) \<Rightarrow> (q'', item # items)))"
  by pat_completeness auto
termination
  by (relation "measure (\<lambda>(kind, q). length (sq_items q))") (auto dest: drain_one_shorter sym)

declare drain_all.simps [simp del]

definition drain_steers_only :: "session_queue \<Rightarrow> session_queue \<times> queue_item list" where
  "drain_steers_only q = drain_all (Some SteerKind) q"

section \<open>Draining\<close>

lemma filter_drop_head:
  assumes "filter P xs = x # rest" "distinct (map f xs)"
  shows "filter (\<lambda>y. f y \<noteq> f x) (filter P xs) = rest"
proof -
  have "distinct (map f (filter P xs))" using assms(2) by (rule distinct_map_filter)
  then have "f x \<notin> f ` set rest" using assms(1) by simp
  then have "\<forall>y \<in> set rest. f y \<noteq> f x" by (metis imageI)
  then show ?thesis using assms(1) by (simp add: filter_id_conv)
qed

lemma filter_swap: "filter P (filter Q xs) = filter Q (filter P xs)"
  by (simp add: conj_commute)

lemma drain_all_kind:
  "distinct (map qi_id (sq_items q)) \<Longrightarrow>
     drain_all (Some k) q =
       (q\<lparr>sq_items := filter (\<lambda>i. \<not> is_kind k i) (sq_items q)\<rparr>, filter (is_kind k) (sq_items q))"
proof (induction "length (sq_items q)" arbitrary: q rule: less_induct)
  case less
  show ?case
  proof (cases "filter (is_kind k) (sq_items q)")
    case Nil
    then have "filter (\<lambda>i. \<not> is_kind k i) (sq_items q) = sq_items q"
      by (auto simp: filter_empty_conv filter_id_conv)
    then show ?thesis using Nil by (subst drain_all.simps) (simp add: drain_one_def)
  next
    case (Cons item rest)
    let ?q = "q\<lparr>sq_items := filter (\<lambda>i. qi_id i \<noteq> qi_id item) (sq_items q)\<rparr>"
    have one: "drain_one (Some k) q = (?q, Some item)" using Cons by (simp add: drain_one_def)
    have "filter (is_kind k) (sq_items ?q) = rest"
      using filter_drop_head [OF Cons less.prems] by (simp add: conj_commute)
    moreover have "filter (\<lambda>i. \<not> is_kind k i) (sq_items ?q) = filter (\<lambda>i. \<not> is_kind k i) (sq_items q)"
    proof -
      have "i = item" if "i \<in> set (sq_items q)" "qi_id i = qi_id item" for i
        using that less.prems drain_one_member(1) [OF one] by (metis distinct_map inj_on_contraD)
      moreover have "is_kind k item" using Cons by (metis filter_eq_ConsD)
      ultimately show ?thesis by (auto intro!: filter_cong)
    qed
    moreover have "drain_all (Some k) ?q =
        (?q\<lparr>sq_items := filter (\<lambda>i. \<not> is_kind k i) (sq_items ?q)\<rparr>, filter (is_kind k) (sq_items ?q))"
      using drain_one_shorter [OF one] less.prems by (intro less.hyps) (simp_all add: distinct_map_filter)
    ultimately show ?thesis using one Cons by (subst drain_all.simps) simp
  qed
qed

lemma drain_order_set: "set (drain_order q) = set (sq_items q)"
proof -
  have "is_kind SteerKind i \<or> is_kind QueueKind i" for i by (cases "qi_kind i") (simp_all add: is_kind_def)
  then show ?thesis by (auto simp: drain_order_def)
qed

lemma drain_order_distinct:
  assumes "distinct (map qi_id (sq_items q))"
  shows "distinct (map qi_id (drain_order q))"
proof -
  have "mset (drain_order q) = mset (sq_items q)"
  proof -
    have "mset (filter (is_kind SteerKind) xs @ filter (is_kind QueueKind) xs) = mset xs" for xs
    proof (induction xs)
      case (Cons x xs)
      then show ?case by (cases "qi_kind x") (auto simp: is_kind_def)
    qed simp
    then show ?thesis by (simp add: drain_order_def)
  qed
  then have "mset (map qi_id (drain_order q)) = mset (map qi_id (sq_items q))" by simp
  then show ?thesis using assms by (metis mset_eq_imp_distinct_iff)
qed

lemma drain_all_any:
  "distinct (map qi_id (sq_items q)) \<Longrightarrow> drain_all None q = (q\<lparr>sq_items := []\<rparr>, drain_order q)"
proof (induction "length (sq_items q)" arbitrary: q rule: less_induct)
  case less
  show ?case
  proof (cases "drain_order q")
    case Nil
    then have "sq_items q = []" using drain_order_set [of q] by simp
    then show ?thesis using Nil by (subst drain_all.simps) (simp add: drain_one_def)
  next
    case (Cons item rest)
    let ?q = "q\<lparr>sq_items := filter (\<lambda>i. qi_id i \<noteq> qi_id item) (sq_items q)\<rparr>"
    have one: "drain_one None q = (?q, Some item)" using Cons by (simp add: drain_one_def)
    have "drain_order ?q = filter (\<lambda>i. qi_id i \<noteq> qi_id item) (drain_order q)"
      by (simp add: drain_order_def conj_commute)
    also have "\<dots> = rest"
      using filter_drop_head [of "\<lambda>_. True" "drain_order q" item rest qi_id]
        drain_order_distinct [OF less.prems] Cons by simp
    finally have "drain_order ?q = rest" .
    moreover have "drain_all None ?q = (?q\<lparr>sq_items := []\<rparr>, drain_order ?q)"
      using drain_one_shorter [OF one] less.prems by (intro less.hyps) (simp_all add: distinct_map_filter)
    ultimately show ?thesis using one Cons by (subst drain_all.simps) simp
  qed
qed

section \<open>Runs of the queue\<close>

datatype queue_op =
    QEnqueue string queue_kind int "string list option"
  | QSetRun run_state
  | QInterrupt
  | QClearFlash
  | QPause
  | QResume
  | QCancelLast
  | QCancelItem string
  | QDrainOne "queue_kind option"
  | QDrainSteers

text \<open>The queue, and the items that left it for the agent and for the operator's prompt.\<close>

record queue_run =
  qr_queue :: session_queue
  qr_delivered :: "queue_item list"
  qr_retracted :: "queue_item list"

definition took :: "session_queue \<times> queue_item option \<Rightarrow> queue_item list" where
  "took r = (case snd r of None \<Rightarrow> [] | Some item \<Rightarrow> [item])"

fun queue_step :: "queue_run \<Rightarrow> queue_op \<Rightarrow> queue_run" where
  "queue_step w (QEnqueue t kind now atts) = w\<lparr>qr_queue := enqueue_item t kind now atts (qr_queue w)\<rparr>"
| "queue_step w (QSetRun run) = w\<lparr>qr_queue := set_run_state run (qr_queue w)\<rparr>"
| "queue_step w QInterrupt = w\<lparr>qr_queue := interrupt (qr_queue w)\<rparr>"
| "queue_step w QClearFlash = w\<lparr>qr_queue := clear_interrupt_flash (qr_queue w)\<rparr>"
| "queue_step w QPause = w\<lparr>qr_queue := pause (qr_queue w)\<rparr>"
| "queue_step w QResume = w\<lparr>qr_queue := resume_for_send (qr_queue w)\<rparr>"
| "queue_step w QCancelLast =
     (let r = cancel_last (qr_queue w)
      in w\<lparr>qr_queue := fst r, qr_retracted := qr_retracted w @ took r\<rparr>)"
| "queue_step w (QCancelItem i) =
     (let r = cancel_item i (qr_queue w)
      in w\<lparr>qr_queue := fst r, qr_retracted := qr_retracted w @ took r\<rparr>)"
| "queue_step w (QDrainOne kind) =
     (let r = drain_one kind (qr_queue w)
      in w\<lparr>qr_queue := fst r, qr_delivered := qr_delivered w @ took r\<rparr>)"
| "queue_step w QDrainSteers =
     (let r = drain_steers_only (qr_queue w)
      in w\<lparr>qr_queue := fst r, qr_delivered := qr_delivered w @ snd r\<rparr>)"

definition ids_handed_out :: "nat \<Rightarrow> string list" where
  "ids_handed_out next = map item_id [1..<next]"

lemma item_id_inject: "item_id m = item_id n \<longleftrightarrow> m = n"
  by (simp add: item_id_def)

lemma ids_handed_out_Suc: "1 \<le> n \<Longrightarrow> ids_handed_out (Suc n) = ids_handed_out n @ [item_id n]"
  by (simp add: ids_handed_out_def)

lemma ids_handed_out_first [simp]: "ids_handed_out (Suc 0) = []"
  by (simp add: ids_handed_out_def)

lemma ids_handed_out_distinct: "distinct (ids_handed_out n)"
  by (simp add: ids_handed_out_def distinct_map inj_on_def item_id_inject)

lemma ids_handed_out_set: "set (ids_handed_out n) = item_id ` {1..<n}"
  by (simp add: ids_handed_out_def)

text \<open>Every id handed out is pending, delivered or retracted, exactly once.\<close>

definition accounted :: "queue_run \<Rightarrow> bool" where
  "accounted w \<longleftrightarrow>
     mset (map qi_id (sq_items (qr_queue w))) + mset (map qi_id (qr_delivered w)) +
       mset (map qi_id (qr_retracted w)) =
     mset (ids_handed_out (sq_next_id (qr_queue w))) \<and> 1 \<le> sq_next_id (qr_queue w)"

lemma accounted_distinct:
  assumes "accounted w"
  shows "distinct (map qi_id (sq_items (qr_queue w)))"
proof -
  note ids_handed_out_distinct [of "sq_next_id (qr_queue w)"]
  moreover have "mset (ids_handed_out (sq_next_id (qr_queue w))) =
      mset (map qi_id (sq_items (qr_queue w)) @ map qi_id (qr_delivered w) @ map qi_id (qr_retracted w))"
    using assms by (simp add: accounted_def add.assoc)
  ultimately have "distinct (map qi_id (sq_items (qr_queue w)) @ map qi_id (qr_delivered w) @
      map qi_id (qr_retracted w))"
    by (metis mset_eq_imp_distinct_iff)
  then show ?thesis by simp
qed

lemma mset_filter_id:
  "distinct (map f xs) \<Longrightarrow> x \<in> set xs \<Longrightarrow> mset xs = add_mset x (mset (filter (\<lambda>y. f y \<noteq> f x) xs))"
proof (induction xs)
  case (Cons a xs)
  show ?case
  proof (cases "x = a")
    case True
    then have "\<forall>y \<in> set xs. f y \<noteq> f x" using Cons.prems(1) by (auto simp: image_iff)
    then show ?thesis using True by (simp add: filter_id_conv [THEN iffD2])
  next
    case False
    then have "x \<in> set xs" using Cons.prems by simp
    then have "f a \<noteq> f x" using Cons.prems(1) by (metis distinct.simps(2) imageI list.set_map list.simps(9))
    then show ?thesis using Cons \<open>x \<in> set xs\<close> by simp
  qed
qed simp

lemma drain_one_mset:
  assumes "distinct (map qi_id (sq_items q))"
  shows "mset (sq_items q) = mset (sq_items (fst (drain_one kind q))) + mset (took (drain_one kind q))"
    and "sq_next_id (fst (drain_one kind q)) = sq_next_id q"
proof -
  obtain q' r where one: "drain_one kind q = (q', r)" by fastforce
  show "mset (sq_items q) = mset (sq_items (fst (drain_one kind q))) + mset (took (drain_one kind q))"
  proof (cases r)
    case None
    then have "q' = q" using one by (auto simp: drain_one_def split: list.splits)
    then show ?thesis using one None by (simp add: took_def)
  next
    case (Some item)
    then show ?thesis
      using drain_one_member [of kind q q' item] mset_filter_id [OF assms] one by (simp add: took_def)
  qed
  show "sq_next_id (fst (drain_one kind q)) = sq_next_id q"
    by (simp add: drain_one_def split: list.splits)
qed

lemma mset_filter_not: "mset xs = mset (filter (\<lambda>x. \<not> P x) xs) + mset (filter P xs)"
  by (induction xs) auto

lemma accounted_moved:
  assumes "accounted w" "mset (sq_items (qr_queue w)) =
      mset (sq_items q') + mset delivered + mset retracted" "sq_next_id q' = sq_next_id (qr_queue w)"
  shows "accounted (w\<lparr>qr_queue := q', qr_delivered := qr_delivered w @ delivered,
            qr_retracted := qr_retracted w @ retracted\<rparr>)"
proof -
  have "mset (map qi_id (sq_items (qr_queue w))) =
      mset (map qi_id (sq_items q')) + mset (map qi_id delivered) + mset (map qi_id retracted)"
    using assms(2) by (metis image_mset_union mset_map)
  then show ?thesis using assms(1,3) by (simp add: accounted_def ac_simps)
qed

lemma queue_step_accounted:
  assumes "accounted w"
  shows "accounted (queue_step w op)"
proof (cases op)
  case (QEnqueue t kind now atts)
  then show ?thesis
    using assms by (auto simp: accounted_def enqueue_item_def Let_def ids_handed_out_Suc)
next
  case QCancelLast
  let ?r = "cancel_last (qr_queue w)"
  have "mset (sq_items (qr_queue w)) = mset (sq_items (fst ?r)) + mset [] + mset (took ?r)"
  proof (cases "sq_items (qr_queue w) = []")
    case False
    then have "mset (sq_items (qr_queue w)) =
        mset (butlast (sq_items (qr_queue w))) + {#last (sq_items (qr_queue w))#}"
      by (metis append_butlast_last_id mset_append mset.simps)
    then show ?thesis using False by (simp add: cancel_last_def took_def)
  qed (simp add: cancel_last_def took_def)
  moreover have "sq_next_id (fst ?r) = sq_next_id (qr_queue w)" by (simp add: cancel_last_def)
  ultimately show ?thesis
    using QCancelLast accounted_moved [OF assms, of "fst ?r" "[]" "took ?r"] by (simp add: Let_def)
next
  case (QCancelItem i)
  let ?r = "cancel_item i (qr_queue w)"
  have "mset (sq_items (qr_queue w)) = mset (sq_items (fst ?r)) + mset [] + mset (took ?r)"
  proof (cases "find_index (\<lambda>item. qi_id item = i) (sq_items (qr_queue w))")
    case (Some index)
    then have "index < length (sq_items (qr_queue w))" by (simp add: find_index_Some)
    then show ?thesis using Some mset_remove_at [of index] by (simp add: cancel_item_def took_def)
  qed (simp add: cancel_item_def took_def)
  moreover have "sq_next_id (fst ?r) = sq_next_id (qr_queue w)"
    by (simp add: cancel_item_def split: option.splits)
  ultimately show ?thesis
    using QCancelItem accounted_moved [OF assms, of "fst ?r" "[]" "took ?r"] by (simp add: Let_def)
next
  case (QDrainOne kind)
  let ?r = "drain_one kind (qr_queue w)"
  show ?thesis
    using QDrainOne accounted_moved [OF assms, of "fst ?r" "took ?r" "[]"]
      drain_one_mset [OF accounted_distinct [OF assms]] by (simp add: Let_def)
next
  case QDrainSteers
  let ?r = "drain_steers_only (qr_queue w)"
  have "mset (sq_items (qr_queue w)) = mset (sq_items (fst ?r)) + mset (snd ?r) + mset []"
    "sq_next_id (fst ?r) = sq_next_id (qr_queue w)"
    using drain_all_kind [OF accounted_distinct [OF assms], of SteerKind]
      mset_filter_not [of "sq_items (qr_queue w)" "is_kind SteerKind"]
    by (simp_all add: drain_steers_only_def)
  then show ?thesis
    using QDrainSteers accounted_moved [OF assms, of "fst ?r" "snd ?r" "[]"] by (simp add: Let_def)
qed (use assms in \<open>simp_all add: accounted_def set_run_state_def interrupt_def
      clear_interrupt_flash_def pause_def resume_for_send_def\<close>)

interpretation queue_machine: invariant_machine queue_step accounted
  by unfold_locales (rule queue_step_accounted)

definition initial_run :: "run_state \<Rightarrow> queue_run" where
  "initial_run run = \<lparr>qr_queue = create_session_queue run, qr_delivered = [], qr_retracted = []\<rparr>"

text \<open>
  C20: no message is lost and none is delivered twice. Along every sequence of operations,
  interrupts and pauses included, each id ever handed out to a message belongs to exactly one
  message, which is either still pending, or was delivered once, or was retracted once.
\<close>

theorem queue_accounts_for_messages:
  "(let w = foldl queue_step (initial_run run) ops
    in distinct (map qi_id (sq_items (qr_queue w) @ qr_delivered w @ qr_retracted w)) \<and>
       set (map qi_id (sq_items (qr_queue w) @ qr_delivered w @ qr_retracted w)) =
         item_id ` {1..<sq_next_id (qr_queue w)})"
proof -
  let ?w = "foldl queue_step (initial_run run) ops"
  let ?all = "map qi_id (sq_items (qr_queue ?w) @ qr_delivered ?w @ qr_retracted ?w)"
  have "accounted ?w"
    by (rule queue_machine.run_inv) (simp add: accounted_def initial_run_def create_session_queue_def)
  then have eq: "mset ?all = mset (ids_handed_out (sq_next_id (qr_queue ?w)))"
    by (simp add: accounted_def ac_simps)
  have "distinct (ids_handed_out (sq_next_id (qr_queue ?w)))" by (rule ids_handed_out_distinct)
  then have "distinct ?all" using eq by (metis mset_eq_imp_distinct_iff)
  moreover have "set ?all = item_id ` {1..<sq_next_id (qr_queue ?w)}"
    using mset_eq_setD [OF eq] by (simp add: ids_handed_out_set)
  ultimately show ?thesis by (simp add: Let_def)
qed

text \<open>
  The order of delivery. In any state a run reaches, draining until nothing is left
  delivers first the steers and then the follow-ups, each in the order they were entered, and
  draining the steers delivers exactly them in that order and leaves the follow-ups as they are.
\<close>

theorem queue_drain_order:
  "(let q = qr_queue (foldl queue_step (initial_run run) ops)
    in drain_all None q =
         (q\<lparr>sq_items := []\<rparr>,
          filter (is_kind SteerKind) (sq_items q) @ filter (is_kind QueueKind) (sq_items q)) \<and>
       drain_steers_only q =
         (q\<lparr>sq_items := filter (is_kind QueueKind) (sq_items q)\<rparr>,
          filter (is_kind SteerKind) (sq_items q)))"
proof -
  let ?w = "foldl queue_step (initial_run run) ops"
  have "accounted ?w"
    by (rule queue_machine.run_inv) (simp add: accounted_def initial_run_def create_session_queue_def)
  then have d: "distinct (map qi_id (sq_items (qr_queue ?w)))" by (rule accounted_distinct)
  have "(\<lambda>i. \<not> is_kind SteerKind i) = is_kind QueueKind"
    by (auto simp: is_kind_def fun_eq_iff intro: queue_kind.exhaust)
  then show ?thesis
    using drain_all_any [OF d] drain_all_kind [OF d, of SteerKind]
    by (simp add: Let_def drain_steers_only_def drain_order_def)
qed

end
