(* ===== verification/DeliveryHop.thy ===== *)
theory DeliveryHop
  imports DeliveryQueue
begin

text \<open>
  Generation-gated delivery hops (second half of \<open>src/tui/delivery-queue.ts\<close>):
  \<open>createDeliveryGeneration\<close>, \<open>routeQueuedDelivery\<close>, \<open>createLiveSteerDeliver\<close> and
  \<open>createLeftoverSend\<close> over one serial operation queue. A hop's asynchronous body is cut at its
  awaits: each event is what the code does from one await to the next, so a session rotation can
  fall between any two of them. The lemmas show that a hop settles at most once and only for the
  session it was submitted in, that hops reach the agent in the order they were submitted, and
  that none is forgotten.
\<close>

section \<open>State and events\<close>

text \<open>\<open>LiveSteer\<close> hops get a callback to settle with later; \<open>Leftover\<close> hops settle on return.\<close>

datatype hop_kind = LiveSteer | Leftover

record hop_request =
  hr_id :: nat
  hr_kind :: hop_kind
  hr_captured :: nat
  hr_text :: string
  hr_attachments :: "string list"
  hr_operator :: "bool option"

text \<open>A call of the agent: what it was given, and the generation captured and current then.\<close>

record hop_call =
  hc_id :: nat
  hc_text :: string
  hc_attachments :: "string list"
  hc_operator :: "bool option"
  hc_captured :: nat
  hc_generation :: nat

datatype hop_phase = HopWaiting | HopIngesting | HopSending

text \<open>
  The head of \<open>hw_queue\<close> is the operation that runs unless the phase is waiting. \<open>hw_settles\<close>
  are the hops submitted with a settle callback, \<open>hw_settled\<close> those whose \<open>settled\<close> flag is up,
  \<open>hw_results\<close> the calls made to the settle callbacks, and \<open>hw_open\<close> the live hops whose own
  callback the agent holds.
\<close>

record hop_world =
  hw_generation :: nat
  hw_aborted :: "nat list"
  hw_next :: nat
  hw_queue :: "hop_request list"
  hw_phase :: hop_phase
  hw_settles :: "nat list"
  hw_settled :: "nat list"
  hw_results :: "(nat \<times> delivery_result) list"
  hw_open :: "nat list"
  hw_calls :: "hop_call list"
  hw_recorded :: "string list"
  hw_failures :: "nat list"

definition initial_hop_world :: hop_world where
  "initial_hop_world =
     \<lparr>hw_generation = 0, hw_aborted = [], hw_next = 0, hw_queue = [], hw_phase = HopWaiting,
      hw_settles = [], hw_settled = [], hw_results = [], hw_open = [], hw_calls = [],
      hw_recorded = [], hw_failures = []\<rparr>"

definition session_identity_abort_reason :: string where
  "session_identity_abort_reason = ''session identity changed; approval request denied''"

definition ask_director_wake_prefix :: string where
  "ask_director_wake_prefix = ''ask_director wake''"

definition mailbox_mail_wake_prefix :: string where
  "mailbox_mail_wake_prefix = ''mailbox mail''"

text \<open>\<open>routeQueuedDelivery\<close>.\<close>

definition route_queued_delivery :: "bool \<Rightarrow> queue_kind \<Rightarrow> hop_kind" where
  "route_queued_delivery parentCycleLive kind =
     (if kind = SteerKind \<and> parentCycleLive then LiveSteer else Leftover)"

text \<open>\<open>bump\<close>: identities are numbered by the generation they belong to.\<close>

definition bump_generation :: "hop_world \<Rightarrow> hop_world" where
  "bump_generation w =
     w\<lparr>hw_generation := hw_generation w + 1, hw_aborted := hw_aborted w @ [hw_generation w]\<rparr>"

definition still_current :: "hop_request \<Rightarrow> hop_world \<Rightarrow> bool" where
  "still_current r w \<longleftrightarrow> hr_captured r = hw_generation w"

definition submit_hop ::
    "hop_kind \<Rightarrow> string \<Rightarrow> string list option \<Rightarrow> bool \<Rightarrow> bool option \<Rightarrow> hop_world \<Rightarrow> hop_world" where
  "submit_hop kind txt attachments has_settle operatorOriginated w =
     w\<lparr>hw_queue := hw_queue w @
          [\<lparr>hr_id = hw_next w, hr_kind = kind, hr_captured = hw_generation w, hr_text = txt,
            hr_attachments = (case attachments of None \<Rightarrow> [] | Some a \<Rightarrow> a),
            hr_operator = operatorOriginated\<rparr>],
       hw_next := hw_next w + 1,
       hw_settles := (if has_settle then hw_next w # hw_settles w else hw_settles w)\<rparr>"

text \<open>\<open>finish\<close>: the first result goes to the settle callback, later ones nowhere.\<close>

definition finish_hop :: "nat \<Rightarrow> delivery_result \<Rightarrow> hop_world \<Rightarrow> hop_world" where
  "finish_hop i result w =
     (if List.member (hw_settled w) i then w
      else w\<lparr>hw_settled := i # hw_settled w,
             hw_results := (if List.member (hw_settles w) i then hw_results w @ [(i, result)]
                            else hw_results w)\<rparr>)"

definition note_failure :: "nat \<Rightarrow> hop_world \<Rightarrow> hop_world" where
  "note_failure i w =
     (if List.member (hw_settles w) i then w else w\<lparr>hw_failures := hw_failures w @ [i]\<rparr>)"

definition next_op :: "hop_world \<Rightarrow> hop_world" where
  "next_op w = w\<lparr>hw_queue := tl (hw_queue w), hw_phase := HopWaiting\<rparr>"

definition superseded_result :: delivery_result where
  "superseded_result = NotDelivered Superseded session_identity_abort_reason"

text \<open>Wake texts pass the ingest of a leftover hop unchanged.\<close>

definition ingested_message ::
    "hop_request \<Rightarrow> string \<times> string list \<Rightarrow> string \<times> string list" where
  "ingested_message r ingested =
     (if hr_kind r = Leftover \<and>
         (starts_with (hr_text r) ask_director_wake_prefix \<or>
          starts_with (hr_text r) mailbox_mail_wake_prefix)
      then (hr_text r, hr_attachments r) else ingested)"

definition call_agent :: "hop_request \<Rightarrow> string \<times> string list \<Rightarrow> hop_world \<Rightarrow> hop_world" where
  "call_agent r message w =
     w\<lparr>hw_calls := hw_calls w @
         [\<lparr>hc_id = hr_id r, hc_text = fst message, hc_attachments = snd message,
           hc_operator = hr_operator r, hc_captured = hr_captured r, hc_generation = hw_generation w\<rparr>],
       hw_recorded := (if hr_kind r = Leftover then hw_recorded w @ [hr_text r] else hw_recorded w)\<rparr>"

text \<open>The operation at the head starts: up to the await of the ingest.\<close>

definition start_hop :: "hop_request \<Rightarrow> hop_world \<Rightarrow> hop_world" where
  "start_hop r w =
     (if \<not> still_current r w then next_op (finish_hop (hr_id r) superseded_result w)
      else w\<lparr>hw_phase := HopIngesting\<rparr>)"

definition ingest_failed :: "hop_request \<Rightarrow> string \<Rightarrow> hop_world \<Rightarrow> hop_world" where
  "ingest_failed r detail w =
     next_op (note_failure (hr_id r) (finish_hop (hr_id r) (NotDelivered PreparationFailed detail) w))"

definition hop_threw :: "hop_request \<Rightarrow> string \<Rightarrow> hop_world \<Rightarrow> hop_world" where
  "hop_threw r detail w =
     next_op (note_failure (hr_id r) (finish_hop (hr_id r) (Uncertain detail) w))"

text \<open>
  The ingest returned. A leftover hop then awaits the agent's answer; a live one hands its
  callback over and is done, unless the call throws.
\<close>

definition ingest_done ::
    "hop_request \<Rightarrow> string \<times> string list \<Rightarrow> string option \<Rightarrow> hop_world \<Rightarrow> hop_world" where
  "ingest_done r ingested thrown w =
     (if \<not> still_current r w then next_op (finish_hop (hr_id r) superseded_result w)
      else (let w1 = call_agent r (ingested_message r ingested) w
            in if hr_kind r = Leftover then w1\<lparr>hw_phase := HopSending\<rparr>
               else (let w2 = w1\<lparr>hw_open := hr_id r # hw_open w1\<rparr>
                     in case thrown of
                          None \<Rightarrow> next_op w2
                        | Some detail \<Rightarrow> hop_threw r detail w2)))"

definition hop_returned :: "hop_request \<Rightarrow> delivery_result option \<Rightarrow> hop_world \<Rightarrow> hop_world" where
  "hop_returned r result w =
     next_op (finish_hop (hr_id r) (case result of Some x \<Rightarrow> x | None \<Rightarrow> Accepted) w)"

datatype hop_event =
    HopBump
  | HopSubmit bool queue_kind string "string list option" bool "bool option"
  | HopStart
  | HopIngested string "string list" "string option"
  | HopIngestFailed string
  | HopReturned "delivery_result option"
  | HopThrew string
  | HopCallback nat delivery_result

text \<open>An event that the phase or the queue does not allow changes nothing.\<close>

fun hop_step :: "hop_world \<Rightarrow> hop_event \<Rightarrow> hop_world" where
  "hop_step w HopBump = bump_generation w"
| "hop_step w (HopSubmit live kind txt atts has_settle oper) =
     submit_hop (route_queued_delivery live kind) txt atts has_settle oper w"
| "hop_step w (HopCallback i result) =
     (if List.member (hw_open w) i then finish_hop i result w else w)"
| "hop_step w HopStart =
     (case (hw_queue w, hw_phase w) of (r # _, HopWaiting) \<Rightarrow> start_hop r w | _ \<Rightarrow> w)"
| "hop_step w (HopIngested txt atts thrown) =
     (case (hw_queue w, hw_phase w) of
        (r # _, HopIngesting) \<Rightarrow> ingest_done r (txt, atts) thrown w | _ \<Rightarrow> w)"
| "hop_step w (HopIngestFailed detail) =
     (case (hw_queue w, hw_phase w) of (r # _, HopIngesting) \<Rightarrow> ingest_failed r detail w | _ \<Rightarrow> w)"
| "hop_step w (HopReturned result) =
     (case (hw_queue w, hw_phase w) of (r # _, HopSending) \<Rightarrow> hop_returned r result w | _ \<Rightarrow> w)"
| "hop_step w (HopThrew detail) =
     (case (hw_queue w, hw_phase w) of (r # _, HopSending) \<Rightarrow> hop_threw r detail w | _ \<Rightarrow> w)"

section \<open>Invariant\<close>

definition waiting_ids :: "hop_world \<Rightarrow> nat list" where
  "waiting_ids w = map hr_id (hw_queue w)"

text \<open>The ids whose call is still to come.\<close>

definition uncalled_ids :: "hop_world \<Rightarrow> nat list" where
  "uncalled_ids w = (if hw_phase w = HopSending then tl (waiting_ids w) else waiting_ids w)"

definition hops_ordered :: "hop_world \<Rightarrow> bool" where
  "hops_ordered w \<longleftrightarrow>
     sorted_wrt (<) (map hc_id (hw_calls w) @ uncalled_ids w) \<and>
     sorted_wrt (<) (waiting_ids w) \<and> (hw_phase w = HopWaiting \<or> hw_queue w \<noteq> []) \<and>
     list_all (\<lambda>c. hc_captured c = hc_generation c) (hw_calls w) \<and>
     (\<forall>i \<in> set (waiting_ids w) \<union> set (hw_open w) \<union> hc_id ` set (hw_calls w). i < hw_next w)"

definition hops_settled :: "hop_world \<Rightarrow> bool" where
  "hops_settled w \<longleftrightarrow>
     distinct (map fst (hw_results w)) \<and>
     fst ` set (hw_results w) = set (hw_settled w) \<inter> set (hw_settles w) \<and>
     (set (hw_settled w) \<union> set (hw_open w)) \<inter> set (waiting_ids w) = {} \<and>
     set (hw_settled w) \<union> set (hw_settles w) \<subseteq> {..<hw_next w} \<and>
     {..<hw_next w} \<subseteq> set (waiting_ids w) \<union> set (hw_settled w) \<union> set (hw_open w)"

definition hop_inv :: "hop_world \<Rightarrow> bool" where
  "hop_inv w \<longleftrightarrow> hops_ordered w \<and> hops_settled w"

lemma finish_hop_frame [simp]:
  "hw_queue (finish_hop i r w) = hw_queue w" "hw_phase (finish_hop i r w) = hw_phase w"
  "hw_next (finish_hop i r w) = hw_next w" "hw_settles (finish_hop i r w) = hw_settles w"
  "hw_open (finish_hop i r w) = hw_open w" "hw_calls (finish_hop i r w) = hw_calls w"
  "hw_generation (finish_hop i r w) = hw_generation w"
  "set (hw_settled (finish_hop i r w)) = insert i (set (hw_settled w))"
  by (auto simp: finish_hop_def)

lemma note_failure_frame [simp]:
  "hw_queue (note_failure i w) = hw_queue w" "hw_phase (note_failure i w) = hw_phase w"
  "hw_next (note_failure i w) = hw_next w" "hw_settles (note_failure i w) = hw_settles w"
  "hw_open (note_failure i w) = hw_open w" "hw_calls (note_failure i w) = hw_calls w"
  "hw_settled (note_failure i w) = hw_settled w" "hw_results (note_failure i w) = hw_results w"
  "hw_generation (note_failure i w) = hw_generation w"
  by (auto simp: note_failure_def)

lemma next_op_frame [simp]:
  "hw_queue (next_op w) = tl (hw_queue w)" "hw_phase (next_op w) = HopWaiting"
  "hw_next (next_op w) = hw_next w" "hw_settles (next_op w) = hw_settles w"
  "hw_open (next_op w) = hw_open w" "hw_calls (next_op w) = hw_calls w"
  "hw_settled (next_op w) = hw_settled w" "hw_results (next_op w) = hw_results w"
  by (simp_all add: next_op_def)

lemma call_agent_frame [simp]:
  "hw_queue (call_agent r m w) = hw_queue w" "hw_phase (call_agent r m w) = hw_phase w"
  "hw_next (call_agent r m w) = hw_next w" "hw_settles (call_agent r m w) = hw_settles w"
  "hw_open (call_agent r m w) = hw_open w" "hw_settled (call_agent r m w) = hw_settled w"
  "hw_results (call_agent r m w) = hw_results w"
  "map hc_id (hw_calls (call_agent r m w)) = map hc_id (hw_calls w) @ [hr_id r]"
  "hc_id ` set (hw_calls (call_agent r m w)) = insert (hr_id r) (hc_id ` set (hw_calls w))"
  by (simp_all add: call_agent_def)

subsection \<open>Settling\<close>

text \<open>\<open>finish\<close> keeps the accounts of the callbacks, and the operation it ends may leave the queue.\<close>

definition results_ok :: "hop_world \<Rightarrow> bool" where
  "results_ok w \<longleftrightarrow>
     distinct (map fst (hw_results w)) \<and>
     fst ` set (hw_results w) = set (hw_settled w) \<inter> set (hw_settles w)"

lemma finish_hop_results:
  assumes "results_ok w"
  shows "results_ok (finish_hop i r w)"
  using assms by (auto simp: results_ok_def finish_hop_def)

lemma results_ok_cong:
  "hw_results w' = hw_results w \<Longrightarrow> hw_settled w' = hw_settled w \<Longrightarrow> hw_settles w' = hw_settles w \<Longrightarrow>
     results_ok w' = results_ok w"
  by (simp add: results_ok_def)

lemma results_ok_submit:
  assumes "results_ok w" "hw_next w \<notin> set (hw_settled w)"
  shows "results_ok (submit_hop kind txt atts st oper w)"
  using assms by (auto simp: results_ok_def submit_hop_def)

lemma hops_settled_results: "hops_settled w \<Longrightarrow> results_ok w"
  by (simp add: hops_settled_def results_ok_def)

lemma hops_settled_ended:
  assumes "hops_settled w" "hops_ordered w" "hw_queue w = r # rest"
    and "hw_queue w' = rest" "hw_next w' = hw_next w" "hw_settles w' = hw_settles w"
    and "set (hw_settled w') = insert (hr_id r) (set (hw_settled w)) \<or>
         set (hw_settled w') = set (hw_settled w) \<and> hr_id r \<in> set (hw_open w')"
    and "set (hw_open w) \<subseteq> set (hw_open w')" "set (hw_open w') \<subseteq> insert (hr_id r) (set (hw_open w))"
    and "results_ok w'"
  shows "hops_settled w'"
proof -
  have r: "hr_id r \<notin> set (map hr_id rest)" "hr_id r < hw_next w"
    using assms(2,3) by (fastforce simp: hops_ordered_def waiting_ids_def)+
  show ?thesis
    using assms(1,3-10) r unfolding hops_settled_def results_ok_def waiting_ids_def
    by (auto simp del: set_map)
qed

lemma hops_settled_cong:
  "hw_queue w' = hw_queue w \<Longrightarrow> hw_next w' = hw_next w \<Longrightarrow> hw_settles w' = hw_settles w \<Longrightarrow>
   hw_settled w' = hw_settled w \<Longrightarrow> hw_results w' = hw_results w \<Longrightarrow> hw_open w' = hw_open w \<Longrightarrow>
   hops_settled w' = hops_settled w"
  by (simp add: hops_settled_def waiting_ids_def)

subsection \<open>Order\<close>

lemma hops_ordered_cong:
  "hw_queue w' = hw_queue w \<Longrightarrow> hw_next w' = hw_next w \<Longrightarrow> hw_phase w' = hw_phase w \<Longrightarrow>
   hw_calls w' = hw_calls w \<Longrightarrow> hw_open w' = hw_open w \<Longrightarrow> hops_ordered w' = hops_ordered w"
  by (simp add: hops_ordered_def waiting_ids_def uncalled_ids_def)

lemma hops_ordered_ended:
  assumes "hops_ordered w" "hw_queue w = r # rest" "hw_queue w' = rest" "hw_next w' = hw_next w"
    and "hw_phase w' = HopWaiting" "set (hw_open w') \<subseteq> insert (hr_id r) (set (hw_open w))"
    and "hw_calls w' = hw_calls w \<or>
         hw_phase w \<noteq> HopSending \<and>
         (\<exists>c. hw_calls w' = hw_calls w @ [c] \<and> hc_id c = hr_id r \<and> hc_captured c = hc_generation c)"
  shows "hops_ordered w'"
  using assms
  by (auto simp: hops_ordered_def waiting_ids_def uncalled_ids_def sorted_wrt_append
      split: if_splits)

lemma ended_by_finish:
  assumes "hop_inv w" "hw_queue w = r # rest"
  shows "hop_inv (next_op (finish_hop (hr_id r) result w))"
    and "hop_inv (next_op (note_failure (hr_id r) (finish_hop (hr_id r) result w)))"
proof -
  have inv: "hops_settled w" "hops_ordered w" using assms(1) by (simp_all add: hop_inv_def)
  have res: "results_ok (finish_hop (hr_id r) result w)"
    using finish_hop_results hops_settled_results [OF inv(1)] .
  let ?w1 = "next_op (finish_hop (hr_id r) result w)"
  let ?w2 = "next_op (note_failure (hr_id r) (finish_hop (hr_id r) result w))"
  have "hops_settled ?w1" "hops_settled ?w2"
    by (rule hops_settled_ended [OF inv assms(2)]; use assms(2) res in \<open>auto cong: results_ok_cong\<close>)+
  moreover have "hops_ordered ?w1" "hops_ordered ?w2"
    by (rule hops_ordered_ended [OF inv(2) assms(2)]; use assms(2) in auto)+
  ultimately show "hop_inv ?w1" "hop_inv ?w2" by (simp_all add: hop_inv_def)
qed

lemma submit_hop_inv:
  assumes "hop_inv w"
  shows "hop_inv (submit_hop kind txt atts st oper w)"
proof -
  have fresh: "hw_next w \<notin> set (hw_settled w)"
    using assms by (auto simp: hop_inv_def hops_settled_def)
  have "hops_settled (submit_hop kind txt atts st oper w)"
    using assms results_ok_submit [OF hops_settled_results fresh]
    by (auto simp: hop_inv_def hops_settled_def hops_ordered_def results_ok_def waiting_ids_def
        submit_hop_def less_Suc_eq lessThan_Suc)
  moreover have "hops_ordered (submit_hop kind txt atts st oper w)"
  proof (cases "hw_queue w")
    case Nil
    then show ?thesis
      using assms by (auto simp: hop_inv_def hops_ordered_def waiting_ids_def uncalled_ids_def
          submit_hop_def sorted_wrt_append less_Suc_eq)
  next
    case (Cons r rest)
    then show ?thesis
      using assms by (auto simp: hop_inv_def hops_ordered_def waiting_ids_def uncalled_ids_def
          submit_hop_def sorted_wrt_append less_Suc_eq)
  qed
  ultimately show ?thesis by (simp add: hop_inv_def)
qed

lemma callback_inv:
  assumes "hop_inv w" "i \<in> set (hw_open w)"
  shows "hop_inv (finish_hop i result w)"
proof -
  have "i < hw_next w" "i \<notin> set (waiting_ids w)"
    using assms by (auto simp: hop_inv_def hops_ordered_def hops_settled_def)
  then have "hops_settled (finish_hop i result w)"
    using assms(1) finish_hop_results [OF hops_settled_results, of w i result]
    by (auto simp: hop_inv_def hops_settled_def results_ok_def waiting_ids_def)
  moreover have "hops_ordered (finish_hop i result w) = hops_ordered w"
    by (rule hops_ordered_cong) simp_all
  then have "hops_ordered (finish_hop i result w)" using assms(1) by (simp add: hop_inv_def)
  ultimately show ?thesis by (simp add: hop_inv_def)
qed

lemma ingest_done_inv:
  assumes "hop_inv w" "hw_queue w = r # rest" "hw_phase w = HopIngesting"
  shows "hop_inv (ingest_done r m thrown w)"
proof (cases "still_current r w")
  case False
  then show ?thesis using ended_by_finish(1) [OF assms(1,2)] by (simp add: ingest_done_def)
next
  case True
  have inv: "hops_settled w" "hops_ordered w" using assms(1) by (simp_all add: hop_inv_def)
  let ?w1 = "call_agent r (ingested_message r m) w"
  have calls: "\<exists>c. hw_calls ?w1 = hw_calls w @ [c] \<and> hc_id c = hr_id r \<and> hc_captured c = hc_generation c"
    using True by (simp add: call_agent_def still_current_def)
  show ?thesis
  proof (cases "hr_kind r")
    case Leftover
    let ?w = "?w1\<lparr>hw_phase := HopSending\<rparr>"
    have "hops_ordered ?w"
      using inv(2) assms(2,3) calls
      by (auto simp: hops_ordered_def waiting_ids_def uncalled_ids_def sorted_wrt_append)
    moreover have "hops_settled ?w" using inv(1) by (subst hops_settled_cong) simp_all
    ultimately show ?thesis using True Leftover by (simp add: ingest_done_def hop_inv_def Let_def)
  next
    case LiveSteer
    let ?w2 = "?w1\<lparr>hw_open := hr_id r # hw_open ?w1\<rparr>"
    have res: "results_ok w" using inv(1) by (rule hops_settled_results)
    show ?thesis
    proof (cases thrown)
      case None
      have "hops_settled (next_op ?w2)"
        by (rule hops_settled_ended [OF inv assms(2)])
          (use assms(2) res in \<open>auto simp: results_ok_def\<close>)
      moreover have "hops_ordered (next_op ?w2)"
        by (rule hops_ordered_ended [OF inv(2) assms(2)]) (use assms(2,3) calls in auto)
      ultimately show ?thesis
        using True LiveSteer None by (simp add: ingest_done_def hop_inv_def Let_def)
    next
      case (Some detail)
      let ?w3 = "next_op (note_failure (hr_id r) (finish_hop (hr_id r) (Uncertain detail) ?w2))"
      have "results_ok ?w2" using res by (simp add: results_ok_def)
      then have "results_ok (finish_hop (hr_id r) (Uncertain detail) ?w2)" by (rule finish_hop_results)
      then have "hops_settled ?w3"
        by (intro hops_settled_ended [OF inv assms(2)])
          (use assms(2) in \<open>auto simp: results_ok_def\<close>)
      moreover have "hops_ordered ?w3"
        by (rule hops_ordered_ended [OF inv(2) assms(2)]) (use assms(2,3) calls in auto)
      ultimately show ?thesis
        using True LiveSteer Some by (simp add: ingest_done_def hop_inv_def hop_threw_def Let_def)
    qed
  qed
qed

lemma start_hop_inv:
  assumes "hop_inv w" "hw_queue w = r # rest" "hw_phase w = HopWaiting"
  shows "hop_inv (start_hop r w)"
proof (cases "still_current r w")
  case True
  have "hops_settled (w\<lparr>hw_phase := HopIngesting\<rparr>) = hops_settled w"
    by (rule hops_settled_cong) simp_all
  then show ?thesis
    using True assms by (simp add: start_hop_def hop_inv_def hops_ordered_def waiting_ids_def uncalled_ids_def)
next
  case False
  then show ?thesis using ended_by_finish(1) [OF assms(1,2)] by (simp add: start_hop_def)
qed

lemma bump_inv: "hop_inv w \<Longrightarrow> hop_inv (bump_generation w)"
proof -
  have "hops_ordered (bump_generation w) = hops_ordered w"
    by (rule hops_ordered_cong) (simp_all add: bump_generation_def)
  moreover have "hops_settled (bump_generation w) = hops_settled w"
    by (rule hops_settled_cong) (simp_all add: bump_generation_def)
  ultimately show "hop_inv w \<Longrightarrow> hop_inv (bump_generation w)" by (simp add: hop_inv_def)
qed

lemma hop_step_inv:
  assumes "hop_inv w"
  shows "hop_inv (hop_step w ev)"
  using assms ended_by_finish [OF assms]
  by (cases ev)
    (auto simp: bump_inv submit_hop_inv callback_inv start_hop_inv ingest_done_inv ingest_failed_def
      hop_returned_def hop_threw_def split: list.splits hop_phase.splits)

interpretation hop_machine: invariant_machine hop_step hop_inv
  by unfold_locales (rule hop_step_inv)


end
