(* ===== verification/WorkerFailure.thy ===== *)
theory WorkerFailure
  imports ToolNames
begin

text \<open>
  How a worker's run ended without a clean result: the closed classification of failures, the
  record written once per failed run and whether a replacement may be launched for it
  (\<open>src/subagent/terminal-failure.ts\<close>), the transient provider categories
  (\<open>src/inference-error-message.ts\<close>) and the outcome a parent's answer settles an ask with
  (\<open>src/subagent/escalation-policy.ts\<close>).
\<close>

section \<open>Failure classes\<close>

datatype failure_class =
    ProviderRetryable | ProviderFatal | LoopGuard | StalledFailure | DeadlineFailure
  | IncompleteReportFailure | CancelledFailure | InterruptedFailure | ErrorFailure

datatype recovery_reason =
  Eligible | NotRetryable | SideEffectsCompleted | AlreadyRecovered | RecoveryExhausted

datatype handoff_state =
  HandoffNone | HandoffUnavailable | HandoffSubmitted | HandoffDelivered | HandoffUnknown

datatype cleanup_outcome = Released | Partial

datatype forced_stop_reason =
  StopCancelled | StopDeadline | StopStalled | StopIncompleteReport | StopInterrupted

text \<open>The text a forced stop is recorded under.\<close>

fun forced_stop_text :: "forced_stop_reason \<Rightarrow> string" where
  "forced_stop_text StopCancelled = ''cancelled''"
| "forced_stop_text StopDeadline = ''deadline''"
| "forced_stop_text StopStalled = ''stalled''"
| "forced_stop_text StopIncompleteReport = ''incomplete-report''"
| "forced_stop_text StopInterrupted = ''interrupted''"

fun failure_class_for_stop_reason :: "forced_stop_reason \<Rightarrow> failure_class" where
  "failure_class_for_stop_reason StopIncompleteReport = IncompleteReportFailure"
| "failure_class_for_stop_reason StopCancelled = CancelledFailure"
| "failure_class_for_stop_reason StopDeadline = DeadlineFailure"
| "failure_class_for_stop_reason StopStalled = StalledFailure"
| "failure_class_for_stop_reason StopInterrupted = InterruptedFailure"

definition is_provider_failure_class :: "failure_class \<Rightarrow> bool" where
  "is_provider_failure_class cls \<longleftrightarrow> cls = ProviderRetryable \<or> cls = ProviderFatal"

section \<open>Thrown values\<close>

text \<open>
  What a run may throw, as far as the classification tells thrown values apart: the loop-guard
  wrapper with its cause, a provider failure resolved to a category, a send suspended on an
  approval gate, an agent that was closed, and anything else with its message.
\<close>

datatype thrown_error =
    LoopGuardError (loop_guard_cause: thrown_error)
  | ResolvedProviderFailure string
  | SuspendedSend string
  | AgentClosedError string
  | OtherError string

fun is_loop_guard_error :: "thrown_error \<Rightarrow> bool" where
  "is_loop_guard_error (LoopGuardError _) = True"
| "is_loop_guard_error _ = False"

fun is_agent_closed_error :: "thrown_error \<Rightarrow> bool" where
  "is_agent_closed_error (AgentClosedError _) = True"
| "is_agent_closed_error _ = False"

definition fatal_provider_failure_categories :: "string list" where
  "fatal_provider_failure_categories =
     [''credential_failure'', ''quota_exhausted'', ''context_overflow'']"

definition recoverable_provider_failure_categories :: "string list" where
  "recoverable_provider_failure_categories = [''retryable'', ''timeout'']"

definition is_recoverable_provider_failure_category :: "string \<Rightarrow> bool" where
  "is_recoverable_provider_failure_category category =
     (if List.member fatal_provider_failure_categories category then False
      else List.member recoverable_provider_failure_categories category)"

fun classify_subagent_failure :: "thrown_error \<Rightarrow> bool \<Rightarrow> failure_class" where
  "classify_subagent_failure (LoopGuardError _) providerFailureObserved = LoopGuard"
| "classify_subagent_failure (ResolvedProviderFailure category) providerFailureObserved =
     (if is_recoverable_provider_failure_category category then ProviderRetryable
      else ProviderFatal)"
| "classify_subagent_failure (SuspendedSend _) providerFailureObserved = ErrorFailure"
| "classify_subagent_failure _ providerFailureObserved =
     (if providerFailureObserved then ProviderFatal else ErrorFailure)"

section \<open>Recovery\<close>

record recovery =
  rc_available :: bool
  rc_reason :: recovery_reason
  rc_replacement_id :: "string option"

record failure_record =
  fr_agent_id :: string
  fr_class :: failure_class
  fr_failed_at :: int
  fr_recovery :: recovery
  fr_attempt :: nat
  fr_recovers :: "string option"
  fr_handoff :: handoff_state
  fr_cleanup :: cleanup_outcome

record failure_input =
  fi_class :: failure_class
  fi_teardown_failed :: bool
  fi_cause :: "thrown_error option"

fun resolved_recoverable :: "thrown_error \<Rightarrow> bool" where
  "resolved_recoverable (ResolvedProviderFailure category) =
     is_recoverable_provider_failure_category category"
| "resolved_recoverable _ = False"

definition is_retryable_failure :: "failure_class \<Rightarrow> thrown_error option \<Rightarrow> bool" where
  "is_retryable_failure cls cause =
     (if cls = ProviderRetryable then True
      else if cls \<noteq> LoopGuard then False
      else (case cause of
              None \<Rightarrow> False
            | Some e \<Rightarrow>
                resolved_recoverable (if is_loop_guard_error e then loop_guard_cause e else e)))"

definition recovery_for ::
    "failure_class \<Rightarrow> nat \<Rightarrow> bool \<Rightarrow> thrown_error option \<Rightarrow> bool \<Rightarrow> recovery" where
  "recovery_for cls attempt followupTurn cause replaySafe =
     (if attempt > 1 then
        \<lparr>rc_available = False, rc_reason = RecoveryExhausted, rc_replacement_id = None\<rparr>
      else if followupTurn \<or> \<not> is_retryable_failure cls cause then
        \<lparr>rc_available = False, rc_reason = NotRetryable, rc_replacement_id = None\<rparr>
      else if \<not> replaySafe then
        \<lparr>rc_available = False, rc_reason = SideEffectsCompleted, rc_replacement_id = None\<rparr>
      else \<lparr>rc_available = True, rc_reason = Eligible, rc_replacement_id = None\<rparr>)"

definition without_recovery_replacement :: "failure_record \<Rightarrow> failure_record" where
  "without_recovery_replacement r =
     r\<lparr>fr_recovery := \<lparr>rc_available = True, rc_reason = Eligible, rc_replacement_id = None\<rparr>\<rparr>"

definition with_recovery_replacement :: "failure_record \<Rightarrow> string \<Rightarrow> failure_record" where
  "with_recovery_replacement r replacementId =
     r\<lparr>fr_recovery := \<lparr>rc_available = False, rc_reason = AlreadyRecovered,
        rc_replacement_id = Some replacementId\<rparr>\<rparr>"

section \<open>The outcome an ask settles with\<close>

datatype escalation_classification =
    Routine | DirectorResolvable | OperatorDecisionRequired | OutcomeBlocked
  | IrreversibleOrSensitive

record permitted_alternative =
  pa_attempted :: string
  pa_result :: string
  pa_comparable :: bool

record verification_detail =
  vd_outcome :: string
  vd_root_cause :: string
  vd_narrow_checks :: "string list"
  vd_reduced_confidence :: string

record escalation_assessment =
  ea_classification :: escalation_classification
  ea_blocked_outcome :: string
  ea_unavailable_path :: string
  ea_alternatives :: "permitted_alternative list"
  ea_minimum_addition :: string
  ea_decline_consequence :: string
  ea_recommendation :: "string option"
  ea_safe_default :: "string option"
  ea_requested_mechanism :: "string option"
  ea_minimum_authority :: "string option"
  ea_verification :: "verification_detail option"

datatype resolution_kind = DirectorAnswer | Declined | Unavailable | MinimumGrantAvailable

record escalation_resolution =
  er_kind :: resolution_kind
  er_answer :: string
  er_question_id :: string

datatype terminal_outcome =
    VerificationBlocked string string "permitted_alternative list" resolution_kind string
      "string option"
  | DeclinedOutcome resolution_kind string "string option"
  | VerifiedOutcome string

datatype escalation_directive =
    ContinueInternal escalation_assessment
  | ParkParent escalation_assessment

definition decide_escalation :: "escalation_assessment \<Rightarrow> escalation_directive" where
  "decide_escalation a =
     (if ea_classification a = Routine \<or>
         (ea_classification a = DirectorResolvable \<and> list_ex pa_comparable (ea_alternatives a))
      then ContinueInternal a else ParkParent a)"

definition derive_verification_blocked_outcome ::
    "escalation_assessment \<Rightarrow> escalation_resolution \<Rightarrow> terminal_outcome option" where
  "derive_verification_blocked_outcome a r =
     (if er_kind r \<noteq> Declined \<and> er_kind r \<noteq> Unavailable then None
      else (case ea_verification a of
              None \<Rightarrow> None
            | Some v \<Rightarrow>
                Some (VerificationBlocked (vd_outcome v) (vd_root_cause v) (ea_alternatives a)
                  (er_kind r) (vd_reduced_confidence v) (ea_recommendation a))))"

definition derive_terminal_outcome ::
    "escalation_assessment \<Rightarrow> escalation_resolution \<Rightarrow> terminal_outcome option" where
  "derive_terminal_outcome a r =
     (if er_kind r \<noteq> Declined \<and> er_kind r \<noteq> Unavailable then None
      else if ea_verification a \<noteq> None then derive_verification_blocked_outcome a r
      else Some (DeclinedOutcome (er_kind r) (ea_decline_consequence a) (ea_recommendation a)))"

text \<open>
  A replacement is offered for a failed worker only where it cannot repeat work. It is
  available exactly for a first attempt on the worker's own brief that failed for a transient
  provider reason, directly or under the loop guard, with every tool replayable; a claimed
  record is never available again, and refunding the claim gives the record as it was written.
\<close>

theorem recovery_only_when_safe:
  "(rc_available (recovery_for cls attempt followupTurn cause replaySafe) \<longleftrightarrow>
      attempt \<le> 1 \<and> \<not> followupTurn \<and> replaySafe \<and> is_retryable_failure cls cause) \<and>
   (rc_available (recovery_for (classify_subagent_failure err seen) attempt followupTurn
        (if is_loop_guard_error err then Some (loop_guard_cause err) else None) replaySafe) \<longleftrightarrow>
      attempt \<le> 1 \<and> \<not> followupTurn \<and> replaySafe \<and>
      (resolved_recoverable err \<or>
       (is_loop_guard_error err \<and>
          (resolved_recoverable (loop_guard_cause err) \<or>
           (is_loop_guard_error (loop_guard_cause err) \<and>
              resolved_recoverable (loop_guard_cause (loop_guard_cause err))))))) \<and>
   \<not> rc_available (fr_recovery (with_recovery_replacement r other)) \<and>
   \<not> (fr_recovery r = recovery_for cls attempt followupTurn cause replaySafe \<and>
      rc_available (fr_recovery r) \<and>
      without_recovery_replacement (with_recovery_replacement r other) \<noteq> r)"
proof -
  have "(rc_available (recovery_for (classify_subagent_failure err seen) attempt followupTurn
        (if is_loop_guard_error err then Some (loop_guard_cause err) else None) replaySafe) \<longleftrightarrow>
      attempt \<le> 1 \<and> \<not> followupTurn \<and> replaySafe \<and>
      (resolved_recoverable err \<or>
       (is_loop_guard_error err \<and>
          (resolved_recoverable (loop_guard_cause err) \<or>
           (is_loop_guard_error (loop_guard_cause err) \<and>
              resolved_recoverable (loop_guard_cause (loop_guard_cause err)))))))"
  proof (cases err)
    case (LoopGuardError c)
    then show ?thesis by (cases c) (auto simp: recovery_for_def is_retryable_failure_def)
  qed (auto simp: recovery_for_def is_retryable_failure_def)
  moreover have "\<not> (fr_recovery r = recovery_for cls attempt followupTurn cause replaySafe \<and>
      rc_available (fr_recovery r) \<and>
      without_recovery_replacement (with_recovery_replacement r other) \<noteq> r)"
    by (cases r) (auto simp: recovery_for_def without_recovery_replacement_def
        with_recovery_replacement_def split: if_splits)
  ultimately show ?thesis
    by (auto simp: recovery_for_def with_recovery_replacement_def)
qed

text \<open>
  A declined or unanswerable ask never settles silently. An answer leaves an outcome
  exactly when it declines or reports the parent unavailable; a verification ask then leaves a
  blocked verification, every other ask the decline with its consequence; no answer ever
  leaves a verified outcome; and an ask that needs a decision is parked whatever confidence
  the worker claims.
\<close>

theorem declines_leave_outcome:
  "(derive_terminal_outcome a r = None \<longleftrightarrow>
      er_kind r = DirectorAnswer \<or> er_kind r = MinimumGrantAvailable) \<and>
   ((\<exists>vo rc alts k conf rec. derive_terminal_outcome a r =
        Some (VerificationBlocked vo rc alts k conf rec)) \<longleftrightarrow>
      (er_kind r = Declined \<or> er_kind r = Unavailable) \<and> ea_verification a \<noteq> None) \<and>
   derive_terminal_outcome a r \<noteq> Some (VerifiedOutcome vo) \<and>
   (ea_classification a \<in> {OperatorDecisionRequired, OutcomeBlocked, IrreversibleOrSensitive}
      \<longleftrightarrow> decide_escalation a = ParkParent a \<and> ea_classification a \<noteq> DirectorResolvable)"
  by (cases "er_kind r"; cases "ea_classification a"; cases "ea_verification a")
    (simp_all add: derive_terminal_outcome_def derive_verification_blocked_outcome_def
      decide_escalation_def)

end
