(* ===== verification/SessionTranscript.thy ===== *)
theory SessionTranscript
  imports Fleet WorkerFailure
begin

text \<open>
  One worker session as the session store keeps it, and what the events of its run do to it
  (\<open>src/subagent/session-store.ts\<close>, \<open>appendEvent\<close> and the helpers above the store): the capped
  transcript, the outstanding tool calls and the one of them the lane displays. The preview of a
  call's arguments (\<open>src/subagent/tool-preview.ts\<close>, a bank of regular expressions over a JSON
  parse) is a function argument, and so is the clock, read once per operation.
\<close>

named_theorems session_defs

section \<open>The stored session\<close>

record outstanding_tool_call =
  oc_call_id :: string
  oc_name :: string
  oc_started_at :: int
  oc_preview :: "string option"

datatype transcript_entry =
    TextEntry string
  | ThinkingEntry string
  | ToolEntry (te_call_id: string) (te_name: string) (te_arguments: string)
  | ToolResultEntry string string string bool
  | ReportEntry string

record stored_session =
  ss_id :: string
  ss_description :: string
  ss_agent_id :: string
  ss_brief :: string
  ss_lifecycle :: worker_lifecycle
  ss_tool_names :: "string list"
  ss_terminal_outcome :: "terminal_outcome option"
  ss_routine_evaluations :: "escalation_assessment list"
  ss_current_name :: "string option"
  ss_current_preview :: "string option"
  ss_current_started_at :: "int option"
  ss_outstanding :: "outstanding_tool_call list"
  ss_entries :: "transcript_entry list"
  ss_started_at :: int
  ss_last_activity_at :: int
  ss_finished_at :: "int option"
  ss_report :: "string option"
  ss_error :: "string option"
  ss_stop_reason :: "string option"
  ss_parent_session_id :: "string option"
  ss_provider :: "string option"
  ss_retained :: "bool option"
  ss_requires_tools :: "string list option"
  ss_failure :: "failure_record option"
  ss_recovers :: "string option"

text \<open>The caps of \<open>SubAgentSessionStoreOptions\<close>.\<close>

record store_options =
  op_max_completed :: nat
  op_max_retained :: nat
  op_max_entries :: nat
  op_max_entry_chars :: nat

definition default_options :: store_options where
  "default_options =
     \<lparr>op_max_completed = 20, op_max_retained = 50, op_max_entries = 400,
      op_max_entry_chars = 24000\<rparr>"

section \<open>Outstanding tool calls\<close>

fun older_call ::
    "outstanding_tool_call option \<Rightarrow> outstanding_tool_call \<Rightarrow> outstanding_tool_call option" where
  "older_call None c = Some c"
| "older_call (Some b) c = (if oc_started_at c < oc_started_at b then Some c else Some b)"

definition oldest_call :: "outstanding_tool_call list \<Rightarrow> outstanding_tool_call option" where
  "oldest_call cs = foldl older_call None cs"

definition sync_current_tool :: "stored_session \<Rightarrow> stored_session" where
  "sync_current_tool s =
     (let oldest = oldest_call (ss_outstanding s)
      in s\<lparr>ss_current_name := map_option oc_name oldest,
           ss_current_preview := Option.bind oldest oc_preview,
           ss_current_started_at := map_option oc_started_at oldest\<rparr>)"

text \<open>Replacing the first element that satisfies a test, as a \<open>find\<close> followed by an assignment.\<close>

fun update_first :: "('a \<Rightarrow> bool) \<Rightarrow> ('a \<Rightarrow> 'a) \<Rightarrow> 'a list \<Rightarrow> 'a list" where
  "update_first P f [] = []"
| "update_first P f (x # xs) = (if P x then f x # xs else x # update_first P f xs)"

definition update_last :: "('a \<Rightarrow> bool) \<Rightarrow> ('a \<Rightarrow> 'a) \<Rightarrow> 'a list \<Rightarrow> 'a list" where
  "update_last P f xs = rev (update_first P f (rev xs))"

definition find_last :: "('a \<Rightarrow> bool) \<Rightarrow> 'a list \<Rightarrow> 'a option" where
  "find_last P xs = List.find P (rev xs)"

definition is_call :: "string \<Rightarrow> outstanding_tool_call \<Rightarrow> bool" where
  "is_call callId c \<longleftrightarrow> oc_call_id c = callId"

definition begin_tool_call ::
    "(string \<Rightarrow> string \<Rightarrow> string option) \<Rightarrow> string \<Rightarrow> string \<Rightarrow> int \<Rightarrow> bool \<Rightarrow> string option
      \<Rightarrow> stored_session \<Rightarrow> stored_session" where
  "begin_tool_call prev callId name t restartClock rawArgs s =
     (let existing = List.find (is_call callId) (ss_outstanding s);
          shown = (case rawArgs of
                     Some raw \<Rightarrow> prev name raw
                   | None \<Rightarrow> Option.bind existing oc_preview)
      in sync_current_tool
           (if existing \<noteq> None then
              s\<lparr>ss_outstanding := update_first (is_call callId)
                  (\<lambda>c. c\<lparr>oc_name := name,
                         oc_started_at := (if restartClock then t else oc_started_at c),
                         oc_preview := (if rawArgs \<noteq> None then shown else oc_preview c)\<rparr>)
                  (ss_outstanding s)\<rparr>
            else
              s\<lparr>ss_outstanding := ss_outstanding s @
                  [\<lparr>oc_call_id = callId, oc_name = name, oc_started_at = t, oc_preview = shown\<rparr>]\<rparr>))"

definition refresh_tool_preview ::
    "(string \<Rightarrow> string \<Rightarrow> string option) \<Rightarrow> string \<Rightarrow> string \<Rightarrow> string
      \<Rightarrow> stored_session \<Rightarrow> stored_session" where
  "refresh_tool_preview prev callId name rawArgs s =
     (if List.find (is_call callId) (ss_outstanding s) = None then s
      else sync_current_tool
        (s\<lparr>ss_outstanding := update_first (is_call callId)
             (\<lambda>c. c\<lparr>oc_preview := prev name rawArgs\<rparr>) (ss_outstanding s)\<rparr>))"

definition end_tool_call :: "string \<Rightarrow> stored_session \<Rightarrow> stored_session" where
  "end_tool_call callId s =
     (case find_index (is_call callId) (ss_outstanding s) of
        None \<Rightarrow> s
      | Some i \<Rightarrow> sync_current_tool (s\<lparr>ss_outstanding := remove_at i (ss_outstanding s)\<rparr>))"

definition clear_tool_calls :: "stored_session \<Rightarrow> stored_session" where
  "clear_tool_calls s = sync_current_tool (s\<lparr>ss_outstanding := []\<rparr>)"

section \<open>The transcript\<close>

definition cap_text :: "string \<Rightarrow> nat \<Rightarrow> string" where
  "cap_text txt mx = (if length txt \<le> mx then txt else take mx txt)"

definition append_capped :: "string \<Rightarrow> string \<Rightarrow> nat \<Rightarrow> string" where
  "append_capped prior added mx =
     (if mx \<le> length prior then prior
      else if length prior + length added \<le> mx then prior @ added
      else prior @ take (mx - length prior) added)"

fun stringify_unknown :: "json \<Rightarrow> string" where
  "stringify_unknown (JStr s) = s"
| "stringify_unknown v = json_stringify v"

definition push_entry :: "store_options \<Rightarrow> transcript_entry \<Rightarrow> stored_session \<Rightarrow> stored_session" where
  "push_entry opts entry s =
     (let es = ss_entries s @ [entry]
      in s\<lparr>ss_entries :=
           (if length es > op_max_entries opts then drop (length es - op_max_entries opts) es
            else es)\<rparr>)"

definition push_report :: "store_options \<Rightarrow> string \<Rightarrow> stored_session \<Rightarrow> stored_session" where
  "push_report opts txt s = push_entry opts (ReportEntry (cap_text txt (op_max_entry_chars opts))) s"

section \<open>The events of a run\<close>

text \<open>An event of the reactor: its type and the members of its data.\<close>

record emitted_event =
  ev_type :: string
  ev_data :: "(string \<times> json) list"

definition str_field :: "(string \<times> json) list \<Rightarrow> string \<Rightarrow> string option" where
  "str_field m k = (case jfield m k of Some (JStr s) \<Rightarrow> Some s | _ \<Rightarrow> None)"

definition obj_field :: "(string \<times> json) list \<Rightarrow> string \<Rightarrow> (string \<times> json) list" where
  "obj_field m k = (case jfield m k of Some (JObj kvs) \<Rightarrow> kvs | _ \<Rightarrow> [])"

definition add_tool_name :: "string \<Rightarrow> stored_session \<Rightarrow> stored_session" where
  "add_tool_name name s =
     (if List.member (ss_tool_names s) name then s
      else s\<lparr>ss_tool_names := ss_tool_names s @ [name]\<rparr>)"

fun is_tool_entry :: "string option \<Rightarrow> transcript_entry \<Rightarrow> bool" where
  "is_tool_entry callId (ToolEntry c n a) = (callId = None \<or> callId = Some c)"
| "is_tool_entry callId _ = False"

definition generated_id :: "string \<Rightarrow> stored_session \<Rightarrow> string" where
  "generated_id name s = name @ ''-'' @ dec (length (ss_entries s))"

definition on_text_delta ::
    "store_options \<Rightarrow> (string \<times> json) list \<Rightarrow> stored_session \<Rightarrow> stored_session" where
  "on_text_delta opts data s =
     (case str_field data ''token'' of
        None \<Rightarrow> s
      | Some token \<Rightarrow>
          if token = [] then s
          else (case (if ss_entries s = [] then None else Some (last (ss_entries s))) of
                  Some (TextEntry content) \<Rightarrow>
                    s\<lparr>ss_entries := butlast (ss_entries s) @
                        [TextEntry (append_capped content token (op_max_entry_chars opts))]\<rparr>
                | _ \<Rightarrow> push_entry opts (TextEntry (cap_text token (op_max_entry_chars opts))) s))"

definition on_thinking_delta ::
    "store_options \<Rightarrow> (string \<times> json) list \<Rightarrow> stored_session \<Rightarrow> stored_session" where
  "on_thinking_delta opts data s =
     (case str_field data ''token'' of
        None \<Rightarrow> s
      | Some token \<Rightarrow>
          if token = [] then s
          else (case (if ss_entries s = [] then None else Some (last (ss_entries s))) of
                  Some (ThinkingEntry content) \<Rightarrow>
                    s\<lparr>ss_entries := butlast (ss_entries s) @
                        [ThinkingEntry (append_capped content token (op_max_entry_chars opts))]\<rparr>
                | _ \<Rightarrow> push_entry opts (ThinkingEntry (cap_text token (op_max_entry_chars opts))) s))"

definition on_tool_call_start ::
    "(string \<Rightarrow> string \<Rightarrow> string option) \<Rightarrow> store_options \<Rightarrow> int \<Rightarrow> (string \<times> json) list
      \<Rightarrow> stored_session \<Rightarrow> stored_session" where
  "on_tool_call_start prev opts t data s =
     (let name = (case str_field data ''name'' of Some n \<Rightarrow> n | None \<Rightarrow> ''tool'');
          callId = (case str_field data ''callId'' of Some c \<Rightarrow> c | None \<Rightarrow> generated_id name s)
      in push_entry opts (ToolEntry callId name [])
           (add_tool_name name (begin_tool_call prev callId name t False None s)))"

definition on_tool_call_delta ::
    "(string \<Rightarrow> string \<Rightarrow> string option) \<Rightarrow> store_options \<Rightarrow> (string \<times> json) list
      \<Rightarrow> stored_session \<Rightarrow> stored_session" where
  "on_tool_call_delta prev opts data s =
     (case str_field data ''argumentFragment'' of
        None \<Rightarrow> s
      | Some fragment \<Rightarrow>
          if fragment = [] then s
          else (let callId = str_field data ''callId''
                in (case find_last (is_tool_entry callId) (ss_entries s) of
                      Some (ToolEntry c n a) \<Rightarrow>
                        (let a' = append_capped a fragment (op_max_entry_chars opts)
                         in refresh_tool_preview prev c n a'
                              (s\<lparr>ss_entries := update_last (is_tool_entry callId)
                                   (\<lambda>_. ToolEntry c n a') (ss_entries s)\<rparr>))
                    | _ \<Rightarrow> s)))"

definition on_tool_call_end ::
    "(string \<Rightarrow> string \<Rightarrow> string option) \<Rightarrow> store_options \<Rightarrow> int \<Rightarrow> (string \<times> json) list
      \<Rightarrow> stored_session \<Rightarrow> stored_session" where
  "on_tool_call_end prev opts t data s =
     (let callId = str_field data ''callId'';
          name = str_field data ''name'';
          args = map_option (\<lambda>v. cap_text (stringify_unknown v) (op_max_entry_chars opts))
                   (jfield data ''arguments'')
      in (case find_last (is_tool_entry callId) (ss_entries s) of
            Some (ToolEntry c n a) \<Rightarrow>
              (let n' = (case name of Some m \<Rightarrow> m | None \<Rightarrow> n);
                   a' = (case args of Some b \<Rightarrow> if b \<noteq> [] then b else a | None \<Rightarrow> a)
               in begin_tool_call prev c n' t False (Some a')
                    (s\<lparr>ss_entries := update_last (is_tool_entry callId)
                         (\<lambda>_. ToolEntry c n' a') (ss_entries s)\<rparr>))
          | _ \<Rightarrow>
              (case name of
                 None \<Rightarrow> s
               | Some m \<Rightarrow>
                   (let idForEntry = (case callId of Some c \<Rightarrow> c | None \<Rightarrow> generated_id m s);
                        a' = (case args of Some b \<Rightarrow> b | None \<Rightarrow> [])
                    in push_entry opts (ToolEntry idForEntry m a')
                         (begin_tool_call prev idForEntry m t False (Some a')
                            (add_tool_name m s))))))"

definition on_tool_start ::
    "(string \<Rightarrow> string \<Rightarrow> string option) \<Rightarrow> store_options \<Rightarrow> int \<Rightarrow> (string \<times> json) list
      \<Rightarrow> stored_session \<Rightarrow> stored_session" where
  "on_tool_start prev opts t data s =
     (let call = obj_field data ''call''
      in (case str_field call ''name'' of
            None \<Rightarrow> s
          | Some name \<Rightarrow>
              (let rawArgs = map_option
                     (\<lambda>v. cap_text (stringify_unknown v) (op_max_entry_chars opts))
                     (jfield call ''arguments'')
               in add_tool_name name
                    (case str_field call ''id'' of
                       Some callId \<Rightarrow> begin_tool_call prev callId name t True rawArgs s
                     | None \<Rightarrow> s))))"

text \<open>The name the transcript, and the one the running call, gives a call id.\<close>

definition entry_call_name :: "string \<Rightarrow> stored_session \<Rightarrow> string" where
  "entry_call_name callId s =
     (case find_last (is_tool_entry (Some callId)) (ss_entries s) of
        Some e \<Rightarrow> te_name e | None \<Rightarrow> ''tool'')"

definition result_content :: "json option \<Rightarrow> string" where
  "result_content v =
     (case v of None \<Rightarrow> [] | Some JNull \<Rightarrow> [] | Some w \<Rightarrow> stringify_unknown w)"

text \<open>
  A finished call. The second component is the session's handoff trace, which only the
  answered \<open>ask_director\<close> call returning moves to delivered.
\<close>

definition on_tool_done ::
    "store_options \<Rightarrow> (string \<times> json) list \<Rightarrow> handoff_state option
      \<Rightarrow> stored_session \<Rightarrow> stored_session \<times> handoff_state option" where
  "on_tool_done opts data trace s =
     (if jfield data ''result'' = None then (s, trace)
      else
        (let res = obj_field data ''result'';
             callId = (case str_field res ''callId'' of
                         Some c \<Rightarrow> c | None \<Rightarrow> generated_id ''result'' s);
             name = entry_call_name callId s;
             content = cap_text (result_content (jfield res ''content'')) (op_max_entry_chars opts);
             isError = (jfield res ''isError'' = Some (JBool True));
             callName = (case List.find (is_call callId) (ss_outstanding s) of
                           Some c \<Rightarrow> oc_name c | None \<Rightarrow> name);
             trace' = (if \<not> isError \<and> trace = Some HandoffSubmitted \<and>
                          canonical_tool_name callName = ''ask_director''
                       then Some HandoffDelivered else trace)
         in (end_tool_call callId
               (push_entry opts (ToolResultEntry callId name content isError) s), trace')))"

definition append_event ::
    "(string \<Rightarrow> string \<Rightarrow> string option) \<Rightarrow> store_options \<Rightarrow> int \<Rightarrow> emitted_event
      \<Rightarrow> stored_session \<times> handoff_state option \<Rightarrow> stored_session \<times> handoff_state option" where
  "append_event prev opts t ev st =
     (case st of (s, trace) \<Rightarrow>
       (let ty = ev_type ev; data = ev_data ev
        in if \<not> is_live_strip (ss_lifecycle s) then (s, trace)
           else if ty = ''inference.text.delta'' then (on_text_delta opts data s, trace)
           else if ty = ''inference.thinking.delta'' then (on_thinking_delta opts data s, trace)
           else if ty = ''inference.tool_call.start'' then
             (on_tool_call_start prev opts t data s, trace)
           else if ty = ''inference.tool_call.delta'' then
             (on_tool_call_delta prev opts data s, trace)
           else if ty = ''inference.tool_call.end'' then
             (on_tool_call_end prev opts t data s, trace)
           else if ty = ''tool.start'' then (on_tool_start prev opts t data s, trace)
           else if ty = ''tool.done'' then on_tool_done opts data trace s
           else (s, trace)))"

section \<open>Lemmas on the helpers\<close>

lemma update_first_map: "(\<And>x. g (f x) = g x) \<Longrightarrow> map g (update_first P f xs) = map g xs"
  by (induction xs) auto

lemma set_update_first: "set (update_first P f xs) \<subseteq> set xs \<union> f ` set xs"
  by (induction xs) auto

lemma length_update_first [simp]: "length (update_first P f xs) = length xs"
  by (induction xs) auto

lemma length_update_last [simp]: "length (update_last P f xs) = length xs"
  by (simp add: update_last_def)

lemma set_update_last: "set (update_last P f xs) \<subseteq> set xs \<union> f ` set xs"
  using set_update_first [of P f "rev xs"] by (simp add: update_last_def)

lemma find_last_Some: "find_last P xs = Some x \<Longrightarrow> x \<in> set xs \<and> P x"
  by (auto simp: find_last_def find_Some_iff)
    (metis length_rev nth_mem set_rev)

lemma find_call_None: "List.find (is_call c) cs = None \<longleftrightarrow> c \<notin> set (map oc_call_id cs)"
  by (auto simp: find_None_iff is_call_def)

lemma map_remove_at: "map f (remove_at i xs) = remove_at i (map f xs)"
  by (simp add: remove_at_def take_map drop_map)

lemma distinct_remove_index: "distinct xs \<Longrightarrow> distinct (remove_at i xs)"
  by (metis (no_types) append_take_drop_id distinct_append distinct_drop distinct_take
      remove_at_def set_drop_subset set_take_disj_set_drop_if_distinct subset_refl
      le_SucI order_refl)

lemma oldest_call_Nil [simp]: "oldest_call [] = None"
  by (simp add: oldest_call_def)

lemma older_call_not_None: "older_call o' c \<noteq> None"
  by (cases o') auto

lemma oldest_call_snoc: "oldest_call (cs @ [c]) = older_call (oldest_call cs) c"
  by (simp add: oldest_call_def)

text \<open>The displayed call is outstanding, no other is older, and of the oldest it came first.\<close>

lemma oldest_call_Some:
  "oldest_call cs = Some b \<Longrightarrow>
     b \<in> set cs \<and> (\<forall>c \<in> set cs. oc_started_at b \<le> oc_started_at c)"
proof (induction cs arbitrary: b rule: rev_induct)
  case Nil
  then show ?case by simp
next
  case (snoc c cs)
  show ?case
  proof (cases "oldest_call cs")
    case None
    then have "cs = []" by (cases cs rule: rev_cases) (auto simp: oldest_call_snoc older_call_not_None)
    then show ?thesis using snoc.prems by (simp add: oldest_call_def)
  next
    case (Some d)
    then show ?thesis
      using snoc.IH [OF Some] snoc.prems by (auto simp: oldest_call_snoc split: if_splits)
  qed
qed

lemma oldest_call_None: "oldest_call cs = None \<longleftrightarrow> cs = []"
  by (cases cs rule: rev_cases) (auto simp: oldest_call_snoc older_call_not_None)

lemma cap_text_take: "cap_text txt mx = take mx txt"
  by (simp add: cap_text_def)

lemma length_cap_text [simp]: "length (cap_text txt mx) \<le> mx"
  by (simp add: cap_text_take)

lemma append_capped_take: "length prior \<le> mx \<Longrightarrow> append_capped prior added mx = take mx (prior @ added)"
  by (simp add: append_capped_def)

lemma append_capped_append:
  "append_capped (append_capped c a mx) b mx = append_capped c (a @ b) mx"
  by (auto simp: append_capped_def)

lemma append_capped_cap: "append_capped (cap_text a mx) b mx = cap_text (a @ b) mx"
  by (auto simp: append_capped_def cap_text_def)

lemma length_append_capped: "length prior \<le> mx \<Longrightarrow> length (append_capped prior added mx) \<le> mx"
  by (auto simp: append_capped_def)

section \<open>The invariant of a transcript\<close>

text \<open>
  What the lane displays is read off the outstanding calls, which have an id each; the
  transcript keeps its cap on entries and every entry its cap on characters.
\<close>

fun entry_within :: "nat \<Rightarrow> transcript_entry \<Rightarrow> bool" where
  "entry_within mx (TextEntry c) = (length c \<le> mx)"
| "entry_within mx (ThinkingEntry c) = (length c \<le> mx)"
| "entry_within mx (ToolEntry _ _ a) = (length a \<le> mx)"
| "entry_within mx (ToolResultEntry _ _ c _) = (length c \<le> mx)"
| "entry_within mx (ReportEntry c) = (length c \<le> mx)"

definition entries_ok :: "store_options \<Rightarrow> transcript_entry list \<Rightarrow> bool" where
  "entries_ok opts es \<longleftrightarrow>
     length es \<le> op_max_entries opts \<and> list_all (entry_within (op_max_entry_chars opts)) es"

definition tools_ok :: "stored_session \<Rightarrow> bool" where
  "tools_ok s \<longleftrightarrow>
     distinct (map oc_call_id (ss_outstanding s)) \<and>
     ss_current_name s = map_option oc_name (oldest_call (ss_outstanding s)) \<and>
     ss_current_preview s = Option.bind (oldest_call (ss_outstanding s)) oc_preview \<and>
     ss_current_started_at s = map_option oc_started_at (oldest_call (ss_outstanding s))"

definition transcript_ok :: "store_options \<Rightarrow> stored_session \<Rightarrow> bool" where
  "transcript_ok opts s \<longleftrightarrow> entries_ok opts (ss_entries s) \<and> tools_ok s"

lemma tools_ok_sync:
  "distinct (map oc_call_id (ss_outstanding s)) \<Longrightarrow> tools_ok (sync_current_tool s)"
  by (simp add: tools_ok_def sync_current_tool_def Let_def)

lemma sync_frame [simp]:
  "ss_entries (sync_current_tool s) = ss_entries s"
  "ss_outstanding (sync_current_tool s) = ss_outstanding s"
  "ss_tool_names (sync_current_tool s) = ss_tool_names s"
  "ss_lifecycle (sync_current_tool s) = ss_lifecycle s"
  by (simp_all add: sync_current_tool_def Let_def)

lemma begin_frame [simp]:
  "ss_entries (begin_tool_call prev c n t r a s) = ss_entries s"
  "ss_tool_names (begin_tool_call prev c n t r a s) = ss_tool_names s"
  "ss_lifecycle (begin_tool_call prev c n t r a s) = ss_lifecycle s"
  by (simp_all add: begin_tool_call_def Let_def)

lemma refresh_frame [simp]:
  "ss_entries (refresh_tool_preview prev c n a s) = ss_entries s"
  "ss_tool_names (refresh_tool_preview prev c n a s) = ss_tool_names s"
  "ss_lifecycle (refresh_tool_preview prev c n a s) = ss_lifecycle s"
  by (simp_all add: refresh_tool_preview_def)

lemma end_frame [simp]:
  "ss_entries (end_tool_call c s) = ss_entries s"
  "ss_tool_names (end_tool_call c s) = ss_tool_names s"
  "ss_lifecycle (end_tool_call c s) = ss_lifecycle s"
  by (simp_all add: end_tool_call_def split: option.splits)

lemma push_frame [simp]:
  "ss_outstanding (push_entry opts e s) = ss_outstanding s"
  "ss_tool_names (push_entry opts e s) = ss_tool_names s"
  "ss_lifecycle (push_entry opts e s) = ss_lifecycle s"
  "tools_ok (push_entry opts e s) = tools_ok s"
  by (simp_all add: push_entry_def Let_def tools_ok_def)

lemma add_tool_name_frame [simp]:
  "ss_entries (add_tool_name n s) = ss_entries s"
  "ss_outstanding (add_tool_name n s) = ss_outstanding s"
  "ss_lifecycle (add_tool_name n s) = ss_lifecycle s"
  "set (ss_tool_names (add_tool_name n s)) = insert n (set (ss_tool_names s))"
  "tools_ok (add_tool_name n s) = tools_ok s"
  by (auto simp: add_tool_name_def tools_ok_def)

lemma tools_ok_entries [simp]: "tools_ok (s\<lparr>ss_entries := es\<rparr>) = tools_ok s"
  by (simp add: tools_ok_def)

lemma tools_ok_begin: "tools_ok s \<Longrightarrow> tools_ok (begin_tool_call prev c n t r a s)"
proof -
  assume ok: "tools_ok s"
  then have d: "distinct (map oc_call_id (ss_outstanding s))" by (simp add: tools_ok_def)
  show ?thesis
  proof (cases "List.find (is_call c) (ss_outstanding s)")
    case None
    then have "c \<notin> set (map oc_call_id (ss_outstanding s))" by (simp add: find_call_None del: set_map)
    then show ?thesis
      using None d by (auto simp: begin_tool_call_def Let_def intro!: tools_ok_sync)
  next
    case (Some x)
    then show ?thesis
      using d by (simp add: begin_tool_call_def Let_def tools_ok_sync update_first_map)
  qed
qed

lemma tools_ok_refresh: "tools_ok s \<Longrightarrow> tools_ok (refresh_tool_preview prev c n a s)"
  by (auto simp: refresh_tool_preview_def tools_ok_def [of s] update_first_map intro!: tools_ok_sync)

lemma tools_ok_end: "tools_ok s \<Longrightarrow> tools_ok (end_tool_call c s)"
  by (auto simp: end_tool_call_def map_remove_at distinct_remove_index tools_ok_def [of s]
      intro!: tools_ok_sync split: option.splits)

lemma tools_ok_clear: "tools_ok (clear_tool_calls s)"
  by (simp add: clear_tool_calls_def tools_ok_sync)

lemmas tools_ok_intros = tools_ok_begin tools_ok_refresh tools_ok_end

lemma entries_ok_push:
  "entries_ok opts (ss_entries s) \<Longrightarrow> entry_within (op_max_entry_chars opts) e \<Longrightarrow>
     entries_ok opts (ss_entries (push_entry opts e s))"
  by (auto simp: entries_ok_def push_entry_def Let_def list_all_iff dest!: in_set_dropD)

lemma entries_ok_replace_last:
  "entries_ok opts es \<Longrightarrow> es \<noteq> [] \<Longrightarrow> entry_within (op_max_entry_chars opts) e \<Longrightarrow>
     entries_ok opts (butlast es @ [e])"
  by (auto simp: entries_ok_def list_all_iff dest: in_set_butlastD)

lemma entries_ok_update_last:
  "entries_ok opts es \<Longrightarrow> (\<And>x. entry_within (op_max_entry_chars opts) (f x)) \<Longrightarrow>
     entries_ok opts (update_last P f es)"
  using set_update_last [of P f es] by (auto simp: entries_ok_def list_all_iff)

lemma entries_ok_member: "entries_ok opts es \<Longrightarrow> e \<in> set es \<Longrightarrow> entry_within (op_max_entry_chars opts) e"
  by (auto simp: entries_ok_def list_all_iff)

lemma transcript_ok_text_delta:
  "transcript_ok opts s \<Longrightarrow> transcript_ok opts (on_text_delta opts data s)"
  unfolding transcript_ok_def on_text_delta_def
  by (auto split: option.splits transcript_entry.splits
      intro!: entries_ok_push entries_ok_replace_last
      dest: entries_ok_member [OF _ last_in_set] simp: length_append_capped)

lemma transcript_ok_thinking_delta:
  "transcript_ok opts s \<Longrightarrow> transcript_ok opts (on_thinking_delta opts data s)"
  unfolding transcript_ok_def on_thinking_delta_def
  by (auto split: option.splits transcript_entry.splits
      intro!: entries_ok_push entries_ok_replace_last
      dest: entries_ok_member [OF _ last_in_set] simp: length_append_capped)

lemma transcript_ok_call_start:
  "transcript_ok opts s \<Longrightarrow> transcript_ok opts (on_tool_call_start prev opts t data s)"
  by (simp add: transcript_ok_def on_tool_call_start_def Let_def entries_ok_push tools_ok_begin)

lemma transcript_ok_call_delta:
  assumes ok: "transcript_ok opts s"
  shows "transcript_ok opts (on_tool_call_delta prev opts data s)"
proof (cases "str_field data ''argumentFragment''")
  case None
  then show ?thesis using ok by (simp add: on_tool_call_delta_def)
next
  case (Some fragment)
  let ?P = "is_tool_entry (str_field data ''callId'')"
  show ?thesis
  proof (cases "find_last ?P (ss_entries s)")
    case None
    then show ?thesis using ok Some by (simp add: on_tool_call_delta_def Let_def)
  next
    case entry: (Some e)
    have "entry_within (op_max_entry_chars opts) e"
      using find_last_Some [OF entry] ok by (auto simp: transcript_ok_def dest: entries_ok_member)
    then show ?thesis
      using ok Some entry
      by (cases e) (auto simp: on_tool_call_delta_def Let_def transcript_ok_def length_append_capped
          intro!: entries_ok_update_last tools_ok_intros)
  qed
qed

lemma transcript_ok_call_end:
  assumes ok: "transcript_ok opts s"
  shows "transcript_ok opts (on_tool_call_end prev opts t data s)"
proof -
  let ?P = "is_tool_entry (str_field data ''callId'')"
  show ?thesis
  proof (cases "find_last ?P (ss_entries s)")
    case None
    then show ?thesis
      using ok by (cases "str_field data ''name''"; cases "jfield data ''arguments''")
        (simp_all add: on_tool_call_end_def Let_def transcript_ok_def entries_ok_push tools_ok_begin)
  next
    case entry: (Some e)
    have within: "entry_within (op_max_entry_chars opts) e" and tool: "?P e"
      using find_last_Some [OF entry] ok by (auto simp: transcript_ok_def dest: entries_ok_member)
    then obtain c n a where e: "e = ToolEntry c n a" by (cases e) auto
    have len: "length (case map_option (\<lambda>v. cap_text (stringify_unknown v) (op_max_entry_chars opts))
        (jfield data ''arguments'') of None \<Rightarrow> a | Some b \<Rightarrow> if b \<noteq> [] then b else a)
        \<le> op_max_entry_chars opts"
      using within e by (auto split: option.splits)
    show ?thesis
      using ok entry e len
      by (simp add: on_tool_call_end_def Let_def transcript_ok_def tools_ok_begin
          entries_ok_update_last)
  qed
qed

lemma transcript_ok_tool_start:
  "transcript_ok opts s \<Longrightarrow> transcript_ok opts (on_tool_start prev opts t data s)"
  by (auto simp: on_tool_start_def Let_def transcript_ok_def tools_ok_begin split: option.splits)

lemma transcript_ok_tool_done:
  "transcript_ok opts s \<Longrightarrow> transcript_ok opts (fst (on_tool_done opts data trace s))"
  by (simp add: on_tool_done_def Let_def transcript_ok_def tools_ok_end entries_ok_push)

lemmas transcript_ok_events =
  transcript_ok_text_delta transcript_ok_thinking_delta transcript_ok_call_start
  transcript_ok_call_delta transcript_ok_call_end transcript_ok_tool_start transcript_ok_tool_done

lemma transcript_ok_append_event:
  "transcript_ok opts (fst st) \<Longrightarrow> transcript_ok opts (fst (append_event prev opts t ev st))"
  by (cases st) (simp add: append_event_def Let_def transcript_ok_events)

text \<open>A run's events, each with the clock it arrives at.\<close>

definition transcript_step ::
    "(string \<Rightarrow> string \<Rightarrow> string option) \<Rightarrow> store_options
      \<Rightarrow> stored_session \<times> handoff_state option \<Rightarrow> int \<times> emitted_event
      \<Rightarrow> stored_session \<times> handoff_state option" where
  "transcript_step prev opts st te = append_event prev opts (fst te) (snd te) st"

interpretation transcript_machine:
  invariant_machine "transcript_step prev opts" "\<lambda>st. transcript_ok opts (fst st)" for prev opts
  by unfold_locales (simp add: transcript_step_def transcript_ok_append_event)

section \<open>A new session\<close>

record start_input =
  si_description :: string
  si_agent_id :: string
  si_brief :: string
  si_id :: "string option"
  si_parent_session_id :: "string option"
  si_retained :: "bool option"
  si_provider :: "string option"
  si_requires_tools :: "string list option"
  si_recovers :: "string option"

definition new_session :: "string \<Rightarrow> start_input \<Rightarrow> int \<Rightarrow> stored_session" where
  "new_session i input t =
     \<lparr>ss_id = i, ss_description = si_description input, ss_agent_id = si_agent_id input,
      ss_brief = si_brief input, ss_lifecycle = PendingInit, ss_tool_names = [],
      ss_terminal_outcome = None, ss_routine_evaluations = [], ss_current_name = None,
      ss_current_preview = None, ss_current_started_at = None, ss_outstanding = [],
      ss_entries = [], ss_started_at = t, ss_last_activity_at = t, ss_finished_at = None,
      ss_report = None, ss_error = None, ss_stop_reason = None,
      ss_parent_session_id = si_parent_session_id input, ss_provider = si_provider input,
      ss_retained = (if si_retained input = Some True then Some True else None),
      ss_requires_tools = si_requires_tools input, ss_failure = None,
      ss_recovers = si_recovers input\<rparr>"

lemma new_session_ok: "transcript_ok opts (new_session i input t)"
  by (simp add: new_session_def transcript_ok_def tools_ok_def entries_ok_def)

text \<open>
  C21: whatever a worker's run emits, in whatever order, the session shows it truthfully and
  stays bounded. The transcript never exceeds its cap of entries nor an entry its cap of
  characters; every outstanding call has an id of its own; and the name, the preview and the
  clock on the lane are all those of one outstanding call, one that no other is older than,
  or nothing when no call is outstanding.
\<close>

theorem transcript_stays_true:
  "transcript_ok opts
     (fst (foldl (transcript_step prev opts) (new_session i input t, trace) evs)) \<and>
   (oldest_call cs = None \<longleftrightarrow> cs = []) \<and>
   set_option (oldest_call cs) \<subseteq> {b \<in> set cs. Min (oc_started_at ` set cs) = oc_started_at b}"
proof -
  have "set_option (oldest_call cs) \<subseteq> {b \<in> set cs. Min (oc_started_at ` set cs) = oc_started_at b}"
  proof
    fix b assume "b \<in> set_option (oldest_call cs)"
    then have "oldest_call cs = Some b" by simp
    from oldest_call_Some [OF this] show "b \<in> {b \<in> set cs. Min (oc_started_at ` set cs) = oc_started_at b}"
      by (auto intro!: Min_eqI)
  qed
  then show ?thesis
    using transcript_machine.run_inv [of opts "(new_session i input t, trace)" prev evs]
    by (simp add: new_session_ok oldest_call_None)
qed

section \<open>Streamed text\<close>

definition text_event :: "string \<Rightarrow> emitted_event" where
  "text_event token = \<lparr>ev_type = ''inference.text.delta'', ev_data = [(''token'', JStr token)]\<rparr>"

lemma append_text_event:
  "append_event prev opts t (text_event token) (s, trace) =
     (if is_live_strip (ss_lifecycle s)
      then (on_text_delta opts [(''token'', JStr token)] s, trace) else (s, trace))"
  by (simp add: append_event_def text_event_def)

lemma on_text_delta_token:
  "on_text_delta opts [(''token'', JStr token)] s =
     (if token = [] then s
      else (case (if ss_entries s = [] then None else Some (last (ss_entries s))) of
              Some (TextEntry content) \<Rightarrow>
                s\<lparr>ss_entries := butlast (ss_entries s) @
                    [TextEntry (append_capped content token (op_max_entry_chars opts))]\<rparr>
            | _ \<Rightarrow> push_entry opts (TextEntry (cap_text token (op_max_entry_chars opts))) s))"
  by (simp add: on_text_delta_def str_field_def jfield_def)

lemma push_entry_last:
  "op_max_entries opts \<noteq> 0 \<Longrightarrow> ss_entries (push_entry opts e s) \<noteq> [] \<and>
     last (ss_entries (push_entry opts e s)) = e"
  by (simp add: push_entry_def Let_def)

lemma push_entry_replace:
  "op_max_entries opts \<noteq> 0 \<Longrightarrow>
     (push_entry opts e s)\<lparr>ss_entries := butlast (ss_entries (push_entry opts e s)) @ [e']\<rparr> =
       push_entry opts e' s"
  by (simp add: push_entry_def Let_def butlast_append butlast_drop [symmetric])

lemma push_entry_none:
  "op_max_entries opts = 0 \<Longrightarrow> push_entry opts e s = s\<lparr>ss_entries := []\<rparr>"
  by (simp add: push_entry_def)

text \<open>Two deltas in a row are one delta of both tokens.\<close>

lemma text_delta_append:
  "on_text_delta opts [(''token'', JStr b)] (on_text_delta opts [(''token'', JStr a)] s) =
     on_text_delta opts [(''token'', JStr (a @ b))] s"
proof (cases "a = [] \<or> b = []")
  case True
  have "on_text_delta opts [(''token'', JStr [])] r = r" for r
    by (simp add: on_text_delta_token)
  then show ?thesis using True by auto
next
  case False
  show ?thesis
  proof (cases "\<exists>c. ss_entries s \<noteq> [] \<and> last (ss_entries s) = TextEntry c")
    case True
    then obtain c where "ss_entries s \<noteq> []" "last (ss_entries s) = TextEntry c" by blast
    then show ?thesis using False by (simp add: on_text_delta_token append_capped_append)
  next
    case other: False
    have push: "on_text_delta opts [(''token'', JStr tok)] s =
        push_entry opts (TextEntry (cap_text tok (op_max_entry_chars opts))) s" if "tok \<noteq> []" for tok
      using other that by (auto simp: on_text_delta_token split: transcript_entry.splits)
    show ?thesis
    proof (cases "op_max_entries opts = 0")
      case True
      then show ?thesis using False push by (simp add: push_entry_none on_text_delta_token)
    next
      case nz: False
      let ?e = "TextEntry (cap_text a (op_max_entry_chars opts))"
      have "on_text_delta opts [(''token'', JStr b)] (push_entry opts ?e s) =
          push_entry opts (TextEntry (cap_text (a @ b) (op_max_entry_chars opts))) s"
        using False push_entry_last [OF nz, of ?e s] push_entry_replace [OF nz, of ?e s]
        by (simp add: on_text_delta_token append_capped_cap)
      then show ?thesis using False push by simp
    qed
  qed
qed

text \<open>
  How a provider chunks a worker's text does not matter. Streaming any sequence of text
  tokens leaves the session as one event with the concatenated text does, whatever the last
  entry is, whatever the caps and whether or not the session still takes events; so the shown
  text is always the prefix of what was streamed.
\<close>

theorem streamed_text_chunking:
  "foldl (\<lambda>st token. append_event prev opts t (text_event token) st) (s, trace) tokens =
     append_event prev opts t (text_event (concat tokens)) (s, trace)"
proof (cases "is_live_strip (ss_lifecycle s)")
  case False
  then show ?thesis by (induction tokens) (simp_all add: append_text_event)
next
  case True
  have frame: "ss_lifecycle (on_text_delta opts d s) = ss_lifecycle s" for d s
    by (simp add: on_text_delta_def split: option.splits transcript_entry.splits)
  show ?thesis
  proof (induction tokens rule: rev_induct)
    case Nil
    then show ?case using True by (simp add: append_text_event on_text_delta_token)
  next
    case (snoc token tokens)
    then show ?case using True by (simp add: append_text_event frame text_delta_append)
  qed
qed

section \<open>Tools a run started\<close>

text \<open>The names of the tools whose execution the events start.\<close>

definition started_name :: "emitted_event \<Rightarrow> string option" where
  "started_name ev =
     (if ev_type ev = ''tool.start'' then str_field (obj_field (ev_data ev) ''call'') ''name''
      else None)"

definition started_names :: "(int \<times> emitted_event) list \<Rightarrow> string list" where
  "started_names evs = List.map_filter (\<lambda>te. started_name (snd te)) evs"

lemma set_started_names: "set (started_names evs) = (\<Union>te \<in> set evs. set_option (started_name (snd te)))"
  by (induction evs) (auto simp: started_names_def map_filter_simps split: option.splits)

lemma event_frame [simp]:
  "ss_lifecycle (on_text_delta opts data s) = ss_lifecycle s"
  "ss_lifecycle (on_thinking_delta opts data s) = ss_lifecycle s"
  "ss_lifecycle (on_tool_call_start prev opts t data s) = ss_lifecycle s"
  "ss_lifecycle (on_tool_start prev opts t data s) = ss_lifecycle s"
  "ss_lifecycle (fst (on_tool_done opts data trace s)) = ss_lifecycle s"
  by (simp_all add: on_text_delta_def on_thinking_delta_def on_tool_call_start_def
      on_tool_start_def on_tool_done_def Let_def split: option.splits transcript_entry.splits)

lemma call_delta_frame [simp]:
  "ss_lifecycle (on_tool_call_delta prev opts data s) = ss_lifecycle s"
  "ss_tool_names (on_tool_call_delta prev opts data s) = ss_tool_names s"
  by (simp_all add: on_tool_call_delta_def Let_def split: option.split transcript_entry.split)

lemma call_end_lifecycle [simp]:
  "ss_lifecycle (on_tool_call_end prev opts t data s) = ss_lifecycle s"
  by (simp add: on_tool_call_end_def Let_def split: option.split transcript_entry.split)

lemma event_tool_names:
  "ss_tool_names (on_text_delta opts data s) = ss_tool_names s"
  "ss_tool_names (on_thinking_delta opts data s) = ss_tool_names s"
  "ss_tool_names (fst (on_tool_done opts data trace s)) = ss_tool_names s"
  by (simp_all add: on_text_delta_def on_thinking_delta_def on_tool_done_def Let_def
      split: option.splits transcript_entry.splits)

lemma call_start_tool_names:
  "set (ss_tool_names s) \<subseteq> set (ss_tool_names (on_tool_call_start prev opts t data s))"
  by (auto simp: on_tool_call_start_def Let_def)

lemma call_end_tool_names:
  "set (ss_tool_names s) \<subseteq> set (ss_tool_names (on_tool_call_end prev opts t data s))"
proof (cases "find_last (is_tool_entry (str_field data ''callId'')) (ss_entries s)")
  case None
  then show ?thesis
    by (cases "str_field data ''name''") (auto simp: on_tool_call_end_def Let_def)
next
  case (Some e)
  from find_last_Some [OF this] have "is_tool_entry (str_field data ''callId'') e" by simp
  then show ?thesis using Some by (cases e) (simp_all add: on_tool_call_end_def Let_def)
qed

lemma tool_start_tool_names:
  "set (ss_tool_names (on_tool_start prev opts t data s)) =
     set_option (str_field (obj_field data ''call'') ''name'') \<union> set (ss_tool_names s)"
  by (cases "str_field (obj_field data ''call'') ''name''";
      cases "str_field (obj_field data ''call'') ''id''")
    (simp_all add: on_tool_start_def Let_def)

lemma append_event_lifecycle:
  "ss_lifecycle (fst (append_event prev opts t ev st)) = ss_lifecycle (fst st)"
  by (cases st) (simp add: append_event_def Let_def)

lemma append_event_tool_names:
  assumes "is_live_strip (ss_lifecycle (fst st))"
  shows "set (ss_tool_names (fst st)) \<union> set_option (started_name ev)
    \<subseteq> set (ss_tool_names (fst (append_event prev opts t ev st)))"
  using assms call_start_tool_names [of "fst st" prev opts t "ev_data ev"]
    call_end_tool_names [of "fst st" prev opts t "ev_data ev"]
  by (cases st) (auto simp: append_event_def Let_def event_tool_names tool_start_tool_names
      started_name_def split: if_splits)

text \<open>
  Recovery never forgets a side effect. While a session takes events, every tool whose
  execution any event starts is among the session's tools afterwards, and none is ever
  dropped; so when every tool of the session is replay-safe, every tool its run started is.
\<close>

theorem started_tools_recorded:
  assumes "is_live_strip (ss_lifecycle s)"
  shows "set (ss_tool_names s) \<union> set (started_names evs)
      \<subseteq> set (ss_tool_names (fst (foldl (transcript_step prev opts) (s, trace) evs))) \<and>
    \<not> (list_all is_replay_safe_tool_name
          (ss_tool_names (fst (foldl (transcript_step prev opts) (s, trace) evs))) \<and>
       list_ex (\<lambda>n. \<not> is_replay_safe_tool_name n) (started_names evs))"
proof -
  have incl: "set (ss_tool_names (fst st)) \<union> set (started_names evs)
      \<subseteq> set (ss_tool_names (fst (foldl (transcript_step prev opts) st evs)))"
    if "is_live_strip (ss_lifecycle (fst st))" for st
    using that
  proof (induction evs arbitrary: st)
    case Nil
    then show ?case by (simp add: set_started_names)
  next
    case (Cons te evs)
    obtain u ev where te: "te = (u, ev)" by (cases te)
    let ?st = "append_event prev opts u ev st"
    have "is_live_strip (ss_lifecycle (fst ?st))"
      using Cons.prems by (simp add: append_event_lifecycle)
    then have "set (ss_tool_names (fst ?st)) \<union> set (started_names evs)
        \<subseteq> set (ss_tool_names (fst (foldl (transcript_step prev opts) ?st evs)))"
      by (rule Cons.IH)
    moreover have "set (ss_tool_names (fst st)) \<union> set_option (started_name ev)
        \<subseteq> set (ss_tool_names (fst ?st))"
      by (rule append_event_tool_names [OF Cons.prems])
    moreover have "foldl (transcript_step prev opts) st (te # evs) =
        foldl (transcript_step prev opts) ?st evs"
      by (simp add: te transcript_step_def)
    ultimately show ?case unfolding te by (auto simp: set_started_names)
  qed
  from incl [of "(s, trace)"] assms show ?thesis by (auto simp: list_all_iff list_ex_iff)
qed

definition shell_run :: "(int \<times> emitted_event) list" where
  "shell_run =
     [(1, \<lparr>ev_type = ''tool.start'', ev_data = [(''call'',
            JObj [(''name'', JStr ''bash''), (''id'', JStr ''c1'')])]\<rparr>)]"

definition sample_input :: start_input where
  "sample_input =
     \<lparr>si_description = ''d'', si_agent_id = ''build'', si_brief = ''b'', si_id = None,
      si_parent_session_id = None, si_retained = None, si_provider = None,
      si_requires_tools = None, si_recovers = None\<rparr>"

theorem started_tools_recorded_witness:
  "\<not> list_all is_replay_safe_tool_name (ss_tool_names (fst (foldl
      (transcript_step (\<lambda>n a. None) default_options) (new_session ''w'' sample_input 0, None)
      shell_run)))"
proof -
  have live: "is_live_strip (ss_lifecycle (new_session ''w'' sample_input 0))"
    by (simp add: new_session_def is_live_strip_def)
  have "list_ex (\<lambda>n. \<not> is_replay_safe_tool_name n) (started_names shell_run)" by code_simp
  then show ?thesis
    using started_tools_recorded [OF live, of shell_run "\<lambda>n a. None" default_options None] by blast
qed

end
