(* ===== verification/SessionStore.thy ===== *)
theory SessionStore
  imports SessionTranscript Admission
begin

text \<open>
  The registry of worker sessions (\<open>src/subagent/session-store.ts\<close>, \<open>createSubAgentSessionStore\<close>):
  its maps as association lists in insertion order, each operation a function from store to
  store. An \<open>await\<close> splits an operation in two. Callbacks are tokens: what the store calls is
  logged, and the one kind of callback the code lets re-enter the store synchronously, the
  abort and interrupt handles, is the function \<open>en_react\<close> of the environment. The memo of
  snapshots and the subscribers' wake-ups are not modelled.
\<close>

section \<open>State\<close>

text \<open>The registered handles. The one the store makes itself cancels a queued follow-up.\<close>

datatype cancel_handle = ExternalCancel nat | QueueCancel

record stashed_followup =
  sf_message :: string
  sf_fail_lifecycle :: verb_status
  sf_token :: nat

record pending_ask =
  pk_question :: string
  pk_question_id :: string
  pk_assessment :: escalation_assessment
  pk_asked_at :: int
  pk_denied_call :: "nat option"
  pk_token :: nat

record evicted_record =
  er_lifecycle_status :: verb_status
  er_hint :: string

text \<open>A follow-up waiting in the admission queue: what its start callback closes over.\<close>

record queued_followup =
  qf_handle :: nat
  qf_message :: string
  qf_fail_lifecycle :: verb_status
  qf_token :: nat

datatype ask_event =
    AskRegistered (ae_token: nat)
  | AskResolved (ae_token: nat) string
  | AskRejected (ae_token: nat) string

datatype steer_event =
    SteerStashed (se_token: nat)
  | SteerLaunched (se_token: nat)
  | SteerDropped (se_token: nat) string

datatype store_call =
    GrantsInvalidated "string option" string
  | GrantsExpired string string
  | CancelInvoked string nat
  | InterruptInvoked string nat
  | CloseInvoked string nat
  | DeliverInvoked string nat string
  | FollowupInvoked string nat string
  | FollowupReplied string nat string
  | FollowupFailed string nat thrown_error

record session_store =
  st_sessions :: "(string \<times> stored_session) list"
  st_pin_counts :: "(string \<times> int) list"
  st_run_in_flight :: "string list"
  st_cancel_handles :: "(string \<times> cancel_handle) list"
  st_close_handles :: "(string \<times> nat) list"
  st_interrupt_handles :: "(string \<times> nat) list"
  st_followup_handles :: "(string \<times> nat) list"
  st_deliver_handles :: "(string \<times> nat) list"
  st_stash :: "(string \<times> stashed_followup list) list"
  st_pending_asks :: "(string \<times> pending_ask) list"
  st_handoff_traces :: "(string \<times> handoff_state) list"
  st_terminal_handoffs :: "(string \<times> handoff_state) list"
  st_release_faults :: "string list"
  st_pending_failures :: "(string \<times> failure_input) list"
  st_followup_turns :: "string list"
  st_evicted :: "(string \<times> evicted_record) list"
  st_admission :: "admission_queue option"
  st_queued_followups :: "(string \<times> queued_followup) list"
  st_ask_log :: "ask_event list"
  st_steer_log :: "steer_event list"
  st_calls :: "store_call list"

text \<open>
  What the store depends on: its caps, the clock, whether invalidating a session's grants or
  rejecting its ask throws, and what a handle does to the store before it returns.
\<close>

record 's store_env =
  en_options :: store_options
  en_now :: int
  en_invalidate_throws :: "string \<Rightarrow> bool"
  en_reject_throws :: "string \<Rightarrow> bool"
  en_react :: "nat \<Rightarrow> 's \<Rightarrow> 's"

type_synonym env = "session_store store_env"

definition create_session_store :: "admission_queue option \<Rightarrow> session_store" where
  "create_session_store adm =
     \<lparr>st_sessions = [], st_pin_counts = [], st_run_in_flight = [], st_cancel_handles = [],
      st_close_handles = [], st_interrupt_handles = [], st_followup_handles = [],
      st_deliver_handles = [], st_stash = [], st_pending_asks = [], st_handoff_traces = [],
      st_terminal_handoffs = [], st_release_faults = [], st_pending_failures = [],
      st_followup_turns = [], st_evicted = [], st_admission = adm, st_queued_followups = [],
      st_ask_log = [], st_steer_log = [], st_calls = []\<rparr>"

definition session_of :: "session_store \<Rightarrow> string \<Rightarrow> stored_session option" where
  "session_of st i = map_of (st_sessions st) i"

definition put_session :: "string \<Rightarrow> stored_session \<Rightarrow> session_store \<Rightarrow> session_store" where
  "put_session i s st = st\<lparr>st_sessions := AList.update i s (st_sessions st)\<rparr>"

definition modify_session ::
    "string \<Rightarrow> (stored_session \<Rightarrow> stored_session) \<Rightarrow> session_store \<Rightarrow> session_store" where
  "modify_session i f st =
     (case session_of st i of None \<Rightarrow> st | Some s \<Rightarrow> put_session i (f s) st)"

definition log_call :: "store_call \<Rightarrow> session_store \<Rightarrow> session_store" where
  "log_call c st = st\<lparr>st_calls := st_calls st @ [c]\<rparr>"

section \<open>Terminal records\<close>

definition forced_stop_reasons :: "forced_stop_reason list" where
  "forced_stop_reasons =
     [StopCancelled, StopDeadline, StopStalled, StopIncompleteReport, StopInterrupted]"

definition forced_stop_class :: "stored_session \<Rightarrow> failure_class option" where
  "forced_stop_class s =
     Option.bind (ss_stop_reason s)
       (\<lambda>reason. map_option failure_class_for_stop_reason
          (List.find (\<lambda>r. forced_stop_text r = reason) forced_stop_reasons))"

definition pending_failure :: "session_store \<Rightarrow> string \<Rightarrow> failure_input option" where
  "pending_failure st i = map_of (st_pending_failures st) i"

definition terminal_failure_class :: "session_store \<Rightarrow> stored_session \<Rightarrow> failure_class option" where
  "terminal_failure_class st s =
     (case ss_lifecycle s of
        Failed _ \<Rightarrow>
          Some (case pending_failure st (ss_id s) of Some f \<Rightarrow> fi_class f | None \<Rightarrow> ErrorFailure)
      | Cancelled _ _ \<Rightarrow> Some CancelledFailure
      | Interrupted _ \<Rightarrow>
          (case pending_failure st (ss_id s) of
             Some f \<Rightarrow> Some (fi_class f) | None \<Rightarrow> forced_stop_class s)
      | Completed _ \<Rightarrow> forced_stop_class s
      | Shutdown _ _ \<Rightarrow> forced_stop_class s
      | _ \<Rightarrow> None)"

definition current_handoff :: "session_store \<Rightarrow> string \<Rightarrow> handoff_state" where
  "current_handoff st i =
     (if map_of (st_pending_asks st) i \<noteq> None then HandoffUnavailable
      else (case map_of (st_handoff_traces st) i of Some h \<Rightarrow> h | None \<Rightarrow> HandoffNone))"

definition failure_record_of ::
    "env \<Rightarrow> session_store \<Rightarrow> stored_session \<Rightarrow> failure_class \<Rightarrow> failure_record" where
  "failure_record_of e st s cls =
     (let i = ss_id s;
          attempt = (if ss_recovers s \<noteq> None then 2 else 1);
          teardownFailed = (case pending_failure st i of
                              Some f \<Rightarrow> fi_teardown_failed f | None \<Rightarrow> False)
      in \<lparr>fr_agent_id = i, fr_class = cls,
          fr_failed_at = (case ss_finished_at s of Some t \<Rightarrow> t | None \<Rightarrow> en_now e),
          fr_recovery = recovery_for cls attempt (List.member (st_followup_turns st) i)
            (Option.bind (pending_failure st i) fi_cause)
            (list_all is_replay_safe_tool_name (ss_tool_names s)),
          fr_attempt = attempt, fr_recovers = ss_recovers s,
          fr_handoff = (case map_of (st_terminal_handoffs st) i of
                          Some h \<Rightarrow> h | None \<Rightarrow> current_handoff st i),
          fr_cleanup =
            (if teardownFailed \<or> List.member (st_release_faults st) i then Partial
             else Released)\<rparr>)"

definition drop_terminal_traces :: "string \<Rightarrow> session_store \<Rightarrow> session_store" where
  "drop_terminal_traces i st =
     st\<lparr>st_terminal_handoffs := AList.delete i (st_terminal_handoffs st),
        st_release_faults := jset_delete i (st_release_faults st),
        st_pending_failures := AList.delete i (st_pending_failures st)\<rparr>"

text \<open>The session with its record reconciled, and the store whose traces that consumed.\<close>

definition reconcile_terminal_record ::
    "env \<Rightarrow> stored_session \<Rightarrow> session_store \<Rightarrow> stored_session \<times> session_store" where
  "reconcile_terminal_record e s st =
     (if is_run_eligible (ss_lifecycle s) then (s\<lparr>ss_failure := None\<rparr>, st)
      else if ss_failure s \<noteq> None then (s, st)
      else ((case terminal_failure_class st s of
               Some cls \<Rightarrow> s\<lparr>ss_failure := Some (failure_record_of e st s cls)\<rparr>
             | None \<Rightarrow> s),
            drop_terminal_traces (ss_id s) st))"

definition enforce_settled_run_invariant :: "string \<Rightarrow> session_store \<Rightarrow> session_store" where
  "enforce_settled_run_invariant i st =
     (case session_of st i of
        None \<Rightarrow> st
      | Some s \<Rightarrow>
          if \<not> List.member (st_run_in_flight st) i \<or> is_run_eligible (ss_lifecycle s) then st
          else if map_of (st_interrupt_handles st) i \<noteq> None \<or>
                  map_of (st_close_handles st) i \<noteq> None \<or>
                  map_of (st_followup_handles st) i \<noteq> None \<or>
                  map_of (st_deliver_handles st) i \<noteq> None then st
          else st\<lparr>st_run_in_flight := jset_delete i (st_run_in_flight st)\<rparr>)"

text \<open>
  \<open>mutate\<close>: the change, then the reconciliation of the session it left, the marker, the clock.
  The change is in two parts, the first of which keeps the session: the second may prune it,
  and then the reconciliation still runs on the object it dropped, to no effect but on the
  traces.
\<close>

definition mutate_then ::
    "env \<Rightarrow> string \<Rightarrow> (session_store \<Rightarrow> session_store) \<Rightarrow> (session_store \<Rightarrow> session_store)
      \<Rightarrow> session_store \<Rightarrow> session_store" where
  "mutate_then e i fn post st =
     (case session_of st i of
        None \<Rightarrow> st
      | Some _ \<Rightarrow>
          (let st1 = fn st; st2 = post st1
           in (case session_of st2 i of
                 Some s \<Rightarrow>
                   (case reconcile_terminal_record e s st2 of
                      (s', st3) \<Rightarrow>
                        modify_session i (\<lambda>s. s\<lparr>ss_last_activity_at := en_now e\<rparr>)
                          (enforce_settled_run_invariant i (put_session i s' st3)))
               | None \<Rightarrow>
                   (case session_of st1 i of
                      Some s \<Rightarrow> snd (reconcile_terminal_record e s st2) | None \<Rightarrow> st2))))"

definition mutate ::
    "env \<Rightarrow> string \<Rightarrow> (session_store \<Rightarrow> session_store) \<Rightarrow> session_store \<Rightarrow> session_store" where
  "mutate e i fn st = mutate_then e i fn (\<lambda>st. st) st"

definition mutate_session ::
    "env \<Rightarrow> string \<Rightarrow> (stored_session \<Rightarrow> stored_session) \<Rightarrow> session_store \<Rightarrow> session_store" where
  "mutate_session e i f st = mutate e i (modify_session i f) st"

section \<open>Steers, asks and handles\<close>

definition dots :: string where
  "dots = ''...''"

definition steer_preview :: "string \<Rightarrow> string" where
  "steer_preview message =
     (let firstLine = hd (split_char newline message)
      in if length firstLine > 120 then take 117 firstLine @ dots else firstLine)"

definition quoted_preview :: "stashed_followup \<Rightarrow> string" where
  "quoted_preview sf = [dquote] @ steer_preview (sf_message sf) @ [dquote]"

definition drop_notice :: "stashed_followup list \<Rightarrow> string \<Rightarrow> string" where
  "drop_notice q reason =
     ''Steer '' @
     (if length q = 1 then ''dropped'' else dec (length q) @ '' steers dropped'') @
     '' ('' @ reason @ ''): '' @ join '', '' (map quoted_preview q)"

definition drop_error :: "stashed_followup \<Rightarrow> string \<Rightarrow> string" where
  "drop_error sf reason =
     ''send_input steer '' @ quoted_preview sf @ '' dropped ('' @ reason @ '')''"

definition drop_stashed_followups :: "env \<Rightarrow> string \<Rightarrow> string \<Rightarrow> session_store \<Rightarrow> session_store" where
  "drop_stashed_followups e i reason st =
     (let q = (case map_of (st_stash st) i of None \<Rightarrow> [] | Some q \<Rightarrow> q);
          st1 = st\<lparr>st_stash := AList.delete i (st_stash st)\<rparr>
      in if q = [] then st1
         else mutate_session e i (push_report (en_options e) (drop_notice q reason))
                (st1\<lparr>st_steer_log := st_steer_log st1 @
                    map (\<lambda>sf. SteerDropped (sf_token sf) (drop_error sf reason)) q\<rparr>))"

definition cancel_ask_internal ::
    "env \<Rightarrow> string \<Rightarrow> string \<Rightarrow> bool \<Rightarrow> session_store \<Rightarrow> bool \<times> session_store" where
  "cancel_ask_internal e i reason keepGrants st =
     (case map_of (st_pending_asks st) i of
        None \<Rightarrow> (False, st)
      | Some ask \<Rightarrow>
          (let st1 = st\<lparr>st_pending_asks := AList.delete i (st_pending_asks st)\<rparr>;
               st2 = (if keepGrants then st1
                      else (let st1' = log_call (GrantsInvalidated (Some i) reason) st1
                            in if en_invalidate_throws e i
                               then st1'\<lparr>st_release_faults := jset_add i (st_release_faults st1')\<rparr>
                               else st1'));
               st3 = st2\<lparr>st_ask_log := st_ask_log st2 @ [AskRejected (pk_token ask) reason]\<rparr>
           in (True, if en_reject_throws e i
                     then st3\<lparr>st_release_faults := jset_add i (st_release_faults st3)\<rparr>
                     else st3)))"

text \<open>The walk from a session up its parents, which stops at a session it has seen.\<close>

function session_under ::
    "(string \<times> stored_session) list \<Rightarrow> string \<Rightarrow> string list \<Rightarrow> string \<Rightarrow> bool" where
  "session_under sessions ancestorId seen i =
     (case map_of sessions i of
        None \<Rightarrow> False
      | Some current \<Rightarrow>
          if List.member seen i then False
          else (case ss_parent_session_id current of
                  None \<Rightarrow> False
                | Some parent \<Rightarrow>
                    if parent = ancestorId then True
                    else session_under sessions ancestorId (i # seen) parent))"
  by pat_completeness auto
termination
proof (relation "measure (\<lambda>(sessions, a, seen, i). card (fst ` set sessions - set seen))", goal_cases)
  case (2 sessions a seen i current parent)
  then have "i \<in> fst ` set sessions - set seen"
    by (auto dest!: map_of_SomeD simp: rev_image_eqI)
  then have "fst ` set sessions - set (i # seen) \<subset> fst ` set sessions - set seen"
    by auto
  then show ?case unfolding in_measure split by (intro psubset_card_mono) simp_all
qed simp

declare session_under.simps [simp del]

definition is_session_under :: "session_store \<Rightarrow> string \<Rightarrow> string \<Rightarrow> bool" where
  "is_session_under st i ancestorId = session_under (st_sessions st) ancestorId [] i"

definition cancel_descendant_asks :: "env \<Rightarrow> string \<Rightarrow> string \<Rightarrow> session_store \<Rightarrow> session_store" where
  "cancel_descendant_asks e ancestorId reason st =
     fold (\<lambda>i st. if i \<noteq> ancestorId \<and> is_session_under st i ancestorId
                  then snd (cancel_ask_internal e i reason False st) else st)
       (map fst (st_sessions st)) st"

definition settle_cancels_asks :: "env \<Rightarrow> string \<Rightarrow> string \<Rightarrow> session_store \<Rightarrow> session_store" where
  "settle_cancels_asks e i reason st =
     (let st1 = st\<lparr>st_terminal_handoffs :=
                     AList.update i (current_handoff st i) (st_terminal_handoffs st),
                   st_release_faults := jset_delete i (st_release_faults st)\<rparr>
      in cancel_descendant_asks e i reason (snd (cancel_ask_internal e i reason False st1)))"

definition reset_turn_trace :: "string \<Rightarrow> session_store \<Rightarrow> session_store" where
  "reset_turn_trace i st =
     drop_terminal_traces i (st\<lparr>st_handoff_traces := AList.delete i (st_handoff_traces st)\<rparr>)"

definition clear_turn_traces :: "session_store \<Rightarrow> session_store" where
  "clear_turn_traces st =
     st\<lparr>st_handoff_traces := [], st_terminal_handoffs := [], st_release_faults := [],
        st_pending_failures := [], st_followup_turns := []\<rparr>"

definition detach_close :: "string \<Rightarrow> session_store \<Rightarrow> session_store" where
  "detach_close i st =
     (case map_of (st_close_handles st) i of
        None \<Rightarrow> st
      | Some h \<Rightarrow>
          log_call (CloseInvoked i h)
            (st\<lparr>st_close_handles := AList.delete i (st_close_handles st)\<rparr>))"

definition drop_handles :: "string \<Rightarrow> session_store \<Rightarrow> session_store" where
  "drop_handles i st =
     st\<lparr>st_cancel_handles := AList.delete i (st_cancel_handles st),
        st_interrupt_handles := AList.delete i (st_interrupt_handles st),
        st_followup_handles := AList.delete i (st_followup_handles st),
        st_deliver_handles := AList.delete i (st_deliver_handles st)\<rparr>"

definition release_handles :: "env \<Rightarrow> string \<Rightarrow> session_store \<Rightarrow> session_store" where
  "release_handles e i st =
     drop_stashed_followups e i ''session ended''
       (drop_handles i
         (detach_close i (snd (cancel_ask_internal e i ''session handles released'' False st))))"

text \<open>Calling a session's cancel handle, and what it does to the store before it returns.\<close>

definition invoke_cancel :: "env \<Rightarrow> string \<Rightarrow> cancel_handle option \<Rightarrow> session_store \<Rightarrow> session_store" where
  "invoke_cancel e i abort st =
     (case abort of
        None \<Rightarrow> st
      | Some QueueCancel \<Rightarrow>
          st\<lparr>st_admission := map_option (Admission.cancel i) (st_admission st),
             st_queued_followups := AList.delete i (st_queued_followups st)\<rparr>
      | Some (ExternalCancel h) \<Rightarrow> en_react e h (log_call (CancelInvoked i h) st))"

section \<open>Pruning\<close>

definition is_open_retained :: "stored_session \<Rightarrow> bool" where
  "is_open_retained s = is_resumable_lifecycle (ss_retained s) (ss_lifecycle s)"

definition is_pinned :: "session_store \<Rightarrow> string \<Rightarrow> bool" where
  "is_pinned st i \<longleftrightarrow> (case map_of (st_pin_counts st) i of None \<Rightarrow> 0 | Some n \<Rightarrow> n) > (0::int)"

definition is_prunable_completed :: "session_store \<Rightarrow> stored_session \<Rightarrow> bool" where
  "is_prunable_completed st s \<longleftrightarrow>
     \<not> is_live_strip (ss_lifecycle s) \<and> \<not> is_open_retained s \<and> \<not> is_pinned st (ss_id s)"

definition remove_session :: "string \<Rightarrow> session_store \<Rightarrow> session_store" where
  "remove_session i st = st\<lparr>st_sessions := AList.delete i (st_sessions st)\<rparr>"

definition drop_session :: "env \<Rightarrow> string \<Rightarrow> session_store \<Rightarrow> session_store" where
  "drop_session e i st = remove_session i (release_handles e i st)"

definition finished_at :: "stored_session \<Rightarrow> int" where
  "finished_at s = (case ss_finished_at s of Some t \<Rightarrow> t | None \<Rightarrow> 0)"

definition sessions_to_prune :: "env \<Rightarrow> session_store \<Rightarrow> stored_session list" where
  "sessions_to_prune e st =
     (let finished = filter (is_prunable_completed st) (map snd (st_sessions st));
          mx = op_max_completed (en_options e)
      in if mx = 0 then finished
         else (let sorted = sort_key finished_at finished in take (length sorted - mx) sorted))"

definition prune_completed :: "env \<Rightarrow> session_store \<Rightarrow> session_store" where
  "prune_completed e st = fold (\<lambda>s. drop_session e (ss_id s)) (sessions_to_prune e st) st"

definition evicted_retention_hint :: string where
  "evicted_retention_hint =
     ''Session evicted to bound retained-session memory; '' @
     ''recover full detail via read_agent_trace(agent_id).''"

definition max_evicted_tombstones :: nat where
  "max_evicted_tombstones = 500"

definition record_eviction :: "stored_session \<Rightarrow> session_store \<Rightarrow> session_store" where
  "record_eviction s st =
     (let ev = AList.update (ss_id s)
                 \<lparr>er_lifecycle_status = project_lifecycle_status (ss_lifecycle s),
                  er_hint = evicted_retention_hint\<rparr> (st_evicted st);
          st1 = log_call (GrantsInvalidated (Some (ss_id s)) evicted_retention_hint) st
      in st1\<lparr>st_evicted := (if length ev > max_evicted_tombstones then tl ev else ev)\<rparr>)"

definition sessions_to_evict :: "env \<Rightarrow> session_store \<Rightarrow> stored_session list" where
  "sessions_to_evict e st =
     (let openRetained =
            sort_key ss_last_activity_at
              (filter (\<lambda>s. is_open_retained s \<and> \<not> is_pinned st (ss_id s))
                (map snd (st_sessions st)))
      in take (length openRetained - op_max_retained (en_options e)) openRetained)"

text \<open>The record is taken of the object, which releasing its handles may have written to.\<close>

definition evict_session :: "env \<Rightarrow> stored_session \<Rightarrow> session_store \<Rightarrow> session_store" where
  "evict_session e s st =
     remove_session (ss_id s) (record_eviction s (release_handles e (ss_id s) st))"

definition prune_retained :: "env \<Rightarrow> session_store \<Rightarrow> session_store" where
  "prune_retained e st = fold (evict_session e) (sessions_to_evict e st) st"

section \<open>Cancelling\<close>

definition default_cancel_reason :: string where
  "default_cancel_reason = ''Cancelled by operator''"

definition mark_cancelled :: "env \<Rightarrow> string \<Rightarrow> string \<Rightarrow> session_store \<Rightarrow> session_store" where
  "mark_cancelled e i reason st =
     (let st1 = modify_session i
            (\<lambda>s. push_report (en_options e) (''Cancelled: '' @ reason)
               ((clear_tool_calls
                   (s\<lparr>ss_lifecycle := Cancelled None (Some reason), ss_retained := Some False,
                      ss_finished_at := Some (en_now e), ss_last_activity_at := en_now e\<rparr>))
                \<lparr>ss_error := Some reason,
                 ss_stop_reason := Some
                   (if reason = default_cancel_reason then ''cancelled''
                    else ''cancelled '' @ em_dash @ '' '' @ reason)\<rparr>))
            st;
          st2 = st1\<lparr>st_cancel_handles := AList.delete i (st_cancel_handles st1)\<rparr>
      in (case session_of st2 i of
            None \<Rightarrow> st2
          | Some s \<Rightarrow>
              (case reconcile_terminal_record e s st2 of
                 (s', st3) \<Rightarrow> prune_completed e (put_session i s' st3))))"

definition cancel_session :: "env \<Rightarrow> string \<Rightarrow> string \<Rightarrow> session_store \<Rightarrow> bool \<times> session_store" where
  "cancel_session e i reason st =
     (let st1 = drop_stashed_followups e i ''session cancelled''
                  (settle_cancels_asks e i reason st)
      in (case session_of st1 i of
            None \<Rightarrow> (False, st1)
          | Some s \<Rightarrow>
              if \<not> is_live_strip (ss_lifecycle s) then (False, st1)
              else (True, invoke_cancel e i (map_of (st_cancel_handles st1) i)
                            (mark_cancelled e i reason st1))))"

section \<open>Starting and settling a run\<close>

text \<open>\<open>start\<close>; \<open>fresh\<close> is the id \<open>createId\<close> returns when the input names none.\<close>

definition start_session ::
    "env \<Rightarrow> string \<Rightarrow> start_input \<Rightarrow> session_store \<Rightarrow> string \<times> session_store" where
  "start_session e fresh input st =
     (let i = (case si_id input of Some x \<Rightarrow> if x \<noteq> [] then x else fresh | None \<Rightarrow> fresh);
          st1 = snd (cancel_ask_internal e i ''session replaced'' False st);
          st2 = drop_handles i (st1\<lparr>st_close_handles := AList.delete i (st_close_handles st1)\<rparr>);
          st3 = drop_stashed_followups e i ''session replaced'' st2;
          st4 = reset_turn_trace i
                  (st3\<lparr>st_pin_counts := AList.delete i (st_pin_counts st3),
                       st_run_in_flight := jset_delete i (st_run_in_flight st3)\<rparr>);
          st5 = st4\<lparr>st_followup_turns := jset_delete i (st_followup_turns st4)\<rparr>
      in (i, put_session i (new_session i input (en_now e)) st5))"

definition append_session_event ::
    "env \<Rightarrow> (string \<Rightarrow> string \<Rightarrow> string option) \<Rightarrow> string \<Rightarrow> emitted_event
      \<Rightarrow> session_store \<Rightarrow> session_store" where
  "append_session_event e prev i ev st =
     mutate e i
       (\<lambda>st. case session_of st i of
          None \<Rightarrow> st
        | Some s \<Rightarrow>
            (case append_event prev (en_options e) (en_now e) ev
                    (s, map_of (st_handoff_traces st) i) of
               (s', trace) \<Rightarrow>
                 put_session i s'
                   (case trace of
                      None \<Rightarrow> st
                    | Some h \<Rightarrow>
                        st\<lparr>st_handoff_traces := AList.update i h (st_handoff_traces st)\<rparr>)))
       st"

definition begin_followup_turn :: "env \<Rightarrow> string \<Rightarrow> session_store \<Rightarrow> session_store" where
  "begin_followup_turn e i st =
     (let st1 = reset_turn_trace i st
      in mutate_session e i
           (\<lambda>s. s\<lparr>ss_lifecycle := LcRunning, ss_finished_at := None, ss_stop_reason := None\<rparr>)
           (st1\<lparr>st_followup_turns := jset_add i (st_followup_turns st1),
                st_run_in_flight := jset_add i (st_run_in_flight st1)\<rparr>))"

text \<open>The lifecycle a rejected follow-up restores is \<open>completed\<close> or \<open>interrupted\<close>.\<close>

definition finish_now :: "env \<Rightarrow> stored_session \<Rightarrow> stored_session" where
  "finish_now e s =
     s\<lparr>ss_finished_at := Some (case ss_finished_at s of Some t \<Rightarrow> t | None \<Rightarrow> en_now e)\<rparr>"

definition restore_lane :: "env \<Rightarrow> verb_status \<Rightarrow> stored_session \<Rightarrow> stored_session" where
  "restore_lane e restore s =
     (if \<not> is_run_eligible (ss_lifecycle s) then
        (let s1 = finish_now e s
         in if restore = VerbInterrupted \<and> ss_stop_reason s = None
            then s1\<lparr>ss_stop_reason := Some ''interrupted''\<rparr> else s1)
      else if restore = VerbInterrupted then
        s\<lparr>ss_lifecycle := Interrupted (ss_report s), ss_stop_reason := Some ''interrupted'',
          ss_finished_at := Some (en_now e)\<rparr>
      else
        s\<lparr>ss_lifecycle := Completed (case ss_report s of Some r \<Rightarrow> r | None \<Rightarrow> []),
          ss_finished_at := Some (en_now e)\<rparr>)"

definition end_followup_turn :: "env \<Rightarrow> string \<Rightarrow> verb_status \<Rightarrow> session_store \<Rightarrow> session_store" where
  "end_followup_turn e i restore st = mutate_session e i (restore_lane e restore) st"

definition mark_failed :: "env \<Rightarrow> string \<Rightarrow> stored_session \<Rightarrow> stored_session" where
  "mark_failed e err s =
     push_report (en_options e) (''Error: '' @ err)
       ((clear_tool_calls
           (s\<lparr>ss_lifecycle := Failed err, ss_finished_at := Some (en_now e)\<rparr>))
        \<lparr>ss_error := Some err\<rparr>)"

fun is_cancelled :: "worker_lifecycle \<Rightarrow> bool" where
  "is_cancelled (Cancelled _ _) = True"
| "is_cancelled _ = False"

fun is_interrupted :: "worker_lifecycle \<Rightarrow> bool" where
  "is_interrupted (Interrupted _) = True"
| "is_interrupted _ = False"

definition may_fail :: "stored_session \<Rightarrow> bool" where
  "may_fail s \<longleftrightarrow> is_live_strip (ss_lifecycle s) \<and> \<not> is_cancelled (ss_lifecycle s)"

definition clear_in_flight :: "string \<Rightarrow> session_store \<Rightarrow> session_store" where
  "clear_in_flight i st = st\<lparr>st_run_in_flight := jset_delete i (st_run_in_flight st)\<rparr>"

text \<open>The condition under which a store function changes the session.\<close>

definition session_satisfies :: "session_store \<Rightarrow> string \<Rightarrow> (stored_session \<Rightarrow> bool) \<Rightarrow> bool" where
  "session_satisfies st i P = (case session_of st i of None \<Rightarrow> False | Some s \<Rightarrow> P s)"

definition fail_closed_session :: "env \<Rightarrow> string \<Rightarrow> string \<Rightarrow> session_store \<Rightarrow> session_store" where
  "fail_closed_session e i err st =
     (let st1 = drop_stashed_followups e i ''session failed''
                  (settle_cancels_asks e i ''session failed''
                    (end_followup_turn e i VerbInterrupted st));
          st2 = mutate_session e i
                  (\<lambda>s. if \<not> may_fail s then s
                       else (mark_failed e err (s\<lparr>ss_failure := None\<rparr>))
                              \<lparr>ss_stop_reason := Some ''error''\<rparr>) st1
      in prune_completed e (release_handles e i st2))"

definition record_reply :: "env \<Rightarrow> string \<Rightarrow> stored_session \<Rightarrow> stored_session" where
  "record_reply e reply s = push_report (en_options e) reply (s\<lparr>ss_report := Some reply\<rparr>)"

definition stash_of :: "session_store \<Rightarrow> string \<Rightarrow> stashed_followup list" where
  "stash_of st i = (case map_of (st_stash st) i of None \<Rightarrow> [] | Some q \<Rightarrow> q)"

definition launch_next_stashed_followup ::
    "env \<Rightarrow> string \<Rightarrow> session_store \<Rightarrow> bool \<times> session_store" where
  "launch_next_stashed_followup e i st =
     (if \<not> session_satisfies st i (\<lambda>s. is_run_eligible (ss_lifecycle s)) then
        (False, clear_in_flight i (drop_stashed_followups e i ''session settled'' st))
      else (case stash_of st i of
              [] \<Rightarrow> (False, st\<lparr>st_stash := AList.delete i (st_stash st)\<rparr>)
            | nxt # rest \<Rightarrow>
                (let st1 = st\<lparr>st_stash := (if rest = [] then AList.delete i (st_stash st)
                                           else AList.update i rest (st_stash st))\<rparr>;
                     st2 = reset_turn_trace i st1;
                     st3 = st2\<lparr>st_followup_turns := jset_add i (st_followup_turns st2)\<rparr>
                 in (case map_of (st_followup_handles st3) i of
                       None \<Rightarrow>
                         (False, clear_in_flight i
                            (drop_stashed_followups e i ''agent tore down before delivery''
                               (st3\<lparr>st_stash := AList.update i (nxt # rest) (st_stash st3)\<rparr>)))
                     | Some h \<Rightarrow>
                         (True, log_call (FollowupInvoked i h (sf_message nxt))
                            (st3\<lparr>st_steer_log :=
                                st_steer_log st3 @ [SteerLaunched (sf_token nxt)]\<rparr>))))))"

fun lane_settled :: "worker_lifecycle \<Rightarrow> bool" where
  "lane_settled (Shutdown _ _) = True"
| "lane_settled (Cancelled _ _) = True"
| "lane_settled (Failed _) = True"
| "lane_settled (Interrupted _) = True"
| "lane_settled _ = False"

definition settle_followup_reply ::
    "env \<Rightarrow> string \<Rightarrow> string \<Rightarrow> nat \<Rightarrow> session_store \<Rightarrow> session_store" where
  "settle_followup_reply e i reply token st =
     (case session_of st i of
        None \<Rightarrow> drop_stashed_followups e i ''session ended'' (clear_in_flight i st)
      | Some still \<Rightarrow>
          if lane_settled (ss_lifecycle still) then
            drop_stashed_followups e i ''session settled'' (clear_in_flight i st)
          else if stash_of st i \<noteq> [] then
            snd (launch_next_stashed_followup e i
              (log_call (FollowupReplied i token reply)
                (mutate_session e i (record_reply e reply) st)))
          else
            prune_retained e
              (log_call (FollowupReplied i token reply)
                (clear_in_flight i
                  (mutate_session e i
                    (\<lambda>s. (record_reply e reply
                            (s\<lparr>ss_lifecycle := Completed reply, ss_finished_at := Some (en_now e)\<rparr>))
                          \<lparr>ss_stop_reason := None\<rparr>) st))))"

text \<open>
  A rejected follow-up, before and after its \<open>onFail\<close> has settled. The flag says that the lane
  hands off to the next steer.
\<close>

definition settle_followup_failure_begin ::
    "env \<Rightarrow> string \<Rightarrow> thrown_error \<Rightarrow> nat \<Rightarrow> session_store \<Rightarrow> bool \<times> session_store" where
  "settle_followup_failure_begin e i err token st =
     (if \<not> is_agent_closed_error err \<and> stash_of st i \<noteq> [] then
        (True, log_call (FollowupFailed i token err) st)
      else (False, log_call (FollowupFailed i token err) (clear_in_flight i st)))"

definition settle_followup_failure_end ::
    "env \<Rightarrow> string \<Rightarrow> thrown_error \<Rightarrow> verb_status \<Rightarrow> bool \<Rightarrow> session_store \<Rightarrow> session_store" where
  "settle_followup_failure_end e i err failLifecycle handoff st =
     (if handoff then snd (launch_next_stashed_followup e i st)
      else if is_agent_closed_error err then
        fail_closed_session e i
          (''Follow-up rejected: agent '' @ i @
           '' closed before the message could be delivered.'') st
      else
        (let st1 = (if failLifecycle = VerbInterrupted
                    then st\<lparr>st_pending_failures := AList.update i
                           \<lparr>fi_class = classify_subagent_failure err False,
                            fi_teardown_failed = False,
                            fi_cause = (if is_loop_guard_error err
                                        then Some (loop_guard_cause err) else None)\<rparr>
                           (st_pending_failures st)\<rparr>
                    else st);
             st2 = end_followup_turn e i failLifecycle st1
         in st2\<lparr>st_pending_failures := AList.delete i (st_pending_failures st2)\<rparr>))"

definition complete_update ::
    "env \<Rightarrow> string \<Rightarrow> bool \<Rightarrow> forced_stop_reason option \<Rightarrow> stored_session \<Rightarrow> stored_session" where
  "complete_update e report agentRetained stopReason s =
     (let s1 = s\<lparr>ss_lifecycle := Completed report,
                 ss_retained := (if agentRetained then ss_retained s else Some False),
                 ss_finished_at := Some (en_now e)\<rparr>;
          s2 = (clear_tool_calls s1)\<lparr>ss_report := Some report\<rparr>;
          s3 = (case stopReason of
                  None \<Rightarrow> s2 | Some r \<Rightarrow> s2\<lparr>ss_stop_reason := Some (forced_stop_text r)\<rparr>)
      in push_report (en_options e) report s3)"

definition may_complete :: "stored_session \<Rightarrow> bool" where
  "may_complete s \<longleftrightarrow>
     is_live_strip (ss_lifecycle s) \<and> \<not> is_cancelled (ss_lifecycle s) \<and>
     \<not> is_interrupted (ss_lifecycle s)"

text \<open>Whether the completed run hands the lane to a steer that lost the race against it.\<close>

definition delivers_stash :: "bool \<Rightarrow> string \<Rightarrow> session_store \<Rightarrow> bool" where
  "delivers_stash agentRetained i st \<longleftrightarrow>
     session_satisfies st i (\<lambda>s. may_complete s \<and> agentRetained \<and> ss_retained s = Some True) \<and>
     stash_of st i \<noteq> [] \<and> map_of (st_followup_handles st) i \<noteq> None"

definition complete_session ::
    "env \<Rightarrow> string \<Rightarrow> string \<Rightarrow> bool \<Rightarrow> forced_stop_reason option \<Rightarrow> session_store \<Rightarrow> session_store" where
  "complete_session e i report agentRetained stopReason st =
     (let st0 = settle_cancels_asks e i ''session completed'' st;
          completes = session_satisfies st0 i may_complete;
          delivers = delivers_stash agentRetained i st0;
          fn = (\<lambda>st.
            if \<not> completes then st
            else
              (let st1 = modify_session i (complete_update e report agentRetained stopReason) st;
                   st2 = st1\<lparr>st_cancel_handles := AList.delete i (st_cancel_handles st1),
                             st_close_handles :=
                               (if agentRetained then st_close_handles st1
                                else AList.delete i (st_close_handles st1))\<rparr>
               in if delivers
                  then (modify_session i
                         (\<lambda>s. s\<lparr>ss_lifecycle := LcRunning, ss_finished_at := None,
                                 ss_stop_reason := None\<rparr>) st2)
                       \<lparr>st_run_in_flight := jset_add i (st_run_in_flight st2)\<rparr>
                  else clear_in_flight i st2));
          post = (\<lambda>st. if completes then prune_retained e (prune_completed e st) else st);
          st3 = mutate_then e i fn post st0
      in if delivers \<and> session_of st3 i \<noteq> None
         then snd (launch_next_stashed_followup e i st3)
         else drop_stashed_followups e i ''session completed'' st3)"

definition fail_session ::
    "env \<Rightarrow> string \<Rightarrow> string \<Rightarrow> failure_input option \<Rightarrow> session_store \<Rightarrow> session_store" where
  "fail_session e i err failure st =
     (let st0 = (case failure of
                   None \<Rightarrow> st
                 | Some f \<Rightarrow> st\<lparr>st_pending_failures := AList.update i f (st_pending_failures st)\<rparr>);
          st1 = settle_cancels_asks e i ''session failed'' st0;
          fails = session_satisfies st1 i may_fail;
          fn = (\<lambda>st.
            if \<not> fails then st
            else release_handles e i
                   (drop_stashed_followups e i ''session failed''
                     (clear_in_flight i
                       (modify_session i
                         (\<lambda>s. mark_failed e err (s\<lparr>ss_retained := Some False\<rparr>)) st))));
          post = (\<lambda>st. if fails then prune_completed e st else st);
          st2 = mutate_then e i fn post st1
      in st2\<lparr>st_pending_failures := AList.delete i (st_pending_failures st2)\<rparr>)"

section \<open>Follow-ups and admission\<close>

text \<open>The start callback of a follow-up, and the follow-ups an admission step started.\<close>

definition start_followup ::
    "env \<Rightarrow> string \<Rightarrow> nat \<Rightarrow> string \<Rightarrow> session_store \<Rightarrow> session_store" where
  "start_followup e i h message st = log_call (FollowupInvoked i h message) (begin_followup_turn e i st)"

definition start_queued :: "env \<Rightarrow> string \<Rightarrow> session_store \<Rightarrow> session_store" where
  "start_queued e i st =
     (case map_of (st_queued_followups st) i of
        None \<Rightarrow> st
      | Some qf \<Rightarrow>
          start_followup e i (qf_handle qf) (qf_message qf)
            (st\<lparr>st_queued_followups := AList.delete i (st_queued_followups st)\<rparr>))"

definition newly_started :: "admission_queue \<Rightarrow> admission_queue \<Rightarrow> string list" where
  "newly_started q q' = drop (length (adm_started q)) (adm_started q')"

definition apply_admission ::
    "env \<Rightarrow> admission_queue \<Rightarrow> admission_queue \<Rightarrow> session_store \<Rightarrow> session_store" where
  "apply_admission e q q' st = fold (start_queued e) (newly_started q q') (st\<lparr>st_admission := Some q'\<rparr>)"

text \<open>A slot given back, by a follow-up that settled or by any other job of the queue.\<close>

definition release_slot :: "env \<Rightarrow> string \<Rightarrow> session_store \<Rightarrow> session_store" where
  "release_slot e job_id st =
     (case st_admission st of
        None \<Rightarrow> st
      | Some q \<Rightarrow> apply_admission e q (snd (Admission.release (\<lambda>_. True) (en_now e) job_id q)) st)"

definition queue_followup_turn ::
    "env \<Rightarrow> string \<Rightarrow> string \<Rightarrow> verb_status \<Rightarrow> nat \<Rightarrow> session_store
      \<Rightarrow> admission_status \<times> session_store" where
  "queue_followup_turn e i message failLifecycle token st =
     (case map_of (st_followup_handles st) i of
        None \<Rightarrow> (Running, st)
      | Some h \<Rightarrow>
          (case (case st_admission st of
                   None \<Rightarrow> None | Some q \<Rightarrow> if Admission.occupied i q then None else Some q) of
             None \<Rightarrow> (Running, start_followup e i h message st)
           | Some q \<Rightarrow>
               (let job = \<lparr>aj_id = i,
                           aj_provider = (case Option.bind (session_of st i) ss_provider of
                                            Some p \<Rightarrow> p | None \<Rightarrow> ''unknown''),
                           aj_bypass = (case session_of st i of
                                          Some s \<Rightarrow> ss_parent_session_id s \<noteq> None | None \<Rightarrow> False)\<rparr>;
                    waiting = list_ex (\<lambda>j. aj_id j = i) (adm_queued q);
                    st1 = (if waiting then st
                           else st\<lparr>st_queued_followups := AList.update i
                                    \<lparr>qf_handle = h, qf_message = message,
                                     qf_fail_lifecycle = failLifecycle, qf_token = token\<rparr>
                                    (st_queued_followups st)\<rparr>)
                in (case Admission.enqueue (\<lambda>_. True) (en_now e) job q of
                      (status, q') \<Rightarrow>
                        (let st2 = apply_admission e q q' st1
                         in if status = Some Queued
                            then (Queued, mutate_session e i
                                   (\<lambda>s. s\<lparr>ss_lifecycle := PendingInit, ss_finished_at := None\<rparr>)
                                   (st2\<lparr>st_cancel_handles :=
                                      AList.update i QueueCancel (st_cancel_handles st2)\<rparr>))
                            else (Running, st2))))))"

text \<open>What an operation answers: the status it reports, \<open>None\<close> for \<open>not_found\<close>, and a hint.\<close>

datatype verb_answer =
    Accepted "verb_status option"
  | Refused "verb_status option" "string option"

definition tombstone_answer :: "session_store \<Rightarrow> string \<Rightarrow> verb_answer" where
  "tombstone_answer st i =
     (case map_of (st_evicted st) i of
        Some ev \<Rightarrow> Refused (Some (er_lifecycle_status ev)) (Some (er_hint ev))
      | None \<Rightarrow> Refused None None)"

definition status_of :: "stored_session \<Rightarrow> verb_status" where
  "status_of s = project_lifecycle_status (ss_lifecycle s)"

datatype resume_answer =
    Resumed admission_status
  | NotResumed "verb_status option" "string option"

definition too_long_hint :: "nat \<Rightarrow> nat \<Rightarrow> string" where
  "too_long_hint mx n =
     ''resume_agent message exceeds '' @ dec mx @ '' characters '' @ ''(got '' @ dec n @ '').''"

definition resume_one ::
    "env \<Rightarrow> string \<Rightarrow> string \<Rightarrow> nat \<Rightarrow> session_store \<Rightarrow> resume_answer \<times> session_store" where
  "resume_one e i message token st =
     (case session_of st i of
        None \<Rightarrow>
          (case map_of (st_evicted st) i of
             Some ev \<Rightarrow> (NotResumed (Some (er_lifecycle_status ev)) (Some (er_hint ev)), st)
           | None \<Rightarrow> (NotResumed None None, st))
      | Some s \<Rightarrow>
          if \<not> is_open_retained s then (NotResumed (Some (status_of s)) None, st)
          else if trim message = [] then
            (NotResumed (Some (status_of s)) (Some ''resume_agent requires a non-empty message.''), st)
          else if length message > op_max_entry_chars (en_options e) then
            (NotResumed (Some (status_of s))
              (Some (too_long_hint (op_max_entry_chars (en_options e)) (length message))), st)
          else if map_of (st_followup_handles st) i = None then
            (NotResumed (Some (status_of s)) None, st)
          else
            (case queue_followup_turn e i message
                    (if is_interrupted (ss_lifecycle s) then VerbInterrupted else VerbCompleted)
                    token st of
               (status, st1) \<Rightarrow> (Resumed status, prune_retained e st1)))"

section \<open>Steering and interrupting\<close>

definition send_interrupt ::
    "env \<Rightarrow> string \<Rightarrow> string \<Rightarrow> nat \<Rightarrow> nat \<Rightarrow> session_store \<Rightarrow> verb_answer \<times> session_store" where
  "send_interrupt e i message token h st =
     (let st1 = settle_cancels_asks e i ''cancelled by send_input interrupt'' st;
          stashed = \<lparr>sf_message = message, sf_fail_lifecycle = VerbInterrupted, sf_token = token\<rparr>;
          opening = (map_of (st_stash st1) i = None);
          st2 = st1\<lparr>st_stash := AList.update i (stash_of st1 i @ [stashed]) (st_stash st1),
                    st_steer_log := st_steer_log st1 @ [SteerStashed token]\<rparr>;
          st3 = (if opening then en_react e h (log_call (InterruptInvoked i h) st2) else st2)
      in if \<not> list_ex (\<lambda>sf. sf_token sf = token) (stash_of st3 i) then
           (case session_of st3 i of
              None \<Rightarrow> (Accepted None, st3)
            | Some s \<Rightarrow>
                (Accepted (Some (if status_of s = VerbRunning then VerbInterrupted
                                 else status_of s)), st3))
         else
           (Accepted (Some VerbInterrupted),
            prune_retained e
              (mutate_session e i (\<lambda>s. s\<lparr>ss_stop_reason := Some ''interrupted''\<rparr>) st3)))"

definition send_input_one ::
    "env \<Rightarrow> string \<Rightarrow> string \<Rightarrow> bool \<Rightarrow> nat \<Rightarrow> session_store \<Rightarrow> verb_answer \<times> session_store" where
  "send_input_one e i message asInterrupt token st =
     (case session_of st i of
        None \<Rightarrow> (tombstone_answer st i, st)
      | Some s \<Rightarrow>
          if ss_lifecycle s \<noteq> LcRunning then (Refused (Some (status_of s)) None, st)
          else if asInterrupt then
            (case map_of (st_interrupt_handles st) i of
               None \<Rightarrow> (Refused (Some (status_of s)) None, st)
             | Some h \<Rightarrow>
                 if map_of (st_followup_handles st) i = None
                 then (Refused (Some (status_of s)) None, st)
                 else send_interrupt e i message token h st)
          else (case map_of (st_pending_asks st) i of
                  Some ask \<Rightarrow>
                    (Accepted (Some VerbRunning),
                     st\<lparr>st_pending_asks := AList.delete i (st_pending_asks st),
                        st_handoff_traces := AList.update i HandoffSubmitted (st_handoff_traces st),
                        st_ask_log := st_ask_log st @ [AskResolved (pk_token ask) message]\<rparr>)
                | None \<Rightarrow>
                    (case map_of (st_deliver_handles st) i of
                       None \<Rightarrow> (Refused (Some (status_of s)) None, st)
                     | Some h \<Rightarrow>
                         (Accepted (Some VerbRunning), log_call (DeliverInvoked i h message) st))))"

definition mark_interrupted :: "env \<Rightarrow> stored_session \<Rightarrow> stored_session" where
  "mark_interrupted e s =
     (finish_now e (s\<lparr>ss_lifecycle := Interrupted (ss_report s)\<rparr>))
       \<lparr>ss_stop_reason := Some ''interrupted''\<rparr>"

text \<open>\<open>interruptOne\<close>: \<open>None\<close> when it interrupted, the status it refused with otherwise.\<close>

definition interrupt_one ::
    "env \<Rightarrow> string \<Rightarrow> session_store \<Rightarrow> verb_answer option \<times> session_store" where
  "interrupt_one e i st =
     (case session_of st i of
        None \<Rightarrow> (Some (Refused None None), st)
      | Some s \<Rightarrow>
          if \<not> is_live_strip (ss_lifecycle s) then (Some (Refused (Some (status_of s)) None), st)
          else
            (let st1 = drop_stashed_followups e i ''interrupted by interrupt_agent'' st
             in (case map_of (st_interrupt_handles st1) i of
                   None \<Rightarrow>
                     if ss_lifecycle s = PendingInit then
                       (None, prune_retained e
                          (mutate_session e i (mark_interrupted e)
                            (clear_in_flight i
                              (invoke_cancel e i (map_of (st_cancel_handles st1) i) st1))))
                     else (Some (Refused (Some (status_of s)) None), st1)
                 | Some h \<Rightarrow>
                     (None, prune_retained e
                        (mutate_session e i (mark_interrupted e)
                          (en_react e h
                            (log_call (InterruptInvoked i h)
                              (settle_cancels_asks e i ''session interrupted'' st1))))))))"

definition attach_salvage ::
    "env \<Rightarrow> string \<Rightarrow> forced_stop_reason option \<Rightarrow> worker_lifecycle \<Rightarrow> stored_session
      \<Rightarrow> stored_session" where
  "attach_salvage e report stopReason lc s =
     push_report (en_options e) report
       (s\<lparr>ss_report := Some report, ss_lifecycle := lc,
          ss_stop_reason :=
            (case stopReason of None \<Rightarrow> ss_stop_reason s | Some r \<Rightarrow> Some (forced_stop_text r))\<rparr>)"

fun with_report :: "string \<Rightarrow> worker_lifecycle \<Rightarrow> worker_lifecycle" where
  "with_report r (Cancelled _ er) = Cancelled (Some r) er"
| "with_report r (Interrupted _) = Interrupted (Some r)"
| "with_report r (Shutdown _ er) = Shutdown (Some r) er"
| "with_report r lc = lc"

fun is_completed_or_failed :: "worker_lifecycle \<Rightarrow> bool" where
  "is_completed_or_failed (Completed _) = True"
| "is_completed_or_failed (Failed _) = True"
| "is_completed_or_failed _ = False"

definition attach_update ::
    "env \<Rightarrow> string \<Rightarrow> forced_stop_reason option \<Rightarrow> bool \<Rightarrow> stored_session \<Rightarrow> stored_session" where
  "attach_update e report stopReason handsOff s =
     (if is_run_eligible (ss_lifecycle s) then
        (let s1 = attach_salvage e report stopReason (Interrupted (Some report)) (finish_now e s)
         in if handsOff
            then s1\<lparr>ss_lifecycle := LcRunning, ss_finished_at := None, ss_stop_reason := None\<rparr>
            else s1)
      else if ss_report s = None then
        attach_salvage e report stopReason (with_report report (ss_lifecycle s)) s
      else s)"

definition attach_report ::
    "env \<Rightarrow> string \<Rightarrow> string \<Rightarrow> forced_stop_reason option \<Rightarrow> session_store \<Rightarrow> session_store" where
  "attach_report e i report stopReason st =
     (let ended = session_satisfies st i (\<lambda>s. is_completed_or_failed (ss_lifecycle s));
          launches = (stash_of st i \<noteq> [] \<and>
            session_satisfies st i (\<lambda>s. is_run_eligible (ss_lifecycle s)));
          fn = (\<lambda>st.
            if ended then clear_in_flight i st
            else (let st1 = modify_session i (attach_update e report stopReason launches) st
                  in if launches then st1 else clear_in_flight i st1));
          post = (\<lambda>st. if ended then st else prune_retained e (prune_completed e st));
          st1 = mutate_then e i fn post st
      in if launches \<and> session_of st1 i \<noteq> None
         then snd (launch_next_stashed_followup e i st1)
         else drop_stashed_followups e i ''session settled'' st1)"

definition settle_run :: "env \<Rightarrow> string \<Rightarrow> session_store \<Rightarrow> session_store" where
  "settle_run e i st =
     clear_in_flight i
       (drop_stashed_followups e i ''run settled''
         (snd (cancel_ask_internal e i ''run settled'' True st)))"

section \<open>Registering\<close>

definition link_recovery_replacement ::
    "env \<Rightarrow> string \<Rightarrow> string \<Rightarrow> session_store \<Rightarrow> session_store" where
  "link_recovery_replacement e i replacementId st =
     mutate_session e i
       (\<lambda>s. case ss_failure s of
          None \<Rightarrow> s
        | Some r \<Rightarrow>
            if rc_replacement_id (fr_recovery r) \<noteq> None then s
            else s\<lparr>ss_failure := Some (with_recovery_replacement r replacementId)\<rparr>) st"

definition unlink_recovery_replacement ::
    "env \<Rightarrow> string \<Rightarrow> string \<Rightarrow> session_store \<Rightarrow> session_store" where
  "unlink_recovery_replacement e i replacementId st =
     mutate_session e i
       (\<lambda>s. case ss_failure s of
          None \<Rightarrow> s
        | Some r \<Rightarrow>
            if rc_replacement_id (fr_recovery r) \<noteq> Some replacementId then s
            else s\<lparr>ss_failure := Some (without_recovery_replacement r)\<rparr>) st"

definition has_session :: "session_store \<Rightarrow> string \<Rightarrow> bool" where
  "has_session st i \<longleftrightarrow> session_of st i \<noteq> None"

definition register_cancel :: "string \<Rightarrow> nat \<Rightarrow> session_store \<Rightarrow> session_store" where
  "register_cancel i h st =
     (if session_satisfies st i (\<lambda>s. is_live_strip (ss_lifecycle s))
      then st\<lparr>st_cancel_handles := AList.update i (ExternalCancel h) (st_cancel_handles st)\<rparr>
      else st)"

definition register_close :: "string \<Rightarrow> nat \<Rightarrow> session_store \<Rightarrow> session_store" where
  "register_close i h st =
     (if has_session st i
      then st\<lparr>st_close_handles := AList.update i h (st_close_handles st)\<rparr> else st)"

definition register_interrupt :: "string \<Rightarrow> nat \<Rightarrow> session_store \<Rightarrow> session_store" where
  "register_interrupt i h st =
     (if has_session st i
      then st\<lparr>st_interrupt_handles := AList.update i h (st_interrupt_handles st)\<rparr> else st)"

definition register_followup :: "string \<Rightarrow> nat \<Rightarrow> session_store \<Rightarrow> session_store" where
  "register_followup i h st =
     (if has_session st i
      then st\<lparr>st_followup_handles := AList.update i h (st_followup_handles st)\<rparr> else st)"

definition register_deliver :: "string \<Rightarrow> nat \<Rightarrow> session_store \<Rightarrow> session_store" where
  "register_deliver i h st =
     (if has_session st i
      then st\<lparr>st_deliver_handles := AList.update i h (st_deliver_handles st)\<rparr> else st)"

definition mark_running :: "env \<Rightarrow> string \<Rightarrow> session_store \<Rightarrow> session_store" where
  "mark_running e i st =
     mutate_session e i
       (\<lambda>s. if ss_lifecycle s = PendingInit then s\<lparr>ss_lifecycle := LcRunning\<rparr> else s) st"

definition mark_run_in_flight :: "string \<Rightarrow> session_store \<Rightarrow> session_store" where
  "mark_run_in_flight i st =
     (if \<not> has_session st i \<or> List.member (st_run_in_flight st) i then st
      else st\<lparr>st_run_in_flight := jset_add i (st_run_in_flight st)\<rparr>)"

definition pin :: "string \<Rightarrow> session_store \<Rightarrow> session_store" where
  "pin i st =
     st\<lparr>st_pin_counts := AList.update i
          ((case map_of (st_pin_counts st) i of None \<Rightarrow> 0 | Some n \<Rightarrow> n) + 1) (st_pin_counts st)\<rparr>"

definition unpin :: "env \<Rightarrow> string \<Rightarrow> session_store \<Rightarrow> session_store" where
  "unpin e i st =
     (let nxt = (case map_of (st_pin_counts st) i of None \<Rightarrow> 0 | Some n \<Rightarrow> n) - 1
      in if nxt \<le> 0
         then prune_retained e (prune_completed e
                (st\<lparr>st_pin_counts := AList.delete i (st_pin_counts st)\<rparr>))
         else st\<lparr>st_pin_counts := AList.update i nxt (st_pin_counts st)\<rparr>)"

section \<open>Asks\<close>

text \<open>
  \<open>denied\<close> is the denied-call envelope the grant store attaches, when it has one; the token is
  the promise of the asking call.
\<close>

definition register_ask ::
    "env \<Rightarrow> string \<Rightarrow> string \<Rightarrow> string \<Rightarrow> escalation_assessment \<Rightarrow> nat option \<Rightarrow> nat
      \<Rightarrow> session_store \<Rightarrow> bool \<times> session_store" where
  "register_ask e i question questionId assessment denied token st =
     (if \<not> session_satisfies st i (\<lambda>s. ss_lifecycle s = LcRunning) \<or>
         map_of (st_pending_asks st) i \<noteq> None
      then (False, st)
      else
        (True, mutate e i (\<lambda>st. st)
           (st\<lparr>st_pending_asks := AList.update i
                 \<lparr>pk_question = question, pk_question_id = questionId,
                  pk_assessment = assessment, pk_asked_at = en_now e,
                  pk_denied_call = denied, pk_token = token\<rparr> (st_pending_asks st),
               st_ask_log := st_ask_log st @ [AskRegistered token]\<rparr>)))"

definition resolve_ask :: "string \<Rightarrow> string \<Rightarrow> session_store \<Rightarrow> bool \<times> session_store" where
  "resolve_ask i answer st =
     (case map_of (st_pending_asks st) i of
        None \<Rightarrow> (False, st)
      | Some ask \<Rightarrow>
          (True,
           st\<lparr>st_pending_asks := AList.delete i (st_pending_asks st),
              st_handoff_traces := AList.update i HandoffSubmitted (st_handoff_traces st),
              st_ask_log := st_ask_log st @ [AskResolved (pk_token ask) answer]\<rparr>))"

definition resolve_escalation_ask ::
    "env \<Rightarrow> string \<Rightarrow> escalation_resolution \<Rightarrow> string option \<Rightarrow> session_store
      \<Rightarrow> bool \<times> session_store" where
  "resolve_escalation_ask e i resolution note st =
     (case map_of (st_pending_asks st) i of
        None \<Rightarrow> (False, st)
      | Some ask \<Rightarrow>
          if pk_question_id ask \<noteq> er_question_id resolution then (False, st)
          else
            (let st1 = st\<lparr>st_pending_asks := AList.delete i (st_pending_asks st)\<rparr>;
                 st2 = (case derive_terminal_outcome (pk_assessment ask) resolution of
                          None \<Rightarrow> st1
                        | Some oc \<Rightarrow> mutate_session e i (\<lambda>s. s\<lparr>ss_terminal_outcome := Some oc\<rparr>) st1)
             in (True,
                 st2\<lparr>st_ask_log := st_ask_log st2 @
                   [AskResolved (pk_token ask)
                     (case note of
                        None \<Rightarrow> er_answer resolution
                      | Some n \<Rightarrow> n @ [newline] @ er_answer resolution)]\<rparr>)))"

definition routine_evaluations_max :: nat where
  "routine_evaluations_max = 50"

definition record_routine_evaluation ::
    "env \<Rightarrow> string \<Rightarrow> escalation_assessment \<Rightarrow> session_store \<Rightarrow> bool \<times> session_store" where
  "record_routine_evaluation e i assessment st =
     (if \<not> has_session st i then (False, st)
      else (True, mutate_session e i
        (\<lambda>s. let es = ss_routine_evaluations s @ [assessment]
             in s\<lparr>ss_routine_evaluations := drop (length es - routine_evaluations_max) es\<rparr>) st))"

fun is_verification_blocked :: "terminal_outcome option \<Rightarrow> bool" where
  "is_verification_blocked (Some (VerificationBlocked _ _ _ _ _ _)) = True"
| "is_verification_blocked _ = False"

definition report_verified_outcome ::
    "env \<Rightarrow> string \<Rightarrow> string \<Rightarrow> session_store \<Rightarrow> bool \<times> session_store" where
  "report_verified_outcome e i verificationOutcome st =
     (if \<not> session_satisfies st i (\<lambda>s. is_verification_blocked (ss_terminal_outcome s))
      then (False, st)
      else (True, mutate_session e i
        (\<lambda>s. s\<lparr>ss_terminal_outcome := Some (VerifiedOutcome verificationOutcome)\<rparr>) st))"

definition cancel_ask :: "env \<Rightarrow> string \<Rightarrow> string \<Rightarrow> session_store \<Rightarrow> bool \<times> session_store" where
  "cancel_ask e i reason st = cancel_ask_internal e i reason False st"

definition stale_asks :: "env \<Rightarrow> int \<Rightarrow> session_store \<Rightarrow> (string \<times> string) list" where
  "stale_asks e maxAgeMs st =
     map (\<lambda>(i, ask). (i, pk_question_id ask))
       (filter (\<lambda>(i, ask). pk_asked_at ask \<le> en_now e - maxAgeMs) (st_pending_asks st))"

definition expire_ask :: "env \<Rightarrow> int \<Rightarrow> string \<times> string \<Rightarrow> session_store \<Rightarrow> session_store" where
  "expire_ask e maxAgeMs iq st =
     snd (cancel_ask_internal e (fst iq)
       (''ask_director question '' @ snd iq @ '' for session '' @ fst iq @
        '' expired without an answer after '' @ dec_int maxAgeMs @ ''ms '' @ em_dash @
        '' reply with send_input before the deadline, or not at all'') False
       (log_call (GrantsExpired (fst iq) (''ask '' @ snd iq @ '' expired without an answer'')) st))"

definition expire_stale_asks ::
    "env \<Rightarrow> int \<Rightarrow> session_store \<Rightarrow> (string \<times> string) list \<times> session_store" where
  "expire_stale_asks e maxAgeMs st =
     (let expired = stale_asks e maxAgeMs st in (expired, fold (expire_ask e maxAgeMs) expired st))"

section \<open>Closing\<close>

text \<open>
  \<open>closeOne\<close> up to its first await, after the wait for a close handle and after the handle
  has settled.
\<close>

datatype close_step =
    CloseAnswer "verb_status option"
  | CloseAwaitsHandle
  | CloseAwaitsTeardown bool

definition settle_closed :: "env \<Rightarrow> string \<Rightarrow> session_store \<Rightarrow> session_store" where
  "settle_closed e i st =
     prune_completed e
       (clear_in_flight i
         (drop_stashed_followups e i ''session closed'' (drop_handles i st)))"

definition invoke_close :: "string \<Rightarrow> nat \<Rightarrow> session_store \<Rightarrow> close_step \<times> session_store" where
  "invoke_close i h st =
     (CloseAwaitsTeardown (session_satisfies st i (\<lambda>s. is_already_closed (ss_lifecycle s))),
      log_call (CloseInvoked i h) (st\<lparr>st_close_handles := AList.delete i (st_close_handles st)\<rparr>))"

definition close_unstarted :: "env \<Rightarrow> stored_session \<Rightarrow> stored_session" where
  "close_unstarted e s =
     (let err = (case ss_error s of Some x \<Rightarrow> x | None \<Rightarrow> ''Closed by close_agent'')
      in (finish_now e (s\<lparr>ss_lifecycle := Shutdown None (Some err), ss_retained := Some False\<rparr>))
           \<lparr>ss_error := Some err\<rparr>)"

definition close_begin :: "env \<Rightarrow> string \<Rightarrow> session_store \<Rightarrow> close_step \<times> session_store" where
  "close_begin e i st =
     (if \<not> has_session st i then
        (CloseAnswer (if map_of (st_evicted st) i \<noteq> None then Some VerbShutdown else None), st)
      else
        (let st1 = drop_stashed_followups e i ''session closed''
                     (settle_cancels_asks e i ''session closed'' st)
         in (case map_of (st_close_handles st1) i of
               Some h \<Rightarrow> invoke_close i h st1
             | None \<Rightarrow>
                 if session_satisfies st1 i (\<lambda>s. is_already_closed (ss_lifecycle s)) then
                   (CloseAnswer (map_option status_of (session_of st1 i)), st1)
                 else if session_satisfies st1 i (\<lambda>s. ss_lifecycle s = PendingInit) \<and>
                         \<not> List.member (st_run_in_flight st1) i then
                   (CloseAnswer (Some VerbShutdown),
                    settle_closed e i
                      (mutate_session e i (close_unstarted e)
                        (invoke_cancel e i (map_of (st_cancel_handles st1) i) st1)))
                 else (CloseAwaitsHandle, st1))))"

definition close_found :: "string \<Rightarrow> nat option \<Rightarrow> session_store \<Rightarrow> close_step \<times> session_store" where
  "close_found i found st =
     (case session_of st i of
        None \<Rightarrow> (CloseAnswer None, st)
      | Some s \<Rightarrow>
          (case found of None \<Rightarrow> (CloseAnswer (Some (status_of s)), st) | Some h \<Rightarrow> invoke_close i h st))"

definition shut_down :: "env \<Rightarrow> stored_session \<Rightarrow> stored_session" where
  "shut_down e s =
     (let wasLive = is_live_strip (ss_lifecycle s);
          err = (case ss_error s of
                   Some x \<Rightarrow> Some x
                 | None \<Rightarrow> if wasLive then Some ''Closed by close_agent'' else None);
          s1 = (if wasLive then (finish_now e s)\<lparr>ss_error := err\<rparr> else s)
      in s1\<lparr>ss_lifecycle := Shutdown (ss_report s1) err, ss_retained := Some False\<rparr>)"

definition close_end :: "env \<Rightarrow> string \<Rightarrow> bool \<Rightarrow> session_store \<Rightarrow> verb_status option \<times> session_store" where
  "close_end e i keepFailed st =
     (if keepFailed then
        (let st1 = settle_closed e i st in (map_option status_of (session_of st1 i), st1))
      else (Some VerbShutdown, settle_closed e i (mutate_session e i (shut_down e) st)))"

text \<open>\<open>cancelAll\<close> up to its await: the ids cancelled.\<close>

definition shut_down_retained :: "env \<Rightarrow> string \<Rightarrow> session_store \<Rightarrow> session_store" where
  "shut_down_retained e i st =
     (case session_of st i of
        None \<Rightarrow> st
      | Some s \<Rightarrow>
          (case ss_lifecycle s of
             Shutdown _ _ \<Rightarrow> st
           | _ \<Rightarrow>
             (let st1 = snd (cancel_ask_internal e i ''session handles released'' False st);
                  close = map_of (st_close_handles st) i;
                  st2 = drop_handles i (st1\<lparr>st_close_handles := AList.delete i (st_close_handles st1)\<rparr>);
                  st3 = drop_stashed_followups e i ''session handles released'' st2;
                  st4 = mutate_session e i
                          (\<lambda>s. s\<lparr>ss_lifecycle := Shutdown (ss_report s) (ss_error s),
                                  ss_retained := Some False\<rparr>) st3
              in (case close of None \<Rightarrow> st4 | Some h \<Rightarrow> log_call (CloseInvoked i h) st4))))"

definition cancel_listed ::
    "env \<Rightarrow> string \<Rightarrow> string \<Rightarrow> string list \<times> session_store \<Rightarrow> string list \<times> session_store" where
  "cancel_listed e reason i acc =
     (case acc of (ids, st) \<Rightarrow>
        (case cancel_session e i reason st of
           (True, st') \<Rightarrow> (ids @ [i], st') | (False, st') \<Rightarrow> (ids, st')))"

fun is_shutdown :: "worker_lifecycle \<Rightarrow> bool" where
  "is_shutdown (Shutdown _ _) = True"
| "is_shutdown _ = False"

definition cancel_all :: "env \<Rightarrow> string \<Rightarrow> session_store \<Rightarrow> string list \<times> session_store" where
  "cancel_all e reason st =
     (let retained = map fst (filter (\<lambda>(i, s). ss_retained s = Some True \<and>
                        \<not> is_shutdown (ss_lifecycle s)) (st_sessions st));
          running = map fst (filter (\<lambda>(i, s). is_live_strip (ss_lifecycle s)) (st_sessions st))
      in (case fold (cancel_listed e reason) running ([], st) of
            (ids, st1) \<Rightarrow> (ids, fold (shut_down_retained e) retained st1)))"

section \<open>Clearing the store\<close>

definition cancel_all_asks :: "env \<Rightarrow> string \<Rightarrow> session_store \<Rightarrow> session_store" where
  "cancel_all_asks e reason st =
     fold (\<lambda>i st. snd (cancel_ask_internal e i reason False st)) (map fst (st_pending_asks st)) st"

definition release_everything :: "env \<Rightarrow> string \<Rightarrow> string \<Rightarrow> session_store \<Rightarrow> session_store" where
  "release_everything e askReason dropReason st =
     (let st1 = cancel_all_asks e askReason st;
          st2 = fold (release_handles e) (map fst (st_close_handles st1)) st1;
          st3 = st2\<lparr>st_cancel_handles := [], st_close_handles := [], st_interrupt_handles := [],
                    st_followup_handles := [], st_deliver_handles := []\<rparr>;
          st4 = fold (\<lambda>i. drop_stashed_followups e i dropReason) (map fst (st_stash st3)) st3
      in st4\<lparr>st_stash := []\<rparr>)"

definition forget_sessions :: "session_store \<Rightarrow> session_store" where
  "forget_sessions st =
     clear_turn_traces (st\<lparr>st_sessions := [], st_pin_counts := [], st_run_in_flight := []\<rparr>)"

definition clear_store :: "env \<Rightarrow> session_store \<Rightarrow> session_store" where
  "clear_store e st =
     (let st1 = release_everything e ''store cleared'' ''store cleared'' st
      in log_call (GrantsInvalidated None ''store cleared'')
           ((forget_sessions st1)\<lparr>st_evicted := []\<rparr>))"

definition tombstone :: "string \<Rightarrow> stored_session \<Rightarrow> session_store \<Rightarrow> session_store" where
  "tombstone reason s st =
     st\<lparr>st_evicted := AList.update (ss_id s)
          \<lparr>er_lifecycle_status = project_lifecycle_status (ss_lifecycle s), er_hint = reason\<rparr>
          (st_evicted st)\<rparr>"

definition teardown_store :: "env \<Rightarrow> string \<Rightarrow> session_store \<Rightarrow> session_store" where
  "teardown_store e reason st =
     (let st1 = release_everything e (''ask_director cancelled: '' @ reason) reason st;
          st2 = fold (tombstone reason) (map snd (st_sessions st1)) st1;
          st3 = st2\<lparr>st_evicted :=
                  drop (length (st_evicted st2) - max_evicted_tombstones) (st_evicted st2)\<rparr>
      in log_call (GrantsInvalidated None reason) (forget_sessions st3))"

section \<open>Reading the store\<close>

text \<open>What a caller sees of a session: a copy with the projections of its lifecycle.\<close>

record session_snapshot =
  sn_session :: stored_session
  sn_status :: strip_status
  sn_lifecycle_status :: verb_status
  sn_run_in_flight :: bool

definition clone_session :: "stored_session \<Rightarrow> bool \<Rightarrow> session_snapshot" where
  "clone_session s inFlight =
     \<lparr>sn_session = s, sn_status = project_strip_status (ss_lifecycle s),
      sn_lifecycle_status = project_lifecycle_status (ss_lifecycle s),
      sn_run_in_flight = inFlight\<rparr>"

definition snapshot_of :: "session_store \<Rightarrow> stored_session \<Rightarrow> session_snapshot" where
  "snapshot_of st s = clone_session s (List.member (st_run_in_flight st) (ss_id s))"

definition list_sessions :: "session_store \<Rightarrow> session_snapshot list" where
  "list_sessions st = map (\<lambda>(i, s). snapshot_of st s) (st_sessions st)"

definition get_session :: "session_store \<Rightarrow> string \<Rightarrow> session_snapshot option" where
  "get_session st i = map_option (snapshot_of st) (session_of st i)"

definition evicted_lifecycle :: "session_store \<Rightarrow> string \<Rightarrow> verb_status option" where
  "evicted_lifecycle st i = map_option er_lifecycle_status (map_of (st_evicted st) i)"

text \<open>Running first, then the newest first; two stable passes are the comparator's order.\<close>

definition list_for_strip :: "session_store \<Rightarrow> session_snapshot list" where
  "list_for_strip st =
     sort_key (\<lambda>sn. if sn_status sn = StripRunning then 0 else 1 :: nat)
       (sort_key (\<lambda>sn. - ss_started_at (sn_session sn)) (list_sessions st))"

definition has_pending_ask :: "session_store \<Rightarrow> string \<Rightarrow> bool" where
  "has_pending_ask st i \<longleftrightarrow> map_of (st_pending_asks st) i \<noteq> None"

definition peek_ask ::
    "session_store \<Rightarrow> string \<Rightarrow> (string \<times> string \<times> escalation_assessment \<times> nat option) option" where
  "peek_ask st i =
     map_option (\<lambda>a. (pk_question a, pk_question_id a, pk_assessment a, pk_denied_call a))
       (map_of (st_pending_asks st) i)"

definition is_run_in_flight :: "session_store \<Rightarrow> string \<Rightarrow> bool" where
  "is_run_in_flight st i \<longleftrightarrow> List.member (st_run_in_flight st) i"

section \<open>Runs of the store\<close>

text \<open>
  The operations, each asynchronous one split at its awaits, and one step. \<open>OpReply\<close>,
  \<open>OpFailureBegin\<close> and \<open>OpFailureEnd\<close> are the settlement of a follow-up's promise,
  \<open>OpReleaseSlot\<close> its \<open>finally\<close> or another job of the queue giving its slot back.
\<close>

datatype store_op =
    OpStart string start_input
  | OpEvent string emitted_event
  | OpComplete string string bool "forced_stop_reason option"
  | OpFail string string "failure_input option"
  | OpLink string string
  | OpUnlink string string
  | OpRegisterCancel string nat
  | OpRegisterClose string nat
  | OpRegisterInterrupt string nat
  | OpRegisterFollowup string nat
  | OpRegisterDeliver string nat
  | OpMarkRunning string
  | OpMarkRunInFlight string
  | OpPin string
  | OpUnpin string
  | OpRegisterAsk string string string escalation_assessment "nat option" nat
  | OpResolveAsk string string
  | OpResolveEscalation string escalation_resolution "string option"
  | OpRoutine string escalation_assessment
  | OpVerified string string
  | OpCancelAsk string string
  | OpExpireAsks int
  | OpCloseBegin string
  | OpCloseFound string "nat option"
  | OpCloseEnd string bool
  | OpCancel string string
  | OpCancelAll string
  | OpSendInput string string bool nat
  | OpInterrupt string
  | OpResume string string nat
  | OpAttachReport string string "forced_stop_reason option"
  | OpSettleRun string
  | OpReply string string nat
  | OpFailureBegin string thrown_error nat
  | OpFailureEnd string thrown_error verb_status bool
  | OpReleaseSlot string
  | OpClear
  | OpTeardown string

fun run_store_op ::
    "(string \<Rightarrow> string \<Rightarrow> string option) \<Rightarrow> env \<Rightarrow> store_op \<Rightarrow> session_store \<Rightarrow> session_store" where
  "run_store_op prev e (OpStart fresh input) st = snd (start_session e fresh input st)"
| "run_store_op prev e (OpEvent i ev) st = append_session_event e prev i ev st"
| "run_store_op prev e (OpComplete i report retained reason) st =
     complete_session e i report retained reason st"
| "run_store_op prev e (OpFail i err failure) st = fail_session e i err failure st"
| "run_store_op prev e (OpLink i r) st = link_recovery_replacement e i r st"
| "run_store_op prev e (OpUnlink i r) st = unlink_recovery_replacement e i r st"
| "run_store_op prev e (OpRegisterCancel i h) st = register_cancel i h st"
| "run_store_op prev e (OpRegisterClose i h) st = register_close i h st"
| "run_store_op prev e (OpRegisterInterrupt i h) st = register_interrupt i h st"
| "run_store_op prev e (OpRegisterFollowup i h) st = register_followup i h st"
| "run_store_op prev e (OpRegisterDeliver i h) st = register_deliver i h st"
| "run_store_op prev e (OpMarkRunning i) st = mark_running e i st"
| "run_store_op prev e (OpMarkRunInFlight i) st = mark_run_in_flight i st"
| "run_store_op prev e (OpPin i) st = pin i st"
| "run_store_op prev e (OpUnpin i) st = unpin e i st"
| "run_store_op prev e (OpRegisterAsk i q qid a d token) st =
     snd (register_ask e i q qid a d token st)"
| "run_store_op prev e (OpResolveAsk i answer) st = snd (resolve_ask i answer st)"
| "run_store_op prev e (OpResolveEscalation i r note) st =
     snd (resolve_escalation_ask e i r note st)"
| "run_store_op prev e (OpRoutine i a) st = snd (record_routine_evaluation e i a st)"
| "run_store_op prev e (OpVerified i v) st = snd (report_verified_outcome e i v st)"
| "run_store_op prev e (OpCancelAsk i reason) st = snd (cancel_ask e i reason st)"
| "run_store_op prev e (OpExpireAsks maxAgeMs) st = snd (expire_stale_asks e maxAgeMs st)"
| "run_store_op prev e (OpCloseBegin i) st = snd (close_begin e i st)"
| "run_store_op prev e (OpCloseFound i found) st = snd (close_found i found st)"
| "run_store_op prev e (OpCloseEnd i keepFailed) st = snd (close_end e i keepFailed st)"
| "run_store_op prev e (OpCancel i reason) st = snd (cancel_session e i reason st)"
| "run_store_op prev e (OpCancelAll reason) st = snd (cancel_all e reason st)"
| "run_store_op prev e (OpSendInput i message asInterrupt token) st =
     snd (send_input_one e i message asInterrupt token st)"
| "run_store_op prev e (OpInterrupt i) st = snd (interrupt_one e i st)"
| "run_store_op prev e (OpResume i message token) st = snd (resume_one e i message token st)"
| "run_store_op prev e (OpAttachReport i report reason) st = attach_report e i report reason st"
| "run_store_op prev e (OpSettleRun i) st = settle_run e i st"
| "run_store_op prev e (OpReply i reply token) st = settle_followup_reply e i reply token st"
| "run_store_op prev e (OpFailureBegin i err token) st =
     snd (settle_followup_failure_begin e i err token st)"
| "run_store_op prev e (OpFailureEnd i err restore handoff) st =
     settle_followup_failure_end e i err restore handoff st"
| "run_store_op prev e (OpReleaseSlot j) st = release_slot e j st"
| "run_store_op prev e OpClear st = clear_store e st"
| "run_store_op prev e (OpTeardown reason) st = teardown_store e reason st"

definition store_step ::
    "(string \<Rightarrow> string \<Rightarrow> string option) \<Rightarrow> env \<Rightarrow> session_store \<Rightarrow> int \<times> store_op \<Rightarrow> session_store" where
  "store_step prev e st timed = run_store_op prev (e\<lparr>en_now := fst timed\<rparr>) (snd timed) st"

end
