(* ===== verification/SessionInvariant.thy ===== *)
theory SessionInvariant
  imports SessionStore
begin

text \<open>
  What every operation of the session store keeps: the sessions and their failure records, the
  ledgers of asks and of steers, and the cap on tombstones.
\<close>

named_theorems store_intros

section \<open>The invariant\<close>

text \<open>
  A live lane has no failure record; a failed, a cancelled and every other ended lane whose stop
  was forced has one, about the session itself.
\<close>

fun must_have_record :: "stored_session \<Rightarrow> worker_lifecycle \<Rightarrow> bool" where
  "must_have_record s (Failed _) = True"
| "must_have_record s (Cancelled _ _) = True"
| "must_have_record s PendingInit = False"
| "must_have_record s LcRunning = False"
| "must_have_record s _ = (forced_stop_class s \<noteq> None)"

definition record_ok :: "stored_session \<Rightarrow> bool" where
  "record_ok s \<longleftrightarrow>
     (if is_run_eligible (ss_lifecycle s) then ss_failure s = None
      else \<not> (must_have_record s (ss_lifecycle s) \<and> ss_failure s = None))"

definition failure_names :: "stored_session \<Rightarrow> bool" where
  "failure_names s \<longleftrightarrow> set_option (map_option fr_agent_id (ss_failure s)) \<subseteq> {ss_id s}"

definition session_ok :: "store_options \<Rightarrow> stored_session \<Rightarrow> bool" where
  "session_ok opts s \<longleftrightarrow> transcript_ok opts s \<and> failure_names s"

definition sessions_ok :: "store_options \<Rightarrow> string set \<Rightarrow> (string \<times> stored_session) list \<Rightarrow> bool" where
  "sessions_ok opts X ss \<longleftrightarrow>
     distinct (map fst ss) \<and>
     (\<forall>(i, s) \<in> set ss. ss_id s = i \<and> session_ok opts s \<and> (i \<notin> X \<longrightarrow> record_ok s))"

text \<open>Every ask registered is pending or has been settled, once.\<close>

fun registered_asks :: "ask_event list \<Rightarrow> nat multiset" where
  "registered_asks [] = {#}"
| "registered_asks (AskRegistered t # es) = add_mset t (registered_asks es)"
| "registered_asks (_ # es) = registered_asks es"

fun settled_asks :: "ask_event list \<Rightarrow> nat multiset" where
  "settled_asks [] = {#}"
| "settled_asks (AskRegistered t # es) = settled_asks es"
| "settled_asks (AskResolved t a # es) = add_mset t (settled_asks es)"
| "settled_asks (AskRejected t r # es) = add_mset t (settled_asks es)"

definition pending_tokens :: "(string \<times> pending_ask) list \<Rightarrow> nat multiset" where
  "pending_tokens asks = mset (map (pk_token \<circ> snd) asks)"

definition asks_ok :: "(string \<times> pending_ask) list \<Rightarrow> ask_event list \<Rightarrow> bool" where
  "asks_ok asks lg \<longleftrightarrow>
     distinct (map fst asks) \<and> registered_asks lg = pending_tokens asks + settled_asks lg"

text \<open>Every steer stashed is still stashed, was launched or was dropped with a reason, once.\<close>

fun stashed_steers :: "steer_event list \<Rightarrow> nat multiset" where
  "stashed_steers [] = {#}"
| "stashed_steers (SteerStashed t # es) = add_mset t (stashed_steers es)"
| "stashed_steers (_ # es) = stashed_steers es"

fun settled_steers :: "steer_event list \<Rightarrow> nat multiset" where
  "settled_steers [] = {#}"
| "settled_steers (SteerStashed t # es) = settled_steers es"
| "settled_steers (SteerLaunched t # es) = add_mset t (settled_steers es)"
| "settled_steers (SteerDropped t r # es) = add_mset t (settled_steers es)"

definition stash_tokens :: "(string \<times> stashed_followup list) list \<Rightarrow> nat multiset" where
  "stash_tokens stash = mset (concat (map (map sf_token \<circ> snd) stash))"

definition steers_ok :: "(string \<times> stashed_followup list) list \<Rightarrow> steer_event list \<Rightarrow> bool" where
  "steers_ok stash lg \<longleftrightarrow>
     distinct (map fst stash) \<and> stashed_steers lg = stash_tokens stash + settled_steers lg"

definition evicted_ok :: "(string \<times> evicted_record) list \<Rightarrow> bool" where
  "evicted_ok ev \<longleftrightarrow> length ev \<le> max_evicted_tombstones"

text \<open>The invariant, with the sessions whose record a change in progress has yet to reconcile.\<close>

definition store_ok :: "store_options \<Rightarrow> string set \<Rightarrow> session_store \<Rightarrow> bool" where
  "store_ok opts X st \<longleftrightarrow>
     sessions_ok opts X (st_sessions st) \<and> asks_ok (st_pending_asks st) (st_ask_log st) \<and>
     steers_ok (st_stash st) (st_steer_log st) \<and> evicted_ok (st_evicted st)"

lemma store_ok_frame [simp]:
  "store_ok opts X (st\<lparr>st_pin_counts := pc\<rparr>) = store_ok opts X st"
  "store_ok opts X (st\<lparr>st_run_in_flight := rf\<rparr>) = store_ok opts X st"
  "store_ok opts X (st\<lparr>st_cancel_handles := hc\<rparr>) = store_ok opts X st"
  "store_ok opts X (st\<lparr>st_close_handles := hk\<rparr>) = store_ok opts X st"
  "store_ok opts X (st\<lparr>st_interrupt_handles := hi\<rparr>) = store_ok opts X st"
  "store_ok opts X (st\<lparr>st_followup_handles := hf\<rparr>) = store_ok opts X st"
  "store_ok opts X (st\<lparr>st_deliver_handles := hd'\<rparr>) = store_ok opts X st"
  "store_ok opts X (st\<lparr>st_handoff_traces := ht\<rparr>) = store_ok opts X st"
  "store_ok opts X (st\<lparr>st_terminal_handoffs := th\<rparr>) = store_ok opts X st"
  "store_ok opts X (st\<lparr>st_release_faults := rl\<rparr>) = store_ok opts X st"
  "store_ok opts X (st\<lparr>st_pending_failures := pf\<rparr>) = store_ok opts X st"
  "store_ok opts X (st\<lparr>st_followup_turns := ft\<rparr>) = store_ok opts X st"
  "store_ok opts X (st\<lparr>st_admission := ad\<rparr>) = store_ok opts X st"
  "store_ok opts X (st\<lparr>st_queued_followups := qf\<rparr>) = store_ok opts X st"
  "store_ok opts X (st\<lparr>st_calls := cl\<rparr>) = store_ok opts X st"
  by (simp_all add: store_ok_def)

lemma store_ok_log_call [simp]: "store_ok opts X (log_call c st) = store_ok opts X st"
  by (simp add: log_call_def)

lemma store_ok_drop_terminal_traces [simp]:
  "store_ok opts X (drop_terminal_traces i st) = store_ok opts X st"
  by (simp add: drop_terminal_traces_def)

lemma store_ok_reset_turn_trace [simp]: "store_ok opts X (reset_turn_trace i st) = store_ok opts X st"
  by (simp add: reset_turn_trace_def)

lemma store_ok_clear_turn_traces [simp]: "store_ok opts X (clear_turn_traces st) = store_ok opts X st"
  by (simp add: clear_turn_traces_def)

lemma store_ok_clear_in_flight [simp]: "store_ok opts X (clear_in_flight i st) = store_ok opts X st"
  by (simp add: clear_in_flight_def)

lemma store_ok_drop_handles [simp]: "store_ok opts X (drop_handles i st) = store_ok opts X st"
  by (simp add: drop_handles_def)

lemma store_ok_detach_close [simp]: "store_ok opts X (detach_close i st) = store_ok opts X st"
  by (simp add: detach_close_def split: option.split)

lemma store_ok_enforce [simp]:
  "store_ok opts X (enforce_settled_run_invariant i st) = store_ok opts X st"
  by (simp add: enforce_settled_run_invariant_def split: option.split)

lemma store_ok_mono: "store_ok opts X st \<Longrightarrow> X \<subseteq> Y \<Longrightarrow> store_ok opts Y st"
  by (auto simp: store_ok_def sessions_ok_def)

section \<open>Sessions\<close>

lemma lookup_update: "map_of (AList.update k v m) j = (if j = k then Some v else map_of m j)"
  by (simp add: update_conv')

lemma session_of_put [simp]: "session_of (put_session i s st) j = (if j = i then Some s else session_of st j)"
  by (simp add: session_of_def put_session_def lookup_update)

lemma session_of_modify [simp]:
  "session_of (modify_session i f st) j =
     (if j = i then map_option f (session_of st i) else session_of st j)"
  by (simp add: modify_session_def split: option.split)

lemma set_alist_update:
  "distinct (map fst m) \<Longrightarrow>
     set (AList.update k v m) = insert (k, v) {p \<in> set m. fst p \<noteq> k}"
  by (induction m) (auto intro: rev_image_eqI)

lemma store_ok_session:
  "store_ok opts X st \<Longrightarrow> session_of st i = Some s \<Longrightarrow>
     ss_id s = i \<and> session_ok opts s \<and> (i \<notin> X \<longrightarrow> record_ok s)"
  by (auto simp: store_ok_def sessions_ok_def session_of_def dest!: map_of_SomeD)

lemma store_ok_put:
  "store_ok opts X st \<Longrightarrow> ss_id s = i \<Longrightarrow> session_ok opts s \<Longrightarrow> (i \<in> Y \<or> record_ok s) \<Longrightarrow>
     X \<subseteq> insert i Y \<Longrightarrow> store_ok opts Y (put_session i s st)"
  by (auto simp: store_ok_def put_session_def sessions_ok_def distinct_update set_alist_update)

text \<open>A change to a session that the invariant of sessions allows.\<close>

definition good_update :: "store_options \<Rightarrow> (stored_session \<Rightarrow> stored_session) \<Rightarrow> bool" where
  "good_update opts f \<longleftrightarrow>
     (\<forall>s. session_ok opts s \<longrightarrow> ss_id (f s) = ss_id s \<and> session_ok opts (f s))"

lemma good_updateD:
  "good_update opts f \<Longrightarrow> session_ok opts s \<Longrightarrow> ss_id (f s) = ss_id s \<and> session_ok opts (f s)"
  by (simp add: good_update_def)

lemma store_ok_modify:
  assumes "store_ok opts X st" "good_update opts f"
  shows "store_ok opts (insert i X) (modify_session i f st)"
proof (cases "session_of st i")
  case None
  then show ?thesis using assms(1) by (auto simp: modify_session_def intro: store_ok_mono)
next
  case (Some s)
  then show ?thesis
    using store_ok_session [OF assms(1) Some] good_updateD [OF assms(2)]
    by (auto simp: modify_session_def intro!: store_ok_put [OF assms(1)])
qed

lemma must_have_touch [simp]:
  "must_have_record (s\<lparr>ss_last_activity_at := t\<rparr>) lc = must_have_record s lc"
  by (cases lc) (simp_all add: forced_stop_class_def)

lemma record_ok_touch [simp]: "record_ok (s\<lparr>ss_last_activity_at := t\<rparr>) = record_ok s"
  unfolding record_ok_def by simp

lemma session_ok_touch [simp]: "session_ok opts (s\<lparr>ss_last_activity_at := t\<rparr>) = session_ok opts s"
  by (simp add: session_ok_def transcript_ok_def tools_ok_def failure_names_def)

lemma store_ok_touch:
  assumes ok: "store_ok opts X st"
  shows "store_ok opts X (modify_session i (\<lambda>s. s\<lparr>ss_last_activity_at := t\<rparr>) st)"
proof (cases "session_of st i")
  case None
  then show ?thesis using ok by (simp add: modify_session_def)
next
  case (Some s)
  then show ?thesis
    using store_ok_session [OF ok Some]
    by (auto simp: modify_session_def intro!: store_ok_put [OF ok])
qed

lemma forced_stop_failure [simp]: "forced_stop_class (s\<lparr>ss_failure := fr\<rparr>) = forced_stop_class s"
  by (simp add: forced_stop_class_def)

lemma must_have_failure [simp]: "must_have_record (s\<lparr>ss_failure := fr\<rparr>) lc = must_have_record s lc"
  by (cases lc) simp_all

lemma must_have_class:
  "terminal_failure_class st s = None \<Longrightarrow> \<not> is_run_eligible (ss_lifecycle s) \<Longrightarrow>
     \<not> must_have_record s (ss_lifecycle s)"
  by (cases "ss_lifecycle s") (auto simp: terminal_failure_class_def split: option.splits)

lemma session_ok_failure:
  "session_ok opts s \<Longrightarrow> fr = None \<or> (\<exists>r. fr = Some r \<and> fr_agent_id r = ss_id s) \<Longrightarrow>
     session_ok opts (s\<lparr>ss_failure := fr\<rparr>)"
  by (auto simp: session_ok_def transcript_ok_def tools_ok_def failure_names_def)

lemma reconcile_ok:
  assumes "reconcile_terminal_record e s st = (s', st')" "session_ok opts s"
  shows "record_ok s' \<and> session_ok opts s' \<and> ss_id s' = ss_id s \<and>
     (st' = st \<or> st' = drop_terminal_traces (ss_id s) st)"
proof (cases "is_run_eligible (ss_lifecycle s) \<or> ss_failure s \<noteq> None")
  case True
  then show ?thesis
    using assms
    by (auto simp: reconcile_terminal_record_def record_ok_def session_ok_failure split: if_splits)
next
  case False
  show ?thesis
  proof (cases "terminal_failure_class st s")
    case None
    then show ?thesis
      using False assms must_have_class [OF None]
      by (auto simp: reconcile_terminal_record_def record_ok_def)
  next
    case (Some cls)
    then show ?thesis
      using False assms
      by (auto simp: reconcile_terminal_record_def record_ok_def failure_record_of_def Let_def
          intro!: session_ok_failure)
  qed
qed

lemma reconcile_frame:
  "snd (reconcile_terminal_record e s st) = st \<or>
   snd (reconcile_terminal_record e s st) = drop_terminal_traces (ss_id s) st"
  by (simp add: reconcile_terminal_record_def)

lemma store_ok_reconcile_snd [simp]:
  "store_ok opts X (snd (reconcile_terminal_record e s st)) = store_ok opts X st"
  using reconcile_frame [of e s st] by auto

lemma store_ok_absent:
  assumes "store_ok opts (insert i X) st" "session_of st i = None"
  shows "store_ok opts X st"
proof -
  have "i \<notin> fst ` set (st_sessions st)"
    using assms(2) by (simp add: session_of_def map_of_eq_None_iff)
  then have "j \<noteq> i" if "(j, s) \<in> set (st_sessions st)" for j s
    using that by (auto simp: rev_image_eqI)
  then show ?thesis
    using assms(1) unfolding store_ok_def sessions_ok_def by fastforce
qed

text \<open>A change made through \<open>mutate\<close> reconciles the record of its session.\<close>

lemma store_ok_mutate_then:
  assumes ok: "store_ok opts (insert i X) st"
    and fn: "\<And>st. store_ok opts (insert i X) st \<Longrightarrow> store_ok opts (insert i X) (fn st)"
    and post: "\<And>st. store_ok opts (insert i X) st \<Longrightarrow> store_ok opts (insert i X) (post st)"
  shows "store_ok opts X (mutate_then e i fn post st)"
proof (cases "session_of st i")
  case None
  then show ?thesis using ok by (simp add: mutate_then_def store_ok_absent)
next
  case (Some s0)
  let ?st2 = "post (fn st)"
  have ok2: "store_ok opts (insert i X) ?st2" using ok fn post by blast
  show ?thesis
  proof (cases "session_of ?st2 i")
    case None
    then have "store_ok opts X ?st2" using ok2 by (rule store_ok_absent [rotated])
    then show ?thesis using Some None by (simp add: mutate_then_def Let_def split: option.split)
  next
    case s: (Some s)
    obtain s' st3 where rec: "reconcile_terminal_record e s ?st2 = (s', st3)" by fastforce
    have "session_ok opts s" "ss_id s = i" using store_ok_session [OF ok2 s] by simp_all
    then have s': "record_ok s'" "session_ok opts s'" "ss_id s' = i"
      using reconcile_ok [OF rec] by simp_all
    have "store_ok opts (insert i X) st3" using ok2 store_ok_reconcile_snd [of opts _ e s ?st2] rec by simp
    then have "store_ok opts X (put_session i s' st3)"
      using s' by (auto intro: store_ok_put)
    then show ?thesis using Some s rec by (simp add: mutate_then_def Let_def store_ok_touch)
  qed
qed

lemma store_ok_mutate:
  assumes "store_ok opts (insert i X) st"
    and "\<And>st. store_ok opts (insert i X) st \<Longrightarrow> store_ok opts (insert i X) (fn st)"
  shows "store_ok opts X (mutate e i fn st)"
  using assms by (auto simp: mutate_def intro: store_ok_mutate_then)

lemma store_ok_mutate_session:
  assumes "store_ok opts (insert i X) st" "good_update opts f"
  shows "store_ok opts X (mutate_session e i f st)"
  using assms store_ok_modify [of opts "insert i X" _ f i]
  by (auto simp: mutate_session_def intro!: store_ok_mutate)

lemma store_ok_mutate_session_same:
  assumes "store_ok opts X st" "good_update opts f"
  shows "store_ok opts X (mutate_session e i f st)"
  using assms by (auto intro!: store_ok_mutate_session intro: store_ok_mono)

subsection \<open>The changes the operations make\<close>

lemma session_ok_frame [simp]:
  "session_ok opts (s\<lparr>ss_lifecycle := lc\<rparr>) = session_ok opts s"
  "session_ok opts (s\<lparr>ss_retained := rt\<rparr>) = session_ok opts s"
  "session_ok opts (s\<lparr>ss_finished_at := fa\<rparr>) = session_ok opts s"
  "session_ok opts (s\<lparr>ss_error := er\<rparr>) = session_ok opts s"
  "session_ok opts (s\<lparr>ss_report := rp\<rparr>) = session_ok opts s"
  "session_ok opts (s\<lparr>ss_stop_reason := sr\<rparr>) = session_ok opts s"
  "session_ok opts (s\<lparr>ss_terminal_outcome := oc\<rparr>) = session_ok opts s"
  "session_ok opts (s\<lparr>ss_routine_evaluations := re\<rparr>) = session_ok opts s"
  by (simp_all add: session_ok_def transcript_ok_def tools_ok_def failure_names_def)

lemma session_ok_no_failure [simp]: "session_ok opts s \<Longrightarrow> session_ok opts (s\<lparr>ss_failure := None\<rparr>)"
  by (simp add: session_ok_failure)

lemma push_report_frame [simp]:
  "ss_id (push_report opts txt s) = ss_id s"
  "ss_failure (push_report opts txt s) = ss_failure s"
  "ss_lifecycle (push_report opts txt s) = ss_lifecycle s"
  "ss_stop_reason (push_report opts txt s) = ss_stop_reason s"
  "ss_report (push_report opts txt s) = ss_report s"
  "ss_retained (push_report opts txt s) = ss_retained s"
  by (simp_all add: push_report_def push_entry_def Let_def)

lemma clear_tool_calls_frame [simp]:
  "ss_id (clear_tool_calls s) = ss_id s"
  "ss_failure (clear_tool_calls s) = ss_failure s"
  "ss_entries (clear_tool_calls s) = ss_entries s"
  "ss_lifecycle (clear_tool_calls s) = ss_lifecycle s"
  "ss_stop_reason (clear_tool_calls s) = ss_stop_reason s"
  "ss_report (clear_tool_calls s) = ss_report s"
  "ss_retained (clear_tool_calls s) = ss_retained s"
  by (simp_all add: clear_tool_calls_def sync_current_tool_def Let_def)

lemma session_ok_push_report [simp]: "session_ok opts s \<Longrightarrow> session_ok opts (push_report opts txt s)"
  by (simp add: session_ok_def transcript_ok_def failure_names_def)
    (simp add: push_report_def entries_ok_push)

lemma session_ok_clear [simp]: "session_ok opts s \<Longrightarrow> session_ok opts (clear_tool_calls s)"
  by (simp add: session_ok_def transcript_ok_def failure_names_def tools_ok_clear)

lemma finish_now_ok [simp]:
  "session_ok opts (finish_now e s) = session_ok opts s"
  "ss_id (finish_now e s) = ss_id s"
  "ss_report (finish_now e s) = ss_report s"
  "ss_lifecycle (finish_now e s) = ss_lifecycle s"
  "ss_stop_reason (finish_now e s) = ss_stop_reason s"
  "ss_retained (finish_now e s) = ss_retained s"
  by (simp_all add: finish_now_def)

lemma good_push_report [store_intros]:
  "en_options e = opts \<Longrightarrow> good_update opts (push_report (en_options e) txt)"
  by (simp add: good_update_def)

lemma good_lifecycle [store_intros]:
  "good_update opts (\<lambda>s. s\<lparr>ss_lifecycle := LcRunning, ss_finished_at := None, ss_stop_reason := None\<rparr>)"
  "good_update opts (\<lambda>s. s\<lparr>ss_lifecycle := PendingInit, ss_finished_at := None\<rparr>)"
  "good_update opts (\<lambda>s. s\<lparr>ss_stop_reason := Some txt\<rparr>)"
  "good_update opts (\<lambda>s. s\<lparr>ss_terminal_outcome := Some oc\<rparr>)"
  "good_update opts (\<lambda>s. s\<lparr>ss_lifecycle := Shutdown (ss_report s) (ss_error s), ss_retained := Some False\<rparr>)"
  "good_update opts (\<lambda>s. if ss_lifecycle s = PendingInit then s\<lparr>ss_lifecycle := LcRunning\<rparr> else s)"
  by (simp_all add: good_update_def)

lemma good_restore_lane [store_intros]: "good_update opts (restore_lane e restore)"
  by (simp add: good_update_def restore_lane_def Let_def)

lemma good_mark_failed:
  "en_options e = opts \<Longrightarrow> good_update opts (mark_failed e err)"
  by (simp add: good_update_def mark_failed_def)

lemma good_fail [store_intros]:
  "en_options e = opts \<Longrightarrow> good_update opts (\<lambda>s. mark_failed e err (s\<lparr>ss_retained := Some False\<rparr>))"
  "en_options e = opts \<Longrightarrow>
     good_update opts (\<lambda>s. if \<not> may_fail s then s
       else (mark_failed e err (s\<lparr>ss_failure := None\<rparr>))\<lparr>ss_stop_reason := Some txt\<rparr>)"
  by (simp_all add: good_update_def mark_failed_def)

lemma good_record_reply [store_intros]:
  "en_options e = opts \<Longrightarrow> good_update opts (record_reply e reply)"
  "en_options e = opts \<Longrightarrow> good_update opts
     (\<lambda>s. (record_reply e reply (s\<lparr>ss_lifecycle := lc, ss_finished_at := fa\<rparr>))\<lparr>ss_stop_reason := sr\<rparr>)"
  by (simp_all add: good_update_def record_reply_def)

lemma good_complete [store_intros]:
  "en_options e = opts \<Longrightarrow> good_update opts (complete_update e report retained reason)"
  by (simp add: good_update_def complete_update_def Let_def split: option.split)

lemma good_cancelled [store_intros]:
  "en_options e = opts \<Longrightarrow> good_update opts
     (\<lambda>s. push_report (en_options e) txt
        ((clear_tool_calls
            (s\<lparr>ss_lifecycle := lc, ss_retained := rt, ss_finished_at := fa, ss_last_activity_at := la\<rparr>))
         \<lparr>ss_error := er, ss_stop_reason := sr\<rparr>))"
  by (simp add: good_update_def)

lemma good_mark_interrupted [store_intros]: "good_update opts (mark_interrupted e)"
  by (simp add: good_update_def mark_interrupted_def)

lemma good_attach_update [store_intros]:
  "en_options e = opts \<Longrightarrow> good_update opts (attach_update e report reason handsOff)"
  by (simp add: good_update_def attach_update_def attach_salvage_def Let_def)

lemma good_close [store_intros]:
  "good_update opts (close_unstarted e)"
  "good_update opts (shut_down e)"
  by (simp_all add: good_update_def close_unstarted_def shut_down_def Let_def)

lemma good_routine [store_intros]:
  "good_update opts (\<lambda>s. let es = ss_routine_evaluations s @ [a]
      in s\<lparr>ss_routine_evaluations := drop (length es - n) es\<rparr>)"
  by (simp add: good_update_def Let_def)

lemma session_ok_recovery:
  "session_ok opts s \<Longrightarrow> ss_failure s = Some r \<Longrightarrow>
     session_ok opts (s\<lparr>ss_failure := Some (with_recovery_replacement r x)\<rparr>) \<and>
     session_ok opts (s\<lparr>ss_failure := Some (without_recovery_replacement r)\<rparr>)"
  by (auto simp: session_ok_def failure_names_def transcript_ok_def tools_ok_def
      with_recovery_replacement_def without_recovery_replacement_def)

lemma good_link [store_intros]:
  "good_update opts (\<lambda>s. case ss_failure s of None \<Rightarrow> s | Some r \<Rightarrow>
      if rc_replacement_id (fr_recovery r) \<noteq> None then s
      else s\<lparr>ss_failure := Some (with_recovery_replacement r x)\<rparr>)"
  "good_update opts (\<lambda>s. case ss_failure s of None \<Rightarrow> s | Some r \<Rightarrow>
      if rc_replacement_id (fr_recovery r) \<noteq> Some x then s
      else s\<lparr>ss_failure := Some (without_recovery_replacement r)\<rparr>)"
  by (auto simp: good_update_def session_ok_recovery split: option.split)

section \<open>Asks and steers\<close>

lemma delete_absent: "map_of m k = None \<Longrightarrow> AList.delete k m = m"
  by (induction m) (auto simp: AList.delete_eq split: if_splits)

lemma delete_mset:
  "distinct (map fst m) \<Longrightarrow> map_of m k = Some v \<Longrightarrow> mset m = add_mset (k, v) (mset (AList.delete k m))"
proof (induction m)
  case Nil
  then show ?case by simp
next
  case (Cons p m)
  show ?case
  proof (cases "fst p = k")
    case True
    then have "AList.delete k m = m"
      using True Cons.prems(1) by (intro delete_absent) (auto simp: map_of_eq_None_iff)
    then show ?thesis using True Cons.prems by (cases p) (auto simp: AList.delete_eq)
  next
    case False
    then show ?thesis using Cons by (cases p) (auto simp: AList.delete_eq)
  qed
qed

lemma update_mset_new:
  "map_of m k = None \<Longrightarrow> mset (AList.update k v m) = add_mset (k, v) (mset m)"
  by (induction m) (auto split: if_splits)

lemma update_mset_old:
  "distinct (map fst m) \<Longrightarrow> map_of m k = Some v \<Longrightarrow>
     mset (AList.update k w m) = add_mset (k, w) (mset (AList.delete k m))"
proof (induction m)
  case Nil
  then show ?case by simp
next
  case (Cons p m)
  show ?case
  proof (cases "fst p = k")
    case True
    then have "AList.delete k m = m"
      using True Cons.prems(1) by (intro delete_absent) (auto simp: map_of_eq_None_iff)
    then show ?thesis using True by (cases p) (auto simp: AList.delete_eq)
  next
    case False
    then show ?thesis using Cons by (cases p) (auto simp: AList.delete_eq)
  qed
qed

lemma registered_append: "registered_asks (xs @ ys) = registered_asks xs + registered_asks ys"
  by (induction xs rule: registered_asks.induct) auto

lemma settled_append: "settled_asks (xs @ ys) = settled_asks xs + settled_asks ys"
  by (induction xs rule: settled_asks.induct) auto

lemma stashed_append: "stashed_steers (xs @ ys) = stashed_steers xs + stashed_steers ys"
  by (induction xs rule: stashed_steers.induct) auto

lemma settled_steers_append: "settled_steers (xs @ ys) = settled_steers xs + settled_steers ys"
  by (induction xs rule: settled_steers.induct) auto

lemmas ledger_append = registered_append settled_append stashed_append settled_steers_append

lemma pending_tokens_mset: "pending_tokens asks = image_mset (pk_token \<circ> snd) (mset asks)"
  by (simp add: pending_tokens_def)

lemma stash_tokens_mset:
  "stash_tokens stash = sum_mset (image_mset (\<lambda>p. mset (map sf_token (snd p))) (mset stash))"
  unfolding stash_tokens_def by (induction stash) (simp_all add: comp_def)

lemma distinct_delete: "distinct (map fst m) \<Longrightarrow> distinct (map fst (AList.delete k m))"
  by (simp add: AList.distinct_delete)

text \<open>Taking an ask out and settling it keeps the ledger.\<close>

lemma asks_ok_settle:
  assumes "asks_ok asks lg" "map_of asks i = Some ask"
    "ev = AskResolved (pk_token ask) txt \<or> ev = AskRejected (pk_token ask) txt"
  shows "asks_ok (AList.delete i asks) (lg @ [ev])"
  using assms delete_mset [of asks i ask]
  by (auto simp: asks_ok_def ledger_append pending_tokens_mset distinct_delete)

lemma asks_ok_register:
  assumes "asks_ok asks lg" "map_of asks i = None" "pk_token ask = token"
  shows "asks_ok (AList.update i ask asks) (lg @ [AskRegistered token])"
  using assms update_mset_new [of asks i ask]
  by (auto simp: asks_ok_def ledger_append pending_tokens_mset distinct_update)

lemma settled_dropped:
  "settled_steers (map (\<lambda>sf. SteerDropped (sf_token sf) (g sf)) q) = mset (map sf_token q)"
  "stashed_steers (map (\<lambda>sf. SteerDropped (sf_token sf) (g sf)) q) = {#}"
  by (induction q) auto

lemma steers_ok_drop:
  assumes "steers_ok stash lg" "map_of stash i = Some q"
  shows "steers_ok (AList.delete i stash)
    (lg @ map (\<lambda>sf. SteerDropped (sf_token sf) (g sf)) q)"
  using assms delete_mset [of stash i q]
  by (auto simp: steers_ok_def ledger_append stash_tokens_mset distinct_delete settled_dropped)

lemma steers_ok_stash:
  assumes "steers_ok stash lg"
    "q = (case map_of stash i of None \<Rightarrow> [] | Some q \<Rightarrow> q)"
  shows "steers_ok (AList.update i (q @ [sf]) stash) (lg @ [SteerStashed (sf_token sf)])"
proof (cases "map_of stash i")
  case None
  then show ?thesis
    using assms update_mset_new [OF None, of "[sf]"]
    by (auto simp: steers_ok_def ledger_append stash_tokens_mset distinct_update)
next
  case (Some q')
  then show ?thesis
    using assms delete_mset [of stash i q'] update_mset_old [of stash i q' "q' @ [sf]"]
    by (auto simp: steers_ok_def ledger_append stash_tokens_mset distinct_update)
qed

lemma steers_ok_launch:
  assumes "steers_ok stash lg" "map_of stash i = Some (nxt # rest)"
  shows "steers_ok (if rest = [] then AList.delete i stash else AList.update i rest stash)
    (lg @ [SteerLaunched (sf_token nxt)])"
  using assms delete_mset [of stash i "nxt # rest"] update_mset_old [of stash i "nxt # rest" rest]
  by (auto simp: steers_ok_def ledger_append stash_tokens_mset distinct_update distinct_delete)

lemma stash_restore:
  assumes "distinct (map fst stash)" "map_of stash i = Some q"
  shows "mset (AList.update i q (AList.delete i stash)) = mset stash"
    "mset (AList.update i q (AList.update i rest stash)) = mset stash"
proof -
  have "map_of (AList.delete i stash) i = None" by (simp add: delete_conv')
  from update_mset_new [OF this, of q]
  show "mset (AList.update i q (AList.delete i stash)) = mset stash"
    using delete_mset [OF assms] by simp
  have "map_of (AList.update i rest stash) i = Some rest" by (simp add: lookup_update)
  from update_mset_old [OF distinct_update [OF assms(1)] this, of q]
  show "mset (AList.update i q (AList.update i rest stash)) = mset stash"
    using delete_mset [OF assms] delete_mset [OF distinct_update [OF assms(1)] \<open>map_of (AList.update i rest stash) i = Some rest\<close>]
      update_mset_old [OF assms, of rest] by simp
qed

section \<open>Operations\<close>

lemma store_ok_asks:
  "store_ok opts X st \<Longrightarrow> asks_ok asks (lg) \<Longrightarrow>
     store_ok opts X (st\<lparr>st_pending_asks := asks, st_ask_log := lg\<rparr>)"
  by (simp add: store_ok_def)

lemma store_ok_cancel_ask [store_intros]:
  assumes ok: "store_ok opts X st"
  shows "store_ok opts X (snd (cancel_ask_internal e i reason keep st))"
proof (cases "map_of (st_pending_asks st) i")
  case None
  then show ?thesis using ok by (simp add: cancel_ask_internal_def)
next
  case (Some ask)
  have "asks_ok (AList.delete i (st_pending_asks st)) (st_ask_log st @ [AskRejected (pk_token ask) reason])"
    using ok Some by (intro asks_ok_settle) (auto simp: store_ok_def)
  then show ?thesis
    using ok Some by (simp add: cancel_ask_internal_def Let_def log_call_def store_ok_def)
qed

lemma store_ok_fold:
  "store_ok opts X st \<Longrightarrow> (\<And>x st. store_ok opts X st \<Longrightarrow> store_ok opts X (f x st)) \<Longrightarrow>
     store_ok opts X (fold f xs st)"
  by (induction xs arbitrary: st) auto

lemma store_ok_settle_cancels_asks [store_intros]:
  assumes ok: "store_ok opts X st"
  shows "store_ok opts X (settle_cancels_asks e i reason st)"
proof -
  have desc: "store_ok opts X (cancel_descendant_asks e i reason st')" if "store_ok opts X st'" for st'
    unfolding cancel_descendant_asks_def
    by (rule store_ok_fold [OF that]) (simp add: store_ok_cancel_ask)
  show ?thesis
    unfolding settle_cancels_asks_def Let_def
    by (intro desc store_ok_cancel_ask) (simp add: ok)
qed

lemma store_ok_drop_stashed [store_intros]:
  assumes ok: "store_ok opts X st" and opts: "en_options e = opts"
  shows "store_ok opts X (drop_stashed_followups e i reason st)"
proof (cases "map_of (st_stash st) i")
  case None
  then show ?thesis
    using ok by (simp add: drop_stashed_followups_def Let_def delete_absent store_ok_def)
next
  case (Some q)
  let ?st = "st\<lparr>st_stash := AList.delete i (st_stash st),
      st_steer_log := st_steer_log st @ map (\<lambda>sf. SteerDropped (sf_token sf) (drop_error sf reason)) q\<rparr>"
  have "steers_ok (AList.delete i (st_stash st))
      (st_steer_log st @ map (\<lambda>sf. SteerDropped (sf_token sf) (drop_error sf reason)) q)"
    using ok Some by (intro steers_ok_drop) (auto simp: store_ok_def)
  then have st: "store_ok opts X ?st" using ok by (simp add: store_ok_def)
  show ?thesis
  proof (cases "q = []")
    case True
    then show ?thesis using st Some by (simp add: drop_stashed_followups_def Let_def store_ok_def)
  next
    case False
    have "store_ok opts X (mutate_session e i (push_report (en_options e) (drop_notice q reason)) ?st)"
      using st opts by (intro store_ok_mutate_session_same good_push_report) simp_all
    then show ?thesis using Some False by (simp add: drop_stashed_followups_def Let_def)
  qed
qed

lemma store_ok_release_handles [store_intros]:
  "store_ok opts X st \<Longrightarrow> en_options e = opts \<Longrightarrow> store_ok opts X (release_handles e i st)"
  unfolding release_handles_def by (intro store_intros) (simp_all add: store_intros)

lemma store_ok_remove [store_intros]:
  assumes "store_ok opts X st"
  shows "store_ok opts X (remove_session i st)"
proof -
  have "set (AList.delete i (st_sessions st)) \<subseteq> set (st_sessions st)"
    by (auto simp: AList.delete_eq)
  then show ?thesis
    using assms by (auto simp: store_ok_def remove_session_def sessions_ok_def distinct_delete)
qed

lemma store_ok_prune_completed [store_intros]:
  assumes "store_ok opts X st" "en_options e = opts"
  shows "store_ok opts X (prune_completed e st)"
  unfolding prune_completed_def drop_session_def
  using assms by (intro store_ok_fold) (auto intro!: store_intros)

lemma store_ok_record_eviction [store_intros]:
  assumes "store_ok opts X st"
  shows "store_ok opts X (record_eviction s st)"
proof -
  let ?r = "\<lparr>er_lifecycle_status = project_lifecycle_status (ss_lifecycle s),
     er_hint = evicted_retention_hint\<rparr>"
  have "length (AList.update k v m) \<le> Suc (length m)" for k :: string and v :: evicted_record and m
    by (induction m) auto
  then have "length (AList.update (ss_id s) ?r (st_evicted st)) \<le> Suc max_evicted_tombstones"
    using assms by (meson evicted_ok_def le_trans not_less_eq_eq store_ok_def)
  then show ?thesis
    using assms by (auto simp: record_eviction_def Let_def store_ok_def evicted_ok_def log_call_def)
qed

lemma store_ok_prune_retained [store_intros]:
  assumes "store_ok opts X st" "en_options e = opts"
  shows "store_ok opts X (prune_retained e st)"
  unfolding prune_retained_def evict_session_def
  using assms by (intro store_ok_fold) (auto intro!: store_intros)

text \<open>A handle called may change the store, in ways that keep the invariant.\<close>

definition reacts_ok :: "store_options \<Rightarrow> env \<Rightarrow> bool" where
  "reacts_ok opts e \<longleftrightarrow>
     en_options e = opts \<and> (\<forall>h st. store_ok opts {} st \<longrightarrow> store_ok opts {} (en_react e h st))"

lemma reacts_options: "reacts_ok opts e \<Longrightarrow> en_options e = opts"
  by (simp add: reacts_ok_def)

lemma store_ok_react [store_intros]:
  "store_ok opts {} st \<Longrightarrow> reacts_ok opts e \<Longrightarrow> store_ok opts {} (en_react e h st)"
  by (simp add: reacts_ok_def)

lemma store_ok_invoke_cancel [store_intros]:
  "store_ok opts {} st \<Longrightarrow> reacts_ok opts e \<Longrightarrow> store_ok opts {} (invoke_cancel e i abort st)"
  by (simp add: invoke_cancel_def store_ok_react split: option.split cancel_handle.split)

lemma store_ok_mark_cancelled:
  assumes ok: "store_ok opts {} st" and opts: "en_options e = opts"
  shows "store_ok opts {} (mark_cancelled e i reason st)"
proof -
  let ?f = "\<lambda>s. push_report (en_options e) (''Cancelled: '' @ reason)
     ((clear_tool_calls
         (s\<lparr>ss_lifecycle := Cancelled None (Some reason), ss_retained := Some False,
            ss_finished_at := Some (en_now e), ss_last_activity_at := en_now e\<rparr>))
      \<lparr>ss_error := Some reason,
       ss_stop_reason := Some
         (if reason = default_cancel_reason then ''cancelled''
          else ''cancelled '' @ em_dash @ '' '' @ reason)\<rparr>)"
  let ?st2 = "(modify_session i ?f st)\<lparr>st_cancel_handles :=
      AList.delete i (st_cancel_handles (modify_session i ?f st))\<rparr>"
  have "store_ok opts {i} (modify_session i ?f st)"
    by (rule store_ok_modify [OF ok good_cancelled [OF opts]])
  then have ok2: "store_ok opts {i} ?st2" by (simp only: store_ok_frame)
  show ?thesis
  proof (cases "session_of ?st2 i")
    case None
    then show ?thesis
      using store_ok_absent [of opts i "{}" ?st2] ok2 by (simp add: mark_cancelled_def Let_def)
  next
    case (Some s)
    obtain s' st3 where rec: "reconcile_terminal_record e s ?st2 = (s', st3)" by fastforce
    have "session_ok opts s" "ss_id s = i" using store_ok_session [OF ok2 Some] by simp_all
    then have s': "record_ok s'" "session_ok opts s'" "ss_id s' = i"
      using reconcile_ok [OF rec] by simp_all
    have "store_ok opts {i} (snd (reconcile_terminal_record e s ?st2))"
      using ok2 by (simp only: store_ok_reconcile_snd)
    then have "store_ok opts {i} st3" by (simp only: rec snd_conv)
    then have "store_ok opts {} (put_session i s' st3)" using s' by (auto intro: store_ok_put)
    then have "store_ok opts {} (prune_completed e (put_session i s' st3))"
      using opts by (intro store_intros)
    moreover have "mark_cancelled e i reason st = prune_completed e (put_session i s' st3)"
      using Some rec by (simp add: mark_cancelled_def Let_def)
    ultimately show ?thesis by simp
  qed
qed

lemma store_ok_cancel_session [store_intros]:
  assumes ok: "store_ok opts {} st" and r: "reacts_ok opts e"
  shows "store_ok opts {} (snd (cancel_session e i reason st))"
proof -
  let ?st1 = "drop_stashed_followups e i ''session cancelled'' (settle_cancels_asks e i reason st)"
  have st1: "store_ok opts {} ?st1"
    using ok reacts_options [OF r] by (intro store_intros)
  then have "store_ok opts {} (invoke_cancel e i h (mark_cancelled e i reason ?st1))" for h
    using r by (intro store_ok_invoke_cancel store_ok_mark_cancelled) (simp_all add: reacts_options)
  then show ?thesis using st1 by (simp add: cancel_session_def Let_def split: option.split)
qed

lemma store_ok_start [store_intros]:
  assumes ok: "store_ok opts {} st" and opts: "en_options e = opts"
  shows "store_ok opts {} (snd (start_session e fresh input st))"
proof -
  let ?i = "case si_id input of Some x \<Rightarrow> if x \<noteq> [] then x else fresh | None \<Rightarrow> fresh"
  let ?s = "new_session ?i input (en_now e)"
  have s: "ss_id ?s = ?i" "session_ok opts ?s" "record_ok ?s"
    by (simp_all add: session_ok_def new_session_ok)
      (simp_all add: new_session_def failure_names_def record_ok_def)
  have "store_ok opts {} (put_session ?i ?s st')" if "store_ok opts {} st'" for st'
    using that s by (auto intro: store_ok_put)
  moreover have "store_ok opts {} (drop_stashed_followups e ?i ''session replaced''
      (drop_handles ?i ((snd (cancel_ask_internal e ?i ''session replaced'' False st))
        \<lparr>st_close_handles := ch\<rparr>)))" for ch
    using ok opts by (intro store_ok_drop_stashed) (simp_all add: store_ok_cancel_ask)
  ultimately show ?thesis by (simp add: start_session_def Let_def)
qed

lemma append_event_frame:
  "ss_id (fst (append_event prev opts t ev st)) = ss_id (fst st)"
  "ss_failure (fst (append_event prev opts t ev st)) = ss_failure (fst st)"
proof -
  have id: "ss_id (sync_current_tool s) = ss_id s" "ss_failure (sync_current_tool s) = ss_failure s" for s
    by (simp_all add: sync_current_tool_def Let_def)
  have b: "ss_id (begin_tool_call prev c n t r a s) = ss_id s"
    "ss_failure (begin_tool_call prev c n t r a s) = ss_failure s" for c n r a s
    by (simp_all add: begin_tool_call_def Let_def id)
  have r: "ss_id (refresh_tool_preview prev c n a s) = ss_id s"
    "ss_failure (refresh_tool_preview prev c n a s) = ss_failure s" for c n a s
    by (simp_all add: refresh_tool_preview_def id)
  have e: "ss_id (end_tool_call c s) = ss_id s"
    "ss_failure (end_tool_call c s) = ss_failure s" for c s
    by (simp_all add: end_tool_call_def id split: option.split)
  have p: "ss_id (push_entry opts x s) = ss_id s"
    "ss_failure (push_entry opts x s) = ss_failure s" for x s
    by (simp_all add: push_entry_def Let_def)
  have n: "ss_id (add_tool_name m s) = ss_id s"
    "ss_failure (add_tool_name m s) = ss_failure s" for m s
    by (simp_all add: add_tool_name_def)
  note f = id b r e p n
  have td: "ss_id (on_text_delta opts d s) = ss_id s"
    "ss_failure (on_text_delta opts d s) = ss_failure s"
    "ss_id (on_thinking_delta opts d s) = ss_id s"
    "ss_failure (on_thinking_delta opts d s) = ss_failure s" for d s
    by (simp_all add: on_text_delta_def on_thinking_delta_def f split: option.split transcript_entry.split)
  have ts: "ss_id (on_tool_call_start prev opts t d s) = ss_id s"
    "ss_failure (on_tool_call_start prev opts t d s) = ss_failure s" for d s
    by (simp_all add: on_tool_call_start_def Let_def f)
  have cd: "ss_id (on_tool_call_delta prev opts d s) = ss_id s"
    "ss_failure (on_tool_call_delta prev opts d s) = ss_failure s" for d s
    by (simp_all add: on_tool_call_delta_def Let_def f split: option.split transcript_entry.split)
  have ce: "ss_id (on_tool_call_end prev opts t d s) = ss_id s"
    "ss_failure (on_tool_call_end prev opts t d s) = ss_failure s" for d s
    by (simp_all add: on_tool_call_end_def Let_def f split: option.split transcript_entry.split)
  have st: "ss_id (on_tool_start prev opts t d s) = ss_id s"
    "ss_failure (on_tool_start prev opts t d s) = ss_failure s" for d s
    by (simp_all add: on_tool_start_def Let_def f split: option.split)
  have dn: "ss_id (fst (on_tool_done opts d tr s)) = ss_id s"
    "ss_failure (fst (on_tool_done opts d tr s)) = ss_failure s" for d tr s
    by (simp_all add: on_tool_done_def Let_def f)
  show "ss_id (fst (append_event prev opts t ev st)) = ss_id (fst st)"
    "ss_failure (fst (append_event prev opts t ev st)) = ss_failure (fst st)"
    by (cases st, simp add: append_event_def Let_def td ts cd ce st dn)+
qed

lemma session_ok_append_event:
  assumes "session_ok opts s"
  shows "session_ok opts (fst (append_event prev opts t ev (s, trace)))"
  using assms transcript_ok_append_event [of opts "(s, trace)" prev t ev]
    append_event_frame [of prev opts t ev "(s, trace)"]
  by (simp add: session_ok_def failure_names_def)

lemma store_ok_append_event [store_intros]:
  assumes ok: "store_ok opts {} st" and opts: "en_options e = opts"
  shows "store_ok opts {} (append_session_event e prev i ev st)"
  unfolding append_session_event_def
proof (rule store_ok_mutate)
  show "store_ok opts (insert i {}) st" using ok by (rule store_ok_mono) simp
  fix st :: session_store
  assume ok: "store_ok opts (insert i {}) st"
  show "store_ok opts (insert i {}) (case session_of st i of None \<Rightarrow> st
      | Some s \<Rightarrow>
          (case append_event prev (en_options e) (en_now e) ev (s, map_of (st_handoff_traces st) i) of
             (s', trace) \<Rightarrow> put_session i s'
               (case trace of None \<Rightarrow> st
                | Some h \<Rightarrow> st\<lparr>st_handoff_traces := AList.update i h (st_handoff_traces st)\<rparr>)))"
  proof (cases "session_of st i")
    case None
    then show ?thesis using ok by simp
  next
    case (Some s)
    obtain s' trace where ev: "append_event prev (en_options e) (en_now e) ev
        (s, map_of (st_handoff_traces st) i) = (s', trace)" by fastforce
    have "session_ok opts s" "ss_id s = i" using store_ok_session [OF ok Some] by simp_all
    then have "session_ok opts s'" "ss_id s' = i"
      using session_ok_append_event [of opts s prev "en_now e" ev "map_of (st_handoff_traces st) i"]
        append_event_frame(1) [of prev "en_options e" "en_now e" ev
          "(s, map_of (st_handoff_traces st) i)"] ev opts by simp_all
    then show ?thesis
      using Some ev ok by (auto intro!: store_ok_put split: option.split)
  qed
qed

lemma store_ok_begin_followup [store_intros]:
  "store_ok opts X st \<Longrightarrow> store_ok opts X (begin_followup_turn e i st)"
  by (simp add: begin_followup_turn_def Let_def store_ok_mutate_session_same good_lifecycle)

lemma store_ok_end_followup [store_intros]:
  "store_ok opts X st \<Longrightarrow> store_ok opts X (end_followup_turn e i restore st)"
  by (simp add: end_followup_turn_def store_ok_mutate_session_same good_restore_lane)

lemma store_ok_fail_closed [store_intros]:
  "store_ok opts {} st \<Longrightarrow> en_options e = opts \<Longrightarrow> store_ok opts {} (fail_closed_session e i err st)"
  unfolding fail_closed_session_def Let_def
  by (intro store_ok_prune_completed store_ok_release_handles store_ok_mutate_session_same good_fail
      store_ok_drop_stashed store_ok_settle_cancels_asks store_ok_end_followup)

lemma store_ok_launch_next [store_intros]:
  assumes ok: "store_ok opts {} st" and opts: "en_options e = opts"
  shows "store_ok opts {} (snd (launch_next_stashed_followup e i st))"
proof -
  have drop: "store_ok opts {} (drop_stashed_followups e i r st')" if "store_ok opts {} st'" for r st'
    using that opts by (rule store_ok_drop_stashed)
  show ?thesis
  proof (cases "map_of (st_stash st) i")
    case None
    then have "stash_of st i = []" "AList.delete i (st_stash st) = st_stash st"
      by (simp_all add: stash_of_def delete_absent)
    then show ?thesis using drop [OF ok] ok by (simp add: launch_next_stashed_followup_def)
  next
    case (Some q)
    then have q: "stash_of st i = q" by (simp add: stash_of_def)
    show ?thesis
    proof (cases q)
      case Nil
      then have "steers_ok (AList.delete i (st_stash st)) (st_steer_log st)"
        using ok steers_ok_drop [of "st_stash st" "st_steer_log st" i "[]"] Some
        by (simp add: store_ok_def)
      then have "store_ok opts {} (st\<lparr>st_stash := AList.delete i (st_stash st)\<rparr>)"
        using ok by (simp add: store_ok_def)
      then show ?thesis
        using drop [OF ok] q Nil by (simp add: launch_next_stashed_followup_def)
    next
      case (Cons nxt rest)
      let ?stash = "if rest = [] then AList.delete i (st_stash st) else AList.update i rest (st_stash st)"
      have st: "steers_ok (st_stash st) (st_steer_log st)" using ok by (simp add: store_ok_def)
      have launched: "steers_ok ?stash (st_steer_log st @ [SteerLaunched (sf_token nxt)])"
        using steers_ok_launch [OF st] Some Cons by simp
      have d: "distinct (map fst (st_stash st))" using st by (simp add: steers_ok_def)
      have "mset (AList.update i (nxt # rest) ?stash) = mset (st_stash st)"
        using stash_restore [OF d] Some Cons by simp
      then have restored: "steers_ok (AList.update i (nxt # rest) ?stash) (st_steer_log st)"
        using st by (simp add: steers_ok_def stash_tokens_mset distinct_update distinct_delete)
      have l: "store_ok opts {} st'"
        if "st_sessions st' = st_sessions st" "st_pending_asks st' = st_pending_asks st"
          "st_ask_log st' = st_ask_log st" "st_evicted st' = st_evicted st" "st_stash st' = ?stash"
          "st_steer_log st' = st_steer_log st @ [SteerLaunched (sf_token nxt)]" for st'
        using ok launched that by (simp add: store_ok_def)
      have r: "store_ok opts {} (drop_stashed_followups e i reason st')"
        if "st_sessions st' = st_sessions st" "st_pending_asks st' = st_pending_asks st"
          "st_ask_log st' = st_ask_log st" "st_evicted st' = st_evicted st"
          "st_stash st' = AList.update i (nxt # rest) ?stash" "st_steer_log st' = st_steer_log st" for reason st'
        using ok restored that by (intro drop) (simp add: store_ok_def)
      show ?thesis
        using drop [OF ok] q Cons
        by (auto simp: launch_next_stashed_followup_def Let_def reset_turn_trace_def
            drop_terminal_traces_def split: option.split intro!: l r)
    qed
  qed
qed

lemma store_ok_followup_reply [store_intros]:
  assumes ok: "store_ok opts {} st" and opts: "en_options e = opts"
  shows "store_ok opts {} (settle_followup_reply e i reply token st)"
proof -
  have drop: "store_ok opts {} (drop_stashed_followups e i r (clear_in_flight i st))" for r
    using ok opts by (intro store_ok_drop_stashed) simp_all
  have launch: "store_ok opts {} (snd (launch_next_stashed_followup e i
      (log_call c (mutate_session e i (record_reply e reply) st))))" for c
    using ok opts by (intro store_ok_launch_next) (simp_all add: store_ok_mutate_session_same good_record_reply)
  have fin: "store_ok opts {} (prune_retained e (log_call c (clear_in_flight i
      (mutate_session e i (\<lambda>s. (record_reply e reply
          (s\<lparr>ss_lifecycle := lc, ss_finished_at := fa\<rparr>))\<lparr>ss_stop_reason := None\<rparr>) st))))" for c lc fa
    using ok opts by (intro store_ok_prune_retained) (simp_all add: store_ok_mutate_session_same good_record_reply)
  show ?thesis using drop launch fin by (simp add: settle_followup_reply_def split: option.split)
qed

lemma store_ok_failure_begin [store_intros]:
  "store_ok opts {} st \<Longrightarrow> store_ok opts {} (snd (settle_followup_failure_begin e i err token st))"
  by (simp add: settle_followup_failure_begin_def)

lemma store_ok_failure_end [store_intros]:
  assumes "store_ok opts {} st" "en_options e = opts"
  shows "store_ok opts {} (settle_followup_failure_end e i err restore handoff st)"
proof -
  have "store_ok opts {} (end_followup_turn e i restore (st\<lparr>st_pending_failures := pf\<rparr>))" for pf
    using assms by (intro store_ok_end_followup) simp
  then show ?thesis
    using assms by (simp add: settle_followup_failure_end_def Let_def store_ok_launch_next
        store_ok_fail_closed store_ok_end_followup)
qed

lemma store_ok_complete [store_intros]:
  assumes ok: "store_ok opts {} st" and opts: "en_options e = opts"
  shows "store_ok opts {} (complete_session e i report retained reason st)"
proof -
  let ?st0 = "settle_cancels_asks e i ''session completed'' st"
  let ?completes = "session_satisfies ?st0 i may_complete"
  let ?delivers = "delivers_stash retained i ?st0"
  let ?m = "\<lambda>st. modify_session i (complete_update e report retained reason) st"
  let ?h = "\<lambda>st. (?m st)\<lparr>st_cancel_handles := AList.delete i (st_cancel_handles (?m st)),
      st_close_handles := (if retained then st_close_handles (?m st)
        else AList.delete i (st_close_handles (?m st)))\<rparr>"
  let ?fn = "\<lambda>st. if \<not> ?completes then st
     else if ?delivers
       then (modify_session i (\<lambda>s. s\<lparr>ss_lifecycle := LcRunning, ss_finished_at := None,
               ss_stop_reason := None\<rparr>) (?h st))\<lparr>st_run_in_flight := jset_add i (st_run_in_flight (?h st))\<rparr>
       else clear_in_flight i (?h st)"
  let ?post = "\<lambda>st. if ?completes then prune_retained e (prune_completed e st) else st"
  have fn: "store_ok opts (insert i {}) (?fn st')" if st': "store_ok opts (insert i {}) st'" for st'
  proof -
    have "store_ok opts (insert i (insert i {})) (?m st')"
      by (rule store_ok_modify [OF st' good_complete [OF opts]])
    then have h: "store_ok opts {i} (?h st')" by simp
    have "store_ok opts (insert i {i}) (modify_session i (\<lambda>s. s\<lparr>ss_lifecycle := LcRunning,
        ss_finished_at := None, ss_stop_reason := None\<rparr>) (?h st'))"
      by (rule store_ok_modify [OF h good_lifecycle(1)])
    then show ?thesis using h st' by simp
  qed
  have post: "store_ok opts (insert i {}) (?post st')" if "store_ok opts (insert i {}) st'" for st'
    using that opts by (simp add: store_ok_prune_retained store_ok_prune_completed)
  have st0: "store_ok opts (insert i {}) ?st0"
    using store_ok_settle_cancels_asks [OF ok] by (rule store_ok_mono) simp
  let ?st3 = "mutate_then e i ?fn ?post ?st0"
  have st3: "store_ok opts {} ?st3" by (rule store_ok_mutate_then [OF st0 fn post])
  have "complete_session e i report retained reason st =
      (if ?delivers \<and> session_of ?st3 i \<noteq> None then snd (launch_next_stashed_followup e i ?st3)
       else drop_stashed_followups e i ''session completed'' ?st3)"
    by (simp only: complete_session_def Let_def)
  then show ?thesis
    using store_ok_launch_next [OF st3 opts] store_ok_drop_stashed [OF st3 opts] by simp
qed

lemma store_ok_fail [store_intros]:
  assumes ok: "store_ok opts {} st" and opts: "en_options e = opts"
  shows "store_ok opts {} (fail_session e i err failure st)"
proof -
  let ?st0 = "case failure of None \<Rightarrow> st
     | Some f \<Rightarrow> st\<lparr>st_pending_failures := AList.update i f (st_pending_failures st)\<rparr>"
  let ?st1 = "settle_cancels_asks e i ''session failed'' ?st0"
  let ?fails = "session_satisfies ?st1 i may_fail"
  let ?fn = "\<lambda>st. if \<not> ?fails then st
     else release_handles e i (drop_stashed_followups e i ''session failed''
            (clear_in_flight i
              (modify_session i (\<lambda>s. mark_failed e err (s\<lparr>ss_retained := Some False\<rparr>)) st)))"
  let ?post = "\<lambda>st. if ?fails then prune_completed e st else st"
  have "store_ok opts {} ?st0" using ok by (simp split: option.split)
  then have "store_ok opts {} ?st1" by (rule store_ok_settle_cancels_asks)
  then have st1: "store_ok opts (insert i {}) ?st1" by (rule store_ok_mono) simp
  have fn: "store_ok opts (insert i {}) (?fn st')" if st': "store_ok opts (insert i {}) st'" for st'
  proof -
    have "store_ok opts (insert i (insert i {}))
        (modify_session i (\<lambda>s. mark_failed e err (s\<lparr>ss_retained := Some False\<rparr>)) st')"
      by (rule store_ok_modify [OF st' good_fail(1) [OF opts]])
    then have "store_ok opts {i} (release_handles e i (drop_stashed_followups e i ''session failed''
        (clear_in_flight i
          (modify_session i (\<lambda>s. mark_failed e err (s\<lparr>ss_retained := Some False\<rparr>)) st'))))"
      using opts by (intro store_ok_release_handles store_ok_drop_stashed) simp_all
    then show ?thesis using st' by simp
  qed
  have post: "store_ok opts (insert i {}) (?post st')" if "store_ok opts (insert i {}) st'" for st'
    using that opts by (simp add: store_ok_prune_completed)
  have "store_ok opts {} (mutate_then e i ?fn ?post ?st1)"
    by (rule store_ok_mutate_then [OF st1 fn post])
  moreover have "fail_session e i err failure st =
      (mutate_then e i ?fn ?post ?st1)\<lparr>st_pending_failures :=
         AList.delete i (st_pending_failures (mutate_then e i ?fn ?post ?st1))\<rparr>"
    by (simp only: fail_session_def Let_def)
  ultimately show ?thesis by (simp only: store_ok_frame)
qed

lemma store_ok_start_followup [store_intros]:
  "store_ok opts X st \<Longrightarrow> store_ok opts X (start_followup e i h message st)"
  by (simp add: start_followup_def store_ok_begin_followup)

lemma store_ok_apply_admission [store_intros]:
  assumes "store_ok opts X st"
  shows "store_ok opts X (apply_admission e q q' st)"
  unfolding apply_admission_def
  using assms by (intro store_ok_fold) (simp_all add: start_queued_def store_ok_start_followup split: option.split)

lemma store_ok_release_slot [store_intros]:
  "store_ok opts X st \<Longrightarrow> store_ok opts X (release_slot e j st)"
  by (simp add: release_slot_def store_ok_apply_admission split: option.split)

lemma store_ok_queue_followup [store_intros]:
  assumes ok: "store_ok opts X st"
  shows "store_ok opts X (snd (queue_followup_turn e i message restore token st))"
proof -
  have a: "store_ok opts X (apply_admission e q q' (st\<lparr>st_queued_followups := qf\<rparr>))"
    "store_ok opts X (apply_admission e q q' st)" for q q' qf
    using ok by (simp_all add: store_ok_apply_admission)
  have b: "store_ok opts X (mutate_session e i
      (\<lambda>s. s\<lparr>ss_lifecycle := PendingInit, ss_finished_at := None\<rparr>) (st'\<lparr>st_cancel_handles := ch\<rparr>))"
    if "store_ok opts X st'" for st' ch
    using that by (simp add: store_ok_mutate_session_same good_lifecycle)
  show ?thesis
    using ok a b [OF a(1)] b [OF a(2)]
    by (simp add: queue_followup_turn_def Let_def store_ok_start_followup
        split: option.split prod.split)
qed

lemma store_ok_resume [store_intros]:
  assumes "store_ok opts {} st" "en_options e = opts"
  shows "store_ok opts {} (snd (resume_one e i message token st))"
proof -
  have "store_ok opts {} (prune_retained e (snd (queue_followup_turn e i message restore token st)))" for restore
    using assms by (intro store_ok_prune_retained store_ok_queue_followup)
  then have "store_ok opts {} (prune_retained e st1)"
    if "queue_followup_turn e i message restore token st = (status, st1)" for restore status st1
    using that by (metis snd_conv)
  then show ?thesis
    using assms by (auto simp: resume_one_def split: option.split prod.split)
qed

lemma store_ok_send_interrupt:
  assumes ok: "store_ok opts {} st" and r: "reacts_ok opts e"
  shows "store_ok opts {} (snd (send_interrupt e i message token h st))"
proof -
  let ?st1 = "settle_cancels_asks e i ''cancelled by send_input interrupt'' st"
  let ?sf = "\<lparr>sf_message = message, sf_fail_lifecycle = VerbInterrupted, sf_token = token\<rparr>"
  let ?st2 = "?st1\<lparr>st_stash := AList.update i (stash_of ?st1 i @ [?sf]) (st_stash ?st1),
      st_steer_log := st_steer_log ?st1 @ [SteerStashed token]\<rparr>"
  have st1: "store_ok opts {} ?st1" by (rule store_ok_settle_cancels_asks [OF ok])
  then have "steers_ok (st_stash ?st1) (st_steer_log ?st1)" by (simp add: store_ok_def)
  from steers_ok_stash [OF this, of "stash_of ?st1 i" i ?sf]
  have "steers_ok (AList.update i (stash_of ?st1 i @ [?sf]) (st_stash ?st1))
      (st_steer_log ?st1 @ [SteerStashed token])"
    by (simp add: stash_of_def)
  then have st2: "store_ok opts {} ?st2" using st1 by (simp add: store_ok_def)
  let ?st3 = "if map_of (st_stash ?st1) i = None
     then en_react e h (log_call (InterruptInvoked i h) ?st2) else ?st2"
  have st3: "store_ok opts {} ?st3" using st2 r by (simp add: store_ok_react)
  then have "store_ok opts {} (prune_retained e
      (mutate_session e i (\<lambda>s. s\<lparr>ss_stop_reason := Some ''interrupted''\<rparr>) ?st3))"
    using r by (intro store_ok_prune_retained store_ok_mutate_session_same good_lifecycle)
      (simp_all add: reacts_options)
  then have "snd (send_interrupt e i message token h st) \<in> {st. store_ok opts {} st}"
    using st3 unfolding send_interrupt_def Let_def by (auto split: option.split)
  then show ?thesis by simp
qed

lemma store_ok_ask_resolved:
  assumes "store_ok opts X st" "map_of (st_pending_asks st) i = Some ask"
  shows "store_ok opts X (st\<lparr>st_pending_asks := AList.delete i (st_pending_asks st),
     st_handoff_traces := ht, st_ask_log := st_ask_log st @ [AskResolved (pk_token ask) txt]\<rparr>)"
  using assms asks_ok_settle [of "st_pending_asks st" "st_ask_log st" i ask] by (simp add: store_ok_def)

lemma store_ok_send_input [store_intros]:
  assumes "store_ok opts {} st" "reacts_ok opts e"
  shows "store_ok opts {} (snd (send_input_one e i message asInterrupt token st))"
  using assms
  by (auto simp: send_input_one_def store_ok_send_interrupt store_ok_ask_resolved split: option.split)

lemma store_ok_interrupt_one [store_intros]:
  assumes ok: "store_ok opts {} st" and r: "reacts_ok opts e"
  shows "store_ok opts {} (snd (interrupt_one e i st))"
proof -
  let ?st1 = "drop_stashed_followups e i ''interrupted by interrupt_agent'' st"
  have st1: "store_ok opts {} ?st1" using ok reacts_options [OF r] by (rule store_ok_drop_stashed)
  have fin: "store_ok opts {} (prune_retained e (mutate_session e i (mark_interrupted e) st'))"
    if "store_ok opts {} st'" for st'
    using that r by (intro store_ok_prune_retained store_ok_mutate_session_same good_mark_interrupted)
      (simp_all add: reacts_options)
  have a: "store_ok opts {} (prune_retained e (mutate_session e i (mark_interrupted e)
      (clear_in_flight i (invoke_cancel e i c ?st1))))" for c
    using st1 r by (intro fin) (simp add: store_ok_invoke_cancel)
  have b: "store_ok opts {} (prune_retained e (mutate_session e i (mark_interrupted e)
      (en_react e h (log_call c (settle_cancels_asks e i ''session interrupted'' ?st1)))))" for h c
    using st1 r by (intro fin store_ok_react) (simp_all add: store_ok_settle_cancels_asks)
  show ?thesis using ok st1 a b by (simp add: interrupt_one_def Let_def split: option.split)
qed

lemma store_ok_attach_report [store_intros]:
  assumes ok: "store_ok opts {} st" and opts: "en_options e = opts"
  shows "store_ok opts {} (attach_report e i report reason st)"
proof -
  let ?ended = "session_satisfies st i (\<lambda>s. is_completed_or_failed (ss_lifecycle s))"
  let ?launches = "stash_of st i \<noteq> [] \<and> session_satisfies st i (\<lambda>s. is_run_eligible (ss_lifecycle s))"
  let ?m = "\<lambda>st. modify_session i (attach_update e report reason ?launches) st"
  let ?fn = "\<lambda>st. if ?ended then clear_in_flight i st
     else if ?launches then ?m st else clear_in_flight i (?m st)"
  let ?post = "\<lambda>st. if ?ended then st else prune_retained e (prune_completed e st)"
  have fn: "store_ok opts (insert i {}) (?fn st')" if st': "store_ok opts (insert i {}) st'" for st'
  proof -
    have "store_ok opts (insert i (insert i {})) (modify_session i (attach_update e report reason b) st')" for b
      by (rule store_ok_modify [OF st' good_attach_update [OF opts]])
    then show ?thesis using st' by simp
  qed
  have post: "store_ok opts (insert i {}) (?post st')" if "store_ok opts (insert i {}) st'" for st'
    using that opts by (simp add: store_ok_prune_retained store_ok_prune_completed)
  have st0: "store_ok opts (insert i {}) st" using ok by (rule store_ok_mono) simp
  let ?st1 = "mutate_then e i ?fn ?post st"
  have st1: "store_ok opts {} ?st1" by (rule store_ok_mutate_then [OF st0 fn post])
  have "attach_report e i report reason st =
      (if ?launches \<and> session_of ?st1 i \<noteq> None then snd (launch_next_stashed_followup e i ?st1)
       else drop_stashed_followups e i ''session settled'' ?st1)"
    by (simp only: attach_report_def Let_def)
  then show ?thesis
    using store_ok_launch_next [OF st1 opts] store_ok_drop_stashed [OF st1 opts] by simp
qed

lemma store_ok_settle_run [store_intros]:
  "store_ok opts {} st \<Longrightarrow> en_options e = opts \<Longrightarrow> store_ok opts {} (settle_run e i st)"
  by (simp add: settle_run_def store_ok_drop_stashed store_ok_cancel_ask)

lemma store_ok_register [store_intros]:
  "store_ok opts X (register_cancel i h st) = store_ok opts X st"
  "store_ok opts X (register_close i h st) = store_ok opts X st"
  "store_ok opts X (register_interrupt i h st) = store_ok opts X st"
  "store_ok opts X (register_followup i h st) = store_ok opts X st"
  "store_ok opts X (register_deliver i h st) = store_ok opts X st"
  "store_ok opts X (mark_run_in_flight i st) = store_ok opts X st"
  "store_ok opts X (pin i st) = store_ok opts X st"
  by (simp_all add: register_cancel_def register_close_def register_interrupt_def
      register_followup_def register_deliver_def mark_run_in_flight_def pin_def)

lemma store_ok_unpin:
  "store_ok opts {} st \<Longrightarrow> en_options e = opts \<Longrightarrow> store_ok opts {} (unpin e i st)"
  by (simp add: unpin_def Let_def store_ok_prune_completed store_ok_prune_retained)

lemma store_ok_updates:
  "store_ok opts {} st \<Longrightarrow> store_ok opts {} (link_recovery_replacement e i x st)"
  "store_ok opts {} st \<Longrightarrow> store_ok opts {} (unlink_recovery_replacement e i x st)"
  "store_ok opts {} st \<Longrightarrow> store_ok opts {} (mark_running e i st)"
  "store_ok opts {} st \<Longrightarrow> store_ok opts {} (snd (report_verified_outcome e i v st))"
  unfolding link_recovery_replacement_def unlink_recovery_replacement_def mark_running_def
    report_verified_outcome_def
  by (auto intro: store_ok_mutate_session_same good_link good_lifecycle)

lemma store_ok_routine:
  assumes "store_ok opts {} st"
  shows "store_ok opts {} (snd (record_routine_evaluation e i a st))"
proof -
  have "store_ok opts {} (mutate_session e i
      (\<lambda>s. let es = ss_routine_evaluations s @ [a]
           in s\<lparr>ss_routine_evaluations := drop (length es - routine_evaluations_max) es\<rparr>) st)"
    using assms good_routine by (rule store_ok_mutate_session_same)
  then show ?thesis using assms by (simp only: record_routine_evaluation_def snd_conv split: if_split) simp
qed

lemma store_ok_register_ask:
  assumes ok: "store_ok opts {} st"
  shows "store_ok opts {} (snd (register_ask e i q qid a d token st))"
proof (cases "map_of (st_pending_asks st) i")
  case None
  let ?ask = "\<lparr>pk_question = q, pk_question_id = qid, pk_assessment = a, pk_asked_at = en_now e,
      pk_denied_call = d, pk_token = token\<rparr>"
  let ?st = "st\<lparr>st_pending_asks := AList.update i ?ask (st_pending_asks st),
      st_ask_log := st_ask_log st @ [AskRegistered token]\<rparr>"
  have "asks_ok (AList.update i ?ask (st_pending_asks st)) (st_ask_log st @ [AskRegistered token])"
    using ok None by (intro asks_ok_register) (simp_all add: store_ok_def)
  then have "store_ok opts {} ?st" using ok by (simp add: store_ok_def)
  then have "store_ok opts (insert i {}) ?st" by (rule store_ok_mono) simp
  then have "store_ok opts {} (mutate e i (\<lambda>st. st) ?st)" by (rule store_ok_mutate)
  then show ?thesis using ok None by (simp add: register_ask_def)
qed (simp add: register_ask_def ok)

lemma store_ok_resolve_ask:
  "store_ok opts {} st \<Longrightarrow> store_ok opts {} (snd (resolve_ask i answer st))"
  by (simp add: resolve_ask_def store_ok_ask_resolved split: option.split)

text \<open>
  An escalation's outcome is written between taking the ask out and settling it; writing it
  commutes with the ledger's entry.
\<close>

lemma modify_session_log:
  "modify_session i f (st\<lparr>st_ask_log := lg\<rparr>) = (modify_session i f st)\<lparr>st_ask_log := lg\<rparr>"
  by (simp add: modify_session_def put_session_def session_of_def split: option.split)

lemma enforce_log:
  "enforce_settled_run_invariant i (st\<lparr>st_ask_log := lg\<rparr>) =
     (enforce_settled_run_invariant i st)\<lparr>st_ask_log := lg\<rparr>"
  by (simp add: enforce_settled_run_invariant_def session_of_def split: option.split)

lemma reconcile_log:
  "reconcile_terminal_record e s (st\<lparr>st_ask_log := lg\<rparr>) =
     (case reconcile_terminal_record e s st of (s', st') \<Rightarrow> (s', st'\<lparr>st_ask_log := lg\<rparr>))"
proof -
  have c: "terminal_failure_class (st\<lparr>st_ask_log := lg\<rparr>) s = terminal_failure_class st s"
    by (cases "ss_lifecycle s") (simp_all add: terminal_failure_class_def pending_failure_def)
  have r: "failure_record_of e (st\<lparr>st_ask_log := lg\<rparr>) s cls = failure_record_of e st s cls" for cls
    by (cases "map_of (st_terminal_handoffs st) (ss_id s)")
      (simp_all add: failure_record_of_def pending_failure_def current_handoff_def Let_def)
  show ?thesis
    by (simp add: reconcile_terminal_record_def c r drop_terminal_traces_def split: option.split)
qed

lemma mutate_session_log:
  "mutate_session e i f (st\<lparr>st_ask_log := lg\<rparr>) = (mutate_session e i f st)\<lparr>st_ask_log := lg\<rparr>"
proof (cases "session_of st i")
  case None
  then show ?thesis
    by (simp add: mutate_session_def mutate_def mutate_then_def session_of_def)
next
  case (Some s)
  have put: "put_session j s' (st'\<lparr>st_ask_log := lg\<rparr>) = (put_session j s' st')\<lparr>st_ask_log := lg\<rparr>" for j s' st'
    by (simp add: put_session_def)
  have so: "session_of (st'\<lparr>st_ask_log := lg\<rparr>) j = session_of st' j" for st' j
    by (simp add: session_of_def)
  show ?thesis
    using Some
    by (simp add: mutate_session_def mutate_def mutate_then_def Let_def so modify_session_log
        reconcile_log put enforce_log split: prod.split)
qed

lemma mutate_session_ask_log: "st_ask_log (mutate_session e i f st) = st_ask_log st"
proof -
  have "mutate_session e i f (st\<lparr>st_ask_log := st_ask_log st\<rparr>) =
      (mutate_session e i f st)\<lparr>st_ask_log := st_ask_log st\<rparr>"
    by (rule mutate_session_log)
  then have "mutate_session e i f st = (mutate_session e i f st)\<lparr>st_ask_log := st_ask_log st\<rparr>" by simp
  then have "st_ask_log (mutate_session e i f st) = st_ask_log ((mutate_session e i f st)\<lparr>st_ask_log := st_ask_log st\<rparr>)"
    by (rule arg_cong)
  then show ?thesis by simp
qed

lemma store_ok_resolve_escalation:
  assumes ok: "store_ok opts {} st"
  shows "store_ok opts {} (snd (resolve_escalation_ask e i r note st))"
proof (cases "map_of (st_pending_asks st) i")
  case None
  then show ?thesis using ok by (simp add: resolve_escalation_ask_def)
next
  case (Some ask)
  let ?txt = "case note of None \<Rightarrow> er_answer r | Some n \<Rightarrow> n @ [newline] @ er_answer r"
  let ?lg = "st_ask_log st @ [AskResolved (pk_token ask) ?txt]"
  let ?st1 = "st\<lparr>st_pending_asks := AList.delete i (st_pending_asks st)\<rparr>"
  have "asks_ok (AList.delete i (st_pending_asks st)) ?lg"
    using ok Some by (intro asks_ok_settle) (auto simp: store_ok_def)
  then have st1: "store_ok opts {} (?st1\<lparr>st_ask_log := ?lg\<rparr>)" using ok by (simp add: store_ok_def)
  have "store_ok opts {} ((mutate_session e i (\<lambda>s. s\<lparr>ss_terminal_outcome := Some oc\<rparr>) ?st1)\<lparr>st_ask_log := ?lg\<rparr>)" for oc
    unfolding mutate_session_log [symmetric]
    by (intro store_ok_mutate_session_same st1 good_lifecycle)
  then show ?thesis
    using ok Some st1
    by (simp add: resolve_escalation_ask_def Let_def mutate_session_ask_log split: option.split)
qed

lemma store_ok_expire_asks:
  assumes "store_ok opts {} st"
  shows "store_ok opts {} (snd (expire_stale_asks e maxAgeMs st))"
proof -
  have "store_ok opts {} (expire_ask e maxAgeMs iq st')" if "store_ok opts {} st'" for iq st'
    unfolding expire_ask_def using that by (intro store_ok_cancel_ask) simp
  then show ?thesis
    using assms by (simp add: expire_stale_asks_def Let_def store_ok_fold)
qed

lemma store_ok_settle_closed [store_intros]:
  "store_ok opts {} st \<Longrightarrow> en_options e = opts \<Longrightarrow> store_ok opts {} (settle_closed e i st)"
  unfolding settle_closed_def by (intro store_ok_prune_completed) (simp_all add: store_ok_drop_stashed)

lemma store_ok_invoke_close [simp]:
  "store_ok opts X (snd (invoke_close i h st)) = store_ok opts X st"
  by (simp add: invoke_close_def)

lemma store_ok_close_begin:
  assumes ok: "store_ok opts {} st" and r: "reacts_ok opts e"
  shows "store_ok opts {} (snd (close_begin e i st))"
proof -
  let ?st1 = "drop_stashed_followups e i ''session closed'' (settle_cancels_asks e i ''session closed'' st)"
  have st1: "store_ok opts {} ?st1"
    using ok reacts_options [OF r] by (intro store_ok_drop_stashed store_ok_settle_cancels_asks)
  have "store_ok opts {} (settle_closed e i (mutate_session e i (close_unstarted e)
      (invoke_cancel e i c ?st1)))" for c
    using st1 r
    by (intro store_ok_settle_closed store_ok_mutate_session_same good_close store_ok_invoke_cancel)
      (simp_all add: reacts_options)
  then show ?thesis using ok st1 by (simp add: close_begin_def Let_def split: option.split)
qed

lemma store_ok_close_found:
  "store_ok opts {} st \<Longrightarrow> store_ok opts {} (snd (close_found i found st))"
  by (simp add: close_found_def split: option.split)

lemma store_ok_close_end:
  assumes "store_ok opts {} st" "en_options e = opts"
  shows "store_ok opts {} (snd (close_end e i keepFailed st))"
proof -
  have "store_ok opts {} (settle_closed e i (mutate_session e i (shut_down e) st))"
    using assms by (intro store_ok_settle_closed store_ok_mutate_session_same good_close)
  then show ?thesis using assms by (simp add: close_end_def Let_def store_ok_settle_closed)
qed

lemma store_ok_shut_down_retained:
  assumes ok: "store_ok opts {} st" and opts: "en_options e = opts"
  shows "store_ok opts {} (shut_down_retained e i st)"
proof -
  have "store_ok opts {} (mutate_session e i
      (\<lambda>s. s\<lparr>ss_lifecycle := Shutdown (ss_report s) (ss_error s), ss_retained := Some False\<rparr>)
      (drop_stashed_followups e i r
        (drop_handles i ((snd (cancel_ask_internal e i r False st))\<lparr>st_close_handles := ch\<rparr>))))" for r ch
    using ok opts
    by (intro store_ok_mutate_session_same good_lifecycle store_ok_drop_stashed)
      (simp_all add: store_ok_cancel_ask)
  then show ?thesis
    using ok by (simp add: shut_down_retained_def Let_def split: option.split worker_lifecycle.split)
qed

lemma store_ok_cancel_all:
  assumes ok: "store_ok opts {} st" and r: "reacts_ok opts e"
  shows "store_ok opts {} (snd (cancel_all e reason st))"
proof -
  have "store_ok opts {} (snd (fold (cancel_listed e reason) is (ids, st')))"
    if "store_ok opts {} st'" for "is" ids st'
    using that
  proof (induction "is" arbitrary: ids st')
    case Nil
    then show ?case by simp
  next
    case (Cons i "is")
    have "store_ok opts {} (snd (cancel_session e i reason st'))"
      using Cons.prems r by (rule store_ok_cancel_session)
    then show ?case
      using Cons.IH by (auto simp: cancel_listed_def split: prod.split bool.split)
  qed
  from this [OF ok, of _ "[]"]
  have "store_ok opts {} (fold (shut_down_retained e) js (snd (fold (cancel_listed e reason) is ([], st))))" for js "is"
    using reacts_options [OF r] by (intro store_ok_fold) (simp_all add: store_ok_shut_down_retained)
  then show ?thesis by (simp add: cancel_all_def Let_def split: prod.split) (metis snd_conv)
qed

subsection \<open>Clearing the store\<close>

text \<open>The keys a fold over the asks, and one over the stash, leaves behind.\<close>

lemma cancel_ask_keys:
  "st_pending_asks (snd (cancel_ask_internal e i reason keep st)) =
     AList.delete i (st_pending_asks st)"
  by (simp add: cancel_ask_internal_def Let_def log_call_def delete_absent split: option.split)

lemma fold_cancel_asks:
  "st_pending_asks (fold (\<lambda>i st. snd (cancel_ask_internal e i reason False st)) is st) =
     filter (\<lambda>p. fst p \<notin> set is) (st_pending_asks st)"
proof (induction "is" arbitrary: st)
  case Nil
  then show ?case by simp
next
  case (Cons i "is")
  show ?case
    by (simp add: Cons.IH cancel_ask_keys AList.delete_eq split_def) (rule filter_cong, auto)
qed

lemma cancel_all_asks_empty: "st_pending_asks (cancel_all_asks e reason st) = []"
  by (simp add: cancel_all_asks_def fold_cancel_asks filter_empty_conv)

lemma mutate_session_stash: "st_stash (mutate_session e i f st) = st_stash st"
proof -
  have m: "st_stash (modify_session j g st') = st_stash st'" for j g st'
    by (simp add: modify_session_def put_session_def split: option.split)
  have en: "st_stash (enforce_settled_run_invariant j st') = st_stash st'" for j st'
    by (simp add: enforce_settled_run_invariant_def split: option.split)
  have r: "st_stash st2 = st_stash st1" if "reconcile_terminal_record e s st1 = (s', st2)" for s s' st1 st2
    using that by (auto simp: reconcile_terminal_record_def drop_terminal_traces_def split: if_splits)
  show ?thesis
    by (auto simp: mutate_session_def mutate_def mutate_then_def Let_def m en put_session_def
        split: option.split prod.split dest: r)
qed

lemma drop_stashed_keys:
  "st_stash (drop_stashed_followups e i reason st) = AList.delete i (st_stash st)"
  by (simp add: drop_stashed_followups_def Let_def mutate_session_stash)

lemma fold_drop_stashed:
  "st_stash (fold (\<lambda>i. drop_stashed_followups e i reason) is st) =
     filter (\<lambda>p. fst p \<notin> set is) (st_stash st)"
proof (induction "is" arbitrary: st)
  case Nil
  then show ?case by simp
next
  case (Cons i "is")
  show ?case
    by (simp add: Cons.IH drop_stashed_keys AList.delete_eq split_def) (rule filter_cong, auto)
qed

lemma store_ok_release_everything:
  assumes ok: "store_ok opts {} st" and opts: "en_options e = opts"
  shows "store_ok opts {} (release_everything e askReason dropReason st)"
proof -
  let ?st1 = "cancel_all_asks e askReason st"
  let ?st2 = "fold (release_handles e) (map fst (st_close_handles ?st1)) ?st1"
  let ?st3 = "?st2\<lparr>st_cancel_handles := [], st_close_handles := [], st_interrupt_handles := [],
      st_followup_handles := [], st_deliver_handles := []\<rparr>"
  let ?st4 = "fold (\<lambda>i. drop_stashed_followups e i dropReason) (map fst (st_stash ?st3)) ?st3"
  have "store_ok opts {} ?st1"
    unfolding cancel_all_asks_def by (intro store_ok_fold ok store_ok_cancel_ask)
  then have "store_ok opts {} ?st2"
    by (intro store_ok_fold store_ok_release_handles opts)
  then have "store_ok opts {} ?st3" by simp
  then have st4: "store_ok opts {} ?st4"
    by (intro store_ok_fold store_ok_drop_stashed opts)
  have "st_stash ?st4 = []"
    unfolding fold_drop_stashed by (simp add: filter_empty_conv)
  then have "?st4\<lparr>st_stash := []\<rparr> = ?st4" by simp
  then show ?thesis using st4 by (simp only: release_everything_def Let_def)
qed

lemma store_ok_forget:
  assumes "store_ok opts X st"
  shows "store_ok opts X (forget_sessions st)"
proof -
  have "store_ok opts X (st\<lparr>st_sessions := []\<rparr>)"
    using assms by (simp add: store_ok_def sessions_ok_def)
  then show ?thesis by (simp add: forget_sessions_def)
qed

lemma store_ok_evicted:
  "store_ok opts X st \<Longrightarrow> evicted_ok ev \<Longrightarrow> store_ok opts X (st\<lparr>st_evicted := ev\<rparr>)"
  by (simp add: store_ok_def)

lemma store_ok_clear:
  assumes "store_ok opts {} st" "en_options e = opts"
  shows "store_ok opts {} (clear_store e st)"
proof -
  have "store_ok opts {} (forget_sessions (release_everything e a b st))" for a b
    using assms by (intro store_ok_forget store_ok_release_everything)
  then show ?thesis
    by (simp add: clear_store_def Let_def store_ok_evicted evicted_ok_def)
qed

lemma tombstones_frame:
  "\<exists>ev. fold (tombstone reason) ss st = st\<lparr>st_evicted := ev\<rparr>"
proof (induction ss arbitrary: st)
  case Nil
  show ?case by (intro exI [of _ "st_evicted st"]) simp
next
  case (Cons s ss)
  show ?case using Cons.IH [of "tombstone reason s st"] by (auto simp: tombstone_def)
qed

lemma store_ok_teardown:
  assumes ok: "store_ok opts {} st" and opts: "en_options e = opts"
  shows "store_ok opts {} (teardown_store e reason st)"
proof -
  let ?st1 = "release_everything e (''ask_director cancelled: '' @ reason) reason st"
  let ?st2 = "fold (tombstone reason) (map snd (st_sessions ?st1)) ?st1"
  let ?ev = "drop (length (st_evicted ?st2) - max_evicted_tombstones) (st_evicted ?st2)"
  obtain ev where ev: "?st2 = ?st1\<lparr>st_evicted := ev\<rparr>" using tombstones_frame by blast
  have "evicted_ok ?ev" by (simp add: evicted_ok_def)
  then have "store_ok opts {} (?st1\<lparr>st_evicted := ?ev\<rparr>)"
    by (intro store_ok_evicted store_ok_release_everything ok opts)
  moreover have "?st2\<lparr>st_evicted := ?ev\<rparr> = ?st1\<lparr>st_evicted := ?ev\<rparr>" by (subst (1) ev) simp
  ultimately have "store_ok opts {} (forget_sessions (?st2\<lparr>st_evicted := ?ev\<rparr>))"
    by (simp only: store_ok_forget)
  then show ?thesis by (simp only: teardown_store_def Let_def store_ok_log_call)
qed

section \<open>Runs\<close>

lemma reacts_ok_now: "reacts_ok opts (e\<lparr>en_now := t\<rparr>) = reacts_ok opts e"
  by (simp add: reacts_ok_def)

lemmas store_ok_ops =
  store_ok_start store_ok_append_event store_ok_complete store_ok_fail store_ok_updates
  store_ok_routine store_ok_register store_ok_unpin store_ok_register_ask store_ok_resolve_ask
  store_ok_resolve_escalation store_ok_expire_asks store_ok_close_begin store_ok_close_found
  store_ok_close_end store_ok_cancel_session store_ok_cancel_all store_ok_send_input
  store_ok_interrupt_one store_ok_resume store_ok_attach_report store_ok_settle_run
  store_ok_followup_reply store_ok_failure_begin store_ok_failure_end store_ok_release_slot
  store_ok_clear store_ok_teardown

lemma store_ok_run_op:
  assumes "store_ok opts {} st" "reacts_ok opts e"
  shows "store_ok opts {} (run_store_op prev e op st)"
  using assms reacts_options [OF assms(2)]
  by (cases op) (simp_all add: store_ok_ops cancel_ask_def store_ok_cancel_ask)

interpretation store_machine:
  invariant_machine "store_step prev e" "\<lambda>st. store_ok opts {} st \<and> reacts_ok opts e" for prev opts e
  by unfold_locales (simp add: store_step_def store_ok_run_op reacts_ok_now)

lemma store_ok_create: "store_ok opts {} (create_session_store adm)"
  by (simp add: create_session_store_def store_ok_def sessions_ok_def asks_ok_def steers_ok_def
      evicted_ok_def pending_tokens_def stash_tokens_def)

lemma store_ok_run:
  "reacts_ok opts e \<Longrightarrow> store_ok opts {} (foldl (store_step prev e) (create_session_store adm) ops)"
  using store_machine.run_inv [of opts "create_session_store adm" e prev ops]
  by (simp add: store_ok_create)

end
