(* ===== verification/SessionProperties.thy ===== *)
theory SessionProperties
  imports SessionInvariant
begin

text \<open>
  The properties of the session store: its invariant, the ledgers of asks and steers and the
  tombstones along every run, what a late settlement leaves alone, what pruning may drop, and
  the two operations that leave a queued follow-up behind.
\<close>

section \<open>Re-entrant handles\<close>

text \<open>
  An environment whose handles re-enter the store: calling handle \<open>h\<close> runs the operations
  \<open>script h\<close> before it returns, and the handles those call re-enter it in turn, \<open>n\<close> levels
  deep.
\<close>

fun reentrant_env ::
    "(string \<Rightarrow> string \<Rightarrow> string option) \<Rightarrow> env \<Rightarrow> (nat \<Rightarrow> (int \<times> store_op) list) \<Rightarrow> nat \<Rightarrow> env" where
  "reentrant_env prev base script 0 = base\<lparr>en_react := (\<lambda>h st. st)\<rparr>"
| "reentrant_env prev base script (Suc n) =
     base\<lparr>en_react := (\<lambda>h st.
       foldl (store_step prev (reentrant_env prev base script n)) st (script h))\<rparr>"

lemma reentrant_env_ok: "reacts_ok (en_options base) (reentrant_env prev base script n)"
proof (induction n)
  case 0
  show ?case by (simp add: reacts_ok_def)
next
  case (Suc n)
  have "store_ok (en_options base) {} (foldl (store_step prev (reentrant_env prev base script n)) st ops)"
    if "store_ok (en_options base) {} st" for st ops
    using store_machine.run_inv [of "en_options base" st "reentrant_env prev base script n" prev ops]
      Suc that by simp
  then show ?case by (simp add: reacts_ok_def)
qed

definition store_run ::
    "(string \<Rightarrow> string \<Rightarrow> string option) \<Rightarrow> env \<Rightarrow> (nat \<Rightarrow> (int \<times> store_op) list) \<Rightarrow> nat
      \<Rightarrow> admission_queue option \<Rightarrow> (int \<times> store_op) list \<Rightarrow> session_store" where
  "store_run prev base script n adm ops =
     foldl (store_step prev (reentrant_env prev base script n)) (create_session_store adm) ops"

lemma store_run_ok: "store_ok (en_options base) {} (store_run prev base script n adm ops)"
  unfolding store_run_def by (rule store_ok_run [OF reentrant_env_ok])

section \<open>Along every run\<close>

text \<open>
  C8: whatever operations the fleet performs, in whatever order, and however abort and
  interrupt handles re-enter the store, no observer sees a terminal lane without its record.
  Between operations every session stands once under its own id, a live lane has no failure
  record, every failed or cancelled lane and every other ended lane whose stop was forced has
  one that names it, transcripts and displayed calls are as the transcript invariant demands,
  and there are never more than 500 tombstones.
\<close>

theorem store_invariant_holds:
  "sessions_ok (en_options base) {} (st_sessions (store_run prev base script n adm ops)) \<and>
   length (st_evicted (store_run prev base script n adm ops)) \<le> 500"
  using store_run_ok [of base prev script n adm ops]
  by (simp add: store_ok_def evicted_ok_def max_evicted_tombstones_def)

lemma clear_pending_asks:
  "st_pending_asks (release_everything e a b st) = []"
proof -
  have drop: "st_pending_asks (drop_stashed_followups e i r st) = st_pending_asks st" for e i r st
  proof -
    have m: "st_pending_asks (modify_session j g st') = st_pending_asks st'" for j g st'
      by (simp add: modify_session_def put_session_def split: option.split)
    have en: "st_pending_asks (enforce_settled_run_invariant j st') = st_pending_asks st'" for j st'
      by (simp add: enforce_settled_run_invariant_def split: option.split)
    have r: "st_pending_asks st2 = st_pending_asks st1"
      if "reconcile_terminal_record e s st1 = (s', st2)" for s s' st1 st2
      using that by (auto simp: reconcile_terminal_record_def drop_terminal_traces_def split: if_splits)
    have "st_pending_asks (mutate_session e i f st') = st_pending_asks st'" for f st'
      by (auto simp: mutate_session_def mutate_def mutate_then_def Let_def m en put_session_def
          split: option.split prod.split dest: r)
    then show ?thesis by (simp add: drop_stashed_followups_def Let_def)
  qed
  have release: "st_pending_asks (release_handles e i st) = []" if "st_pending_asks st = []" for e i st
    using that by (simp add: release_handles_def drop drop_handles_def detach_close_def log_call_def
        cancel_ask_keys split: option.split)
  have fold_release: "st_pending_asks (fold (release_handles e) is st) = []"
    if "st_pending_asks st = []" for "is" st
    using that by (induction "is" arbitrary: st) (simp_all add: release)
  have fold_drop: "st_pending_asks (fold (\<lambda>i. drop_stashed_followups e i b) is st) = st_pending_asks st" for "is" st
    by (induction "is" arbitrary: st) (simp_all add: drop)
  show ?thesis
    by (simp add: release_everything_def Let_def fold_drop fold_release cancel_all_asks_empty)
qed

lemma forget_ledgers [simp]:
  "st_pending_asks (forget_sessions st) = st_pending_asks st"
  "st_ask_log (forget_sessions st) = st_ask_log st"
  "st_stash (forget_sessions st) = st_stash st"
  "st_steer_log (forget_sessions st) = st_steer_log st"
  by (simp_all add: forget_sessions_def clear_turn_traces_def)

lemma log_call_ledgers [simp]:
  "st_pending_asks (log_call c st) = st_pending_asks st"
  "st_stash (log_call c st) = st_stash st"
  by (simp_all add: log_call_def)

lemma tombstones_ledgers [simp]:
  "st_pending_asks (fold (tombstone reason) ss st) = st_pending_asks st"
  "st_stash (fold (tombstone reason) ss st) = st_stash st"
  using tombstones_frame [of reason ss st] by auto

lemma release_everything_stash: "st_stash (release_everything e a b st) = []"
  by (simp add: release_everything_def Let_def)

lemma teardown_empties:
  "st_pending_asks (clear_store e st) = []" "st_stash (clear_store e st) = []"
  "st_pending_asks (teardown_store e reason st) = []" "st_stash (teardown_store e reason st) = []"
  by (simp_all add: clear_store_def teardown_store_def Let_def clear_pending_asks
      release_everything_stash)

text \<open>
  C10: every question a worker asks is settled exactly once. Along every run the asks
  registered are, with multiplicity, those pending and those resolved or rejected; no session
  has two pending; and once the store is cleared or torn down every ask ever registered has
  been settled, so no worker is left waiting on a promise that nobody holds.
\<close>

theorem asks_settle_once:
  "(let st = store_run prev base script n adm ops
    in registered_asks (st_ask_log st) =
         pending_tokens (st_pending_asks st) + settled_asks (st_ask_log st) \<and>
       distinct (map fst (st_pending_asks st))) \<and>
   (let st = store_run prev base script n adm (ops @ [(t, OpTeardown reason)])
    in registered_asks (st_ask_log st) = settled_asks (st_ask_log st)) \<and>
   (let st = store_run prev base script n adm (ops @ [(t, OpClear)])
    in registered_asks (st_ask_log st) = settled_asks (st_ask_log st))"
proof -
  have ok: "asks_ok (st_pending_asks st) (st_ask_log st)"
    if "st = store_run prev base script n adm ops'" for st ops'
    using store_run_ok [of base prev script n adm ops'] that by (simp add: store_ok_def)
  have last: "store_run prev base script n adm (ops @ [(t, op)]) =
      run_store_op prev ((reentrant_env prev base script n)\<lparr>en_now := t\<rparr>) op
        (store_run prev base script n adm ops)" for op
    by (simp add: store_run_def store_step_def)
  have "st_pending_asks (store_run prev base script n adm (ops @ [(t, OpTeardown reason)])) = []"
    "st_pending_asks (store_run prev base script n adm (ops @ [(t, OpClear)])) = []"
    by (simp_all add: last teardown_empties)
  then show ?thesis
    using ok [OF refl, of ops] ok [OF refl, of "ops @ [(t, OpTeardown reason)]"]
      ok [OF refl, of "ops @ [(t, OpClear)]"]
    by (simp add: asks_ok_def Let_def pending_tokens_def)
qed

text \<open>
  C11: no steer is silently lost. Along every run the steers accepted by an interrupting
  \<open>send_input\<close> are, with multiplicity, those still stashed, those launched as a follow-up
  turn and those dropped with a reason; after clearing or teardown none is stashed.
\<close>

theorem steers_never_lost:
  "(let st = store_run prev base script n adm ops
    in stashed_steers (st_steer_log st) =
         stash_tokens (st_stash st) + settled_steers (st_steer_log st)) \<and>
   (let st = store_run prev base script n adm (ops @ [(t, OpTeardown reason)])
    in stashed_steers (st_steer_log st) = settled_steers (st_steer_log st)) \<and>
   (let st = store_run prev base script n adm (ops @ [(t, OpClear)])
    in stashed_steers (st_steer_log st) = settled_steers (st_steer_log st))"
proof -
  have ok: "steers_ok (st_stash st) (st_steer_log st)"
    if "st = store_run prev base script n adm ops'" for st ops'
    using store_run_ok [of base prev script n adm ops'] that by (simp add: store_ok_def)
  have last: "store_run prev base script n adm (ops @ [(t, op)]) =
      run_store_op prev ((reentrant_env prev base script n)\<lparr>en_now := t\<rparr>) op
        (store_run prev base script n adm ops)" for op
    by (simp add: store_run_def store_step_def)
  have "st_stash (store_run prev base script n adm (ops @ [(t, OpTeardown reason)])) = []"
    "st_stash (store_run prev base script n adm (ops @ [(t, OpClear)])) = []"
    by (simp_all add: last teardown_empties)
  then show ?thesis
    using ok [OF refl, of ops] ok [OF refl, of "ops @ [(t, OpTeardown reason)]"]
      ok [OF refl, of "ops @ [(t, OpClear)]"]
    by (simp add: steers_ok_def Let_def stash_tokens_def)
qed

section \<open>Late settlements\<close>

text \<open>Two states of a session that no reader of its outcome tells apart.\<close>

definition same_lane :: "stored_session \<Rightarrow> stored_session \<Rightarrow> bool" where
  "same_lane s s' \<longleftrightarrow>
     ss_lifecycle s' = ss_lifecycle s \<and> ss_report s' = ss_report s \<and>
     ss_retained s' = ss_retained s \<and> ss_error s' = ss_error s \<and>
     ss_stop_reason s' = ss_stop_reason s \<and> ss_finished_at s' = ss_finished_at s"

lemma same_lane_refl [simp]: "same_lane s s"
  by (simp add: same_lane_def)

lemma same_lane_trans: "same_lane a b \<Longrightarrow> same_lane b c \<Longrightarrow> same_lane a c"
  by (simp add: same_lane_def)

lemma session_of_enforce [simp]: "session_of (enforce_settled_run_invariant i st) j = session_of st j"
  by (simp add: enforce_settled_run_invariant_def session_of_def split: option.split)

lemma session_of_drop_traces [simp]: "session_of (drop_terminal_traces i st) j = session_of st j"
  by (simp add: drop_terminal_traces_def session_of_def)

lemma reconcile_session_of:
  "reconcile_terminal_record e s st = (s', st') \<Longrightarrow>
     same_lane s s' \<and> (\<forall>j. session_of st' j = session_of st j)"
  by (auto simp: reconcile_terminal_record_def same_lane_def split: if_splits option.splits)

text \<open>What \<open>mutate\<close> leaves of a change that keeps the session.\<close>

lemma mutate_then_session:
  assumes "session_of st i = Some s0" "session_of (post (fn st)) i = Some s"
  shows "\<exists>s'. session_of (mutate_then e i fn post st) i = Some s' \<and> same_lane s s'"
proof -
  obtain s' st3 where rec: "reconcile_terminal_record e s (post (fn st)) = (s', st3)" by fastforce
  then have "same_lane s (s'\<lparr>ss_last_activity_at := en_now e\<rparr>)"
    using reconcile_session_of [OF rec] by (simp add: same_lane_def)
  then show ?thesis using assms rec by (simp add: mutate_then_def Let_def)
qed

lemma mutate_session_session:
  assumes "session_of st i = Some s"
  shows "\<exists>s'. session_of (mutate_session e i f st) i = Some s' \<and> same_lane (f s) s'"
  using mutate_then_session [of st i s "\<lambda>st. st" "modify_session i f" "f s" e] assms
  by (simp add: mutate_session_def mutate_def)

lemma mutate_then_other:
  assumes "j \<noteq> i" "session_of (post (fn st)) j = session_of st j"
  shows "session_of (mutate_then e i fn post st) j = session_of st j"
proof -
  have "session_of (snd (reconcile_terminal_record e s (post (fn st)))) j = session_of st j" for s
    using reconcile_session_of [of e s "post (fn st)"] assms by (metis prod.collapse)
  then show ?thesis
    using assms
    by (auto simp: mutate_then_def Let_def split: option.split prod.split) (metis snd_conv)+
qed

lemma mutate_session_other: "j \<noteq> i \<Longrightarrow> session_of (mutate_session e i f st) j = session_of st j"
  by (simp add: mutate_session_def mutate_def mutate_then_other)

lemma cancel_ask_session [simp]: "session_of (snd (cancel_ask_internal e i r k st)) j = session_of st j"
  by (simp add: cancel_ask_internal_def Let_def log_call_def session_of_def split: option.split)

lemma settle_session [simp]: "session_of (settle_cancels_asks e i r st) j = session_of st j"
proof -
  have "session_of (fold (\<lambda>k st. if k \<noteq> i \<and> is_session_under st k i
      then snd (cancel_ask_internal e k r False st) else st) ks st) j = session_of st j" for ks st
    by (induction ks arbitrary: st) simp_all
  moreover have "session_of (st\<lparr>st_terminal_handoffs := a, st_release_faults := b\<rparr>) j = session_of st j" for a b
    by (simp add: session_of_def)
  ultimately show ?thesis
    by (simp add: settle_cancels_asks_def Let_def cancel_descendant_asks_def)
qed

lemma drop_stashed_session:
  assumes "session_of st i = Some s"
  shows "\<exists>s'. session_of (drop_stashed_followups e k r st) i = Some s' \<and> same_lane s s'"
proof -
  have base: "session_of (st\<lparr>st_stash := a\<rparr>) i = Some s"
    "session_of (st\<lparr>st_stash := a, st_steer_log := b\<rparr>) i = Some s" for a b
    using assms by (simp_all add: session_of_def)
  show ?thesis
  proof (cases "k = i")
    case True
    have lane: "same_lane s (push_report o' tx s)" for o' tx
      by (simp add: same_lane_def push_report_def push_entry_def Let_def)
    have "\<exists>s'. session_of (mutate_session e k (push_report (en_options e) tx)
        (st\<lparr>st_stash := a, st_steer_log := b\<rparr>)) i = Some s' \<and> same_lane s s'" for tx a b
      using mutate_session_session [OF base(2) [of b a], of e "push_report (en_options e) tx"] lane True
      by (meson same_lane_trans)
    then show ?thesis using base by (simp add: drop_stashed_followups_def Let_def)
  next
    case False
    then show ?thesis
      using base mutate_session_other [of i k] by (simp add: drop_stashed_followups_def Let_def)
  qed
qed

lemma session_of_frames [simp]:
  "session_of (clear_in_flight k st) i = session_of st i"
  "session_of (st\<lparr>st_pending_failures := pf\<rparr>) i = session_of st i"
  "session_of (log_call c st) i = session_of st i"
  by (simp_all add: clear_in_flight_def session_of_def log_call_def)


definition sample_env :: env where
  "sample_env =
     \<lparr>en_options = \<lparr>op_max_completed = 2, op_max_retained = 2, op_max_entries = 3,
        op_max_entry_chars = 9\<rparr>, en_now = 5, en_invalidate_throws = (\<lambda>_. False),
      en_reject_throws = (\<lambda>_. False), en_react = (\<lambda>h st. st)\<rparr>"

definition interrupted_worker :: session_store where
  "interrupted_worker =
     foldl (store_step (\<lambda>n a. None) sample_env) (create_session_store None)
       [(0, OpStart ''w'' sample_input), (1, OpRegisterInterrupt ''w'' 7), (2, OpMarkRunning ''w''),
        (3, OpInterrupt ''w'')]"


section \<open>Follow-ups left in the queue\<close>

text \<open>
  A retained worker that finished, resumed while the only slot of the admission queue is
  taken, so that its follow-up waits in the queue.
\<close>

definition resume_queued :: "(int \<times> store_op) list" where
  "resume_queued =
     [(0, OpStart ''w'' (sample_input\<lparr>si_retained := Some True\<rparr>)),
      (1, OpRegisterClose ''w'' 1), (1, OpRegisterInterrupt ''w'' 2), (1, OpRegisterFollowup ''w'' 3),
      (2, OpMarkRunning ''w''), (3, OpComplete ''w'' ''report'' True None),
      (4, OpResume ''w'' ''go on'' 9)]"

definition full_queue :: admission_queue where
  "full_queue = (create_admission_queue (Some (NumInt 1)))\<lparr>adm_in_flight := [''other'']\<rparr>"

definition store_after :: "(int \<times> store_op) list \<Rightarrow> session_store" where
  "store_after ops =
     foldl (store_step (\<lambda>n a. None) sample_env) (create_session_store (Some full_queue))
       (resume_queued @ ops)"

definition lane_of :: "session_store \<Rightarrow> string \<Rightarrow> worker_lifecycle option" where
  "lane_of st i = map_option ss_lifecycle (session_of st i)"


section \<open>Pruning\<close>

lemma delete_update: "AList.delete k (AList.update k v m) = AList.delete k m"
  by (induction m) (auto simp: AList.delete_eq)

lemma mutate_session_delete:
  "AList.delete i (st_sessions (mutate_session e i f st)) = AList.delete i (st_sessions st)"
proof -
  have m: "AList.delete i (st_sessions (modify_session i g st')) = AList.delete i (st_sessions st')" for g st'
    by (simp add: modify_session_def put_session_def delete_update split: option.split)
  have en: "st_sessions (enforce_settled_run_invariant i st') = st_sessions st'" for st'
    by (simp add: enforce_settled_run_invariant_def split: option.split)
  have r: "st_sessions st2 = st_sessions st1" if "reconcile_terminal_record e s st1 = (s', st2)" for s s' st1 st2
    using that by (auto simp: reconcile_terminal_record_def drop_terminal_traces_def split: if_splits)
  show ?thesis
    by (auto simp: mutate_session_def mutate_def mutate_then_def Let_def m en put_session_def delete_update
        split: option.split prod.split dest: r)
qed

lemma mutate_session_pins: "st_pin_counts (mutate_session e i f st) = st_pin_counts st"
proof -
  have m: "st_pin_counts (modify_session j g st') = st_pin_counts st'" for j g st'
    by (simp add: modify_session_def put_session_def split: option.split)
  have en: "st_pin_counts (enforce_settled_run_invariant i st') = st_pin_counts st'" for st'
    by (simp add: enforce_settled_run_invariant_def split: option.split)
  have r: "st_pin_counts st2 = st_pin_counts st1" if "reconcile_terminal_record e s st1 = (s', st2)" for s s' st1 st2
    using that by (auto simp: reconcile_terminal_record_def drop_terminal_traces_def split: if_splits)
  show ?thesis
    by (auto simp: mutate_session_def mutate_def mutate_then_def Let_def m en put_session_def
        split: option.split prod.split dest: r)
qed

lemma release_handles_frame:
  "AList.delete i (st_sessions (release_handles e i st)) = AList.delete i (st_sessions st)"
  "st_pin_counts (release_handles e i st) = st_pin_counts st"
proof -
  have c: "st_sessions (snd (cancel_ask_internal e i r k st)) = st_sessions st"
    "st_pin_counts (snd (cancel_ask_internal e i r k st)) = st_pin_counts st" for r k st
    by (simp_all add: cancel_ask_internal_def Let_def log_call_def split: option.split)
  have h: "st_sessions (drop_handles i (detach_close i st)) = st_sessions st"
    "st_pin_counts (drop_handles i (detach_close i st)) = st_pin_counts st" for st
    by (simp_all add: drop_handles_def detach_close_def log_call_def split: option.split)
  have d: "AList.delete i (st_sessions (drop_stashed_followups e i r st)) = AList.delete i (st_sessions st)"
    "st_pin_counts (drop_stashed_followups e i r st) = st_pin_counts st" for r st
    by (simp_all add: drop_stashed_followups_def Let_def mutate_session_delete mutate_session_pins)
  show "AList.delete i (st_sessions (release_handles e i st)) = AList.delete i (st_sessions st)"
    "st_pin_counts (release_handles e i st) = st_pin_counts st"
    by (simp_all add: release_handles_def d h c)
qed

text \<open>Dropping a list of sessions, with or without a tombstone, takes out exactly those.\<close>

lemma fold_drop_sessions:
  assumes "\<And>s st. st_sessions (f s st) = AList.delete (ss_id s) (st_sessions st) \<and>
    st_pin_counts (f s st) = st_pin_counts st"
  shows "st_sessions (fold f ss st) = filter (\<lambda>p. fst p \<notin> ss_id ` set ss) (st_sessions st) \<and>
    st_pin_counts (fold f ss st) = st_pin_counts st"
proof (induction ss arbitrary: st)
  case Nil
  then show ?case by simp
next
  case (Cons s ss)
  have "filter (\<lambda>p. fst p \<notin> ss_id ` set ss) (AList.delete (ss_id s) (st_sessions st)) =
      filter (\<lambda>p. fst p \<notin> ss_id ` set (s # ss)) (st_sessions st)"
    by (simp add: AList.delete_eq split_def) (rule filter_cong, auto)
  then show ?case using Cons.IH [of "f s st"] assms by simp
qed

lemma prune_completed_sessions:
  "st_sessions (prune_completed e st) =
     filter (\<lambda>p. fst p \<notin> ss_id ` set (sessions_to_prune e st)) (st_sessions st) \<and>
   st_pin_counts (prune_completed e st) = st_pin_counts st"
  unfolding prune_completed_def
  by (rule fold_drop_sessions) (simp add: drop_session_def remove_session_def release_handles_frame)

lemma prune_retained_sessions:
  "st_sessions (prune_retained e st) =
     filter (\<lambda>p. fst p \<notin> ss_id ` set (sessions_to_evict e st)) (st_sessions st) \<and>
   st_pin_counts (prune_retained e st) = st_pin_counts st"
  unfolding prune_retained_def
  by (rule fold_drop_sessions)
    (simp add: evict_session_def remove_session_def record_eviction_def Let_def log_call_def
      release_handles_frame)

text \<open>Dropping the oldest in excess of a cap.\<close>

lemma oldest_excess:
  fixes k :: "'a \<Rightarrow> 'b::linorder"
  assumes "distinct xs" and D_def: "D = set (take (length xs - mx) (sort_key k xs))"
  shows "length (filter (\<lambda>x. x \<notin> D) xs) \<le> mx"
    "D \<subseteq> set xs" "\<And>d r. d \<in> D \<Longrightarrow> r \<in> set xs \<Longrightarrow> r \<notin> D \<Longrightarrow> k d \<le> k r"
proof -
  let ?ys = "sort_key k xs" and ?n = "length xs - mx"
  have d: "distinct ?ys" using assms(1) by simp
  have "filter (\<lambda>x. x \<notin> D) ?ys = drop ?n ?ys"
  proof -
    have "filter (\<lambda>x. x \<notin> D) (take ?n ?ys) = []" unfolding D_def by (simp add: filter_empty_conv)
    moreover have "filter (\<lambda>x. x \<notin> D) (drop ?n ?ys) = drop ?n ?ys"
      using set_take_disj_set_drop_if_distinct [OF d, of ?n ?n] unfolding D_def
      by (intro filter_True) auto
    ultimately have "filter (\<lambda>x. x \<notin> D) (take ?n ?ys @ drop ?n ?ys) = drop ?n ?ys"
      by (simp only: filter_append append_Nil)
    then show ?thesis by (simp only: append_take_drop_id)
  qed
  then have "length (filter (\<lambda>x. x \<notin> D) ?ys) \<le> mx" by simp
  moreover have "mset (filter (\<lambda>x. x \<notin> D) ?ys) = mset (filter (\<lambda>x. x \<notin> D) xs)"
    by (simp add: mset_filter)
  ultimately show "length (filter (\<lambda>x. x \<notin> D) xs) \<le> mx" by (metis size_mset)
  show "D \<subseteq> set xs" unfolding D_def using set_take_subset [of ?n ?ys] by simp
  fix d r assume dr: "d \<in> D" "r \<in> set xs" "r \<notin> D"
  then have "r \<in> set (drop ?n ?ys)"
    unfolding D_def by (metis Un_iff append_take_drop_id set_append set_sort)
  moreover have "sorted (map k (take ?n ?ys @ drop ?n ?ys))" by simp
  ultimately show "k d \<le> k r"
    using dr(1) unfolding D_def by (auto simp: sorted_append simp del: append_take_drop_id)
qed

lemma sessions_ok_ids:
  "sessions_ok opts X ss \<Longrightarrow> map ss_id (map snd ss) = map fst ss"
  by (auto simp: sessions_ok_def)

lemma sessions_ok_distinct:
  assumes "sessions_ok opts X ss"
  shows "distinct (map snd ss)" and "inj_on ss_id (set (map snd ss))"
proof -
  have "distinct (map ss_id (map snd ss))"
    using assms sessions_ok_ids [OF assms] by (simp only: sessions_ok_def)
  then show "distinct (map snd ss)" "inj_on ss_id (set (map snd ss))"
    unfolding distinct_map [of ss_id] by blast+
qed

text \<open>Of the sessions satisfying a test, those that survive the removal of some of them by id.\<close>

lemma surviving:
  assumes ok: "sessions_ok opts X ss" and D: "D \<subseteq> set (map snd ss)"
  shows "map snd (filter (\<lambda>p. fst p \<notin> ss_id ` D) ss) = filter (\<lambda>s. s \<notin> D) (map snd ss)"
proof -
  have inj: "inj_on ss_id (set (map snd ss))"
    by (rule sessions_ok_distinct [OF ok])
  have "(fst p \<notin> ss_id ` D) = (snd p \<notin> D)" if "p \<in> set ss" for p
  proof -
    have "ss_id (snd p) = fst p" "snd p \<in> set (map snd ss)"
      using ok that by (auto simp: sessions_ok_def)
    then show ?thesis using inj_on_image_mem_iff [OF inj _ D, of "snd p"] by simp
  qed
  then have "filter (\<lambda>p. fst p \<notin> ss_id ` D) ss = filter (\<lambda>p. snd p \<notin> D) ss"
    by (intro filter_cong) simp_all
  then show ?thesis by (simp add: filter_map comp_def)
qed

lemma is_pinned_cong: "st_pin_counts st' = st_pin_counts st \<Longrightarrow> is_pinned st' = is_pinned st"
  by (simp add: is_pinned_def fun_eq_iff)

definition evictable :: "session_store \<Rightarrow> stored_session \<Rightarrow> bool" where
  "evictable st s \<longleftrightarrow> is_open_retained s \<and> \<not> is_pinned st (ss_id s)"

lemma pruning_sessions:
  assumes "sessions_ok opts X (st_sessions st)"
  shows "map snd (st_sessions (prune_completed e st)) =
      filter (\<lambda>s. s \<notin> set (sessions_to_prune e st)) (map snd (st_sessions st))"
    and "set (sessions_to_prune e st) \<subseteq> {s. is_prunable_completed st s}"
    and "length (filter (is_prunable_completed (prune_completed e st))
      (map snd (st_sessions (prune_completed e st)))) \<le> op_max_completed (en_options e)"
    and "map snd (st_sessions (prune_retained e st)) =
      filter (\<lambda>s. s \<notin> set (sessions_to_evict e st)) (map snd (st_sessions st))"
    and "set (sessions_to_evict e st) \<subseteq> {s. evictable st s}"
    and "length (filter (evictable (prune_retained e st))
      (map snd (st_sessions (prune_retained e st)))) \<le> op_max_retained (en_options e)"
proof -
  let ?all = "map snd (st_sessions st)"
  let ?fin = "filter (is_prunable_completed st) ?all"
  let ?ret = "filter (evictable st) ?all"
  have d: "distinct ?fin" "distinct ?ret"
    using sessions_ok_distinct(1) [OF assms] by simp_all
  have ret: "sessions_to_evict e st =
      take (length ?ret - op_max_retained (en_options e)) (sort_key ss_last_activity_at ?ret)"
  proof -
    have "evictable st = (\<lambda>s. is_open_retained s \<and> \<not> is_pinned st (ss_id s))"
      by (simp add: evictable_def fun_eq_iff)
    then show ?thesis by (simp only: sessions_to_evict_def Let_def length_sort)
  qed
  have prune: "set (sessions_to_prune e st) \<subseteq> set ?fin \<and>
      length (filter (\<lambda>s. s \<notin> set (sessions_to_prune e st)) ?fin) \<le> op_max_completed (en_options e)"
  proof (cases "op_max_completed (en_options e) = 0")
    case True
    then show ?thesis by (simp add: sessions_to_prune_def Let_def filter_empty_conv)
  next
    case False
    then have "sessions_to_prune e st =
        take (length ?fin - op_max_completed (en_options e)) (sort_key finished_at ?fin)"
      by (simp add: sessions_to_prune_def Let_def)
    then show ?thesis
      using oldest_excess(1,2) [OF d(1) refl, of "op_max_completed (en_options e)" finished_at] by simp
  qed
  have evict: "set (sessions_to_evict e st) \<subseteq> set ?ret \<and>
      length (filter (\<lambda>s. s \<notin> set (sessions_to_evict e st)) ?ret) \<le> op_max_retained (en_options e)"
    using oldest_excess(1,2) [OF d(2) refl, of "op_max_retained (en_options e)" ss_last_activity_at] ret by simp
  show p: "map snd (st_sessions (prune_completed e st)) =
      filter (\<lambda>s. s \<notin> set (sessions_to_prune e st)) ?all"
    using surviving [OF assms, of "set (sessions_to_prune e st)"] prune prune_completed_sessions [of e st]
    by (metis (no_types, lifting) filter_is_subset subset_trans)
  show r: "map snd (st_sessions (prune_retained e st)) =
      filter (\<lambda>s. s \<notin> set (sessions_to_evict e st)) ?all"
    using surviving [OF assms, of "set (sessions_to_evict e st)"] evict prune_retained_sessions [of e st]
    by (metis (no_types, lifting) filter_is_subset subset_trans)
  show "set (sessions_to_prune e st) \<subseteq> {s. is_prunable_completed st s}" using prune by auto
  show "set (sessions_to_evict e st) \<subseteq> {s. evictable st s}" using evict by auto
  have "is_prunable_completed (prune_completed e st) = is_prunable_completed st"
    using is_pinned_cong [of "prune_completed e st" st] prune_completed_sessions [of e st]
    by (simp add: is_prunable_completed_def fun_eq_iff)
  then show "length (filter (is_prunable_completed (prune_completed e st))
      (map snd (st_sessions (prune_completed e st)))) \<le> op_max_completed (en_options e)"
    using prune p by (simp add: conj_commute)
  have "evictable (prune_retained e st) = evictable st"
    using is_pinned_cong [of "prune_retained e st" st] prune_retained_sessions [of e st]
    by (simp add: evictable_def fun_eq_iff)
  then show "length (filter (evictable (prune_retained e st))
      (map snd (st_sessions (prune_retained e st)))) \<le> op_max_retained (en_options e)"
    using evict r by (simp add: conj_commute)
qed

text \<open>
  Pruning keeps what is still needed. Pruning finished sessions removes only sessions that
  are not live, not resumable and not pinned by a waiter, and leaves at most \<open>maxCompleted\<close> of
  them; pruning retained sessions removes only resumable sessions no waiter has pinned, the least
  recently active first, and leaves at most \<open>maxRetained\<close>. Every other session stays, unchanged.
\<close>

theorem pruning_keeps_needed:
  "let st = store_run prev base script n adm ops;
       finished = prune_completed e st; retained = prune_retained e st
   in map snd (st_sessions finished) =
        filter (\<lambda>s. s \<notin> set (sessions_to_prune e st)) (map snd (st_sessions st)) \<and>
      set (sessions_to_prune e st) \<subseteq> {s. is_prunable_completed st s} \<and>
      length (filter (is_prunable_completed finished) (map snd (st_sessions finished)))
        \<le> op_max_completed (en_options e) \<and>
      map snd (st_sessions retained) =
        filter (\<lambda>s. s \<notin> set (sessions_to_evict e st)) (map snd (st_sessions st)) \<and>
      set (sessions_to_evict e st) \<subseteq> {s. evictable st s} \<and>
      sorted (map ss_last_activity_at (sessions_to_evict e st)) \<and>
      length (filter (evictable retained) (map snd (st_sessions retained)))
        \<le> op_max_retained (en_options e)"
proof -
  have ok: "sessions_ok (en_options base) {} (st_sessions (store_run prev base script n adm ops))"
    using store_run_ok [of base prev script n adm ops] by (simp add: store_ok_def)
  have srt: "sorted (map ss_last_activity_at (sessions_to_evict e st))" for st
    by (simp add: sessions_to_evict_def Let_def take_map [symmetric] sorted_wrt_take)
  show ?thesis
    unfolding Let_def by (intro conjI pruning_sessions [OF ok, of e] srt)
qed

end
