(* ===== verification/ShellSegments.thy ===== *)
theory ShellSegments
  imports JsPrelude
begin

text \<open>
  Splitting a shell command into the commands it chains (\<open>src/shell/command-segments.ts\<close>), which
  the permission layer classifies and grants one by one. The loop over the command is \<open>scan\<close>:
  one character at a time with the character before it and the rest, the closure's variables
  in a record. The code resolves a piece, which may split a group again, as soon as it is
  complete; here the scan collects the pieces and \<open>split_chained_command\<close> resolves them.
\<close>

section \<open>Characters\<close>

definition at_char :: "string \<Rightarrow> nat \<Rightarrow> char \<Rightarrow> bool" where
  "at_char s i c \<longleftrightarrow> js_at s i = Some c"

definition is_blank :: "char \<Rightarrow> bool" where
  "is_blank c \<longleftrightarrow> c = CHR '' '' \<or> c = tabchar"

definition is_quote_char :: "char \<Rightarrow> bool" where
  "is_quote_char c \<longleftrightarrow> c = dquote \<or> c = squote \<or> c = backtick"

definition is_comment_start :: "char option \<Rightarrow> char \<Rightarrow> bool" where
  "is_comment_start prev ch \<longleftrightarrow>
     ch = CHR ''#'' \<and>
     (case prev of
        None \<Rightarrow> True
      | Some p \<Rightarrow> List.member [CHR '' '', tabchar, carriage, newline, CHR '';'', CHR ''&'',
                                CHR ''|'', CHR ''(''] p)"

section \<open>Heredocs\<close>

text \<open>
  \<open>parseHeredocOpener\<close> on the command from the opener on and the character before it: the
  marker, the length of the opening line, and whether \<open><<-\<close> strips tabs.
\<close>

record heredoc_opener =
  ho_marker :: string
  ho_line_end :: nat
  ho_strip_tabs :: bool

definition strip_cr :: "string \<Rightarrow> string" where
  "strip_cr s = (if ends_with s [carriage] then butlast s else s)"

text \<open>The marker word after the opener, the dash and the blanks, and the quote it may open with.\<close>

definition marker_word :: "bool \<Rightarrow> string \<Rightarrow> string" where
  "marker_word stripTabs rest = dropWhile is_blank (drop (if stripTabs then 3 else 2) rest)"

definition marker_quote :: "string \<Rightarrow> char option" where
  "marker_quote word =
     (if at_char word 0 squote then Some squote
      else if at_char word 0 dquote then Some dquote else None)"

definition in_marker :: "char option \<Rightarrow> char \<Rightarrow> bool" where
  "in_marker quote c \<longleftrightarrow>
     c \<noteq> newline \<and> Some c \<noteq> quote \<and> \<not> (quote = None \<and> is_blank c)"

text \<open>The marker's text and what follows it, past its closing quote.\<close>

definition split_marker :: "string \<Rightarrow> string \<times> string" where
  "split_marker word =
     (let quote = marker_quote word;
          word1 = (if quote = None then word else tl word);
          after = dropWhile (in_marker quote) word1
      in (takeWhile (in_marker quote) word1,
          if quote \<noteq> None \<and> after \<noteq> [] \<and> Some (hd after) = quote then tl after else after))"

definition parse_heredoc_opener :: "char option \<Rightarrow> string \<Rightarrow> heredoc_opener option" where
  "parse_heredoc_opener prev rest =
     (if \<not> starts_with rest ''<<'' then None
      else if at_char rest 2 (CHR ''<'') then None
      else if prev = Some (CHR ''<'') then None
      else
        (let stripTabs = at_char rest 2 (CHR ''-'');
             (marker, after) = split_marker (marker_word stripTabs rest);
             lineRest = dropWhile (\<lambda>c. c \<noteq> newline) after
         in Some \<lparr>ho_marker = strip_cr marker, ho_line_end = length rest - length lineRest,
                  ho_strip_tabs = stripTabs\<rparr>))"

definition is_heredoc_terminator :: "string \<Rightarrow> string \<Rightarrow> bool \<Rightarrow> bool" where
  "is_heredoc_terminator line marker stripTabs \<longleftrightarrow>
     (let noCR = strip_cr line
      in (if stripTabs then dropWhile (\<lambda>c. c = tabchar) noCR else noCR) = marker)"

text \<open>The line the newline at the end of the text completed.\<close>

definition completed_line :: "string \<Rightarrow> string" where
  "completed_line s =
     (let ls = split_char newline s
      in if length ls < 2 then [] else ls ! (length ls - 2))"

section \<open>Redirects and groups\<close>

definition is_redirect_char :: "char \<Rightarrow> bool" where
  "is_redirect_char c \<longleftrightarrow> c = CHR ''>'' \<or> c = CHR ''<''"

definition ends_with_dangling_redirect :: "string \<Rightarrow> bool" where
  "ends_with_dangling_redirect txt =
     (case rev (trim_end txt) of
        [] \<Rightarrow> False
      | c # before_c \<Rightarrow>
          is_redirect_char c \<or>
          (c = CHR ''&'' \<and> before_c \<noteq> [] \<and> is_redirect_char (hd before_c)))"

definition previous_non_space :: "string \<Rightarrow> char option" where
  "previous_non_space current = (case rev (trim_end current) of [] \<Rightarrow> None | c # _ \<Rightarrow> Some c)"

definition is_redirect_ampersand :: "char option \<Rightarrow> char option \<Rightarrow> bool" where
  "is_redirect_ampersand prev nxt \<longleftrightarrow>
     nxt = Some (CHR ''>'') \<or> prev = Some (CHR ''>'') \<or> prev = Some (CHR ''<'')"

text \<open>Whether the depth first comes back to zero at the last character.\<close>

fun group_closes_at_end :: "char option \<Rightarrow> nat \<Rightarrow> string \<Rightarrow> bool" where
  "group_closes_at_end q depth [] = False"
| "group_closes_at_end (Some q) depth (ch # s) =
     group_closes_at_end (if ch = q then None else Some q) depth s"
| "group_closes_at_end None depth (ch # s) =
     (if is_quote_char ch then group_closes_at_end (Some ch) depth s
      else if ch = CHR ''('' then group_closes_at_end None (Suc depth) s
      else if ch = CHR '')'' then
        (if depth - 1 = 0 then s = [] else group_closes_at_end None (depth - 1) s)
      else group_closes_at_end None depth s)"

definition unwrap_group :: "string \<Rightarrow> string option" where
  "unwrap_group segment =
     (if \<not> at_char segment 0 (CHR ''('') \<or> \<not> ends_with segment '')'' then None
      else if group_closes_at_end None 0 segment then Some (butlast (tl segment)) else None)"

section \<open>The scan\<close>

record scan_state =
  sc_pieces :: "string list"
  sc_current :: string
  sc_quote :: "char option"
  sc_heredoc :: "(string \<times> bool) option"
  sc_paren_depth :: nat
  sc_arith_depth :: nat
  sc_comment :: bool

definition scan_start :: scan_state where
  "scan_start = \<lparr>sc_pieces = [], sc_current = [], sc_quote = None, sc_heredoc = None,
     sc_paren_depth = 0, sc_arith_depth = 0, sc_comment = False\<rparr>"

definition keep :: "string \<Rightarrow> scan_state \<Rightarrow> scan_state" where
  "keep s st = st\<lparr>sc_current := sc_current st @ s\<rparr>"

definition push_piece :: "scan_state \<Rightarrow> scan_state" where
  "push_piece st = st\<lparr>sc_pieces := sc_pieces st @ [sc_current st], sc_current := []\<rparr>"

text \<open>A chain operator: the end of a command, or white space before a redirect's target.\<close>

definition end_command :: "scan_state \<Rightarrow> scan_state" where
  "end_command st =
     (if ends_with_dangling_redirect (sc_current st)
      then st\<lparr>sc_current := trim_end (sc_current st) @ '' ''\<rparr>
      else push_piece st)"

definition scan_heredoc_body :: "char \<Rightarrow> string \<Rightarrow> bool \<Rightarrow> scan_state \<Rightarrow> scan_state" where
  "scan_heredoc_body ch marker strip st =
     (let st1 = keep [ch] st
      in if ch = newline \<and> is_heredoc_terminator (completed_line (sc_current st1)) marker strip
         then st1\<lparr>sc_heredoc := None\<rparr> else st1)"

text \<open>An unquoted character that is no continuation and opens no heredoc.\<close>

definition scan_plain :: "char \<Rightarrow> string \<Rightarrow> scan_state \<Rightarrow> scan_state \<times> nat" where
  "scan_plain ch rest st =
     (let nxt = js_at rest 0
      in if ch = CHR ''('' \<and> \<not> sc_comment st then
           (keep [ch] (st\<lparr>sc_arith_depth :=
                             (if nxt = Some (CHR ''('') then Suc (sc_arith_depth st)
                              else sc_arith_depth st),
                          sc_paren_depth := Suc (sc_paren_depth st)\<rparr>), 0)
         else if ch = CHR '')'' \<and> \<not> sc_comment st then
           (keep [ch] (st\<lparr>sc_arith_depth :=
                             (if nxt = Some (CHR '')'') then sc_arith_depth st - 1
                              else sc_arith_depth st),
                          sc_paren_depth := sc_paren_depth st - 1\<rparr>), 0)
         else if sc_paren_depth st > 0 then (keep [ch] st, 0)
         else if (ch = CHR ''&'' \<and> nxt = Some (CHR ''&'')) \<or>
                 (ch = CHR ''|'' \<and> nxt = Some (CHR ''|'')) then (end_command st, 1)
         else if ch = CHR ''&'' \<and> is_redirect_ampersand (previous_non_space (sc_current st)) nxt
         then (keep [ch] st, 0)
         else if ch = CHR ''|'' \<or> ch = CHR '';'' \<or> ch = newline \<or> ch = CHR ''&''
         then (end_command st, 0)
         else (keep [ch] st, 0))"

definition note_comment :: "char option \<Rightarrow> char \<Rightarrow> scan_state \<Rightarrow> scan_state" where
  "note_comment prev ch st =
     (let st1 = (if ch = newline then st\<lparr>sc_comment := False\<rparr> else st)
      in if \<not> sc_comment st1 \<and> sc_arith_depth st1 = 0 \<and> is_comment_start prev ch
         then st1\<lparr>sc_comment := True\<rparr> else st1)"

definition scan_unquoted :: "char option \<Rightarrow> char \<Rightarrow> string \<Rightarrow> scan_state \<Rightarrow> scan_state \<times> nat" where
  "scan_unquoted prev ch rest st =
     (let st1 = note_comment prev ch st
      in (case (if \<not> sc_comment st1 \<and> sc_arith_depth st1 = 0 then parse_heredoc_opener prev (ch # rest)
                else None) of
            Some opener \<Rightarrow>
              ((keep (take (ho_line_end opener) (ch # rest)) st1)
                 \<lparr>sc_heredoc := Some (ho_marker opener, ho_strip_tabs opener)\<rparr>,
               ho_line_end opener - 1)
          | None \<Rightarrow> scan_plain ch rest st1))"

text \<open>A backslash before a line break elides both; the number of characters it takes along.\<close>

definition continuation_length :: "char \<Rightarrow> string \<Rightarrow> nat option" where
  "continuation_length ch rest =
     (if ch = backslash \<and> at_char rest 0 newline then Some 1
      else if ch = backslash \<and> at_char rest 0 carriage
      then Some (if at_char rest 1 newline then 2 else 1)
      else None)"

text \<open>One turn of the loop: the new state, and how many further characters it consumed.\<close>

definition scan_char :: "char option \<Rightarrow> char \<Rightarrow> string \<Rightarrow> scan_state \<Rightarrow> scan_state \<times> nat" where
  "scan_char prev ch rest st =
     (case sc_heredoc st of
        Some (marker, strip) \<Rightarrow> (scan_heredoc_body ch marker strip st, 0)
      | None \<Rightarrow>
          (case sc_quote st of
             Some q \<Rightarrow> ((keep [ch] st)\<lparr>sc_quote := (if ch = q then None else Some q)\<rparr>, 0)
           | None \<Rightarrow>
               if is_quote_char ch then ((keep [ch] st)\<lparr>sc_quote := Some ch\<rparr>, 0)
               else (case continuation_length ch rest of
                       Some n \<Rightarrow> (st, n)
                     | None \<Rightarrow> scan_unquoted prev ch rest st)))"

function scan :: "char option \<Rightarrow> string \<Rightarrow> scan_state \<Rightarrow> scan_state" where
  "scan prev [] st = st"
| "scan prev (ch # rest) st =
     (case scan_char prev ch rest st of
        (st', n) \<Rightarrow> scan (Some (last (ch # take n rest))) (drop n rest) st')"
  by pat_completeness auto
termination
  by (relation "measure (\<lambda>(prev, s, st). length s)") auto

definition raw_pieces :: "string \<Rightarrow> string list" where
  "raw_pieces command =
     (let st = scan None command scan_start in sc_pieces st @ [sc_current st])"

section \<open>What a turn keeps\<close>

text \<open>Everything the scan holds, in order.\<close>

definition held :: "scan_state \<Rightarrow> string" where
  "held st = concat (sc_pieces st) @ sc_current st"

lemma held_simps [simp]:
  "held (keep s st) = held st @ s"
  "held (push_piece st) = held st"
  "held (st\<lparr>sc_quote := q\<rparr>) = held st"
  "held (st\<lparr>sc_heredoc := h\<rparr>) = held st"
  "held (st\<lparr>sc_paren_depth := n\<rparr>) = held st"
  "held (st\<lparr>sc_arith_depth := n\<rparr>) = held st"
  "held (st\<lparr>sc_comment := b\<rparr>) = held st"
  "held (note_comment prev ch st) = held st"
  "held (scan_heredoc_body ch marker strip st) = held st @ [ch]"
  by (simp_all add: held_def keep_def push_piece_def note_comment_def scan_heredoc_body_def Let_def)

lemma length_trim_end: "length (trim_end s) \<le> length s"
  using length_dropWhile_le [of is_ws "rev s"] by (simp add: trim_end_def)

lemma length_trim: "length (trim s) \<le> length s"
proof -
  have "length (trim s) \<le> length (trim_start s)" by (simp add: trim_def length_trim_end)
  also have "\<dots> \<le> length s" by (simp add: trim_start_def length_dropWhile_le)
  finally show ?thesis .
qed

lemma length_marker_word: "length (marker_word strip (a # b # s)) \<le> length s"
proof -
  have "length (marker_word strip (a # b # s)) \<le> length (drop (if strip then 3 else 2) (a # b # s))"
    unfolding marker_word_def by (rule length_dropWhile_le)
  also have "\<dots> \<le> length s" by simp
  finally show ?thesis .
qed

lemma length_after_marker: "length (snd (split_marker word)) \<le> length word"
proof -
  let ?q = "marker_quote word"
  let ?w = "if ?q = None then word else tl word"
  have "length (snd (split_marker word)) \<le> length (dropWhile (in_marker ?q) ?w)"
    by (simp add: split_marker_def Let_def)
  also have "\<dots> \<le> length ?w" by (rule length_dropWhile_le)
  also have "\<dots> \<le> length word" by simp
  finally show ?thesis .
qed

lemma heredoc_line_end:
  assumes "parse_heredoc_opener prev rest = Some ho"
  shows "0 < ho_line_end ho"
proof -
  obtain a b t where t: "rest = a # b # t"
    using assms by (auto simp: parse_heredoc_opener_def starts_with_iff split: if_splits)
  define strip where "strip = at_char rest 2 (CHR ''-'')"
  define after where "after = snd (split_marker (marker_word strip rest))"
  have "ho_line_end ho = length rest - length (dropWhile (\<lambda>c. c \<noteq> newline) after)"
    using assms by (auto simp: parse_heredoc_opener_def Let_def split_def after_def strip_def
        split: if_splits)
  moreover have "length (dropWhile (\<lambda>c. c \<noteq> newline) after) \<le> length t"
    using length_dropWhile_le [of "\<lambda>c. c \<noteq> newline" after]
      length_after_marker [of "marker_word strip rest"] length_marker_word [of strip a b t]
    by (simp add: after_def t)
  ultimately show ?thesis by (simp add: t)
qed

text \<open>What a turn does with the characters it consumed: holds, elides or acts on them.\<close>

definition chain_chars :: "char set" where
  "chain_chars = {CHR ''&'', CHR ''|'', CHR '';'', newline}"

definition turn_held :: "string \<Rightarrow> scan_state \<Rightarrow> scan_state \<Rightarrow> bool" where
  "turn_held eaten st st' \<longleftrightarrow>
     held st' = held st @ eaten \<or>
     (held st' = held st \<and> set eaten \<subseteq> {backslash, newline, carriage}) \<or>
     (\<exists>st1. held st1 = held st \<and> held st' = held (end_command st1) \<and> set eaten \<subseteq> chain_chars)"

lemma turn_keepI: "held st' = held st @ eaten \<Longrightarrow> turn_held eaten st st'"
  by (simp add: turn_held_def)

lemma turn_endI: "set eaten \<subseteq> chain_chars \<Longrightarrow> turn_held eaten st (end_command st)"
  unfolding turn_held_def by blast

lemma js_at_0: "js_at s 0 = Some c \<longleftrightarrow> (\<exists>t. s = c # t)"
  by (cases s) (auto simp: js_at_def)

lemma turn_scan_plain:
  "case scan_plain ch rest st of (st', n) \<Rightarrow> turn_held (ch # take n rest) st st'"
proof -
  let ?open = "ch = CHR ''('' \<and> \<not> sc_comment st" and ?close = "ch = CHR '')'' \<and> \<not> sc_comment st"
  let ?double = "(ch = CHR ''&'' \<and> js_at rest 0 = Some (CHR ''&'')) \<or>
    (ch = CHR ''|'' \<and> js_at rest 0 = Some (CHR ''|''))"
  let ?redirect = "ch = CHR ''&'' \<and>
    is_redirect_ampersand (previous_non_space (sc_current st)) (js_at rest 0)"
  let ?single = "ch = CHR ''|'' \<or> ch = CHR '';'' \<or> ch = newline \<or> ch = CHR ''&''"
  consider ?open | "\<not> ?open" ?close | "\<not> ?open" "\<not> ?close" "sc_paren_depth st > 0"
    | "\<not> ?open" "\<not> ?close" "\<not> sc_paren_depth st > 0" ?double
    | "\<not> ?open" "\<not> ?close" "\<not> sc_paren_depth st > 0" "\<not> ?double" ?redirect
    | "\<not> ?open" "\<not> ?close" "\<not> sc_paren_depth st > 0" "\<not> ?double" "\<not> ?redirect" ?single
    | "\<not> ?open" "\<not> ?close" "\<not> sc_paren_depth st > 0" "\<not> ?double" "\<not> ?redirect" "\<not> ?single"
    by argo
  then show ?thesis
  proof cases
    case 4
    then obtain t where "rest = ch # t" "ch \<in> chain_chars"
      by (auto simp: js_at_0 chain_chars_def)
    moreover have "scan_plain ch rest st = (end_command st, 1)"
      unfolding scan_plain_def Let_def using 4 by (simp only: if_False if_True simp_thms)
    ultimately show ?thesis by (simp add: turn_endI)
  next
    case 6
    then have "ch \<in> chain_chars" by (auto simp: chain_chars_def)
    moreover have "scan_plain ch rest st = (end_command st, 0)"
      unfolding scan_plain_def Let_def using 6 by (simp only: if_False if_True simp_thms)
    ultimately show ?thesis by (simp add: turn_endI)
  qed (unfold scan_plain_def Let_def, simp_all only: if_False if_True simp_thms split,
      simp_all add: turn_keepI)
qed

lemma turn_scan_unquoted:
  assumes "scan_unquoted prev ch rest st = (st', n)"
  shows "turn_held (ch # take n rest) st st'"
proof -
  let ?st1 = "note_comment prev ch st"
  have st1: "turn_held s ?st1 st' \<Longrightarrow> turn_held s st st'" for s by (simp add: turn_held_def)
  show ?thesis
  proof (cases "if \<not> sc_comment ?st1 \<and> sc_arith_depth ?st1 = 0
                then parse_heredoc_opener prev (ch # rest) else None")
    case None
    then show ?thesis
      using assms turn_scan_plain [of ch rest ?st1] st1 by (simp add: scan_unquoted_def Let_def)
  next
    case (Some ho)
    then have "parse_heredoc_opener prev (ch # rest) = Some ho" by (auto split: if_splits)
    then obtain k where "ho_line_end ho = Suc k" using heredoc_line_end gr0_implies_Suc by blast
    then show ?thesis
      using assms Some by (auto simp: scan_unquoted_def Let_def intro!: turn_keepI)
  qed
qed

lemma turn_scan_char:
  assumes "scan_char prev ch rest st = (st', n)"
  shows "turn_held (ch # take n rest) st st'"
proof -
  have cont: "turn_held (ch # take k rest) st st" if "continuation_length ch rest = Some k" for k
  proof -
    have "set (ch # take k rest) \<subseteq> {backslash, newline, carriage}"
    proof (cases rest)
      case (Cons a r)
      then show ?thesis using that
        by (cases r) (auto simp: continuation_length_def at_char_def js_at_def split: if_splits)
    qed (use that in \<open>auto simp: continuation_length_def at_char_def js_at_def split: if_splits\<close>)
    then show ?thesis by (simp add: turn_held_def)
  qed
  consider (heredoc) marker strip where "sc_heredoc st = Some (marker, strip)"
    | (quoted) q where "sc_heredoc st = None" "sc_quote st = Some q"
    | (quote) "sc_heredoc st = None" "sc_quote st = None" "is_quote_char ch"
    | (unquoted) "sc_heredoc st = None" "sc_quote st = None" "\<not> is_quote_char ch"
    by (cases "sc_heredoc st"; cases "sc_quote st") auto
  then show ?thesis
  proof cases
    case unquoted
    then show ?thesis
      using assms cont turn_scan_unquoted
      by (cases "continuation_length ch rest") (auto simp: scan_char_def)
  qed (use assms in \<open>auto simp: scan_char_def intro!: turn_keepI\<close>)
qed

text \<open>Whatever no turn can lose, no scan can lose.\<close>

lemma scan_rule:
  assumes "\<And>eaten st st'. turn_held eaten st st' \<Longrightarrow> eaten \<noteq> [] \<Longrightarrow> R eaten st st'"
    and "\<And>st. R [] st st"
    and "\<And>a b st st1 st2. R a st st1 \<Longrightarrow> R b st1 st2 \<Longrightarrow> R (a @ b) st st2"
  shows "R s st (scan prev s st)"
proof (induction prev s st rule: scan.induct)
  case (1 prev st)
  then show ?case using assms(2) by simp
next
  case (2 prev ch rest st)
  obtain st' n where step: "scan_char prev ch rest st = (st', n)" by fastforce
  have "R (ch # take n rest) st st'" using assms(1) turn_scan_char [OF step] by blast
  moreover have "R (drop n rest) st' (scan (Some (last (ch # take n rest))) (drop n rest) st')"
    using "2.IH" [OF step [symmetric]] by simp
  ultimately show ?case using assms(3) step by fastforce
qed

lemma length_end_command: "length (held (end_command st)) \<le> Suc (length (held st))"
  using length_trim_end [of "sc_current st"] by (simp add: end_command_def held_def push_piece_def)

lemma length_scan: "length (held (scan prev s st)) \<le> length (held st) + length s"
proof (rule scan_rule [where R = "\<lambda>eaten st st'. length (held st') \<le> length (held st) + length eaten"])
  fix eaten st st' assume "turn_held eaten st st'" "eaten \<noteq> []"
  then consider "held st' = held st @ eaten" | "held st' = held st"
    | st1 where "held st1 = held st" "held st' = held (end_command st1)"
    unfolding turn_held_def by blast
  then show "length (held st') \<le> length (held st) + length eaten"
  proof cases
    case 3
    have "1 \<le> length eaten" using \<open>eaten \<noteq> []\<close> by (simp add: Suc_leI)
    then show ?thesis using length_end_command [of st1] 3 by simp
  qed simp_all
qed simp_all

lemma length_raw_piece:
  assumes "p \<in> set (raw_pieces command)"
  shows "length p \<le> length command"
proof -
  have "length p \<le> length (concat (raw_pieces command))"
    using assms by (induction "raw_pieces command") (auto simp: length_concat member_le_sum_list)
  also have "\<dots> \<le> length command"
    using length_scan [of None command scan_start]
    by (simp add: raw_pieces_def Let_def held_def scan_start_def)
  finally show ?thesis .
qed

lemma unwrap_group_shorter: "unwrap_group s = Some inner \<Longrightarrow> length inner < length s"
  by (cases s) (auto simp: unwrap_group_def at_char_def js_at_def split: if_splits)

section \<open>The segments\<close>

text \<open>A piece trimmed, dropped when blank, and split again when it is one group.\<close>

function split_chained_command :: "string \<Rightarrow> string list" where
  "split_chained_command command =
     concat (map (\<lambda>piece.
       let trimmed = trim piece
       in if trimmed = [] then []
          else (case unwrap_group trimmed of
                  Some inner \<Rightarrow> split_chained_command inner
                | None \<Rightarrow> [trimmed])) (raw_pieces command))"
  by pat_completeness auto
termination
proof (relation "measure length", goal_cases)
  case (2 command piece trimmed inner)
  then have "length inner < length (trim piece)" by (simp add: unwrap_group_shorter)
  also have "\<dots> \<le> length command"
    using length_trim [of piece] length_raw_piece [OF 2(1)] by simp
  finally show ?case by simp
qed simp

declare split_chained_command.simps [simp del]

section \<open>Nothing is lost\<close>

text \<open>The characters that are neither white space nor shell punctuation of the chain.\<close>

definition payload_char :: "char \<Rightarrow> bool" where
  "payload_char c \<longleftrightarrow>
     \<not> is_ws c \<and> c \<noteq> backslash \<and> c \<noteq> CHR ''&'' \<and> c \<noteq> CHR ''|'' \<and> c \<noteq> CHR '';'' \<and>
     c \<noteq> CHR ''('' \<and> c \<noteq> CHR '')''"

definition payload :: "string \<Rightarrow> string" where
  "payload s = filter payload_char s"

lemma payload_append [simp]: "payload (s @ t) = payload s @ payload t"
  by (simp add: payload_def)

lemma payload_Nil [simp]: "payload [] = []"
  by (simp add: payload_def)

lemma payload_none: "(\<And>c. c \<in> set s \<Longrightarrow> \<not> payload_char c) \<Longrightarrow> payload s = []"
  by (simp add: payload_def filter_empty_conv)

lemma ws_no_payload: "is_ws c \<Longrightarrow> \<not> payload_char c"
  by (simp add: payload_char_def)

lemma trim_start_split: "s = takeWhile is_ws s @ trim_start s"
  by (simp add: trim_start_def)

lemma trim_end_split: "s = trim_end s @ rev (takeWhile is_ws (rev s))"
  unfolding trim_end_def by (metis rev_append rev_rev_ident takeWhile_dropWhile_id)

lemma payload_trim_start: "payload (trim_start s) = payload s"
proof -
  have "payload (takeWhile is_ws s) = []"
    by (rule payload_none) (auto dest: set_takeWhileD simp: ws_no_payload)
  then show ?thesis by (subst (2) trim_start_split) simp
qed

lemma payload_trim_end [simp]: "payload (trim_end s) = payload s"
proof -
  have "payload (rev (takeWhile is_ws (rev s))) = []"
    by (rule payload_none) (auto dest: set_takeWhileD simp: ws_no_payload)
  then show ?thesis by (subst (2) trim_end_split) simp
qed

lemma payload_trim [simp]: "payload (trim s) = payload s"
  by (simp add: trim_def payload_trim_start)

lemma payload_punctuation:
  "\<not> payload_char backslash" "\<not> payload_char newline" "\<not> payload_char carriage"
  "\<not> payload_char (CHR ''&'')" "\<not> payload_char (CHR ''|'')" "\<not> payload_char (CHR '';'')"
  "\<not> payload_char (CHR ''('')" "\<not> payload_char (CHR '')'')" "\<not> payload_char (CHR '' '')"
  by code_simp+

lemma payload_end_command: "payload (held (end_command st)) = payload (held st)"
proof -
  have "payload '' '' = []" by (simp add: payload_def payload_punctuation)
  then show ?thesis by (simp add: end_command_def held_def push_piece_def)
qed

lemma payload_scan: "payload (held (scan prev s st)) = payload (held st) @ payload s"
proof (rule scan_rule [where R = "\<lambda>eaten st st'. payload (held st') = payload (held st) @ payload eaten"])
  fix eaten st st' assume "turn_held eaten st st'"
  then consider "held st' = held st @ eaten"
    | "held st' = held st" "set eaten \<subseteq> {backslash, newline, carriage}"
    | st1 where "held st1 = held st" "held st' = held (end_command st1)" "set eaten \<subseteq> chain_chars"
    unfolding turn_held_def by blast
  then show "payload (held st') = payload (held st) @ payload eaten"
  proof cases
    case 2
    then have "payload eaten = []" by (intro payload_none) (auto simp: payload_punctuation)
    then show ?thesis using 2 by simp
  next
    case 3
    then have "payload eaten = []"
      by (intro payload_none) (auto simp: payload_punctuation chain_chars_def)
    then show ?thesis using 3 payload_end_command by simp
  qed simp
qed (simp_all add: payload_def)

lemma payload_raw_pieces: "payload (concat (raw_pieces command)) = payload command"
  using payload_scan [of None command scan_start]
  by (simp add: raw_pieces_def Let_def held_def scan_start_def payload_def)

lemma unwrap_group_parens: "unwrap_group s = Some inner \<Longrightarrow> s = ''('' @ inner @ '')''"
proof -
  assume u: "unwrap_group s = Some inner"
  then obtain t where t: "s = t @ '')''"
    by (auto simp: unwrap_group_def ends_with_iff split: if_splits)
  with u obtain t' where "t = CHR ''('' # t'"
    by (cases t) (auto simp: unwrap_group_def at_char_def js_at_def split: if_splits)
  then show ?thesis using u t by (auto simp: unwrap_group_def butlast_append split: if_splits)
qed


section \<open>Plain commands\<close>

text \<open>
  The reference: a command without quotes, backslashes, parentheses, redirects and comments is
  cut at every chain character, trimmed, and blank pieces dropped.
\<close>

definition is_chain_char :: "char \<Rightarrow> bool" where
  "is_chain_char c \<longleftrightarrow> c = CHR ''&'' \<or> c = CHR ''|'' \<or> c = CHR '';'' \<or> c = newline"

definition is_plain_char :: "char \<Rightarrow> bool" where
  "is_plain_char c \<longleftrightarrow>
     \<not> is_quote_char c \<and> c \<noteq> backslash \<and> c \<noteq> CHR ''('' \<and> c \<noteq> CHR '')'' \<and>
     \<not> is_redirect_char c \<and> c \<noteq> CHR ''#''"

fun split_where :: "('a \<Rightarrow> bool) \<Rightarrow> 'a list \<Rightarrow> 'a list list" where
  "split_where P [] = [[]]"
| "split_where P (c # s) =
     (if P c then [] # split_where P s
      else (case split_where P s of [] \<Rightarrow> [[c]] | w # ws \<Rightarrow> (c # w) # ws))"

definition nonblank_trimmed :: "string list \<Rightarrow> string list" where
  "nonblank_trimmed ss = filter (\<lambda>s. s \<noteq> []) (map trim ss)"

definition plain_segments :: "string \<Rightarrow> string list" where
  "plain_segments command = nonblank_trimmed (split_where is_chain_char command)"

lemma nonblank_simps [simp]:
  "nonblank_trimmed [] = []"
  "nonblank_trimmed (s # ss) = (if trim s = [] then [] else [trim s]) @ nonblank_trimmed ss"
  "nonblank_trimmed (ss @ ts) = nonblank_trimmed ss @ nonblank_trimmed ts"
  by (simp_all add: nonblank_trimmed_def)

lemma split_where_not_Nil [simp]: "split_where P s \<noteq> []"
  by (induction s) (auto split: list.splits)

lemma split_where_subset: "p \<in> set (split_where P s) \<Longrightarrow> set p \<subseteq> set s"
proof (induction s arbitrary: p)
  case (Cons c s)
  obtain w ws where ws: "split_where P s = w # ws"
    by (cases "split_where P s") simp_all
  have "set q \<subseteq> set s" if "q \<in> set (w # ws)" for q
    using that Cons.IH ws by simp
  then show ?case using Cons.prems ws by (fastforce split: if_splits)
qed simp

lemma split_where_word: "(\<And>c. c \<in> set w \<Longrightarrow> \<not> P c) \<Longrightarrow> split_where P w = [w]"
  by (induction w) simp_all

lemma split_where_sep:
  "(\<And>c. c \<in> set w \<Longrightarrow> \<not> P c) \<Longrightarrow> P d \<Longrightarrow> split_where P (w @ d # s) = w # split_where P s"
  by (induction w) simp_all

lemma set_trim_end: "set (trim_end s) \<subseteq> set s"
  unfolding trim_end_def by (auto dest: set_dropWhileD)

lemma plain_no_dangling:
  assumes "list_all is_plain_char w"
  shows "\<not> ends_with_dangling_redirect w"
proof -
  have no: "\<not> is_redirect_char c" if "c \<in> set (rev (trim_end w))" for c
    using that assms set_trim_end by (auto simp: list_all_iff is_plain_char_def)
  show ?thesis
  proof (cases "rev (trim_end w)")
    case Nil
    then show ?thesis by (simp add: ends_with_dangling_redirect_def)
  next
    case (Cons c t)
    then have "\<not> is_redirect_char c" "t = [] \<or> \<not> is_redirect_char (hd t)"
      using no by (auto simp del: set_rev)
    then show ?thesis using Cons by (simp add: ends_with_dangling_redirect_def)
  qed
qed

lemma plain_no_redirect_ampersand:
  assumes "list_all is_plain_char w" "list_all is_plain_char rest"
  shows "\<not> is_redirect_ampersand (previous_non_space w) (js_at rest 0)"
proof -
  have "\<not> is_redirect_char c" if "previous_non_space w = Some c" for c
  proof -
    have "c \<in> set (rev (trim_end w))"
      using that by (auto simp: previous_non_space_def split: list.splits)
    then show ?thesis using assms(1) set_trim_end by (auto simp: list_all_iff is_plain_char_def)
  qed
  moreover have "\<not> is_redirect_char c" if "js_at rest 0 = Some c" for c
    using that assms(2) by (auto simp: js_at_0 is_plain_char_def)
  ultimately show ?thesis unfolding is_redirect_ampersand_def is_redirect_char_def by blast
qed

definition scan_is_plain :: "scan_state \<Rightarrow> bool" where
  "scan_is_plain st \<longleftrightarrow>
     sc_quote st = None \<and> sc_heredoc st = None \<and> sc_paren_depth st = 0 \<and> sc_arith_depth st = 0 \<and>
     \<not> sc_comment st \<and> list_all (\<lambda>c. is_plain_char c \<and> \<not> is_chain_char c) (sc_current st)"

lemma plain_scan_char:
  assumes st: "scan_is_plain st" and plain: "list_all is_plain_char (ch # rest)"
  shows "scan_char prev ch rest st =
    (if is_chain_char ch
     then (push_piece st, if (ch = CHR ''&'' \<or> ch = CHR ''|'') \<and> js_at rest 0 = Some ch then 1 else 0)
     else (keep [ch] st, 0))"
proof -
  have ch: "\<not> is_quote_char ch" "ch \<noteq> backslash" "ch \<noteq> CHR ''(''" "ch \<noteq> CHR '')''" "ch \<noteq> CHR ''<''"
    "ch \<noteq> CHR ''#''"
    using plain by (simp_all add: is_plain_char_def is_redirect_char_def)
  have noted: "note_comment prev ch st = st"
    using st ch(6) by (simp add: note_comment_def Let_def is_comment_start_def scan_is_plain_def)
  have no_heredoc: "parse_heredoc_opener prev (ch # rest) = None"
    using ch(5) by (simp add: parse_heredoc_opener_def)
  have cur: "list_all is_plain_char (sc_current st)"
    using st by (auto simp: scan_is_plain_def list_all_iff)
  have step: "scan_char prev ch rest st = scan_plain ch rest st"
    using st ch(1,2) no_heredoc
    by (simp add: scan_char_def scan_unquoted_def noted continuation_length_def scan_is_plain_def Let_def)
  have rest: "list_all is_plain_char rest" using plain by simp
  have pieces: "end_command st = push_piece st" "sc_paren_depth st = 0"
    "\<not> is_redirect_ampersand (previous_non_space (sc_current st)) (js_at rest 0)"
    using plain_no_dangling [OF cur] plain_no_redirect_ampersand [OF cur rest] st
    by (simp_all add: end_command_def scan_is_plain_def)
  have plain_step: "scan_plain ch rest st = (keep [ch] st, 0)" if "\<not> is_chain_char ch"
    using that ch(3,4) pieces(2) by (simp add: scan_plain_def Let_def is_chain_char_def)
  have chain_step: "scan_plain ch rest st =
      (push_piece st, if (ch = CHR ''&'' \<or> ch = CHR ''|'') \<and> js_at rest 0 = Some ch then 1 else 0)"
    if "is_chain_char ch"
  proof -
    from that consider "ch = CHR ''&''" | "ch = CHR ''|''" | "ch = CHR '';''" | "ch = newline"
      unfolding is_chain_char_def by blast
    then show ?thesis by cases (use pieces in \<open>simp_all add: scan_plain_def Let_def\<close>)
  qed
  show ?thesis using step plain_step chain_step by simp
qed

lemma plain_scan:
  assumes "scan_is_plain st" "list_all is_plain_char s"
  shows "(let r = scan prev s st in nonblank_trimmed (sc_pieces r @ [sc_current r])) =
    nonblank_trimmed (sc_pieces st @ split_where is_chain_char (sc_current st @ s))"
  using assms
proof (induction prev s st rule: scan.induct)
  case (1 prev st)
  then have "split_where is_chain_char (sc_current st) = [sc_current st]"
    by (intro split_where_word) (auto simp: scan_is_plain_def list_all_iff)
  then show ?case by simp
next
  case (2 prev ch rest st)
  have cur: "\<not> is_chain_char c" if "c \<in> set (sc_current st)" for c
    using 2 that by (auto simp: scan_is_plain_def list_all_iff)
  note step = plain_scan_char [OF "2.prems", of prev]
  show ?case
  proof (cases "is_chain_char ch")
    case False
    then have s: "scan_char prev ch rest st = (keep [ch] st, 0)" by (simp add: step)
    have "scan_is_plain (keep [ch] st)"
      using 2 False by (simp add: scan_is_plain_def keep_def)
    with "2.IH" [OF s [symmetric]] "2.prems" s show ?thesis by (simp add: keep_def)
  next
    case True
    then have head: "split_where is_chain_char (sc_current st @ ch # t) =
        sc_current st # split_where is_chain_char t" for t
      using cur by (intro split_where_sep)
    have plain: "scan_is_plain (push_piece st)"
      using 2 by (simp add: scan_is_plain_def push_piece_def)
    show ?thesis
    proof (cases "(ch = CHR ''&'' \<or> ch = CHR ''|'') \<and> js_at rest 0 = Some ch")
      case False
      then have s: "scan_char prev ch rest st = (push_piece st, 0)" using True by (simp only: step if_True if_False)
      from "2.IH" [OF s [symmetric]] "2.prems" plain s show ?thesis
        by (simp add: head push_piece_def)
    next
      case double: True
      then obtain t where t: "rest = ch # t" by (auto simp: js_at_0)
      have s: "scan_char prev ch rest st = (push_piece st, 1)" using True double by (simp only: step if_True simp_thms)
      from "2.IH" [OF s [symmetric]] "2.prems" plain s True show ?thesis
        by (simp add: head t push_piece_def)
    qed
  qed
qed

lemma plain_unwrap: "list_all is_plain_char s \<Longrightarrow> unwrap_group (trim s) = None"
proof -
  assume "list_all is_plain_char s"
  moreover have "set (trim s) \<subseteq> set s"
    using set_trim_end [of "trim_start s"] unfolding trim_def trim_start_def
    by (auto dest: set_dropWhileD)
  ultimately have "CHR ''('' \<notin> set (trim s)" by (auto simp: list_all_iff is_plain_char_def)
  then show ?thesis by (cases "trim s") (auto simp: unwrap_group_def at_char_def js_at_def)
qed

lemma plain_split:
  assumes "list_all is_plain_char command"
  shows "split_chained_command command = plain_segments command"
proof -
  have plain_pieces: "list_all is_plain_char p" if "p \<in> set (split_where is_chain_char command)" for p
    using split_where_subset [OF that] assms by (auto simp: list_all_iff)
  have raw: "nonblank_trimmed (raw_pieces command) = plain_segments command"
    using plain_scan [of scan_start command None] assms
    by (simp add: raw_pieces_def plain_segments_def scan_start_def scan_is_plain_def Let_def)
  have unwrapped: "unwrap_group t = None" if t: "t \<in> set (nonblank_trimmed (raw_pieces command))" for t
  proof -
    have "t \<in> trim ` set (split_where is_chain_char command)"
      using t [unfolded raw] by (simp only: plain_segments_def nonblank_trimmed_def set_filter set_map) blast
    then obtain p where p: "p \<in> set (split_where is_chain_char command)" "t = trim p" by (rule imageE)
    show ?thesis unfolding p(2) by (rule plain_unwrap [OF plain_pieces [OF p(1)]])
  qed
  have "concat (map (\<lambda>piece. let trimmed = trim piece
       in if trimmed = [] then []
          else (case unwrap_group trimmed of
                  Some inner \<Rightarrow> split_chained_command inner | None \<Rightarrow> [trimmed])) ps) =
      nonblank_trimmed ps"
    if "set (nonblank_trimmed ps) \<subseteq> set (nonblank_trimmed (raw_pieces command))" for ps
    using that unwrapped by (induction ps) (auto simp: Let_def)
  from this [OF subset_refl] show ?thesis
    by (subst split_chained_command.simps) (simp add: raw)
qed

text \<open>Chaining segments by an operator and splitting gives them back.\<close>

definition chain_operators :: "string list" where
  "chain_operators = [''&&'', ''||'', ''|'', '';'', ''&'', [newline]]"

definition is_plain_segment :: "string \<Rightarrow> bool" where
  "is_plain_segment s \<longleftrightarrow>
     s \<noteq> [] \<and> trim s = s \<and> list_all (\<lambda>c. is_plain_char c \<and> \<not> is_chain_char c) s"

lemma trim_blank: "trim (CHR '' '' # s) = trim s" "trim (s @ '' '') = trim s"
proof -
  have ws: "is_ws (CHR '' '')" by code_simp
  show "trim (CHR '' '' # s) = trim s" using ws by (simp add: trim_def trim_start_def)
  have "trim_end (s @ '' '') = trim_end s" using ws by (simp add: trim_end_def)
  then show "trim (s @ '' '') = trim s" by (rule trim_end_trim)
qed

lemma plain_segments_blank: "plain_segments (CHR '' '' # s) = plain_segments s"
proof -
  obtain w ws where "split_where is_chain_char s = w # ws"
    by (cases "split_where is_chain_char s") simp_all
  then show ?thesis
    by (simp add: plain_segments_def is_chain_char_def trim_blank)
qed

lemma plain_segments_chain:
  assumes "is_plain_segment w" "ch = CHR ''&'' \<or> ch = CHR ''|'' \<or> ch = CHR '';'' \<or> ch = newline"
  shows "plain_segments (w @ '' '' @ ch # s) = w # plain_segments s"
    "plain_segments (w @ '' '' @ ch # ch # s) = w # plain_segments s"
proof -
  have ch: "is_chain_char ch" using assms(2) by (simp add: is_chain_char_def)
  have w: "\<not> is_chain_char c" if "c \<in> set (w @ '' '')" for c
    using assms(1) that by (auto simp: is_plain_segment_def list_all_iff is_chain_char_def)
  have "split_where is_chain_char ((w @ '' '') @ ch # t) = (w @ '' '') # split_where is_chain_char t" for t
    using w ch by (intro split_where_sep)
  then have "split_where is_chain_char (w @ '' '' @ ch # t) = (w @ '' '') # split_where is_chain_char t" for t
    by simp
  then show "plain_segments (w @ '' '' @ ch # s) = w # plain_segments s"
    "plain_segments (w @ '' '' @ ch # ch # s) = w # plain_segments s"
    using assms(1) ch by (simp_all add: plain_segments_def trim_blank is_plain_segment_def)
qed

lemma plain_segments_join:
  assumes "op \<in> set chain_operators" "list_all is_plain_segment cs"
  shows "plain_segments (join ('' '' @ op @ '' '') cs) = cs"
  using assms(2)
proof (induction cs)
  case Nil
  then show ?case by (simp add: plain_segments_def)
next
  case (Cons c cs)
  show ?case
  proof (cases cs)
    case Nil
    have "split_where is_chain_char c = [c]"
      using Cons.prems by (intro split_where_word) (auto simp: is_plain_segment_def list_all_iff)
    then show ?thesis using Nil Cons.prems by (simp add: plain_segments_def is_plain_segment_def)
  next
    case (Cons d ds)
    let ?rest = "CHR '' '' # join ('' '' @ op @ '' '') (d # ds)"
    have c: "is_plain_segment c" using Cons.prems by simp
    have "op = [CHR ''&'', CHR ''&''] \<or> op = [CHR ''|'', CHR ''|''] \<or> op = [CHR ''|''] \<or>
        op = [CHR '';''] \<or> op = [CHR ''&''] \<or> op = [newline]"
      using assms(1) by (auto simp: chain_operators_def)
    then have "plain_segments (c @ '' '' @ op @ ?rest) = c # plain_segments ?rest"
      using plain_segments_chain [OF c, of _ ?rest] by (elim disjE) simp_all
    then show ?thesis using Cons.IH Cons.prems Cons by (simp add: plain_segments_blank)
  qed
qed

text \<open>
  On a command without quotes, backslashes, parentheses, redirects and comments the scanner
  is the plain splitter, which cuts at every operator and newline; and commands chained by any
  one operator are split back into exactly these commands.
\<close>

theorem plain_commands_split:
  "(list_all is_plain_char command \<longrightarrow> split_chained_command command = plain_segments command) \<and>
   (op \<in> set chain_operators \<and> list_all is_plain_segment cs \<longrightarrow>
     split_chained_command (join ('' '' @ op @ '' '') cs) = cs)"
proof (intro conjI impI)
  show "split_chained_command command = plain_segments command" if "list_all is_plain_char command"
    using that by (rule plain_split)
  assume *: "op \<in> set chain_operators \<and> list_all is_plain_segment cs"
  have op: "list_all is_plain_char ('' '' @ op @ '' '')"
  proof -
    have "list_all (\<lambda>op. list_all is_plain_char ('' '' @ op @ '' '')) chain_operators" by code_simp
    then show ?thesis using * by (auto simp: list_all_iff)
  qed
  have "list_all is_plain_char (join ('' '' @ op @ '' '') cs)"
    using conjunct2 [OF *]
  proof (induction cs)
    case (Cons c cs)
    then show ?case using op
      by (cases cs) (auto simp: is_plain_segment_def list_all_iff)
  qed simp
  from plain_split [OF this] plain_segments_join [OF conjunct1 [OF *] conjunct2 [OF *]]
  show "split_chained_command (join ('' '' @ op @ '' '') cs) = cs" by simp
qed

theorem plain_commands_split_witness:
  "split_chained_command ''cd a && ls -l | wc;rm b'' = [''cd a'', ''ls -l'', ''wc'', ''rm b''] \<and>
   split_chained_command (join '' || '' [''cd a'', ''ls -l'']) = [''cd a'', ''ls -l'']"
proof -
  have plain: "list_all is_plain_char ''cd a && ls -l | wc;rm b''" by code_simp
  have segments: "plain_segments ''cd a && ls -l | wc;rm b'' = [''cd a'', ''ls -l'', ''wc'', ''rm b'']"
    by code_simp
  have parts: "''||'' \<in> set chain_operators \<and> list_all is_plain_segment [''cd a'', ''ls -l'']"
    by code_simp
  have sep: "'' '' @ ''||'' @ '' '' = '' || ''" by simp
  note both = plain_commands_split [of "''cd a && ls -l | wc;rm b''" "''||''" "[''cd a'', ''ls -l'']"]
  from both [THEN conjunct1, THEN mp, OF plain, unfolded segments]
    both [THEN conjunct2, THEN mp, OF parts, unfolded sep]
  show ?thesis by (rule conjI)
qed

section \<open>Commands that stay hidden\<close>

text \<open>
  Three commands a shell runs stay inside the segment before them. An escaped quote and an
  apostrophe in a comment open a quote for the scanner, so what is chained after them is never
  a segment of its own; and the lines after a heredoc's end belong to the heredoc's segment.
\<close>

theorem hidden_commands:
  "split_chained_command (''echo '' @ [backslash, dquote] @ ''; rm -r build'') =
     [''echo '' @ [backslash, dquote] @ ''; rm -r build''] \<and>
   split_chained_command (''ls # don'' @ [squote] @ ''t'' @ [newline] @ ''rm -r build'') =
     [''ls # don'' @ [squote] @ ''t'' @ [newline] @ ''rm -r build''] \<and>
   split_chained_command (''cat <<E'' @ [newline] @ ''E'' @ [newline] @ ''rm -r build'') =
     [''cat <<E'' @ [newline] @ ''E'' @ [newline] @ ''rm -r build''] \<and>
   split_chained_command (''echo ; rm -r build'') = [''echo'', ''rm -r build'']"
  by code_simp

end
