(* ===== verification/GrantPatterns.thy ===== *)
theory GrantPatterns
  imports JsPrelude
begin

text \<open>
  What a stored grant pattern matches: the wildcard matcher of the authorization package
  (\<open>vendor/intx-authz/src/patterns.ts\<close>), escaped exact patterns and the containment of
  directory grants (\<open>src/permission/matcher.ts\<close>), with \<open>normalize\<close> and \<open>resolve\<close> of
  \<open>node:path/posix\<close> as documented.
\<close>

section \<open>Wildcards\<close>

abbreviation star :: char where "star \<equiv> CHR ''*''"
abbreviation slash :: char where "slash \<equiv> CHR ''/''"

text \<open>The loop over the parts between the wildcards, on what is left of the target.\<close>

fun match_segments :: "bool \<Rightarrow> string list \<Rightarrow> string \<Rightarrow> bool" where
  "match_segments is_first [] target = True"
| "match_segments is_first (segment # segments) target =
     (if segment = [] then match_segments False segments target
      else (case index_of target segment of
              None \<Rightarrow> False
            | Some idx \<Rightarrow>
                if is_first \<and> idx \<noteq> 0 then False
                else match_segments False segments (drop (idx + length segment) target)))"

definition match_pattern :: "string \<Rightarrow> string \<Rightarrow> bool" where
  "match_pattern pattern target =
     (if pattern = ''*'' then True
      else if pattern = target then True
      else if star \<notin> set pattern then False
      else (let parts = split_char star pattern
            in if \<not> match_segments True parts target then False
               else \<not> (last parts \<noteq> [] \<and> \<not> ends_with target (last parts))))"

text \<open>The reference: a wildcard stands for any text, every other character for itself.\<close>

function glob :: "string \<Rightarrow> string \<Rightarrow> bool" where
  "glob [] target = (target = [])"
| "glob (c # p) [] = (c = star \<and> glob p [])"
| "glob (c # p) (x # target) =
     (if c = star then glob p (x # target) \<or> glob (c # p) target else c = x \<and> glob p target)"
  by pat_completeness auto
termination
  by (relation "measure (\<lambda>(p, t). length p + length t)") auto

lemma glob_star: "glob (star # p) t \<longleftrightarrow> (\<exists>k \<le> length t. glob p (drop k t))"
proof (induction t)
  case Nil
  then show ?case by simp
next
  case (Cons x t)
  have "(\<exists>k \<le> Suc (length t). glob p (drop k (x # t))) \<longleftrightarrow>
      glob p (x # t) \<or> (\<exists>k \<le> length t. glob p (drop k t))"
  proof
    assume "\<exists>k \<le> Suc (length t). glob p (drop k (x # t))"
    then obtain k where "k \<le> Suc (length t)" "glob p (drop k (x # t))" by blast
    then show "glob p (x # t) \<or> (\<exists>k \<le> length t. glob p (drop k t))" by (cases k) auto
  next
    assume "glob p (x # t) \<or> (\<exists>k \<le> length t. glob p (drop k t))"
    then show "\<exists>k \<le> Suc (length t). glob p (drop k (x # t))"
      by (metis Suc_le_mono drop0 drop_Suc_Cons le0)
  qed
  then show ?case using Cons by simp
qed

lemma glob_text: "star \<notin> set s \<Longrightarrow> glob (s @ p) t \<longleftrightarrow> starts_with t s \<and> glob p (drop (length s) t)"
proof (induction s arbitrary: t)
  case Nil
  then show ?case by simp
next
  case (Cons c s)
  then show ?case by (cases t) auto
qed

lemma starts_with_length: "starts_with t s \<Longrightarrow> length s \<le> length t"
  by (auto simp: starts_with_iff)

lemma index_of_Some: "index_of t s = Some i \<Longrightarrow> starts_with (drop i t) s \<and> i + length s \<le> length t"
proof (induction t arbitrary: i)
  case Nil
  then show ?case by (auto split: if_splits)
next
  case (Cons x t)
  show ?case
  proof (cases "starts_with (x # t) s")
    case True
    then have "i = 0" using Cons.prems by simp
    then show ?thesis using True starts_with_length [OF True] by simp
  next
    case False
    then obtain j where "index_of t s = Some j" "i = Suc j" using Cons.prems by auto
    then show ?thesis using Cons.IH by simp
  qed
qed

lemma index_of_first: "starts_with (drop k t) s \<Longrightarrow> k \<le> length t \<Longrightarrow> \<exists>i \<le> k. index_of t s = Some i"
proof (induction t arbitrary: k)
  case Nil
  then show ?case by (cases s) auto
next
  case (Cons x t)
  show ?case
  proof (cases "starts_with (x # t) s")
    case False
    then obtain k' where k: "k = Suc k'" using Cons.prems by (cases k) auto
    then have "\<exists>i \<le> k'. index_of t s = Some i" using Cons.IH [of k'] Cons.prems by simp
    then show ?thesis using False k by auto
  qed simp
qed

lemma match_segments_last:
  "match_segments b ss t \<Longrightarrow> ss \<noteq> [] \<Longrightarrow> length (last ss) \<le> length t"
proof (induction b ss t rule: match_segments.induct)
  case (2 b segment segments t)
  consider "segment = []" | i where "segment \<noteq> []" "index_of t segment = Some i"
      "match_segments False segments (drop (i + length segment) t)"
    using 2(3) by (auto split: if_splits option.splits)
  then show ?case
  proof cases
    case 1
    then show ?thesis using 2 by (cases "segments = []") auto
  next
    case (2 i)
    then have "segments \<noteq> [] \<Longrightarrow> length (last segments) \<le> length t - (i + length segment)"
      using "2.IH"(2) [of i] "2.prems" by (auto split: if_splits)
    then show ?thesis using index_of_Some [OF 2(2)] by (cases "segments = []") auto
  qed
qed simp

text \<open>Anything a suffix matches after a wildcard, the whole matches too.\<close>

lemma glob_star_drop: "glob (star # p) (drop k t) \<Longrightarrow> glob (star # p) t"
proof -
  assume "glob (star # p) (drop k t)"
  then obtain j where j: "j \<le> length t - k" "glob p (drop (j + k) t)" by (auto simp: glob_star)
  show ?thesis
  proof (cases "k \<le> length t")
    case True
    then show ?thesis using j unfolding glob_star by (intro exI [of _ "j + k"]) auto
  next
    case False
    then show ?thesis using j unfolding glob_star by (intro exI [of _ "length t"]) auto
  qed
qed

definition starred :: "string list \<Rightarrow> string" where
  "starred ss = concat (map (\<lambda>s. star # s) ss)"

lemma starred_Nil [simp]: "starred [] = []"
  by (simp add: starred_def)

lemma starred_Cons: "starred (s # ss) = star # s @ starred ss"
  by (simp add: starred_def)

lemma starred_star: "ss \<noteq> [] \<Longrightarrow> \<exists>p. starred ss = star # p"
  by (cases ss) (simp_all add: starred_Cons)

lemma glob_plain: "star \<notin> set s \<Longrightarrow> glob s u \<longleftrightarrow> u = s"
  using glob_text [of s "[]" u] by (auto simp: starts_with_iff)

lemma ends_with_drop_eq: "ends_with t s \<longleftrightarrow> (\<exists>k \<le> length t. drop k t = s)"
  by (metis append_eq_conv_conj append_take_drop_id ends_with_iff le_add1 length_append)

lemma glob_last: "star \<notin> set s \<Longrightarrow> glob (star # s) t \<longleftrightarrow> ends_with t s"
  by (simp add: glob_star glob_plain ends_with_drop_eq)

lemma ends_with_drop: "length s \<le> length t - k \<Longrightarrow> ends_with (drop k t) s \<longleftrightarrow> ends_with t s"
proof -
  assume len: "length s \<le> length t - k"
  show ?thesis
  proof
    assume "ends_with (drop k t) s"
    then obtain u where "drop k t = u @ s" by (auto simp: ends_with_iff)
    then have "t = (take k t @ u) @ s" by (metis append.assoc append_take_drop_id)
    then show "ends_with t s" by (metis ends_with_append)
  next
    assume "ends_with t s"
    then obtain u where u: "t = u @ s" by (auto simp: ends_with_iff)
    then have "k \<le> length u \<or> s = []" using len by (cases s) auto
    then show "ends_with (drop k t) s" using u by (auto simp: ends_with_iff)
  qed
qed

text \<open>The loop takes the leftmost occurrence, and that one is enough.\<close>

lemma glob_leftmost:
  assumes "star \<notin> set s" "ss \<noteq> []"
  shows "glob (star # s @ starred ss) t \<longleftrightarrow>
    (case index_of t s of None \<Rightarrow> False | Some i \<Rightarrow> glob (starred ss) (drop (i + length s) t))"
proof -
  obtain p where p: "starred ss = star # p" using starred_star [OF assms(2)] by blast
  have here: "glob (star # s @ starred ss) t \<longleftrightarrow>
      (\<exists>k \<le> length t. starts_with (drop k t) s \<and> glob (starred ss) (drop (k + length s) t))"
    by (auto simp: glob_star glob_text [OF assms(1)] add.commute)
  show ?thesis
  proof (cases "index_of t s")
    case None
    then show ?thesis using here index_of_first by fastforce
  next
    case (Some i)
    then have i: "starts_with (drop i t) s" "i + length s \<le> length t" using index_of_Some by auto
    have "glob (starred ss) (drop (i + length s) t)"
      if k: "k \<le> length t" "starts_with (drop k t) s" "glob (starred ss) (drop (k + length s) t)" for k
    proof -
      have "i \<le> k" using index_of_first [OF k(2,1)] Some by auto
      then have "drop (k + length s) t = drop (k - i) (drop (i + length s) t)" by simp
      then show ?thesis using k(3) glob_star_drop unfolding p by metis
    qed
    then show ?thesis using here i Some by auto
  qed
qed

lemma match_segments_starred:
  "ss \<noteq> [] \<Longrightarrow> \<forall>s \<in> set ss. star \<notin> set s \<Longrightarrow>
    match_segments False ss t \<and> ends_with t (last ss) \<longleftrightarrow> glob (starred ss) t"
proof (induction ss arbitrary: t)
  case (Cons s ss)
  show ?case
  proof (cases "ss = []")
    case True
    then have "glob (starred (s # ss)) t \<longleftrightarrow> ends_with t s"
      using Cons.prems by (simp add: starred_Cons glob_last)
    moreover have "ends_with t s \<Longrightarrow> match_segments False (s # ss) t"
    proof -
      assume "ends_with t s"
      then obtain k where "k \<le> length t" "drop k t = s" by (auto simp: ends_with_drop_eq)
      then obtain i where "index_of t s = Some i" using index_of_first [of k t s] by auto
      then show ?thesis using True by simp
    qed
    ultimately show ?thesis using True by (metis last_ConsL)
  next
    case False
    have IH: "match_segments False ss u \<and> ends_with u (last ss) \<longleftrightarrow> glob (starred ss) u" for u
      using Cons False by simp
    have step: "match_segments False (s # ss) t \<longleftrightarrow>
        (case index_of t s of None \<Rightarrow> False
         | Some i \<Rightarrow> match_segments False ss (drop (i + length s) t))"
    proof (cases "s = []")
      case True
      then have "index_of t s = Some 0" by (cases t) simp_all
      then show ?thesis using True by simp
    next
      case False
      then show ?thesis by (cases "index_of t s") simp_all
    qed
    show ?thesis
    proof (cases "index_of t s")
      case None
      then show ?thesis using glob_leftmost [of s ss t] step Cons.prems False by (simp add: starred_Cons)
    next
      case (Some i)
      have "glob (starred (s # ss)) t \<longleftrightarrow> glob (starred ss) (drop (i + length s) t)"
        using glob_leftmost [of s ss t] Some Cons.prems False by (simp add: starred_Cons)
      moreover have "match_segments False ss (drop (i + length s) t) \<Longrightarrow>
          ends_with (drop (i + length s) t) (last ss) \<longleftrightarrow> ends_with t (last ss)"
        using match_segments_last [OF _ False] by (intro ends_with_drop) (metis length_drop)
      ultimately show ?thesis using step Some IH [of "drop (i + length s) t"] False by auto
    qed
  qed
qed simp

lemma glob_self: "glob p p"
proof (induction p)
  case (Cons c p)
  then have "glob (star # p) p" unfolding glob_star by (intro exI [of _ 0]) simp
  then show ?case using Cons by simp
qed simp

lemma join_starred: "ss \<noteq> [] \<Longrightarrow> join [star] (s # ss) = s @ starred ss"
proof (induction ss arbitrary: s)
  case (Cons s' ss)
  then show ?case by (cases "ss = []") (simp_all add: join_Cons_not_Nil starred_Cons)
qed simp

lemma match_pattern_decides: "match_pattern pattern target \<longleftrightarrow> glob pattern target"
proof (cases "star \<in> set pattern")
  case False
  then show ?thesis by (auto simp: match_pattern_def glob_plain)
next
  case True
  obtain s ss where parts: "split_char star pattern = s # ss"
    by (cases "split_char star pattern") auto
  have free: "\<forall>w \<in> set (s # ss). star \<notin> set w"
    using split_char_no_sep_member [of _ star pattern] unfolding parts by blast
  have pat: "join [star] (s # ss) = pattern" using join_split_char parts by metis
  then have ss: "ss \<noteq> []" using True free by auto
  have pattern: "pattern = s @ starred ss" using join_starred [OF ss] pat by metis
  have all: "glob [star] target" by (simp add: glob_star) (metis drop_all order_refl)
  have rest: "match_segments True (s # ss) target \<and> ends_with target (last ss) \<longleftrightarrow> glob pattern target"
  proof (cases "s = []")
    case True
    then show ?thesis using match_segments_starred [OF ss, of target] free pattern by simp
  next
    case False
    have "match_segments True (s # ss) target \<longleftrightarrow>
        starts_with target s \<and> match_segments False ss (drop (length s) target)"
      using False index_of_first [of 0 target s] index_of_Some [of target s 0]
      by (auto split: option.splits)
    moreover have "match_segments False ss (drop (length s) target) \<Longrightarrow>
        ends_with (drop (length s) target) (last ss) \<longleftrightarrow> ends_with target (last ss)"
      using match_segments_last [OF _ ss] by (intro ends_with_drop) (metis length_drop)
    moreover have "glob pattern target \<longleftrightarrow> starts_with target s \<and> glob (starred ss) (drop (length s) target)"
      using glob_text free pattern by simp
    ultimately show ?thesis using match_segments_starred [OF ss, of "drop (length s) target"] free by auto
  qed
  show ?thesis
  proof (cases "pattern = ''*'' \<or> pattern = target")
    case True
    then show ?thesis using all glob_self by (auto simp: match_pattern_def)
  next
    case False
    then have "match_pattern pattern target \<longleftrightarrow>
        match_segments True (s # ss) target \<and> (last ss = [] \<or> ends_with target (last ss))"
      using True parts ss by (auto simp: match_pattern_def Let_def simp del: match_segments.simps)
    moreover have "last ss = [] \<Longrightarrow> ends_with target (last ss)" by (simp add: ends_with_iff)
    ultimately show ?thesis using rest by blast
  qed
qed

text \<open>C23: The authorization package's matcher (a split at the wildcards, a left to right scan for
  each part from the end of the previous one, an anchor for the first and the last part) decides
  exactly the pattern language: a star stands for any text, anything else for itself.\<close>

theorem match_pattern_glob: "match_pattern pattern target \<longleftrightarrow> glob pattern target"
  by (rule match_pattern_decides)

section \<open>Exact grants\<close>

fun unescape_exact_pattern :: "string \<Rightarrow> string" where
  "unescape_exact_pattern [] = []"
| "unescape_exact_pattern [c] = [c]"
| "unescape_exact_pattern (c # d # s) =
     (if c = backslash then d # unescape_exact_pattern s else c # unescape_exact_pattern (d # s))"

definition is_exact_escaped_pattern :: "string \<Rightarrow> bool" where
  "is_exact_escaped_pattern pattern = (backslash \<in> set pattern)"

definition escape_glob_literal :: "string \<Rightarrow> string" where
  "escape_glob_literal text =
     concat (map (\<lambda>c. if c \<in> set [backslash, CHR ''*'', CHR ''?''] then [backslash, c] else [c]) text)"

section \<open>Paths\<close>

text \<open>\<open>node:path/posix\<close>: \<open>normalize\<close> and \<open>resolve\<close> work on the components between slashes; the
  accumulator holds the components kept so far, the last one first.\<close>

definition is_absolute :: "string \<Rightarrow> bool" where
  "is_absolute path = starts_with path ''/''"

fun push_component :: "bool \<Rightarrow> string list \<Rightarrow> string \<Rightarrow> string list" where
  "push_component allow_above_root kept c =
     (if c = [] \<or> c = ''.'' then kept
      else if c = ''..'' then
        (case kept of
           [] \<Rightarrow> if allow_above_root then [c] else []
         | d # kept' \<Rightarrow> if d = ''..'' then (if allow_above_root then c # kept else kept) else kept')
      else c # kept)"

definition components :: "bool \<Rightarrow> string \<Rightarrow> string list" where
  "components allow_above_root path =
     rev (foldl (push_component allow_above_root) [] (split_char slash path))"

definition posix_normalize :: "string \<Rightarrow> string" where
  "posix_normalize path =
     (if path = [] then ''.''
      else (let abs = is_absolute path;
                trailing = ends_with path ''/'';
                text = join ''/'' (components (\<not> abs) path)
            in if text = [] then (if abs then ''/'' else if trailing then ''./'' else ''.'')
               else (if abs then ''/'' else []) @ text @ (if trailing then ''/'' else [])))"

text \<open>\<open>resolve(cwd, path)\<close>: from the right, until the text is absolute; the process's own working
  directory comes last.\<close>

fun resolve_from :: "string list \<Rightarrow> string \<Rightarrow> string" where
  "resolve_from [] resolved = resolved"
| "resolve_from (path # paths) resolved =
     (if is_absolute resolved then resolved
      else if path = [] then resolve_from paths resolved
      else resolve_from paths (path @ ''/'' @ resolved))"

definition posix_resolve :: "string \<Rightarrow> string \<Rightarrow> string \<Rightarrow> string" where
  "posix_resolve process_cwd cwd path =
     (let resolved = resolve_from [path, cwd, process_cwd] [];
          abs = is_absolute resolved;
          text = join ''/'' (components (\<not> abs) resolved)
      in if abs then ''/'' @ text else if text = [] then ''.'' else text)"

definition normalize_grant_path :: "string \<Rightarrow> string \<Rightarrow> string option \<Rightarrow> string" where
  "normalize_grant_path process_cwd path cwd =
     (if is_absolute path then posix_normalize path
      else (case cwd of
              Some dir \<Rightarrow> posix_normalize (posix_resolve process_cwd dir path)
            | None \<Rightarrow> posix_normalize path))"

definition strip_trailing_slash :: "string \<Rightarrow> string" where
  "strip_trailing_slash path =
     (if length path > 1 then rev (dropWhile (\<lambda>c. c = slash) (rev path)) else path)"

definition directory_grant_allows :: "string \<Rightarrow> string \<Rightarrow> string \<Rightarrow> string option \<Rightarrow> bool" where
  "directory_grant_allows process_cwd pattern subject cwd =
     (if backslash \<in> set pattern then True
      else if \<not> ends_with pattern ''/*'' then True
      else (let anchor = take (length pattern - 2) pattern
            in if CHR ''*'' \<in> set anchor \<or> CHR ''?'' \<in> set anchor then True
               else (let base = if anchor = [] then ''/'' else anchor;
                         normalized_anchor = strip_trailing_slash (normalize_grant_path process_cwd base cwd);
                         normalized_subject = strip_trailing_slash (normalize_grant_path process_cwd subject cwd);
                         prefix = if normalized_anchor = ''/'' then ''/'' else normalized_anchor @ ''/''
                     in starts_with normalized_subject prefix)))"

definition matches_pattern :: "string \<Rightarrow> string \<Rightarrow> string \<Rightarrow> string option \<Rightarrow> bool" where
  "matches_pattern process_cwd subject pattern cwd =
     (if is_exact_escaped_pattern pattern then subject = unescape_exact_pattern pattern
      else if \<not> directory_grant_allows process_cwd pattern subject cwd then False
      else match_pattern pattern subject)"

section \<open>What exact grants match\<close>

lemma escape_Nil [simp]: "escape_glob_literal [] = []"
  by (simp add: escape_glob_literal_def)

lemma escape_Cons [simp]:
  "escape_glob_literal (c # s) =
    (if c = backslash \<or> c = CHR ''*'' \<or> c = CHR ''?'' then [backslash, c] else [c]) @ escape_glob_literal s"
  by (simp add: escape_glob_literal_def)

lemma unescape_plain: "c \<noteq> backslash \<Longrightarrow> unescape_exact_pattern (c # s) = c # unescape_exact_pattern s"
  by (cases s) auto

lemma unescape_escape: "unescape_exact_pattern (escape_glob_literal s) = s"
proof (induction s)
  case (Cons c s)
  then show ?case by (cases "c = backslash \<or> c = CHR ''*'' \<or> c = CHR ''?''") (auto simp: unescape_plain)
qed simp

lemma escape_not_exact: "backslash \<notin> set (escape_glob_literal s) \<Longrightarrow> escape_glob_literal s = s \<and> star \<notin> set s"
  by (induction s) (auto split: if_splits)

lemma directory_no_star: "star \<notin> set pattern \<Longrightarrow> directory_grant_allows d pattern subject cwd"
  by (auto simp: directory_grant_allows_def ends_with_iff)

text \<open>A grant stored for an exact command matches that command's text and no other one,
  whatever wildcards, question marks, backslashes or dots the text contains.\<close>

theorem exact_grant_only: "matches_pattern d subject (escape_glob_literal text) cwd \<longleftrightarrow> subject = text"
proof (cases "backslash \<in> set (escape_glob_literal text)")
  case True
  then show ?thesis by (simp add: matches_pattern_def is_exact_escaped_pattern_def unescape_escape)
next
  case False
  then have "escape_glob_literal text = text" "star \<notin> set text" using escape_not_exact by auto
  then show ?thesis using False
    by (auto simp: matches_pattern_def is_exact_escaped_pattern_def directory_no_star match_pattern_def)
qed

section \<open>What directory grants cover\<close>

definition clean_component :: "string \<Rightarrow> bool" where
  "clean_component c = (c \<noteq> [] \<and> c \<noteq> ''.'' \<and> c \<noteq> ''..'' \<and> slash \<notin> set c)"

lemma push_clean:
  "list_all clean_component kept \<Longrightarrow> slash \<notin> set c \<Longrightarrow> list_all clean_component (push_component False kept c)"
  by (cases kept) (auto simp: clean_component_def)

lemma foldl_push_clean:
  "list_all clean_component kept \<Longrightarrow> \<forall>c \<in> set cs. slash \<notin> set c \<Longrightarrow>
    list_all clean_component (foldl (push_component False) kept cs)"
  by (induction cs arbitrary: kept) (simp_all add: push_clean del: push_component.simps)

lemma components_clean: "list_all clean_component (components False path)"
  using foldl_push_clean [of "[]" "split_char slash path"] split_char_no_sep_member [of _ slash path]
  by (auto simp: components_def list_all_iff)

lemma foldl_push_id:
  "list_all clean_component cs \<Longrightarrow> foldl (push_component False) kept cs = rev cs @ kept"
  by (induction cs arbitrary: kept) (auto simp: clean_component_def)

lemma split_char_append: "split_char c (s @ c # t) = split_char c s @ split_char c t"
  by (induction s) (auto split: list.splits)

lemma components_append_slash: "components b (s @ ''/'') = components b s"
  using split_char_append [of slash s "[]"] by (simp add: components_def)

lemma components_slash: "components False (slash # s) = components False s"
  by (simp add: components_def)

lemma components_join:
  assumes "list_all clean_component cs"
  shows "components False (join ''/'' cs) = cs"
proof (cases "cs = []")
  case False
  then have "split_char slash (join ''/'' cs) = cs"
    using assms by (intro split_char_join) (auto simp: list_all_iff clean_component_def)
  then show ?thesis using foldl_push_id [OF assms, of "[]"] by (simp add: components_def)
qed (simp add: components_def)

lemma join_clean_Nil: "list_all clean_component cs \<Longrightarrow> join ''/'' cs = [] \<longleftrightarrow> cs = []"
  by (cases cs; cases "tl cs") (auto simp: clean_component_def)

lemma join_clean_last: "list_all clean_component cs \<Longrightarrow> cs \<noteq> [] \<Longrightarrow> last (join ''/'' cs) \<noteq> slash"
proof (induction cs)
  case (Cons c cs)
  show ?case
  proof (cases "cs = []")
    case True
    then show ?thesis using Cons.prems by (simp add: clean_component_def) (metis last_in_set)
  next
    case False
    then show ?thesis using Cons join_clean_Nil [of cs] by (simp add: join_Cons_not_Nil)
  qed
qed simp

lemma strip_slash_text:
  assumes "s \<noteq> []" "last s \<noteq> slash"
  shows "strip_trailing_slash (s @ ''/'') = s" "strip_trailing_slash s = s"
proof -
  obtain u x where s: "s = u @ [x]" using assms(1) by (metis rev_exhaust)
  then show "strip_trailing_slash (s @ ''/'') = s" "strip_trailing_slash s = s"
    using assms(2) by (auto simp: strip_trailing_slash_def)
qed

lemma strip_normalize:
  assumes "is_absolute path"
  shows "strip_trailing_slash (posix_normalize path) = ''/'' @ join ''/'' (components False path)"
proof -
  let ?cs = "components False path"
  have clean: "list_all clean_component ?cs" by (rule components_clean)
  have path: "path \<noteq> []" using assms by (auto simp: is_absolute_def)
  show ?thesis
  proof (cases "?cs = []")
    case True
    then show ?thesis using assms path by (simp add: posix_normalize_def strip_trailing_slash_def)
  next
    case False
    then have "''/'' @ join ''/'' ?cs \<noteq> []" "last (''/'' @ join ''/'' ?cs) \<noteq> slash" "join ''/'' ?cs \<noteq> []"
      using join_clean_last [OF clean False] join_clean_Nil [OF clean] by auto
    then show ?thesis
      using assms path strip_slash_text [of "''/'' @ join ''/'' ?cs"]
      by (simp add: posix_normalize_def)
  qed
qed

text \<open>The components of the place a path names, seen from a working directory.\<close>

definition located :: "string \<Rightarrow> string \<Rightarrow> string list" where
  "located dir path = components False (if is_absolute path then path else dir @ ''/'' @ path)"

lemma strip_normalize_grant:
  assumes "is_absolute path \<or> (\<exists>dir. cwd = Some dir \<and> is_absolute dir)"
  shows "strip_trailing_slash (normalize_grant_path d path cwd) =
    ''/'' @ join ''/'' (located (case cwd of Some dir \<Rightarrow> dir | None \<Rightarrow> []) path)"
proof (cases "is_absolute path")
  case True
  then show ?thesis using strip_normalize by (simp add: normalize_grant_path_def located_def)
next
  case False
  then obtain dir where dir: "cwd = Some dir" "is_absolute dir" using assms by blast
  then have ne: "dir \<noteq> []" by (auto simp: is_absolute_def)
  have grow: "is_absolute (dir @ s)" for s
    using dir(2) by (auto simp: is_absolute_def starts_with_iff)
  have relative: "path \<noteq> [] \<Longrightarrow> \<not> is_absolute (path @ s)" for s
    using False by (cases path) (auto simp: is_absolute_def)
  have "resolve_from [path, dir, d] [] = (if path = [] then dir @ ''/'' else dir @ ''/'' @ path @ ''/'')"
    using False ne grow [of "''/''"] grow relative [of "''/''"] by (auto simp: is_absolute_def [of "[]"])
  moreover have "components False (dir @ ''/'' @ path @ ''/'') = components False (dir @ ''/'' @ path)"
    using components_append_slash [of False "dir @ ''/'' @ path"] by simp
  ultimately have resolved: "posix_resolve d dir path = ''/'' @ join ''/'' (located dir path)"
    using False grow by (auto simp: posix_resolve_def located_def Let_def)
  have clean: "list_all clean_component (located dir path)"
    by (simp add: located_def components_clean)
  have "is_absolute (posix_resolve d dir path)" by (simp add: resolved is_absolute_def)
  then show ?thesis
    using strip_normalize [of "posix_resolve d dir path"] False dir components_join [OF clean]
    by (simp add: normalize_grant_path_def resolved components_slash)
qed

lemma join_prefix:
  assumes "list_all clean_component a" "list_all clean_component b" "a \<noteq> []"
  shows "starts_with (join ''/'' b) (join ''/'' a @ ''/'') \<longleftrightarrow> (\<exists>c rest. b = a @ c # rest)"
proof
  assume "starts_with (join ''/'' b) (join ''/'' a @ ''/'')"
  then obtain u where u: "join ''/'' b = join ''/'' a @ slash # u" by (auto simp: starts_with_iff)
  have ne: "b \<noteq> []" using u by auto
  have "split_char slash (join ''/'' b) = split_char slash (join ''/'' a) @ split_char slash u"
    unfolding u by (rule split_char_append)
  moreover have "split_char slash (join ''/'' b) = b" "split_char slash (join ''/'' a) = a"
    using assms ne by (auto intro!: split_char_join simp: list_all_iff clean_component_def)
  ultimately have "b = a @ split_char slash u" by simp
  then show "\<exists>c rest. b = a @ c # rest" by (cases "split_char slash u") auto
next
  assume "\<exists>c rest. b = a @ c # rest"
  then obtain c rest where b: "b = a @ c # rest" by blast
  have "join ''/'' (a @ c # rest) = join ''/'' a @ ''/'' @ join ''/'' (c # rest)"
    using \<open>a \<noteq> []\<close>
  proof (induction a)
    case (Cons x a)
    then show ?case by (cases "a = []") (simp_all add: join_Cons_not_Nil)
  qed simp
  then show "starts_with (join ''/'' b) (join ''/'' a @ ''/'')"
    unfolding b by (simp add: starts_with_iff)
qed

lemma directory_grant_located:
  assumes "backslash \<notin> set anchor" "star \<notin> set anchor" "CHR ''?'' \<notin> set anchor"
    and "is_absolute anchor \<and> is_absolute subject \<or> (\<exists>dir. cwd = Some dir \<and> is_absolute dir)"
  defines "dir \<equiv> (case cwd of Some dir \<Rightarrow> dir | None \<Rightarrow> [])"
  defines "base \<equiv> (if anchor = [] then ''/'' else anchor)"
  shows "directory_grant_allows d (anchor @ ''/*'') subject cwd \<longleftrightarrow>
    (\<exists>rest. located dir subject = located dir base @ rest \<and> (rest \<noteq> [] \<or> located dir base = []))"
proof -
  have base: "strip_trailing_slash (normalize_grant_path d base cwd) = ''/'' @ join ''/'' (located dir base)"
    using strip_normalize_grant [of base cwd d] assms(4) by (auto simp: dir_def base_def is_absolute_def)
  have subject: "strip_trailing_slash (normalize_grant_path d subject cwd) =
      ''/'' @ join ''/'' (located dir subject)"
    using strip_normalize_grant [of subject cwd d] assms(4) by (auto simp: dir_def)
  have clean: "list_all clean_component (located dir p)" for p by (simp add: located_def components_clean)
  have "directory_grant_allows d (anchor @ ''/*'') subject cwd \<longleftrightarrow>
      starts_with (''/'' @ join ''/'' (located dir subject))
        (if located dir base = [] then ''/'' else ''/'' @ join ''/'' (located dir base) @ ''/'')"
    using assms(1-3) base subject join_clean_Nil [OF clean]
    by (auto simp: directory_grant_allows_def Let_def base_def)
  also have "\<dots> \<longleftrightarrow>
      (\<exists>rest. located dir subject = located dir base @ rest \<and> (rest \<noteq> [] \<or> located dir base = []))"
    using join_prefix [OF clean clean, of base subject] by (auto simp: neq_Nil_conv)
  finally show ?thesis .
qed

text \<open>A directory grant covers a path exactly when the path is written under the granted
  directory and, with dots, parent steps and doubled slashes resolved against the working directory,
  lies below it: no \<open>..\<close> leaves the granted directory. Only a grant on the root covers its own
  directory.\<close>

theorem directory_grant_covers:
  assumes "backslash \<notin> set anchor" "star \<notin> set anchor" "CHR ''?'' \<notin> set anchor"
    and "is_absolute anchor \<and> is_absolute subject \<or> (\<exists>dir. cwd = Some dir \<and> is_absolute dir)"
  shows "matches_pattern d subject (anchor @ ''/*'') cwd \<longleftrightarrow>
    starts_with subject (anchor @ ''/'') \<and>
    (\<exists>rest. located (case cwd of Some dir \<Rightarrow> dir | None \<Rightarrow> []) subject =
        located (case cwd of Some dir \<Rightarrow> dir | None \<Rightarrow> []) (if anchor = [] then ''/'' else anchor) @ rest \<and>
      (rest \<noteq> [] \<or>
       located (case cwd of Some dir \<Rightarrow> dir | None \<Rightarrow> []) (if anchor = [] then ''/'' else anchor) = []))"
proof -
  have "glob ''*'' t" for t by (simp add: glob_star) (metis drop_all order_refl)
  then have "match_pattern (anchor @ ''/*'') subject \<longleftrightarrow> starts_with subject (anchor @ ''/'')"
    using glob_text [of "anchor @ ''/''" "''*''" subject] assms(2) by (simp add: match_pattern_decides)
  then show ?thesis
    using directory_grant_located [OF assms] assms(1)
    by (auto simp: matches_pattern_def is_exact_escaped_pattern_def)
qed

lemma directory_grant_covers_witness:
  "matches_pattern ''/'' ''/p/sub/./x'' ''/p/sub/*'' None \<and>
   \<not> matches_pattern ''/'' ''/p/sub/../evil'' ''/p/sub/*'' None \<and>
   \<not> matches_pattern ''/'' ''sub/../../evil'' ''sub/*'' (Some ''/p'')"
proof -
  have "located [] ''/p/sub/./x'' = located [] ''/p/sub'' @ [''x'']"
    "located [] ''/p/sub/../evil'' = [''p'', ''evil'']" "located [] ''/p/sub'' = [''p'', ''sub'']"
    "located ''/p'' ''sub/../../evil'' = [''evil'']" "located ''/p'' ''sub'' = [''p'', ''sub'']"
    by code_simp+
  then show ?thesis
    using directory_grant_covers [of "''/p/sub''" "''/p/sub/./x''" None "''/''"]
      directory_grant_covers [of "''/p/sub''" "''/p/sub/../evil''" None "''/''"]
      directory_grant_covers [of "''sub''" "''sub/../../evil''" "Some ''/p''" "''/''"]
    by (simp add: is_absolute_def)
qed

end
