(* ===== verification/CommandScopes.thy ===== *)
theory CommandScopes
  imports ShellSegments GrantPatterns
begin

text \<open>
  From a shell command to the scopes an operator can grant (\<open>src/permission/command.ts\<close>): comment
  lines stripped, the command cut into tokens, a ladder of prefix patterns and the exact command.
  The loops run over the rest of the command with the character before it; the closure's variables
  are records.
\<close>

section \<open>Comment lines\<close>

datatype comment_state = Comment_unknown | Comment_yes | Comment_no

record strip_state =
  sp_out :: string
  sp_line :: string
  sp_comment :: comment_state
  sp_quote :: "char option"
  sp_heredoc :: "(string \<times> bool) option"

definition strip_start :: strip_state where
  "strip_start = \<lparr>sp_out = [], sp_line = [], sp_comment = Comment_unknown, sp_quote = None, sp_heredoc = None\<rparr>"

definition flush_line :: "strip_state \<Rightarrow> strip_state" where
  "flush_line st =
     st\<lparr>sp_out := (if sp_comment st \<noteq> Comment_yes then sp_out st @ sp_line st else sp_out st),
        sp_line := [], sp_comment := Comment_unknown\<rparr>"

definition add_line :: "string \<Rightarrow> strip_state \<Rightarrow> strip_state" where
  "add_line s st = st\<lparr>sp_line := sp_line st @ s\<rparr>"

definition settle_code :: "strip_state \<Rightarrow> strip_state" where
  "settle_code st = (if sp_comment st = Comment_unknown then st\<lparr>sp_comment := Comment_no\<rparr> else st)"

definition strip_heredoc_char :: "char \<Rightarrow> string \<Rightarrow> bool \<Rightarrow> strip_state \<Rightarrow> strip_state" where
  "strip_heredoc_char ch marker strip st =
     (let st1 = add_line [ch] st
      in if ch = newline then
           (let st2 = (if is_heredoc_terminator (completed_line (sp_line st1)) marker strip
                       then st1\<lparr>sp_heredoc := None\<rparr> else st1)
            in st2\<lparr>sp_out := sp_out st2 @ sp_line st2, sp_line := []\<rparr>)
         else st1)"

text \<open>A character outside quotes and heredocs that continues no line and opens no heredoc.\<close>

definition strip_plain :: "char \<Rightarrow> strip_state \<Rightarrow> strip_state" where
  "strip_plain ch st =
     (if ch = newline then flush_line (add_line [ch] st)
      else if is_blank ch then add_line [ch] st
      else add_line [ch]
             (if sp_comment st = Comment_unknown
              then st\<lparr>sp_comment := (if ch = CHR ''#'' then Comment_yes else Comment_no)\<rparr> else st))"

text \<open>One turn of the loop: the new state, and how many further characters it consumed.\<close>

definition strip_char :: "char option \<Rightarrow> char \<Rightarrow> string \<Rightarrow> strip_state \<Rightarrow> strip_state \<times> nat" where
  "strip_char prev ch rest st =
     (case sp_heredoc st of
        Some (marker, strip) \<Rightarrow> (strip_heredoc_char ch marker strip st, 0)
      | None \<Rightarrow>
          (case sp_quote st of
             Some q \<Rightarrow> ((add_line [ch] st)\<lparr>sp_quote := (if ch = q then None else Some q)\<rparr>, 0)
           | None \<Rightarrow>
               if is_quote_char ch then (add_line [ch] (settle_code (st\<lparr>sp_quote := Some ch\<rparr>)), 0)
               else (case (if sp_comment st \<noteq> Comment_yes then continuation_length ch rest else None) of
                       Some n \<Rightarrow> (settle_code (add_line (ch # take n rest) st), n)
                     | None \<Rightarrow>
                         (case (if sp_comment st \<noteq> Comment_yes then parse_heredoc_opener prev (ch # rest)
                                else None) of
                            Some opener \<Rightarrow>
                              ((add_line (take (ho_line_end opener) (ch # rest)) (settle_code st))
                                 \<lparr>sp_heredoc := Some (ho_marker opener, ho_strip_tabs opener)\<rparr>,
                               ho_line_end opener - 1)
                          | None \<Rightarrow> (strip_plain ch st, 0)))))"

function strip_scan :: "char option \<Rightarrow> string \<Rightarrow> strip_state \<Rightarrow> strip_state" where
  "strip_scan prev [] st = st"
| "strip_scan prev (ch # rest) st =
     (case strip_char prev ch rest st of
        (st', n) \<Rightarrow> strip_scan (Some (last (ch # take n rest))) (drop n rest) st')"
  by pat_completeness auto
termination
  by (relation "measure (\<lambda>(prev, s, st). length s)") auto

definition strip_comment_lines :: "string \<Rightarrow> string" where
  "strip_comment_lines command = sp_out (flush_line (strip_scan None command strip_start))"

definition is_shell_comment_only :: "string \<Rightarrow> bool" where
  "is_shell_comment_only segment = (trim segment = [] \<or> starts_with (trim segment) ''#'')"

definition shell_no_ops :: "string list" where
  "shell_no_ops =
     [''true'', ''false'', '':'', ''do'', ''done'', ''fi'', ''then'', ''else'', ''elif'', ''esac'',
      ''continue'', ''break'']"

definition is_shell_no_op :: "string \<Rightarrow> bool" where
  "is_shell_no_op segment = (trim segment \<in> set shell_no_ops)"

section \<open>Tokens\<close>

record token_state =
  tk_tokens :: "string list"
  tk_current :: string
  tk_quote :: "char option"
  tk_subst_depth :: nat
  tk_saved_quote :: "char option"

definition token_start :: token_state where
  "token_start = \<lparr>tk_tokens = [], tk_current = [], tk_quote = None, tk_subst_depth = 0, tk_saved_quote = None\<rparr>"

definition push_token :: "token_state \<Rightarrow> token_state" where
  "push_token st =
     st\<lparr>tk_tokens := (if tk_current st \<noteq> [] then tk_tokens st @ [tk_current st] else tk_tokens st),
        tk_current := []\<rparr>"

definition add_token :: "char \<Rightarrow> token_state \<Rightarrow> token_state" where
  "add_token c st = st\<lparr>tk_current := tk_current st @ [c]\<rparr>"

text \<open>The turn after substitutions and single quotes were handled.\<close>

definition token_text :: "char \<Rightarrow> token_state \<Rightarrow> token_state" where
  "token_text ch st =
     (if tk_quote st = Some dquote then
        (if ch = dquote then st\<lparr>tk_quote := None\<rparr> else add_token ch st)
      else if ch = dquote \<or> ch = squote then st\<lparr>tk_quote := Some ch\<rparr>
      else if is_blank ch then push_token st
      else add_token ch st)"

definition token_char :: "char \<Rightarrow> string \<Rightarrow> token_state \<Rightarrow> token_state \<times> nat" where
  "token_char ch rest st =
     (if tk_quote st = Some squote then
        ((if ch = squote then st\<lparr>tk_quote := None\<rparr> else add_token ch st), 0)
      else if ch = backtick then (push_token st, 0)
      else if ch = CHR ''$'' \<and> js_at rest 0 = Some (CHR ''('') then
        (let st1 = push_token st
         in (st1\<lparr>tk_saved_quote := (if tk_subst_depth st = 0 then tk_quote st else tk_saved_quote st),
                 tk_subst_depth := Suc (tk_subst_depth st), tk_quote := None\<rparr>, 1))
      else if tk_subst_depth st > 0 \<and> tk_quote st = None \<and> ch = CHR ''('' then
        (add_token ch (st\<lparr>tk_subst_depth := Suc (tk_subst_depth st)\<rparr>), 0)
      else if tk_subst_depth st > 0 \<and> tk_quote st = None \<and> ch = CHR '')'' then
        (if tk_subst_depth st = 1
         then ((push_token (st\<lparr>tk_subst_depth := 0\<rparr>))\<lparr>tk_quote := tk_saved_quote st\<rparr>, 0)
         else (add_token ch (st\<lparr>tk_subst_depth := tk_subst_depth st - 1\<rparr>), 0))
      else (token_text ch st, 0))"

function token_scan :: "string \<Rightarrow> token_state \<Rightarrow> token_state" where
  "token_scan [] st = st"
| "token_scan (ch # rest) st = (case token_char ch rest st of (st', n) \<Rightarrow> token_scan (drop n rest) st')"
  by pat_completeness auto
termination
  by (relation "measure (\<lambda>(s, st). length s)") auto

definition tokenize :: "string \<Rightarrow> string list" where
  "tokenize command = tk_tokens (push_token (token_scan (trim command) token_start))"

section \<open>The ladder of scopes\<close>

datatype grant_scope = Session_scope | Project_scope | Global_scope | Provider_model_scope

record approval_scope =
  sco_id :: string
  sco_label :: string
  sco_pattern :: "string option"
  sco_hint :: "string option"
  sco_grant :: "grant_scope option"

definition plain_scope :: "string \<Rightarrow> string \<Rightarrow> string \<Rightarrow> approval_scope" where
  "plain_scope scope_id label pattern =
     \<lparr>sco_id = scope_id, sco_label = label, sco_pattern = Some pattern, sco_hint = None, sco_grant = None\<rparr>"

definition max_prefix_scopes :: nat where
  "max_prefix_scopes = 3"

definition multiplexers :: "string list" where
  "multiplexers =
     [''git'', ''npm'', ''pnpm'', ''yarn'', ''npx'', ''bun'', ''bunx'', ''docker'', ''kubectl'', ''cargo'',
      ''go'', ''make'', ''gh'', ''brew'', ''pip'', ''pip3'', ''python'', ''python3'', ''node'']"

definition prefix_scope :: "string list \<Rightarrow> nat \<Rightarrow> approval_scope" where
  "prefix_scope tokens n =
     (let pattern = join '' '' (take n tokens) @ '' *''
      in plain_scope (''prefix-'' @ dec n) (''Always allow '' @ pattern) pattern)"

definition derive_command_scopes :: "string \<Rightarrow> approval_scope list" where
  "derive_command_scopes raw_command =
     (let command = trim (strip_comment_lines raw_command);
          tokens = tokenize command
      in if tokens = [] then []
         else if starts_with command ''('' then
           [plain_scope ''exact'' ''Always allow this exact command'' (escape_glob_literal command)]
         else
           (let min_prefix = (if hd tokens \<in> set multiplexers then 2 else 1);
                prefix_limit = min (length tokens - 1) (min_prefix + max_prefix_scopes - 1);
                scopes = map (prefix_scope tokens) [min_prefix ..< Suc prefix_limit];
                exact = join '' '' (map escape_glob_literal tokens)
            in if list_ex (\<lambda>s. sco_pattern s = Some exact) scopes then scopes
               else scopes @ [plain_scope ''exact'' ''Always allow this exact command'' exact]))"

section \<open>Stripping, against a reference\<close>

text \<open>Text without quotes, backslashes or heredocs, its lines with their line breaks, and the lines
  that are comments.\<close>

definition is_bare_char :: "char \<Rightarrow> bool" where
  "is_bare_char c \<longleftrightarrow> \<not> is_quote_char c \<and> c \<noteq> backslash \<and> c \<noteq> CHR ''<''"

fun ended_lines :: "string \<Rightarrow> string list" where
  "ended_lines [] = [[]]"
| "ended_lines (c # s) =
     (if c = newline then [c] # ended_lines s
      else (case ended_lines s of l # ls \<Rightarrow> (c # l) # ls | [] \<Rightarrow> [[c]]))"

definition comment_line :: "string \<Rightarrow> bool" where
  "comment_line l = starts_with (dropWhile is_blank l) ''#''"

definition without_comment_lines :: "string \<Rightarrow> string" where
  "without_comment_lines s = concat (filter (\<lambda>l. \<not> comment_line l) (ended_lines s))"

definition line_state :: "string \<Rightarrow> comment_state" where
  "line_state l =
     (case dropWhile is_blank l of
        [] \<Rightarrow> Comment_unknown
      | c # _ \<Rightarrow> if c = CHR ''#'' then Comment_yes else Comment_no)"

lemma ended_lines_not_Nil [simp]: "ended_lines s \<noteq> []"
  by (cases s) (auto split: list.splits)

lemma ended_lines_break: "newline \<notin> set l \<Longrightarrow> ended_lines (l @ newline # s) = (l @ [newline]) # ended_lines s"
  by (induction l) auto

lemma ended_lines_one: "newline \<notin> set l \<Longrightarrow> ended_lines l = [l]"
  by (induction l) auto

lemma newline_not_blank [simp]: "\<not> is_blank newline"
  by (simp add: is_blank_def)

lemma comment_line_state: "newline \<notin> set l \<Longrightarrow> comment_line (l @ [newline]) \<longleftrightarrow> line_state l = Comment_yes"
  by (induction l) (auto simp: comment_line_def line_state_def)

lemma comment_line_state_last: "comment_line l \<longleftrightarrow> line_state l = Comment_yes"
proof -
  have "starts_with r ''#'' \<longleftrightarrow>
      (case r of [] \<Rightarrow> Comment_unknown | c # _ \<Rightarrow> if c = CHR ''#'' then Comment_yes else Comment_no) = Comment_yes" for r
    by (cases r) auto
  then show ?thesis by (simp add: comment_line_def line_state_def)
qed

lemma line_state_snoc:
  "line_state (l @ [c]) =
     (if is_blank c \<or> line_state l \<noteq> Comment_unknown then line_state l
      else if c = CHR ''#'' then Comment_yes else Comment_no)"
  by (induction l) (auto simp: line_state_def)

lemma strip_char_bare:
  assumes "is_bare_char c" "sp_heredoc st = None" "sp_quote st = None"
  shows "strip_char prev c rest st = (strip_plain c st, 0)"
proof -
  have "continuation_length c rest = None" "parse_heredoc_opener prev (c # rest) = None" "\<not> is_quote_char c"
    using assms(1) by (auto simp: is_bare_char_def continuation_length_def parse_heredoc_opener_def)
  then show ?thesis using assms(2,3) by (simp add: strip_char_def)
qed

lemma strip_scan_bare:
  "list_all is_bare_char s \<Longrightarrow> sp_heredoc st = None \<Longrightarrow> sp_quote st = None \<Longrightarrow>
    newline \<notin> set (sp_line st) \<Longrightarrow> sp_comment st = line_state (sp_line st) \<Longrightarrow>
    sp_out (flush_line (strip_scan prev s st)) = sp_out st @ without_comment_lines (sp_line st @ s)"
proof (induction s arbitrary: prev st)
  case Nil
  then show ?case
    by (simp add: flush_line_def without_comment_lines_def ended_lines_one comment_line_state_last)
next
  case (Cons c s)
  have step: "strip_scan prev (c # s) st = strip_scan (Some c) s (strip_plain c st)"
    using strip_char_bare [of c st prev s] Cons.prems by simp
  show ?case
  proof (cases "c = newline")
    case True
    have "sp_out (strip_plain c st) = sp_out st @ (if comment_line (sp_line st @ [newline]) then [] else sp_line st @ [newline])"
      using True Cons.prems comment_line_state [of "sp_line st"]
      by (simp add: strip_plain_def flush_line_def add_line_def)
    moreover have "sp_out (flush_line (strip_scan (Some c) s (strip_plain c st))) =
        sp_out (strip_plain c st) @ without_comment_lines s"
      using Cons.IH [of "strip_plain c st" "Some c"] Cons.prems True
      by (simp add: strip_plain_def flush_line_def add_line_def line_state_def)
    ultimately show ?thesis
      using True Cons.prems ended_lines_break [of "sp_line st" s] step
      by (simp add: without_comment_lines_def)
  next
    case False
    have "sp_out (flush_line (strip_scan (Some c) s (strip_plain c st))) =
        sp_out st @ without_comment_lines ((sp_line st @ [c]) @ s)"
      using Cons.IH [of "strip_plain c st" "Some c"] Cons.prems False
      by (auto simp: strip_plain_def add_line_def line_state_snoc)
    then show ?thesis using step by simp
  qed
qed

text \<open>On a command without quotes, backslashes and heredocs, stripping comments removes exactly
  the lines whose first character after blanks is a hash, and keeps every other line with its line
  break.\<close>

theorem strip_keeps_code_lines:
  assumes "list_all is_bare_char command"
  shows "strip_comment_lines command = without_comment_lines command"
  using strip_scan_bare [of command strip_start None] assms
  by (simp add: strip_comment_lines_def strip_start_def line_state_def)

lemma strip_keeps_code_lines_witness:
  "strip_comment_lines (''ls'' @ [newline] @ ''  # why'' @ [newline] @ ''pwd'') = ''ls'' @ [newline] @ ''pwd''"
proof -
  have "list_all is_bare_char (''ls'' @ [newline] @ ''  # why'' @ [newline] @ ''pwd'')"
    "without_comment_lines (''ls'' @ [newline] @ ''  # why'' @ [newline] @ ''pwd'') = ''ls'' @ [newline] @ ''pwd''"
    by code_simp+
  then show ?thesis using strip_keeps_code_lines by metis
qed

section \<open>Words survive the cut\<close>

definition is_word :: "string \<Rightarrow> bool" where
  "is_word w \<longleftrightarrow> w \<noteq> [] \<and> list_all (\<lambda>c. \<not> is_ws c \<and> \<not> is_quote_char c \<and> c \<noteq> CHR ''$'') w"

lemma blank_ws: "is_blank c \<Longrightarrow> is_ws c"
  by (auto simp: is_blank_def is_ws_def js_ws_chars_def)

definition between :: "string list \<Rightarrow> string \<Rightarrow> token_state" where
  "between ts cur = \<lparr>tk_tokens = ts, tk_current = cur, tk_quote = None, tk_subst_depth = 0, tk_saved_quote = None\<rparr>"

lemma token_scan_word:
  "list_all (\<lambda>c. \<not> is_ws c \<and> \<not> is_quote_char c \<and> c \<noteq> CHR ''$'') w \<Longrightarrow>
    token_scan (w @ s) (between ts cur) = token_scan s (between ts (cur @ w))"
proof (induction w arbitrary: cur)
  case (Cons c w)
  have "token_char c (w @ s) (between ts cur) = (between ts (cur @ [c]), 0)"
    using Cons.prems blank_ws [of c]
    by (auto simp: token_char_def token_text_def between_def is_quote_char_def add_token_def)
  then show ?case using Cons by simp
qed simp

lemma token_scan_words:
  "ws \<noteq> [] \<Longrightarrow> list_all is_word ws \<Longrightarrow>
    tk_tokens (push_token (token_scan (join '' '' ws) (between ts []))) = ts @ ws"
proof (induction ws arbitrary: ts)
  case (Cons w ws)
  show ?case
  proof (cases "ws = []")
    case True
    then show ?thesis
      using token_scan_word [of w "[]" ts "[]"] Cons.prems
      by (simp add: is_word_def push_token_def between_def)
  next
    case False
    have "token_char (CHR '' '') (join '' '' ws) (between ts w) = (between (ts @ [w]) [], 0)"
      using Cons.prems
      by (simp add: token_char_def token_text_def between_def push_token_def is_blank_def is_word_def)
    then show ?thesis
      using token_scan_word [of w "'' '' @ join '' '' ws" ts "[]"] Cons False
      by (simp add: join_Cons_not_Nil is_word_def)
  qed
qed simp

lemma join_words_ends:
  "ws \<noteq> [] \<Longrightarrow> list_all is_word ws \<Longrightarrow>
    join '' '' ws \<noteq> [] \<and> \<not> is_ws (hd (join '' '' ws)) \<and> \<not> is_ws (last (join '' '' ws))"
proof (induction ws)
  case (Cons w ws)
  have w: "w \<noteq> []" "\<not> is_ws (hd w)" "\<not> is_ws (last w)"
    using Cons.prems by (auto simp: is_word_def list_all_iff)
  show ?case using Cons w by (cases "ws = []") (simp_all add: join_Cons_not_Nil)
qed simp

lemma tokenize_of_words: "list_all is_word ws \<Longrightarrow> tokenize (join '' '' ws) = ws"
proof (cases "ws = []")
  case True
  then show ?thesis by (simp add: tokenize_def push_token_def token_start_def)
next
  case False
  assume words: "list_all is_word ws"
  then have "trim (join '' '' ws) = join '' '' ws" using join_words_ends [OF False words] by (intro trim_id) simp
  then show ?thesis
    using token_scan_words [OF False words, of "[]"] by (simp add: tokenize_def token_start_def between_def)
qed

text \<open>Cutting words joined by blanks gives the words back: quotes, substitutions and white space
  aside, no token is lost, merged or split.\<close>

theorem tokenize_join_words:
  assumes "list_all is_word ws"
  shows "tokenize (join '' '' ws) = ws"
  using assms by (rule tokenize_of_words)

lemma tokenize_join_words_witness: "tokenize (join '' '' [''git'', ''push'', ''--force'']) = [''git'', ''push'', ''--force'']"
  by (rule tokenize_join_words) code_simp

section \<open>What the derived scopes cover\<close>

text \<open>A plain word: nothing the stripping, the cut or the matcher reads as syntax.\<close>

definition is_plain_word :: "string \<Rightarrow> bool" where
  "is_plain_word w \<longleftrightarrow> is_word w \<and>
     list_all (\<lambda>c. is_bare_char c \<and> c \<noteq> CHR ''*'' \<and> c \<noteq> CHR ''?'' \<and> c \<noteq> CHR ''('' \<and> c \<noteq> CHR ''#'') w"

lemma in_join: "c \<in> set (join sep ws) \<Longrightarrow> c \<in> set sep \<or> (\<exists>w \<in> set ws. c \<in> set w)"
proof (induction ws)
  case (Cons w ws)
  then show ?case by (cases "ws = []") (auto simp: join_Cons_not_Nil)
qed simp

lemma plain_words_chars:
  assumes "list_all is_plain_word ws" "c \<in> set (join '' '' ws)"
  shows "is_bare_char c \<and> c \<noteq> newline \<and> c \<noteq> CHR ''*'' \<and> c \<noteq> CHR ''?'' \<and> c \<noteq> CHR ''('' \<and> c \<noteq> CHR ''#''"
  using in_join [OF assms(2)] assms(1)
  by (auto simp: list_all_iff is_plain_word_def is_word_def is_bare_char_def is_quote_char_def is_ws_def js_ws_chars_def)

lemma strip_plain_words:
  assumes "list_all is_plain_word ws"
  shows "strip_comment_lines (join '' '' ws) = join '' '' ws"
proof -
  have "list_all is_bare_char (join '' '' ws)"
    using plain_words_chars [OF assms] by (auto simp: list_all_iff)
  then have "strip_comment_lines (join '' '' ws) = without_comment_lines (join '' '' ws)"
    using strip_scan_bare [of "join '' '' ws" strip_start None]
    by (simp add: strip_comment_lines_def strip_start_def line_state_def)
  moreover have "newline \<notin> set (join '' '' ws)" using plain_words_chars [OF assms] by blast
  moreover have "CHR ''#'' \<notin> set (join '' '' ws)" using plain_words_chars [OF assms] by blast
  then have "\<not> comment_line (join '' '' ws)"
    using set_dropWhileD [of "CHR ''#''" is_blank "join '' '' ws"] by (auto simp: comment_line_def starts_with_iff)
  ultimately show ?thesis by (simp add: without_comment_lines_def ended_lines_one)
qed

lemma escape_plain: "star \<notin> set w \<Longrightarrow> CHR ''?'' \<notin> set w \<Longrightarrow> backslash \<notin> set w \<Longrightarrow> escape_glob_literal w = w"
  by (induction w) auto

lemma matches_prefix:
  assumes "backslash \<notin> set p" "star \<notin> set p"
  shows "matches_pattern d subject (p @ '' *'') cwd \<longleftrightarrow> starts_with subject (p @ '' '')"
proof -
  have "\<not> ends_with (p @ '' *'') ''/*''" by (auto simp: ends_with_iff)
  moreover have "glob ''*'' t" for t by (simp add: glob_star) (metis drop_all order_refl)
  then have "match_pattern (p @ '' *'') subject \<longleftrightarrow> starts_with subject (p @ '' '')"
    using glob_text [of "p @ '' ''" "''*''" subject] assms(2) by (simp add: match_pattern_decides)
  ultimately show ?thesis
    using assms(1) by (simp add: matches_pattern_def is_exact_escaped_pattern_def directory_grant_allows_def)
qed

lemma matches_literal:
  assumes "backslash \<notin> set p" "star \<notin> set p"
  shows "matches_pattern d subject p cwd \<longleftrightarrow> subject = p"
  using assms directory_no_star [OF assms(2)] match_pattern_decides glob_plain [OF assms(2)]
  by (simp add: matches_pattern_def is_exact_escaped_pattern_def)

text \<open>C18: The scopes offered for a command of plain words are one for each prefix, from two words on
  when the program is a multiplexer and from one otherwise, at most three of them, and the exact
  command; a prefix scope covers exactly the commands that begin with its words, the exact scope
  exactly the command itself.\<close>

theorem derived_scopes_cover:
  assumes "ws \<noteq> []" "list_all is_plain_word ws"
  shows "map (\<lambda>s. \<lambda>subject. matches_pattern d subject (the (sco_pattern s)) cwd)
      (derive_command_scopes (join '' '' ws)) =
    map (\<lambda>n subject. starts_with subject (join '' '' (take n ws) @ '' ''))
      [(if hd ws \<in> set multiplexers then 2 else 1) ..<
        Suc (min (length ws - 1) ((if hd ws \<in> set multiplexers then 2 else 1) + 2))] @
    [\<lambda>subject. subject = join '' '' ws]"
proof -
  have words: "list_all is_word ws" using assms(2) by (auto simp: list_all_iff is_plain_word_def)
  let ?cmd = "join '' '' ws"
  let ?m = "(if hd ws \<in> set multiplexers then 2 else 1) :: nat"
  let ?ns = "[?m ..< Suc (min (length ws - 1) (?m + 2))]"
  have trim: "trim ?cmd = ?cmd" using join_words_ends [OF assms(1) words] by (intro trim_id) simp
  have tokens: "tokenize ?cmd = ws" by (rule tokenize_of_words [OF words])
  have chars: "backslash \<notin> set (join '' '' vs)" "star \<notin> set (join '' '' vs)" if "set vs \<subseteq> set ws" for vs
    using plain_words_chars [of vs] that assms(2) by (auto simp: list_all_iff is_bare_char_def)
  have group: "\<not> starts_with ?cmd ''(''"
    using plain_words_chars [OF assms(2), of "CHR ''(''"] by (auto simp: starts_with_iff)
  have exact: "join '' '' (map escape_glob_literal ws) = ?cmd"
  proof -
    have "map escape_glob_literal ws = ws"
      using assms(2) by (intro map_idI escape_plain) (auto simp: list_all_iff is_plain_word_def is_bare_char_def)
    then show ?thesis by simp
  qed
  have take: "set (take n ws) \<subseteq> set ws" for n by (rule set_take_subset)
  have prefix: "matches_pattern d subject (the (sco_pattern (prefix_scope ws n))) cwd \<longleftrightarrow>
      starts_with subject (join '' '' (take n ws) @ '' '')" for n subject
    using matches_prefix [OF chars [OF take]] by (simp add: prefix_scope_def plain_scope_def Let_def)
  have no: "\<not> list_ex (\<lambda>s. sco_pattern s = Some ?cmd) (map (prefix_scope ws) ?ns)"
    using chars(2) [of ws] by (auto simp: list_ex_iff prefix_scope_def plain_scope_def Let_def) (metis Un_iff list.set_intros set_append)+
  have "derive_command_scopes ?cmd =
      map (prefix_scope ws) ?ns @ [plain_scope ''exact'' ''Always allow this exact command'' ?cmd]"
    using assms(1) no group
    by (simp add: derive_command_scopes_def Let_def strip_plain_words [OF assms(2)] trim tokens exact
        max_prefix_scopes_def)
  moreover have "matches_pattern d subject ?cmd cwd \<longleftrightarrow> subject = ?cmd" for subject
    using matches_literal chars [of ws] by blast
  ultimately show ?thesis by (simp add: prefix plain_scope_def comp_def fun_eq_iff)
qed

lemma derived_scopes_cover_witness:
  "map (\<lambda>s. \<lambda>subject. matches_pattern ''/'' subject (the (sco_pattern s)) None) (derive_command_scopes ''git push origin'') =
    [\<lambda>subject. starts_with subject ''git push '', \<lambda>subject. subject = ''git push origin'']"
proof -
  have "[''git'', ''push'', ''origin''] \<noteq> []" "list_all is_plain_word [''git'', ''push'', ''origin'']"
    by code_simp+
  from derived_scopes_cover [OF this, of "''/''" None] show ?thesis
    by (simp add: multiplexers_def numeral_2_eq_2 upt_rec)
qed

end
