(* ===== verification/ApprovalCoverage.thy ===== *)
theory ApprovalCoverage
  imports CommandScopes ToolNames
begin

text \<open>
  Which calls stored approvals cover: the grant evaluator of the authorization package
  (\<open>vendor/intx-authz\<close>), the live coverage check (\<open>src/permission/authz-grants.ts\<close>), the request
  loop of the gate and its reconciliation of queued requests (\<open>src/permission/gate.ts\<close>). What the
  classification of a shell segment says (secret references, restricted targets, safe programs,
  hard blocks) and the file system are parameters.
\<close>

section \<open>The grant evaluator\<close>

datatype effect = Allow_effect | Ask_effect | Deny_effect

fun effect_priority :: "effect \<Rightarrow> nat" where
  "effect_priority Allow_effect = 0"
| "effect_priority Ask_effect = 1"
| "effect_priority Deny_effect = 2"

record grant_rule =
  gr_id :: string
  gr_effect :: effect
  gr_resource :: string
  gr_action :: string
  gr_conditions :: "(string \<times> json) list option"
  gr_expires_at :: "int option"

record matched_grant =
  mg_id :: string
  mg_resource :: string
  mg_action :: string
  mg_effect :: effect
  mg_specificity :: nat

record authz_result =
  az_effect :: "effect option"
  az_matching :: "matched_grant list"
  az_resolved_by :: "matched_grant option"

type_synonym condition_registry = "(string \<times> (json \<Rightarrow> bool)) list"

definition pattern_specificity :: "string \<Rightarrow> nat" where
  "pattern_specificity pattern =
     (if pattern = ''*'' then 0
      else (let literal = length (filter (\<lambda>c. c \<noteq> star) pattern)
            in if star \<in> set pattern then literal else literal + 1000))"

definition grant_specificity :: "string \<Rightarrow> string \<Rightarrow> nat" where
  "grant_specificity resource action = pattern_specificity resource + pattern_specificity action"

fun evaluate_conditions :: "condition_registry \<Rightarrow> (string \<times> json) list \<Rightarrow> string + bool" where
  "evaluate_conditions registry [] = Inr True"
| "evaluate_conditions registry ((key, v) # conditions) =
     (case map_of registry key of
        None \<Rightarrow> Inl (''Unknown condition: \"'' @ key @
          ''\". Register an evaluator in the condition registry.'')
      | Some evaluator \<Rightarrow> if evaluator v then evaluate_conditions registry conditions else Inr False)"

definition matched_of :: "grant_rule \<Rightarrow> matched_grant" where
  "matched_of g =
     \<lparr>mg_id = gr_id g, mg_resource = gr_resource g, mg_action = gr_action g, mg_effect = gr_effect g,
      mg_specificity = grant_specificity (gr_resource g) (gr_action g)\<rparr>"

fun collect_matching ::
    "int \<Rightarrow> condition_registry option \<Rightarrow> string \<Rightarrow> string \<Rightarrow> grant_rule list \<Rightarrow> string + matched_grant list" where
  "collect_matching now registry resource action [] = Inr []"
| "collect_matching now registry resource action (g # gs) =
     (if (case gr_expires_at g of Some t \<Rightarrow> t < now | None \<Rightarrow> False) \<or>
         \<not> match_pattern (gr_resource g) resource \<or> \<not> match_pattern (gr_action g) action
      then collect_matching now registry resource action gs
      else try_bind
             (case gr_conditions g of
                None \<Rightarrow> Inr True
              | Some conditions \<Rightarrow>
                  if conditions = [] then Inr True
                  else (case registry of None \<Rightarrow> Inr False | Some r \<Rightarrow> evaluate_conditions r conditions))
             (\<lambda>met. try_bind (collect_matching now registry resource action gs)
               (\<lambda>ms. Inr (if met then matched_of g # ms else ms))))"

text \<open>The sort is stable, so by specificity and then by effect is two sorts.\<close>

definition by_strength :: "matched_grant list \<Rightarrow> matched_grant list" where
  "by_strength ms = sort_key mg_specificity (sort_key (\<lambda>m. effect_priority (mg_effect m)) ms)"

definition evaluate_grants ::
    "int \<Rightarrow> condition_registry option \<Rightarrow> grant_rule list \<Rightarrow> string \<Rightarrow> string \<Rightarrow> string + authz_result" where
  "evaluate_grants now registry grants resource action =
     try_bind (collect_matching now registry resource action grants)
       (\<lambda>matching.
         if matching = [] then Inr \<lparr>az_effect = None, az_matching = [], az_resolved_by = None\<rparr>
         else (let sorted = by_strength matching; resolved = last sorted
               in Inr \<lparr>az_effect = Some (mg_effect resolved), az_matching = sorted,
                       az_resolved_by = Some resolved\<rparr>))"

section \<open>Approvals and their scope\<close>

record approval =
  ap_tool :: string
  ap_pattern :: string
  ap_provider_model :: "string option"
  ap_cwd :: "string option"

record grant_workspace =
  gw_resolved_cwd :: string
  gw_roots :: "string list"

record permission_request =
  rq_tool :: string
  rq_action :: string
  rq_subject :: string
  rq_scopes :: "approval_scope list"
  rq_cwd :: "string option"
  rq_agent_label :: "string option"
  rq_notice :: "string option"

definition is_package_compatible_pattern :: "string \<Rightarrow> bool" where
  "is_package_compatible_pattern pattern = (backslash \<notin> set pattern)"

definition approval_to_grant_rule :: "approval \<Rightarrow> nat \<Rightarrow> grant_rule" where
  "approval_to_grant_rule a index =
     \<lparr>gr_id = ''corbits-approval-'' @ dec index, gr_effect = Allow_effect, gr_resource = ap_pattern a,
      gr_action = canonical_tool_name (ap_tool a), gr_conditions = None, gr_expires_at = None\<rparr>"

definition cwd_matches_grant ::
    "(string \<Rightarrow> string) \<Rightarrow> string option \<Rightarrow> string option \<Rightarrow> grant_workspace \<Rightarrow> bool" where
  "cwd_matches_grant realpath grant_cwd request_cwd workspace =
     (case grant_cwd of
        None \<Rightarrow> True
      | Some granted \<Rightarrow>
          (case request_cwd of
             None \<Rightarrow> False
           | Some requested \<Rightarrow>
               if granted \<noteq> gw_resolved_cwd workspace then False
               else if granted = requested then True
               else realpath requested \<in> set (gw_roots workspace)))"

definition normalize_seeded_approvals :: "approval list \<Rightarrow> approval list" where
  "normalize_seeded_approvals seeded =
     concat (map (\<lambda>a. case canonical_grant_tool (ap_tool a) of
                         None \<Rightarrow> [] | Some tool \<Rightarrow> [a\<lparr>ap_tool := tool\<rparr>]) seeded)"

definition grant_scope_matches ::
    "(string \<Rightarrow> string) \<Rightarrow> approval \<Rightarrow> string \<Rightarrow> string option \<Rightarrow> string option \<Rightarrow> grant_workspace \<Rightarrow> bool" where
  "grant_scope_matches realpath a tool provider_model request_cwd workspace =
     (grant_tool_covers (ap_tool a) tool \<and>
      (ap_provider_model a = None \<or> ap_provider_model a = provider_model) \<and>
      cwd_matches_grant realpath (ap_cwd a) request_cwd workspace)"

text \<open>What the checks read besides the approvals: the process's directory and clock, the file system's
  real paths, the active model, the workspace.\<close>

record coverage_env =
  ce_process_cwd :: string
  ce_now :: int
  ce_realpath :: "string \<Rightarrow> string"
  ce_provider_model :: "string option"
  ce_workspace :: grant_workspace

definition scoped_approvals ::
    "coverage_env \<Rightarrow> string \<Rightarrow> string option \<Rightarrow> approval list \<Rightarrow> approval list" where
  "scoped_approvals env tool request_cwd approvals =
     filter (\<lambda>a. grant_scope_matches (ce_realpath env) a tool (ce_provider_model env) request_cwd
       (ce_workspace env)) approvals"

definition effective_cwd :: "coverage_env \<Rightarrow> string option \<Rightarrow> string" where
  "effective_cwd env request_cwd =
     (case request_cwd of Some dir \<Rightarrow> dir | None \<Rightarrow> gw_resolved_cwd (ce_workspace env))"

definition approval_covers_subject ::
    "coverage_env \<Rightarrow> string \<Rightarrow> string \<Rightarrow> string option \<Rightarrow> approval list \<Rightarrow> bool" where
  "approval_covers_subject env tool subject request_cwd approvals =
     (let action = canonical_tool_name tool;
          scoped = scoped_approvals env tool request_cwd approvals
      in if scoped = [] then False
         else (let cwd = effective_cwd env request_cwd;
                   contained = filter (\<lambda>a. directory_grant_allows (ce_process_cwd env) (ap_pattern a) subject
                     (Some cwd)) scoped
               in if contained = [] then False
                  else if list_ex (\<lambda>a. \<not> is_package_compatible_pattern (ap_pattern a) \<and>
                      matches_pattern (ce_process_cwd env) subject (ap_pattern a) None) contained then True
                  else (let compatible = filter (\<lambda>a. is_package_compatible_pattern (ap_pattern a)) contained;
                            grants = map (\<lambda>(i, a). approval_to_grant_rule a i) (enumerate 0 compatible)
                        in if grants = [] then False
                           else (case evaluate_grants (ce_now env) None grants subject action of
                                   Inl e \<Rightarrow> False
                                 | Inr r \<Rightarrow> az_effect r = Some Allow_effect))))"

section \<open>Evaluation\<close>

lemma set_by_strength [simp]: "set (by_strength ms) = set ms"
  by (simp add: by_strength_def)

lemma by_strength_not_Nil [simp]: "by_strength ms = [] \<longleftrightarrow> ms = []"
  by (metis set_by_strength set_empty)

lemma last_filter_last: "xs \<noteq> [] \<Longrightarrow> P (last xs) \<Longrightarrow> last (filter P xs) = last xs"
  by (cases xs rule: rev_cases) auto

lemma sorted_last_max: "sorted (map f xs) \<Longrightarrow> x \<in> set xs \<Longrightarrow> f x \<le> f (last xs)"
  by (cases xs rule: rev_cases) (auto simp: sorted_append)

text \<open>Among the strongest by specificity, the last one is the strongest effect.\<close>

lemma by_strength_last:
  assumes "m \<in> set ms"
  shows "mg_specificity m < mg_specificity (last (by_strength ms)) \<or>
    mg_specificity m = mg_specificity (last (by_strength ms)) \<and>
    effect_priority (mg_effect m) \<le> effect_priority (mg_effect (last (by_strength ms)))"
proof -
  let ?e = "\<lambda>m. effect_priority (mg_effect m)"
  let ?s = "by_strength ms"
  let ?top = "last ?s"
  have ne: "?s \<noteq> []" using assms by auto
  have le: "mg_specificity m \<le> mg_specificity ?top"
    using assms by (intro sorted_last_max) (simp_all add: by_strength_def)
  show ?thesis
  proof (cases "mg_specificity m = mg_specificity ?top")
    case True
    let ?k = "mg_specificity ?top"
    let ?eq = "filter (\<lambda>x. mg_specificity x = ?k) ?s"
    have "?eq = filter (\<lambda>x. mg_specificity x = ?k) (sort_key ?e ms)"
      unfolding by_strength_def by (rule sort_key_stable)
    then have "sorted (map ?e ?eq)" using sorted_filter [of ?e "sort_key ?e ms"] by simp
    moreover have "m \<in> set ?eq" using assms True by simp
    moreover have "last ?eq = ?top"
      using ne by (intro last_filter_last) simp_all
    ultimately show ?thesis using sorted_last_max [of ?e ?eq m] True by simp
  qed (use le in simp)
qed

definition applies :: "int \<Rightarrow> string \<Rightarrow> string \<Rightarrow> grant_rule \<Rightarrow> bool" where
  "applies now resource action g \<longleftrightarrow>
     (case gr_expires_at g of Some t \<Rightarrow> now \<le> t | None \<Rightarrow> True) \<and>
     glob (gr_resource g) resource \<and> glob (gr_action g) action"

lemma collect_unconditional:
  "list_all (\<lambda>g. gr_conditions g = None) gs \<Longrightarrow>
    collect_matching now registry resource action gs =
      Inr (map matched_of (filter (applies now resource action) gs))"
  by (induction gs)
    (auto simp: applies_def match_pattern_decides not_less split: option.splits)

text \<open>Over grants without conditions the evaluation answers nothing when no grant that is not
  expired matches the resource and the action, and otherwise the effect of one that does and that
  no other outweighs: a more specific pattern wins, at equal specificity deny outweighs ask and ask
  outweighs allow.\<close>

theorem most_specific_grant_decides:
  assumes "list_all (\<lambda>g. gr_conditions g = None) grants"
  shows "\<exists>r. evaluate_grants now registry grants resource action = Inr r \<and>
    (if filter (applies now resource action) grants = [] then az_effect r = None
     else \<exists>g \<in> set (filter (applies now resource action) grants).
       az_effect r = Some (gr_effect g) \<and>
       list_all (\<lambda>h.
         grant_specificity (gr_resource h) (gr_action h) < grant_specificity (gr_resource g) (gr_action g) \<or>
         grant_specificity (gr_resource h) (gr_action h) = grant_specificity (gr_resource g) (gr_action g) \<and>
         effect_priority (gr_effect h) \<le> effect_priority (gr_effect g))
         (filter (applies now resource action) grants))"
proof (cases "filter (applies now resource action) grants = []")
  case True
  then show ?thesis by (simp add: evaluate_grants_def collect_unconditional [OF assms])
next
  case False
  let ?gs = "filter (applies now resource action) grants"
  let ?ms = "map matched_of ?gs"
  have "last (by_strength ?ms) \<in> set ?ms" using False by (metis by_strength_not_Nil last_in_set map_is_Nil_conv set_by_strength)
  then obtain g where g: "g \<in> set ?gs" "last (by_strength ?ms) = matched_of g" by auto
  have "list_all (\<lambda>h.
      grant_specificity (gr_resource h) (gr_action h) < grant_specificity (gr_resource g) (gr_action g) \<or>
      grant_specificity (gr_resource h) (gr_action h) = grant_specificity (gr_resource g) (gr_action g) \<and>
      effect_priority (gr_effect h) \<le> effect_priority (gr_effect g)) ?gs"
    unfolding list_all_iff
  proof
    fix h assume "h \<in> set ?gs"
    then have "matched_of h \<in> set ?ms" by simp
    from by_strength_last [OF this] show "grant_specificity (gr_resource h) (gr_action h) < grant_specificity (gr_resource g) (gr_action g) \<or>
        grant_specificity (gr_resource h) (gr_action h) = grant_specificity (gr_resource g) (gr_action g) \<and>
        effect_priority (gr_effect h) \<le> effect_priority (gr_effect g)"
      unfolding g(2) by (simp add: matched_of_def)
  qed
  moreover have "evaluate_grants now registry grants resource action =
      Inr \<lparr>az_effect = Some (gr_effect g), az_matching = by_strength ?ms, az_resolved_by = Some (matched_of g)\<rparr>"
    using False g(2) by (simp add: evaluate_grants_def collect_unconditional [OF assms] Let_def) (simp add: matched_of_def)
  ultimately show ?thesis using False g(1) by auto
qed

lemma most_specific_grant_decides_witness:
  "\<exists>r. evaluate_grants 5 None
      [approval_to_grant_rule \<lparr>ap_tool = ''run_shell'', ap_pattern = ''rm *'', ap_provider_model = None, ap_cwd = None\<rparr> 0,
       (approval_to_grant_rule \<lparr>ap_tool = ''run_shell'', ap_pattern = ''rm x'', ap_provider_model = None, ap_cwd = None\<rparr> 1)
         \<lparr>gr_effect := Deny_effect\<rparr>] ''rm x'' ''run_shell'' = Inr r \<and> az_effect r = Some Deny_effect"
proof -
  let ?rm = "approval_to_grant_rule \<lparr>ap_tool = ''run_shell'', ap_pattern = ''rm *'', ap_provider_model = None, ap_cwd = None\<rparr> 0"
  let ?x = "(approval_to_grant_rule \<lparr>ap_tool = ''run_shell'', ap_pattern = ''rm x'', ap_provider_model = None, ap_cwd = None\<rparr> 1)
    \<lparr>gr_effect := Deny_effect\<rparr>"
  have none: "list_all (\<lambda>g. gr_conditions g = None) [?rm, ?x]"
    by (simp add: approval_to_grant_rule_def)
  have "applies 5 ''rm x'' ''run_shell'' ?rm" "applies 5 ''rm x'' ''run_shell'' ?x"
    unfolding applies_def match_pattern_decides [symmetric] by code_simp+
  then have "filter (applies 5 ''rm x'' ''run_shell'') [?rm, ?x] = [?rm, ?x]" by simp
  moreover have "grant_specificity (gr_resource ?rm) (gr_action ?rm) < grant_specificity (gr_resource ?x) (gr_action ?x)"
    by code_simp
  moreover have "gr_effect ?x = Deny_effect" by simp
  ultimately show ?thesis
    using most_specific_grant_decides [OF none, of 5 None "''rm x''" "''run_shell''"] by auto
qed

section \<open>Coverage of a subject\<close>

lemma grant_tool_covers_canonical: "grant_tool_covers a b \<Longrightarrow> canonical_tool_name a = canonical_tool_name b"
  by (auto simp: grant_tool_covers_def canonical_tool_name_def Let_def split: if_splits)

lemma approval_rule_applies:
  "canonical_tool_name (ap_tool a) = action \<Longrightarrow>
    applies now subject action (approval_to_grant_rule a i) \<longleftrightarrow> match_pattern (ap_pattern a) subject"
  by (simp add: applies_def approval_to_grant_rule_def glob_self match_pattern_decides)

text \<open>A list of allow grants allows exactly when one of them matches.\<close>

lemma all_allow_evaluation:
  assumes "list_all (\<lambda>g. gr_effect g = Allow_effect \<and> gr_conditions g = None) grants"
  shows "(case evaluate_grants now registry grants resource action of
      Inl e \<Rightarrow> False | Inr r \<Rightarrow> az_effect r = Some Allow_effect) \<longleftrightarrow> list_ex (applies now resource action) grants"
proof -
  let ?ms = "map matched_of (filter (applies now resource action) grants)"
  have collect: "collect_matching now registry resource action grants = Inr ?ms"
    using assms by (intro collect_unconditional) (auto simp: list_all_iff)
  have effects: "m \<in> set ?ms \<Longrightarrow> mg_effect m = Allow_effect" for m
    using assms by (auto simp: list_all_iff matched_of_def)
  show ?thesis
  proof (cases "?ms = []")
    case True
    then have "\<not> list_ex (applies now resource action) grants" by (auto simp: list_ex_iff filter_empty_conv)
    then show ?thesis using True by (simp add: evaluate_grants_def collect)
  next
    case False
    then have "last (by_strength ?ms) \<in> set ?ms" by (metis by_strength_not_Nil last_in_set set_by_strength)
    then have "mg_effect (last (by_strength ?ms)) = Allow_effect" by (rule effects)
    moreover have "list_ex (applies now resource action) grants"
      using False by (auto simp: list_ex_iff filter_empty_conv)
    ultimately show ?thesis using False by (simp add: evaluate_grants_def collect Let_def)
  qed
qed

lemma approval_rules_apply:
  "(\<And>a. a \<in> set as \<Longrightarrow> canonical_tool_name (ap_tool a) = action) \<Longrightarrow>
    list_ex (applies now subject action) (map (\<lambda>(i, a). approval_to_grant_rule a i) (enumerate n as)) \<longleftrightarrow>
    list_ex (\<lambda>a. match_pattern (ap_pattern a) subject) as"
  by (induction as arbitrary: n) (auto simp: approval_rule_applies)

lemma list_ex_filter: "list_ex P (filter Q xs) \<longleftrightarrow> list_ex (\<lambda>x. Q x \<and> P x) xs"
  by (induction xs) auto

lemma directory_escaped: "backslash \<in> set p \<Longrightarrow> directory_grant_allows d p subject cwd"
  by (simp add: directory_grant_allows_def)

lemma escaped_ignores_cwd:
  "\<not> is_package_compatible_pattern p \<Longrightarrow> matches_pattern d subject p cwd = matches_pattern d subject p cwd'"
  by (simp add: is_package_compatible_pattern_def matches_pattern_def is_exact_escaped_pattern_def)

lemma approval_covers_iff:
  "approval_covers_subject env tool subject request_cwd approvals \<longleftrightarrow>
    list_ex (\<lambda>a. matches_pattern (ce_process_cwd env) subject (ap_pattern a) (Some (effective_cwd env request_cwd)))
      (scoped_approvals env tool request_cwd approvals)"
proof -
  let ?d = "ce_process_cwd env" and ?cwd = "effective_cwd env request_cwd"
  let ?action = "canonical_tool_name tool"
  let ?scoped = "scoped_approvals env tool request_cwd approvals"
  let ?in = "\<lambda>a. directory_grant_allows ?d (ap_pattern a) subject (Some ?cwd)"
  let ?contained = "filter ?in ?scoped"
  let ?compatible = "filter (\<lambda>a. is_package_compatible_pattern (ap_pattern a)) ?contained"
  let ?grants = "map (\<lambda>(i, a). approval_to_grant_rule a i) (enumerate 0 ?compatible)"
  have tools: "canonical_tool_name (ap_tool a) = ?action" if "a \<in> set ?scoped" for a
    using that grant_tool_covers_canonical by (auto simp: scoped_approvals_def grant_scope_matches_def)
  have all: "list_all (\<lambda>g. gr_effect g = Allow_effect \<and> gr_conditions g = None) ?grants"
    by (auto simp: list_all_iff approval_to_grant_rule_def)
  have "list_ex (applies (ce_now env) subject ?action) ?grants \<longleftrightarrow>
      list_ex (\<lambda>a. match_pattern (ap_pattern a) subject) ?compatible"
    using tools by (intro approval_rules_apply) simp
  then have grants: "(case evaluate_grants (ce_now env) None ?grants subject ?action of
      Inl e \<Rightarrow> False | Inr r \<Rightarrow> az_effect r = Some Allow_effect) \<longleftrightarrow>
      list_ex (\<lambda>a. match_pattern (ap_pattern a) subject) ?compatible"
    unfolding all_allow_evaluation [OF all] .
  have each: "matches_pattern ?d subject (ap_pattern a) (Some ?cwd) \<longleftrightarrow>
      ?in a \<and> (\<not> is_package_compatible_pattern (ap_pattern a) \<and> matches_pattern ?d subject (ap_pattern a) None \<or>
        is_package_compatible_pattern (ap_pattern a) \<and> match_pattern (ap_pattern a) subject)" for a
    by (cases "backslash \<in> set (ap_pattern a)")
      (simp_all add: matches_pattern_def is_exact_escaped_pattern_def is_package_compatible_pattern_def
        directory_escaped)
  have "approval_covers_subject env tool subject request_cwd approvals \<longleftrightarrow>
      list_ex (\<lambda>a. \<not> is_package_compatible_pattern (ap_pattern a) \<and>
        matches_pattern ?d subject (ap_pattern a) None) ?contained \<or>
      list_ex (\<lambda>a. match_pattern (ap_pattern a) subject) ?compatible"
  proof -
    have empty: "?contained = [] \<Longrightarrow> ?compatible = []" "?scoped = [] \<Longrightarrow> ?contained = []" by simp_all
    have none: "?grants = [] \<longleftrightarrow> ?compatible = []" by (simp add: enumerate_eq_zip)
    show ?thesis
      unfolding approval_covers_subject_def Let_def grants
      using empty none by (cases "?contained = []"; cases "?compatible = []") (simp_all only: if_True if_False, simp_all)
  qed
  also have "\<dots> \<longleftrightarrow> list_ex (\<lambda>a. matches_pattern ?d subject (ap_pattern a) (Some ?cwd)) ?scoped"
    unfolding each by (auto simp: list_ex_iff)
  finally show ?thesis .
qed

text \<open>The live check of a subject, which consults the grant evaluator for wildcards and compares
  escaped patterns itself, answers as the matching that reconciles queued requests does inline: some
  approval in scope for the tool, the model and the directory has a pattern that matches.\<close>

theorem live_check_is_pattern_match:
  "approval_covers_subject env tool subject request_cwd approvals \<longleftrightarrow>
    list_ex (\<lambda>a. grant_scope_matches (ce_realpath env) a tool (ce_provider_model env) request_cwd
        (ce_workspace env) \<and>
      matches_pattern (ce_process_cwd env) subject (ap_pattern a) (Some (effective_cwd env request_cwd)))
      approvals"
  by (simp add: approval_covers_iff scoped_approvals_def list_ex_filter)

section \<open>The request loop of the gate\<close>

text \<open>What the classification answers about a shell command, each a function of the text and the
  directory it would run in.\<close>

record shell_policy =
  sh_secret_approval :: "string \<Rightarrow> string option \<Rightarrow> bool"
  sh_secret_reference :: "string \<Rightarrow> string option \<Rightarrow> bool"
  sh_safe_worktree :: "string \<Rightarrow> string \<Rightarrow> bool"
  sh_targets_restricted :: "string \<Rightarrow> string option \<Rightarrow> bool"
  sh_auto_allowed :: "string \<Rightarrow> string \<Rightarrow> bool"
  sh_block_reason :: "string \<Rightarrow> string option"

datatype guard_kind = Secret_guard | Opaque_guard | Restricted_guard

definition segment_guard :: "shell_policy \<Rightarrow> string \<Rightarrow> string option \<Rightarrow> guard_kind option" where
  "segment_guard sh segment cwd =
     (if sh_secret_approval sh segment cwd then
        Some (if sh_secret_reference sh segment cwd then Secret_guard else Opaque_guard)
      else if (case cwd of Some dir \<Rightarrow> sh_safe_worktree sh segment dir | None \<Rightarrow> False) then None
      else if sh_targets_restricted sh segment cwd then Some Restricted_guard
      else None)"

definition is_worktree_force_flag :: "string \<Rightarrow> bool" where
  "is_worktree_force_flag arg =
     (if arg = ''--force'' \<or> starts_with arg ''--force='' then True else starts_with arg ''-f'')"

datatype worktree_mismatch = Force_mismatch string | Destination_mismatch | Worktree_mismatch

definition worktree_mismatch_kind :: "string \<Rightarrow> worktree_mismatch option" where
  "worktree_mismatch_kind segment =
     (let tokens = tokenize segment
      in if js_at tokens 0 \<noteq> Some ''git'' \<or> js_at tokens 1 \<noteq> Some ''worktree'' then None
         else if js_at tokens 2 \<noteq> Some ''add'' \<and> js_at tokens 2 \<noteq> Some ''remove'' then None
         else (case find is_worktree_force_flag (drop 3 tokens) of
                 Some flag \<Rightarrow> Some (Force_mismatch flag)
               | None \<Rightarrow> Some (if js_at tokens 2 = Some ''remove'' then Worktree_mismatch
                               else Destination_mismatch)))"

definition grant_mismatch_notice :: "string \<Rightarrow> guard_kind \<Rightarrow> string" where
  "grant_mismatch_notice segment kind =
     ''A standing grant matches this command, but '' @
     (case kind of
        Secret_guard \<Rightarrow> ''it references a sensitive path''
      | Opaque_guard \<Rightarrow> ''its wrapped payload cannot be inspected''
      | Restricted_guard \<Rightarrow>
          (case worktree_mismatch_kind segment of
             Some (Force_mismatch flag) \<Rightarrow> ''it uses '' @ flag
           | Some Destination_mismatch \<Rightarrow> ''the worktree destination is outside the approved locations''
           | Some Worktree_mismatch \<Rightarrow> ''the worktree is outside the approved locations''
           | None \<Rightarrow> ''it targets a path outside the workspace'')) @
     '', so it still needs approval.''"

definition real_segments :: "string \<Rightarrow> string list" where
  "real_segments command = filter (\<lambda>s. \<not> is_shell_comment_only s) (split_chained_command command)"

definition pre_grant_guard_reason :: "shell_policy \<Rightarrow> permission_request \<Rightarrow> string option" where
  "pre_grant_guard_reason sh request =
     (if rq_tool request \<noteq> ''run_shell'' then None
      else (let segments = real_segments (rq_subject request)
            in if segments = [] then Some ''empty command''
               else (case sh_block_reason sh (rq_subject request) of
                       Some reason \<Rightarrow> Some reason
                     | None \<Rightarrow>
                         (case find (\<lambda>s. segment_guard sh s (rq_cwd request) \<noteq> None) segments of
                            None \<Rightarrow> None
                          | Some s \<Rightarrow>
                              Some (s @ (case the (segment_guard sh s (rq_cwd request)) of
                                           Secret_guard \<Rightarrow> '' references a sensitive path''
                                         | Opaque_guard \<Rightarrow> '' contains an opaque wrapped payload''
                                         | Restricted_guard \<Rightarrow> '' targets a restricted path''))))))"

definition ungrantable_tools :: "string list" where
  "ungrantable_tools = [''approve_worker_call'']"

definition is_request_covered_by_approvals ::
    "coverage_env \<Rightarrow> shell_policy \<Rightarrow> permission_request \<Rightarrow> approval list \<Rightarrow> bool" where
  "is_request_covered_by_approvals env sh request approvals =
     (if rq_tool request \<in> set ungrantable_tools then False
      else (let scoped = scoped_approvals env (rq_tool request) (rq_cwd request) approvals;
                cwd = effective_cwd env (rq_cwd request);
                matches = (\<lambda>subject. list_ex (\<lambda>a. matches_pattern (ce_process_cwd env) subject (ap_pattern a)
                  (Some cwd)) scoped)
            in if scoped = [] then False
               else if rq_tool request \<noteq> ''run_shell'' then matches (rq_subject request)
               else if pre_grant_guard_reason sh request \<noteq> None then False
               else (let segments = real_segments (rq_subject request)
                     in if segments = [] then False
                        else list_all (\<lambda>s. if matches s then True else sh_auto_allowed sh s cwd) segments)))"

text \<open>The loop over the segments of a shell request.\<close>

record segment_scan =
  ss_needs_operator :: bool
  ss_any_secret :: bool
  ss_guarded :: bool
  ss_notice :: "string option"

definition scan_segment ::
    "coverage_env \<Rightarrow> shell_policy \<Rightarrow> approval list \<Rightarrow> permission_request \<Rightarrow> string \<Rightarrow> segment_scan \<Rightarrow> string \<Rightarrow>
      segment_scan" where
  "scan_segment env sh approvals request cwd sc segment =
     (let covered = approval_covers_subject env (rq_tool request) segment (Some cwd) approvals
      in case segment_guard sh segment (Some cwd) of
           Some kind \<Rightarrow>
             sc\<lparr>ss_any_secret := (ss_any_secret sc \<or> kind \<noteq> Restricted_guard), ss_guarded := True,
                ss_needs_operator := True,
                ss_notice := (if ss_notice sc = None \<and> covered
                              then Some (grant_mismatch_notice segment kind) else ss_notice sc)\<rparr>
         | None \<Rightarrow>
             if covered then sc
             else if sh_auto_allowed sh segment cwd then sc
             else sc\<lparr>ss_needs_operator := True\<rparr>)"

datatype gate_decision =
    Decide_allow
  | Decide_deny string
  | Decide_ask permission_request bool nat bool

text \<open>One request: \<open>None\<close> continues with the next one.\<close>

definition decide_request ::
    "coverage_env \<Rightarrow> shell_policy \<Rightarrow> bool \<Rightarrow> bool \<Rightarrow> approval list \<Rightarrow> string \<Rightarrow> string option \<Rightarrow>
      permission_request \<Rightarrow> gate_decision option" where
  "decide_request env sh interactive restricted approvals cwd label raw_request =
     (let request = raw_request\<lparr>rq_cwd := Some cwd,
                                rq_agent_label := (if label \<noteq> None then label else rq_agent_label raw_request)\<rparr>
      in if rq_tool request = ''run_shell'' then
           (let segments = real_segments (rq_subject request);
                sc = foldl (scan_segment env sh approvals request cwd)
                       \<lparr>ss_needs_operator = False, ss_any_secret = False, ss_guarded = False, ss_notice = None\<rparr>
                       segments
            in if segments = [] then None
               else if \<not> ss_needs_operator sc then None
               else if \<not> interactive then
                 Some (Decide_deny
                   (if ss_any_secret sc
                    then rq_action request @ '' references a sensitive path and requires operator approval, which is unavailable in a non-interactive run.''
                    else rq_action request @ '' requires operator approval, which is unavailable in a non-interactive run. Re-run with --dangerously-skip-permissions to bypass, or narrow the action.''))
               else Some (Decide_ask
                 (request\<lparr>rq_scopes := (if ss_any_secret sc then [] else rq_scopes request),
                          rq_notice := (if ss_notice sc \<noteq> None then ss_notice sc else rq_notice request)\<rparr>)
                 (ss_any_secret sc) (length segments) (ss_guarded sc)))
         else if approval_covers_subject env (rq_tool request) (rq_subject request) (Some cwd) approvals \<and>
             rq_tool request \<notin> set ungrantable_tools then None
         else if \<not> interactive then
           Some (Decide_deny (rq_action request @ '' requires operator approval, which is unavailable in a non-interactive run. Re-run with --dangerously-skip-permissions to bypass, or narrow the action.''))
         else Some (Decide_ask request False 0 restricted))"

fun decide_requests ::
    "coverage_env \<Rightarrow> shell_policy \<Rightarrow> bool \<Rightarrow> bool \<Rightarrow> approval list \<Rightarrow> string \<Rightarrow> string option \<Rightarrow>
      permission_request list \<Rightarrow> gate_decision" where
  "decide_requests env sh interactive restricted approvals cwd label [] = Decide_allow"
| "decide_requests env sh interactive restricted approvals cwd label (request # requests) =
     (case decide_request env sh interactive restricted approvals cwd label request of
        Some decision \<Rightarrow> decision
      | None \<Rightarrow> decide_requests env sh interactive restricted approvals cwd label requests)"

text \<open>\<open>src/permission/classify.ts\<close>: the request of a shell call and its scopes.\<close>

definition shell_approval_scopes :: "string \<Rightarrow> approval_scope list" where
  "shell_approval_scopes command =
     (case real_segments command of
        [] \<Rightarrow> []
      | [only] \<Rightarrow> derive_command_scopes only
      | _ \<Rightarrow> [plain_scope ''exact'' ''Always allow each command in this chain'' (trim command)])"

definition build_shell_requests :: "string \<Rightarrow> permission_request list" where
  "build_shell_requests command =
     (if real_segments command = [] then []
      else [\<lparr>rq_tool = ''run_shell'', rq_action = ''Run shell command'', rq_subject = command,
             rq_scopes = shell_approval_scopes command, rq_cwd = None, rq_agent_label = None,
             rq_notice = None\<rparr>])"

section \<open>The loop and the reconciliation agree\<close>

lemma scan_needs_operator:
  "ss_needs_operator (foldl (scan_segment env sh approvals request cwd) sc segments) \<longleftrightarrow>
    ss_needs_operator sc \<or>
    list_ex (\<lambda>s. segment_guard sh s (Some cwd) \<noteq> None \<or>
      \<not> approval_covers_subject env (rq_tool request) s (Some cwd) approvals \<and> \<not> sh_auto_allowed sh s cwd) segments"
  by (induction segments arbitrary: sc) (auto simp: scan_segment_def Let_def split: option.splits)

lemma decide_shell_None:
  assumes "rq_tool request = ''run_shell''" "rq_cwd request = Some cwd"
  shows "decide_request env sh interactive restricted approvals cwd label request = None \<longleftrightarrow>
    list_all (\<lambda>s. segment_guard sh s (Some cwd) = None \<and>
      (approval_covers_subject env ''run_shell'' s (Some cwd) approvals \<or> sh_auto_allowed sh s cwd))
      (real_segments (rq_subject request))"
  using assms
  by (auto simp: decide_request_def Let_def scan_needs_operator list_all_iff list_ex_iff split: if_splits)

lemma decide_other_None:
  assumes "rq_tool request \<noteq> ''run_shell''"
  shows "decide_request env sh interactive restricted approvals cwd label request = None \<longleftrightarrow>
    approval_covers_subject env (rq_tool request) (rq_subject request) (Some cwd) approvals \<and>
    rq_tool request \<notin> set ungrantable_tools"
  using assms by (auto simp: decide_request_def Let_def)

lemma decide_one_request:
  "decide_requests env sh interactive restricted approvals cwd label [request] = Decide_allow \<longleftrightarrow>
    decide_request env sh interactive restricted approvals cwd label request = None"
  by (auto simp: decide_request_def Let_def split: option.splits if_splits)

lemma guard_reason_None:
  assumes "rq_tool request = ''run_shell''"
  shows "pre_grant_guard_reason sh request = None \<longleftrightarrow>
    real_segments (rq_subject request) \<noteq> [] \<and> sh_block_reason sh (rq_subject request) = None \<and>
    list_all (\<lambda>s. segment_guard sh s (rq_cwd request) = None) (real_segments (rq_subject request))"
  using assms
  by (auto simp: pre_grant_guard_reason_def Let_def list_all_iff find_None_iff split: option.splits)
    (auto simp: find_Some_iff)

lemma covers_scoped:
  "approval_covers_subject env tool subject (Some cwd) approvals \<longleftrightarrow>
    list_ex (\<lambda>a. matches_pattern (ce_process_cwd env) subject (ap_pattern a) (Some cwd))
      (scoped_approvals env tool (Some cwd) approvals)"
  by (simp add: approval_covers_iff effective_cwd_def)

lemma reconciliation_iff:
  assumes "rq_cwd request = Some cwd"
  shows "is_request_covered_by_approvals env sh request approvals \<longleftrightarrow>
    rq_tool request \<notin> set ungrantable_tools \<and>
    scoped_approvals env (rq_tool request) (Some cwd) approvals \<noteq> [] \<and>
    (rq_tool request \<noteq> ''run_shell'' \<or>
      real_segments (rq_subject request) \<noteq> [] \<and> sh_block_reason sh (rq_subject request) = None) \<and>
    decide_requests env sh interactive restricted approvals cwd label [request] = Decide_allow"
proof (cases "rq_tool request = ''run_shell''")
  case True
  then show ?thesis
    unfolding decide_one_request decide_shell_None [OF True assms] covers_scoped
    using guard_reason_None [OF True, of sh] assms
    by (auto simp: is_request_covered_by_approvals_def Let_def effective_cwd_def list_all_iff ungrantable_tools_def
        split: if_splits)
next
  case False
  then show ?thesis
    unfolding decide_one_request decide_other_None [OF False] covers_scoped
    using assms by (auto simp: is_request_covered_by_approvals_def Let_def effective_cwd_def)
qed

lemma reconciliation_decides:
  "is_request_covered_by_approvals env sh request approvals \<Longrightarrow> rq_cwd request = Some cwd \<Longrightarrow>
    decide_requests env sh interactive restricted approvals cwd label [request] = Decide_allow"
  using reconciliation_iff by blast


definition sample_policy :: shell_policy where
  "sample_policy =
     \<lparr>sh_secret_approval = (\<lambda>s cwd. has_infix s ''.env''), sh_secret_reference = (\<lambda>s cwd. True),
      sh_safe_worktree = (\<lambda>s cwd. False), sh_targets_restricted = (\<lambda>s cwd. False),
      sh_auto_allowed = (\<lambda>s cwd. s = ''sort''), sh_block_reason = (\<lambda>s. None)\<rparr>"

definition sample_env :: coverage_env where
  "sample_env =
     \<lparr>ce_process_cwd = ''/r'', ce_now = 0, ce_realpath = (\<lambda>p. p), ce_provider_model = None,
      ce_workspace = \<lparr>gw_resolved_cwd = ''/r'', gw_roots = []\<rparr>\<rparr>"

definition sample_request :: "string \<Rightarrow> permission_request" where
  "sample_request command =
     \<lparr>rq_tool = ''run_shell'', rq_action = ''Run shell command'', rq_subject = command, rq_scopes = [],
      rq_cwd = Some ''/r'', rq_agent_label = None, rq_notice = None\<rparr>"

definition sample_approvals :: "approval list" where
  "sample_approvals = [\<lparr>ap_tool = ''run_shell'', ap_pattern = ''npm test *'', ap_provider_model = None, ap_cwd = None\<rparr>]"


text \<open>Any standing policy lets a command through unasked when it begins with a comment that holds
  an unpaired quote: the whole text is one segment that starts with a hash, no request is built, and
  the loop has nothing to ask about. The second line is what the shell runs.\<close>

theorem hidden_comment_is_allowed:
  "decide_requests env sh interactive restricted approvals cwd label
     (build_shell_requests (''# don'' @ [squote] @ ''t'' @ [newline] @ ''rm -r build'')) = Decide_allow"
proof -
  have "real_segments (''# don'' @ [squote] @ ''t'' @ [newline] @ ''rm -r build'') = []" by code_simp
  then show ?thesis unfolding build_shell_requests_def by simp
qed

end
