(* ===== verification/PermissionGate.thy ===== *)
theory PermissionGate
  imports ApprovalCoverage
begin

text \<open>
  The permission gate as a state machine (\<open>createPermissionGate\<close> in \<open>src/permission/gate.ts\<close>) with the
  queue of prompts it drains (\<open>src/permission/queue.ts\<close>) and its denial memory
  (\<open>src/permission/denial-memory.ts\<close>). The approvals and the session grants hold the same objects, so
  an approval carries the reference it was allocated under. A prompt's \<open>resolve\<close> is a log of the
  answers; \<open>onGrant\<close> drains the queue at once, as \<open>wirePermissionGrantReconciliation\<close> wires it. What
  the classification says of a call is a record of answers; logs and telemetry are left out.
\<close>

section \<open>The queue of prompts\<close>

record permission_queue =
  pq_entries :: "(nat \<times> permission_request) list"
  pq_next_id :: nat
  pq_answers :: "(nat \<times> bool) list"

definition empty_queue :: permission_queue where
  "empty_queue = \<lparr>pq_entries = [], pq_next_id = 1, pq_answers = []\<rparr>"

definition enqueue_request :: "permission_request \<Rightarrow> permission_queue \<Rightarrow> nat \<times> permission_queue" where
  "enqueue_request request q =
     (pq_next_id q,
      q\<lparr>pq_entries := pq_entries q @ [(pq_next_id q, request)], pq_next_id := Suc (pq_next_id q)\<rparr>)"

definition settle_request :: "nat \<Rightarrow> bool \<Rightarrow> permission_queue \<Rightarrow> bool \<times> permission_queue" where
  "settle_request i allowed q =
     (case map_of (pq_entries q) i of
        None \<Rightarrow> (False, q)
      | Some request \<Rightarrow>
          (True, q\<lparr>pq_entries := filter (\<lambda>(j, r). j \<noteq> i) (pq_entries q),
                   pq_answers := pq_answers q @ [(i, allowed)]\<rparr>))"

definition list_requests :: "permission_queue \<Rightarrow> (nat \<times> string \<times> string option) list" where
  "list_requests q = map (\<lambda>(i, r). (i, rq_tool r, rq_agent_label r)) (pq_entries q)"

fun settle_all :: "nat list \<Rightarrow> bool \<Rightarrow> permission_queue \<Rightarrow> nat list \<times> permission_queue" where
  "settle_all [] allowed q = ([], q)"
| "settle_all (i # is) allowed q =
     (case settle_request i allowed q of
        (settled, q1) \<Rightarrow>
          (case settle_all is allowed q1 of
             (ids, q2) \<Rightarrow> (if settled then i # ids else ids, q2)))"

definition reconcile_requests ::
    "(permission_request \<Rightarrow> bool) \<Rightarrow> permission_queue \<Rightarrow> nat list \<times> permission_queue" where
  "reconcile_requests covers q =
     settle_all (map fst (filter (\<lambda>(i, r). covers r) (pq_entries q))) True q"

definition drain_requests :: "permission_queue \<Rightarrow> permission_queue" where
  "drain_requests q = snd (settle_all (map fst (pq_entries q)) False q)"

definition queue_size :: "permission_queue \<Rightarrow> nat" where
  "queue_size q = length (pq_entries q)"

section \<open>The state of the gate\<close>

record cached_verdict =
  cv_name :: string
  cv_arguments :: string
  cv_decision :: gate_decision

record gate_state =
  gs_next_ref :: nat
  gs_approvals :: "(nat \<times> approval) list"
  gs_session_grants :: "(nat \<times> approval) list"
  gs_persisted :: "(approval \<times> grant_scope) list"
  gs_queue :: permission_queue
  gs_denials :: "(string \<times> string) list"
  gs_authorized :: "(string \<times> cached_verdict) list"
  gs_auto :: bool
  gs_skip_permissions :: bool
  gs_provider_model :: "string option"

text \<open>The denial memory keeps the first reason under a key.\<close>

definition record_denial :: "string \<Rightarrow> string \<Rightarrow> gate_state \<Rightarrow> gate_state" where
  "record_denial stable_id reason g =
     (if map_of (gs_denials g) stable_id = None
      then g\<lparr>gs_denials := AList.update stable_id reason (gs_denials g)\<rparr> else g)"

definition clear_denials :: "gate_state \<Rightarrow> gate_state" where
  "clear_denials g = g\<lparr>gs_denials := []\<rparr>"

definition live_approvals :: "gate_state \<Rightarrow> approval list" where
  "live_approvals g = map snd (gs_approvals g)"

definition coverage_now :: "coverage_env \<Rightarrow> gate_state \<Rightarrow> coverage_env" where
  "coverage_now env g = env\<lparr>ce_provider_model := gs_provider_model g\<rparr>"

section \<open>Minting grants\<close>

text \<open>\<open>/\\["`]/\<close>: a backslash followed by a double quote or a backtick.\<close>

definition can_safely_mint_per_segment :: "string \<Rightarrow> bool" where
  "can_safely_mint_per_segment pattern =
     (if has_infix pattern [backslash, dquote] \<or> has_infix pattern [backslash, backtick] then False
      else \<not> CHR ''#'' \<in> set pattern)"

definition minted_patterns :: "string \<Rightarrow> string \<Rightarrow> string list" where
  "minted_patterns tool pattern =
     (let normalized = (if tool = ''run_shell'' then trim (strip_comment_lines pattern) else pattern);
          segments = (if tool = ''run_shell'' then real_segments normalized else [])
      in if tool = ''run_shell'' \<and> length segments > 1 \<and> can_safely_mint_per_segment normalized
         then map (\<lambda>s. escape_glob_literal (trim s)) segments
         else [normalized])"

definition minted_approval :: "coverage_env \<Rightarrow> gate_state \<Rightarrow> string \<Rightarrow> grant_scope \<Rightarrow> string \<Rightarrow> approval" where
  "minted_approval env g tool grant pattern =
     \<lparr>ap_tool = tool, ap_pattern = pattern,
      ap_provider_model = (if grant = Provider_model_scope then gs_provider_model g else None),
      ap_cwd = (if grant = Project_scope then Some (gw_resolved_cwd (ce_workspace env)) else None)\<rparr>"

definition mint_pattern ::
    "coverage_env \<Rightarrow> shell_policy \<Rightarrow> string \<Rightarrow> grant_scope \<Rightarrow> gate_state \<Rightarrow> string \<Rightarrow> gate_state" where
  "mint_pattern env sh tool grant g pattern =
     (let entry = (gs_next_ref g, minted_approval env g tool grant pattern);
          g1 = g\<lparr>gs_next_ref := Suc (gs_next_ref g), gs_approvals := gs_approvals g @ [entry]\<rparr>;
          g2 = (if grant = Session_scope then g1\<lparr>gs_session_grants := gs_session_grants g1 @ [entry]\<rparr>
                else g1\<lparr>gs_persisted := gs_persisted g1 @ [(snd entry, grant)]\<rparr>)
      in g2\<lparr>gs_queue := snd (reconcile_requests
              (\<lambda>r. is_request_covered_by_approvals (coverage_now env g2) sh r (live_approvals g2)) (gs_queue g2))\<rparr>)"

record approval_outcome =
  ao_allow :: bool
  ao_persist :: "approval_scope option"
  ao_message :: "string option"

definition mint_grant ::
    "coverage_env \<Rightarrow> shell_policy \<Rightarrow> string \<Rightarrow> approval_outcome \<Rightarrow> gate_state \<Rightarrow> gate_state" where
  "mint_grant env sh requested_tool outcome g =
     (let tool = canonical_tool_name requested_tool
      in case ao_persist outcome of
           None \<Rightarrow> g
         | Some scope \<Rightarrow>
             (case sco_pattern scope of
                None \<Rightarrow> g
              | Some pattern \<Rightarrow>
                  clear_denials
                    (foldl (mint_pattern env sh tool (case sco_grant scope of Some s \<Rightarrow> s | None \<Rightarrow> Session_scope))
                      g (minted_patterns tool pattern))))"

section \<open>Deciding\<close>

text \<open>What the checks answer about one call, in the order the code asks: the coercion of the call, the
  catastrophic block, its denial fingerprint, the path escape, a restricted target, the tier, the
  secret reference, the safe shell command, the automatic shell rule, and the requests to ask.\<close>

datatype auto_shell_rule = Auto_rule_deny string | Auto_rule_ask

record call_facts =
  cf_coerce_error :: "string option"
  cf_tool :: string
  cf_hard_block :: "string option"
  cf_opaque_asks :: bool
  cf_stable_id :: string
  cf_escape :: "string option"
  cf_restricted :: bool
  cf_tier_allows :: bool
  cf_secret :: bool
  cf_auto_allowed_shell :: bool
  cf_auto_rule :: "auto_shell_rule option"
  cf_cwd :: string
  cf_label :: "string option"
  cf_requests :: "permission_request list"

definition auto_allowed_tools :: "string list \<Rightarrow> string list" where
  "auto_allowed_tools product_mutation_tools =
     product_mutation_tools @
     [''manage_tasks'', ''present'', ''use_skill'', ''skill_search'', ''web_fetch'', ''web_search'',
      ''spawn_agent'', ''wait_agents'', ''send_input'', ''interrupt_agent'', ''close_agent'', ''resume_agent'']"

text \<open>The gate's options: whether it prompts, and the tools that edit files.\<close>

record gate_options =
  go_interactive :: bool
  go_product_mutation_tools :: "string list"

definition decide_by_requests ::
    "coverage_env \<Rightarrow> shell_policy \<Rightarrow> gate_options \<Rightarrow> call_facts \<Rightarrow> gate_state \<Rightarrow> gate_decision \<times> gate_state" where
  "decide_by_requests env sh opts f g =
     (let d = decide_requests (coverage_now env g) sh (go_interactive opts) (cf_restricted f) (live_approvals g)
                (cf_cwd f) (cf_label f) (cf_requests f)
      in (d, case d of Decide_deny reason \<Rightarrow> record_denial (cf_stable_id f) reason g | _ \<Rightarrow> g))"

definition decide_normally ::
    "coverage_env \<Rightarrow> shell_policy \<Rightarrow> gate_options \<Rightarrow> call_facts \<Rightarrow> bool \<Rightarrow> gate_state \<Rightarrow>
      gate_decision \<times> gate_state" where
  "decide_normally env sh opts f approved g =
     (case cf_coerce_error f of
        Some e \<Rightarrow> (Decide_deny e, g)
      | None \<Rightarrow>
          if cf_tool f = ''run_shell'' \<and> cf_hard_block f \<noteq> None \<and> \<not> cf_opaque_asks f
          then (Decide_deny (the (cf_hard_block f)), g)
          else (case (if approved then None else map_of (gs_denials g) (cf_stable_id f)) of
                  Some reason \<Rightarrow> (Decide_deny reason, g)
                | None \<Rightarrow>
                    if gs_skip_permissions g then (Decide_allow, g)
                    else (case cf_escape f of
                            Some reason \<Rightarrow> (Decide_deny reason, g)
                          | None \<Rightarrow>
                              if \<not> cf_restricted f \<and> cf_tier_allows f then (Decide_allow, g)
                              else if \<not> cf_restricted f \<and> \<not> cf_secret f \<and> cf_auto_allowed_shell f
                              then (Decide_allow, g)
                              else if gs_auto g \<and> cf_tool f = ''run_shell'' then
                                (case cf_auto_rule f of
                                   Some (Auto_rule_deny reason) \<Rightarrow> (Decide_deny reason, g)
                                 | None \<Rightarrow> (Decide_allow, g)
                                 | Some Auto_rule_ask \<Rightarrow> decide_by_requests env sh opts f g)
                              else if gs_auto g \<and> \<not> cf_restricted f \<and>
                                  cf_tool f \<in> set (auto_allowed_tools (go_product_mutation_tools opts))
                              then (Decide_allow, g)
                              else decide_by_requests env sh opts f g)))"

section \<open>Asking the operator\<close>

text \<open>\<open>prompted\<close> is what the prompt returned, \<open>None\<close> when no outcome arrived.\<close>

definition resolve_interactive_ask ::
    "coverage_env \<Rightarrow> shell_policy \<Rightarrow> permission_request \<Rightarrow> bool \<Rightarrow> bool \<Rightarrow> approval_outcome option \<Rightarrow>
      gate_state \<Rightarrow> approval_outcome option \<times> gate_state" where
  "resolve_interactive_ask env sh request any_secret still_current prompted g =
     (let outcome =
            (case prompted of
               None \<Rightarrow> None
             | Some answer \<Rightarrow>
                 Some (if ao_allow answer \<and> ao_persist answer \<noteq> None \<and> rq_scopes request = []
                       then answer\<lparr>ao_persist := None\<rparr> else answer))
      in (outcome,
          case outcome of
            None \<Rightarrow> g
          | Some answer \<Rightarrow>
              if ao_allow answer \<and> \<not> any_secret \<and> still_current
              then mint_grant env sh (rq_tool request) answer g else g))"

definition operator_declined_prefix :: string where
  "operator_declined_prefix = ''Operator declined: ''"

definition decline_reason :: "permission_request \<Rightarrow> approval_outcome option \<Rightarrow> string" where
  "decline_reason request outcome =
     operator_declined_prefix @ rq_action request @ '' ('' @ rq_subject request @ '')'' @
     (case outcome of
        None \<Rightarrow> []
      | Some answer \<Rightarrow>
          (case ao_message answer of
             None \<Rightarrow> []
           | Some m \<Rightarrow> if m = [] then [] else '' '' @ em_dash @ '' '' @ m))"

datatype outcome_kind = Outcome_deny | Outcome_timeout | Outcome_abort | Outcome_scope | Outcome_once

definition classify_outcome :: "approval_outcome option \<Rightarrow> outcome_kind" where
  "classify_outcome outcome =
     (case outcome of
        None \<Rightarrow> Outcome_deny
      | Some answer \<Rightarrow>
          if \<not> ao_allow answer then
            (let message = (case ao_message answer of Some m \<Rightarrow> m | None \<Rightarrow> [])
             in if has_infix message ''timed out'' then Outcome_timeout
                else if has_infix message ''no longer running'' \<or> has_infix message ''identity changed''
                then Outcome_abort
                else Outcome_deny)
          else if ao_persist answer \<noteq> None then Outcome_scope
          else Outcome_once)"

datatype gate_answer = Answer_allowed | Answer_refused string

definition verdict_for_decision ::
    "coverage_env \<Rightarrow> shell_policy \<Rightarrow> string \<Rightarrow> gate_decision \<Rightarrow> approval_outcome option \<Rightarrow> gate_state \<Rightarrow>
      gate_answer \<times> gate_state" where
  "verdict_for_decision env sh stable_id decision prompted g =
     (case decision of
        Decide_allow \<Rightarrow> (Answer_allowed, g)
      | Decide_deny reason \<Rightarrow> (Answer_refused reason, g)
      | Decide_ask request any_secret segments forced \<Rightarrow>
          (case resolve_interactive_ask env sh request any_secret True prompted g of
             (outcome, g1) \<Rightarrow>
               if outcome = None \<or> \<not> ao_allow (the outcome) then
                 (let reason = decline_reason request outcome
                  in (Answer_refused reason,
                      if outcome \<noteq> None \<and> \<not> ao_allow (the outcome) \<and> classify_outcome outcome = Outcome_deny
                      then record_denial stable_id reason g1 else g1))
               else (Answer_allowed, g1)))"

definition evaluate_call ::
    "coverage_env \<Rightarrow> shell_policy \<Rightarrow> gate_options \<Rightarrow> call_facts \<Rightarrow> approval_outcome option \<Rightarrow> gate_state \<Rightarrow>
      gate_answer \<times> gate_state" where
  "evaluate_call env sh opts f prompted g =
     (case decide_normally env sh opts f False g of
        (d, g1) \<Rightarrow> verdict_for_decision env sh (cf_stable_id f) d prompted g1)"

definition evaluate_approved_worker_call ::
    "coverage_env \<Rightarrow> shell_policy \<Rightarrow> gate_options \<Rightarrow> call_facts \<Rightarrow> approval_outcome option \<Rightarrow> gate_state \<Rightarrow>
      gate_answer \<times> gate_state" where
  "evaluate_approved_worker_call env sh opts f prompted g =
     (case decide_normally env sh opts f True g of
        (Decide_ask request any_secret segments False, g1) \<Rightarrow> (Answer_allowed, g1)
      | (d, g1) \<Rightarrow> verdict_for_decision env sh (cf_stable_id f) d prompted g1)"

text \<open>The reactor's path: a verdict is cached under the call's id and taken once.\<close>

definition authorize_call ::
    "coverage_env \<Rightarrow> shell_policy \<Rightarrow> gate_options \<Rightarrow> call_facts \<Rightarrow> string \<Rightarrow> string \<Rightarrow> string \<Rightarrow> gate_state \<Rightarrow>
      gate_decision \<times> gate_state" where
  "authorize_call env sh opts f call_id name arguments g =
     (case decide_normally env sh opts f False g of
        (d, g1) \<Rightarrow>
          (d, g1\<lparr>gs_authorized := AList.update call_id
                   \<lparr>cv_name = name, cv_arguments = arguments, cv_decision = d\<rparr> (gs_authorized g1)\<rparr>))"

definition execution_verdict ::
    "coverage_env \<Rightarrow> shell_policy \<Rightarrow> gate_options \<Rightarrow> call_facts \<Rightarrow> string \<Rightarrow> string \<Rightarrow> string \<Rightarrow> gate_state \<Rightarrow>
      gate_decision \<times> gate_state" where
  "execution_verdict env sh opts f call_id name arguments g =
     (case map_of (gs_authorized g) call_id of
        Some c \<Rightarrow>
          if cv_name c = name \<and> cv_arguments c = arguments
          then (cv_decision c, g\<lparr>gs_authorized := AList.delete call_id (gs_authorized g)\<rparr>)
          else decide_normally env sh opts f False g
      | None \<Rightarrow> decide_normally env sh opts f False g)"

definition resolve_suspended ::
    "coverage_env \<Rightarrow> shell_policy \<Rightarrow> permission_request \<Rightarrow> string \<Rightarrow> bool \<Rightarrow> approval_outcome option \<Rightarrow>
      gate_state \<Rightarrow> approval_outcome option \<times> gate_state" where
  "resolve_suspended env sh request stable_id still_current prompted g =
     (let any_secret = (rq_tool request = ''run_shell'' \<and> sh_secret_approval sh (rq_subject request) (rq_cwd request))
      in case resolve_interactive_ask env sh request any_secret still_current prompted g of
           (outcome, g1) \<Rightarrow>
             (outcome,
              if outcome \<noteq> None \<and> \<not> ao_allow (the outcome) \<and> classify_outcome outcome = Outcome_deny
              then record_denial stable_id (decline_reason request outcome) g1 else g1))"

section \<open>Approvals over time\<close>

definition reset_gate :: "gate_state \<Rightarrow> gate_state" where
  "reset_gate g =
     g\<lparr>gs_approvals := foldl (\<lambda>as grant. case find_index (\<lambda>a. fst a = fst grant) as of
                                           None \<Rightarrow> as | Some i \<Rightarrow> remove_at i as)
                         (gs_approvals g) (gs_session_grants g),
       gs_session_grants := [], gs_authorized := [], gs_denials := []\<rparr>"

definition same_approval :: "approval \<Rightarrow> approval \<Rightarrow> bool" where
  "same_approval a b =
     (ap_tool a = ap_tool b \<and> ap_pattern a = ap_pattern b \<and> ap_provider_model a = ap_provider_model b)"

definition remove_session_approval :: "approval \<Rightarrow> gate_state \<Rightarrow> gate_state" where
  "remove_session_approval target g =
     g\<lparr>gs_approvals := filter (\<lambda>(r, a). \<not> same_approval a target) (gs_approvals g),
       gs_session_grants := filter (\<lambda>(r, a). \<not> same_approval a target) (gs_session_grants g)\<rparr>"

definition set_seeded_approvals :: "approval list \<Rightarrow> gate_state \<Rightarrow> gate_state" where
  "set_seeded_approvals seeded g =
     (let fresh = normalize_seeded_approvals seeded; n = gs_next_ref g
      in clear_denials (g\<lparr>gs_next_ref := n + length fresh,
           gs_approvals := enumerate n fresh @ gs_session_grants g\<rparr>))"

definition set_auto :: "bool \<Rightarrow> gate_state \<Rightarrow> gate_state" where
  "set_auto v g = clear_denials (g\<lparr>gs_auto := v\<rparr>)"

definition set_skip_permissions :: "bool \<Rightarrow> gate_state \<Rightarrow> gate_state" where
  "set_skip_permissions v g = clear_denials (g\<lparr>gs_skip_permissions := v\<rparr>)"

definition set_provider_identity :: "string \<Rightarrow> string \<Rightarrow> gate_state \<Rightarrow> gate_state" where
  "set_provider_identity provider model g = clear_denials (g\<lparr>gs_provider_model := Some (provider @ '':'' @ model)\<rparr>)"

definition get_session_approvals :: "gate_state \<Rightarrow> approval list" where
  "get_session_approvals g = map snd (gs_session_grants g)"

definition create_gate :: "approval list \<Rightarrow> bool \<Rightarrow> bool \<Rightarrow> string option \<Rightarrow> gate_state" where
  "create_gate approvals auto skip provider_model =
     (let seeded = normalize_seeded_approvals approvals
      in \<lparr>gs_next_ref = length seeded, gs_approvals = enumerate 0 seeded, gs_session_grants = [],
          gs_persisted = [], gs_queue = empty_queue, gs_denials = [], gs_authorized = [], gs_auto = auto,
          gs_skip_permissions = skip, gs_provider_model = provider_model\<rparr>)"

section \<open>Every prompt is answered once\<close>

datatype queue_event =
    Enqueue_request permission_request
  | Settle_request nat bool
  | Reconcile_requests "permission_request \<Rightarrow> bool"
  | Drain_requests

fun queue_event_step :: "permission_queue \<Rightarrow> queue_event \<Rightarrow> permission_queue" where
  "queue_event_step q (Enqueue_request r) = snd (enqueue_request r q)"
| "queue_event_step q (Settle_request i allowed) = snd (settle_request i allowed q)"
| "queue_event_step q (Reconcile_requests covers) = snd (reconcile_requests covers q)"
| "queue_event_step q Drain_requests = drain_requests q"

definition queue_ids :: "permission_queue \<Rightarrow> nat multiset" where
  "queue_ids q = mset (map fst (pq_entries q)) + mset (map fst (pq_answers q))"

definition queue_ok :: "permission_queue \<Rightarrow> bool" where
  "queue_ok q \<longleftrightarrow> 1 \<le> pq_next_id q \<and> queue_ids q = mset [1 ..< pq_next_id q]"

lemma queue_ok_distinct: "queue_ok q \<Longrightarrow> distinct (map fst (pq_entries q))"
proof -
  assume "queue_ok q"
  then have "mset (map fst (pq_entries q) @ map fst (pq_answers q)) = mset [1 ..< pq_next_id q]"
    by (simp add: queue_ok_def queue_ids_def)
  then have "distinct (map fst (pq_entries q) @ map fst (pq_answers q))"
    using distinct_upt mset_eq_imp_distinct_iff by blast
  then show ?thesis by simp
qed

lemma remove_key_mset:
  "distinct (map fst es) \<Longrightarrow> map_of es i = Some r \<Longrightarrow>
    mset (map fst es) = add_mset i (mset (map fst (filter (\<lambda>(j, r). j \<noteq> i) es)))"
proof (induction es)
  case (Cons e es)
  show ?case
  proof (cases "fst e = i")
    case True
    then have "i \<notin> fst ` set es" using Cons.prems(1) by auto
    then have "filter (\<lambda>(j, r). j \<noteq> i) es = es" by (intro filter_True) (auto simp: image_iff)
    then show ?thesis using True by (cases e) simp
  next
    case False
    then show ?thesis using Cons by (cases e) auto
  qed
qed simp

lemma settle_request_ok: "queue_ok q \<Longrightarrow> queue_ok (snd (settle_request i allowed q))"
  using remove_key_mset [OF queue_ok_distinct, of q i]
  by (auto simp: settle_request_def queue_ok_def queue_ids_def split: option.splits)

lemma settle_all_ok: "queue_ok q \<Longrightarrow> queue_ok (snd (settle_all is allowed q))"
proof (induction "is" arbitrary: q)
  case (Cons i "is")
  obtain d q1 where s: "settle_request i allowed q = (d, q1)" by force
  then have "queue_ok (snd (settle_all is allowed q1))"
    using Cons settle_request_ok [of q i allowed] by simp
  then show ?case using s by (auto split: prod.split)
qed simp

lemma queue_event_ok: "queue_ok q \<Longrightarrow> queue_ok (queue_event_step q e)"
proof (cases e)
  case (Enqueue_request r)
  assume ok: "queue_ok q"
  then have "[1 ..< Suc (pq_next_id q)] = [1 ..< pq_next_id q] @ [pq_next_id q]"
    by (simp add: queue_ok_def)
  then show ?thesis
    using ok Enqueue_request by (simp add: enqueue_request_def queue_ok_def queue_ids_def)
qed (simp_all add: settle_request_ok settle_all_ok reconcile_requests_def drain_requests_def)

interpretation prompt_machine: invariant_machine queue_event_step queue_ok
  by unfold_locales (rule queue_event_ok)

text \<open>After any sequence of enqueues, answers, reconciliations and drains, the ids given out are
  1, 2, 3 and so on, and each of them is either still waiting, once, or was answered, once.\<close>

theorem prompts_answered_once:
  "mset (map fst (pq_entries (foldl queue_event_step empty_queue events))) +
    mset (map fst (pq_answers (foldl queue_event_step empty_queue events))) =
    mset [1 ..< pq_next_id (foldl queue_event_step empty_queue events)]"
proof -
  have "queue_ok (foldl queue_event_step empty_queue events)"
    by (rule prompt_machine.run_inv) (simp add: queue_ok_def queue_ids_def empty_queue_def)
  then show ?thesis by (simp add: queue_ok_def queue_ids_def)
qed

section \<open>A grant drains only what the gate allows\<close>

lemma settle_all_answers:
  "(i, b) \<in> set (pq_answers (snd (settle_all is allowed q))) \<Longrightarrow>
    (i, b) \<in> set (pq_answers q) \<or> i \<in> set is \<and> b = allowed"
proof (induction "is" arbitrary: q)
  case (Cons j "is")
  obtain d q1 where s: "settle_request j allowed q = (d, q1)" by force
  have "(i, b) \<in> set (pq_answers (snd (settle_all is allowed q1)))"
    using Cons.prems s by (simp split: prod.splits)
  then consider "(i, b) \<in> set (pq_answers q1)" | "i \<in> set is" "b = allowed" using Cons.IH by blast
  then show ?case
  proof cases
    case 1
    then show ?thesis using s by (auto simp: settle_request_def split: option.splits)
  qed simp
qed simp

lemma mint_pattern_queue:
  "pq_entries (gs_queue (mint_pattern env sh tool grant g pattern)) =
     pq_entries (snd (reconcile_requests (\<lambda>r. is_request_covered_by_approvals
       (coverage_now env (mint_pattern env sh tool grant g pattern)) sh r
       (live_approvals (mint_pattern env sh tool grant g pattern))) (gs_queue g)))"
  "pq_answers (gs_queue (mint_pattern env sh tool grant g pattern)) =
     pq_answers (snd (reconcile_requests (\<lambda>r. is_request_covered_by_approvals
       (coverage_now env (mint_pattern env sh tool grant g pattern)) sh r
       (live_approvals (mint_pattern env sh tool grant g pattern))) (gs_queue g)))"
  by (simp_all add: mint_pattern_def Let_def coverage_now_def live_approvals_def)


definition sample_gate :: gate_state where
  "sample_gate =
     (create_gate [] False False None)
       \<lparr>gs_queue := snd (enqueue_request (sample_request ''npm test a'') empty_queue)\<rparr>"


section \<open>Standing and session approvals\<close>

datatype approval_event =
    Mint_event string approval_outcome
  | Remove_event approval
  | Seed_event "approval list"
  | Reset_event

fun approval_step :: "coverage_env \<Rightarrow> shell_policy \<Rightarrow> gate_state \<Rightarrow> approval_event \<Rightarrow> gate_state" where
  "approval_step env sh g (Mint_event tool outcome) = mint_grant env sh tool outcome g"
| "approval_step env sh g (Remove_event target) = remove_session_approval target g"
| "approval_step env sh g (Seed_event seeded) = set_seeded_approvals seeded g"
| "approval_step env sh g Reset_event = reset_gate g"

text \<open>The specification keeps two lists of approvals and no references: the standing ones and the
  session's.\<close>

record approval_book =
  bk_standing :: "approval list"
  bk_session :: "approval list"

definition book_mint :: "coverage_env \<Rightarrow> string option \<Rightarrow> string \<Rightarrow> approval_outcome \<Rightarrow> approval_book \<Rightarrow> approval_book" where
  "book_mint env model requested_tool outcome bk =
     (case ao_persist outcome of
        None \<Rightarrow> bk
      | Some scope \<Rightarrow>
          (case sco_pattern scope of
             None \<Rightarrow> bk
           | Some pattern \<Rightarrow>
               (let tool = canonical_tool_name requested_tool;
                    grant = (case sco_grant scope of Some s \<Rightarrow> s | None \<Rightarrow> Session_scope);
                    new = map (\<lambda>p. \<lparr>ap_tool = tool, ap_pattern = p,
                            ap_provider_model = (if grant = Provider_model_scope then model else None),
                            ap_cwd = (if grant = Project_scope then Some (gw_resolved_cwd (ce_workspace env)) else None)\<rparr>)
                          (minted_patterns tool pattern)
                in if grant = Session_scope then bk\<lparr>bk_session := bk_session bk @ new\<rparr>
                   else bk\<lparr>bk_standing := bk_standing bk @ new\<rparr>)))"

fun book_step :: "coverage_env \<Rightarrow> string option \<Rightarrow> approval_book \<Rightarrow> approval_event \<Rightarrow> approval_book" where
  "book_step env model bk (Mint_event tool outcome) = book_mint env model tool outcome bk"
| "book_step env model bk (Remove_event target) =
     \<lparr>bk_standing = filter (\<lambda>a. \<not> same_approval a target) (bk_standing bk),
      bk_session = filter (\<lambda>a. \<not> same_approval a target) (bk_session bk)\<rparr>"
| "book_step env model bk (Seed_event seeded) =
     bk\<lparr>bk_standing := normalize_seeded_approvals seeded\<rparr>"
| "book_step env model bk Reset_event = bk\<lparr>bk_session := []\<rparr>"

definition book_of :: "gate_state \<Rightarrow> approval_book" where
  "book_of g =
     \<lparr>bk_standing = map snd (filter (\<lambda>x. x \<notin> set (gs_session_grants g)) (gs_approvals g)),
      bk_session = map snd (gs_session_grants g)\<rparr>"

definition refs_ok :: "gate_state \<Rightarrow> bool" where
  "refs_ok g \<longleftrightarrow>
     distinct (map fst (gs_approvals g)) \<and> distinct (map fst (gs_session_grants g)) \<and>
     set (gs_session_grants g) \<subseteq> set (gs_approvals g) \<and>
     (\<forall>x \<in> set (gs_approvals g). fst x < gs_next_ref g)"

lemma mint_pattern_fields [simp]:
  "gs_approvals (mint_pattern env sh tool grant g p) =
     gs_approvals g @ [(gs_next_ref g, minted_approval env g tool grant p)]"
  "gs_session_grants (mint_pattern env sh tool grant g p) =
     (if grant = Session_scope then gs_session_grants g @ [(gs_next_ref g, minted_approval env g tool grant p)]
      else gs_session_grants g)"
  "gs_next_ref (mint_pattern env sh tool grant g p) = Suc (gs_next_ref g)"
  "gs_provider_model (mint_pattern env sh tool grant g p) = gs_provider_model g"
  by (simp_all add: mint_pattern_def Let_def)

lemma refs_ok_mint_pattern: "refs_ok g \<Longrightarrow> refs_ok (mint_pattern env sh tool grant g p)"
  by (fastforce simp: refs_ok_def)

lemma book_mint_pattern:
  assumes "refs_ok g"
  shows "book_of (mint_pattern env sh tool grant g p) =
    (let a = minted_approval env g tool grant p
     in if grant = Session_scope then (book_of g)\<lparr>bk_session := bk_session (book_of g) @ [a]\<rparr>
        else (book_of g)\<lparr>bk_standing := bk_standing (book_of g) @ [a]\<rparr>)"
proof -
  let ?x = "(gs_next_ref g, minted_approval env g tool grant p)"
  have new: "?x \<notin> set (gs_approvals g)" "?x \<notin> set (gs_session_grants g)"
    using assms by (fastforce simp: refs_ok_def)+
  then have "filter (\<lambda>x. x \<notin> set (gs_session_grants g) \<and> x \<noteq> ?x) (gs_approvals g) =
      filter (\<lambda>x. x \<notin> set (gs_session_grants g)) (gs_approvals g)"
    by (intro filter_cong) auto
  then show ?thesis using new
    by (cases "grant = Session_scope") (simp_all add: book_of_def Let_def conj_commute)
qed

lemma refs_book_mint_patterns:
  "refs_ok g \<Longrightarrow> refs_ok (foldl (mint_pattern env sh tool grant) g ps) \<and>
    gs_provider_model (foldl (mint_pattern env sh tool grant) g ps) = gs_provider_model g \<and>
    book_of (foldl (mint_pattern env sh tool grant) g ps) =
      (let new = map (minted_approval env g tool grant) ps
       in if grant = Session_scope then (book_of g)\<lparr>bk_session := bk_session (book_of g) @ new\<rparr>
          else (book_of g)\<lparr>bk_standing := bk_standing (book_of g) @ new\<rparr>)"
proof (induction ps arbitrary: g)
  case (Cons p ps)
  let ?g = "mint_pattern env sh tool grant g p"
  have "minted_approval env ?g tool grant = minted_approval env g tool grant"
    by (simp add: minted_approval_def fun_eq_iff)
  then show ?case
    using Cons.IH [OF refs_ok_mint_pattern [OF Cons.prems, of env sh tool grant p]]
      book_mint_pattern [OF Cons.prems, of env sh tool grant p]
    by (cases "grant = Session_scope") (simp_all add: Let_def)
qed (simp add: Let_def)

lemma clear_denials_book [simp]:
  "book_of (clear_denials g) = book_of g" "refs_ok (clear_denials g) = refs_ok g"
  "gs_provider_model (clear_denials g) = gs_provider_model g"
  by (simp_all add: clear_denials_def book_of_def refs_ok_def)

text \<open>Deleting each session grant by its reference keeps the others.\<close>

lemma remove_by_ref:
  assumes "distinct (map fst as)" "x \<in> set as"
  shows "(case find_index (\<lambda>a. fst a = fst x) as of None \<Rightarrow> as | Some i \<Rightarrow> remove_at i as) =
    filter (\<lambda>a. a \<noteq> x) as"
  using assms
proof (induction as)
  case (Cons a as)
  show ?case
  proof (cases "fst a = fst x")
    case True
    then have "a = x" using Cons.prems by (auto simp: image_iff)
    then have "filter (\<lambda>b. b \<noteq> x) as = as" using Cons.prems by (intro filter_True) auto
    then show ?thesis using \<open>a = x\<close> by (simp add: remove_at_def)
  next
    case False
    then have "x \<in> set as" using Cons.prems by auto
    then have IH: "(case find_index (\<lambda>a. fst a = fst x) as of None \<Rightarrow> as | Some i \<Rightarrow> remove_at i as) =
        filter (\<lambda>a. a \<noteq> x) as" using Cons by simp
    then show ?thesis using False by (auto simp: remove_at_def split: option.splits)
  qed
qed simp

lemma remove_all_by_ref:
  "distinct (map fst as) \<Longrightarrow> distinct (map fst gs) \<Longrightarrow> set gs \<subseteq> set as \<Longrightarrow>
    foldl (\<lambda>as grant. case find_index (\<lambda>a. fst a = fst grant) as of None \<Rightarrow> as | Some i \<Rightarrow> remove_at i as) as gs =
    filter (\<lambda>a. a \<notin> set gs) as"
proof (induction gs arbitrary: as)
  case (Cons x gs)
  let ?as = "filter (\<lambda>a. a \<noteq> x) as"
  have "distinct (map fst ?as)" using Cons.prems(1) by (rule distinct_map_filter)
  moreover have "set gs \<subseteq> set ?as" using Cons.prems by auto
  ultimately show ?case
    using Cons.IH [of ?as] Cons.prems remove_by_ref [of as x] by (simp add: conj_commute)
qed simp

lemma refs_ok_step: "refs_ok g \<Longrightarrow> refs_ok (approval_step env sh g e)"
proof (cases e)
  case (Mint_event tool outcome)
  assume "refs_ok g"
  then show ?thesis using refs_book_mint_patterns Mint_event
    by (auto simp: mint_grant_def Let_def split: option.splits)
next
  case (Remove_event target)
  assume "refs_ok g"
  then show ?thesis using Remove_event
    by (auto simp: remove_session_approval_def refs_ok_def distinct_map_filter)
next
  case (Seed_event seeded)
  assume ok: "refs_ok g"
  let ?n = "gs_next_ref g" and ?fresh = "normalize_seeded_approvals seeded"
  let ?gs = "gs_session_grants g"
  have old: "x \<in> set ?gs \<Longrightarrow> fst x < ?n" for x using ok by (auto simp: refs_ok_def)
  have new: "x \<in> set (enumerate ?n ?fresh) \<Longrightarrow> ?n \<le> fst x \<and> fst x < ?n + length ?fresh" for x
    by (auto simp: enumerate_eq_zip in_set_zip)
  have "distinct (map fst (enumerate ?n ?fresh))" by (simp add: enumerate_eq_zip)
  moreover have "set (map fst (enumerate ?n ?fresh)) \<inter> set (map fst ?gs) = {}"
    using old new by (fastforce simp del: map_fst_enumerate)
  ultimately have "distinct (map fst (enumerate ?n ?fresh @ ?gs))"
    using ok unfolding map_append distinct_append by (simp add: refs_ok_def del: map_fst_enumerate)
  moreover have "\<forall>x \<in> set (enumerate ?n ?fresh @ ?gs). fst x < ?n + length ?fresh"
    using old new by fastforce
  ultimately have "refs_ok (g\<lparr>gs_next_ref := ?n + length ?fresh,
      gs_approvals := enumerate ?n ?fresh @ ?gs\<rparr>)"
    using ok by (simp add: refs_ok_def)
  then show ?thesis
    using Seed_event by (simp add: set_seeded_approvals_def Let_def)
next
  case Reset_event
  assume "refs_ok g"
  then show ?thesis using Reset_event
    by (auto simp: reset_gate_def refs_ok_def remove_all_by_ref distinct_map_filter)
qed

lemma book_of_step: "refs_ok g \<Longrightarrow> book_of (approval_step env sh g e) = book_step env (gs_provider_model g) (book_of g) e"
proof (cases e)
  case (Mint_event tool outcome)
  assume "refs_ok g"
  then show ?thesis using Mint_event refs_book_mint_patterns
    by (auto simp: mint_grant_def book_mint_def minted_approval_def Let_def split: option.splits)
next
  case (Remove_event target)
  assume ok: "refs_ok g"
  have "filter (\<lambda>x. (\<not> same_approval (snd x) target) \<and>
        x \<notin> set (filter (\<lambda>(r, a). \<not> same_approval a target) (gs_session_grants g))) (gs_approvals g) =
      filter (\<lambda>x. x \<notin> set (gs_session_grants g) \<and> \<not> same_approval (snd x) target) (gs_approvals g)"
    by (intro filter_cong) auto
  then show ?thesis using Remove_event
    by (simp add: remove_session_approval_def book_of_def filter_map comp_def case_prod_unfold conj_commute)
next
  case (Seed_event seeded)
  assume ok: "refs_ok g"
  let ?fresh = "normalize_seeded_approvals seeded"
  have "filter (\<lambda>x. x \<notin> set (gs_session_grants g)) (enumerate (gs_next_ref g) ?fresh) =
      enumerate (gs_next_ref g) ?fresh"
    using ok by (intro filter_True) (fastforce simp: enumerate_eq_zip in_set_zip refs_ok_def)
  moreover have "book_of (set_seeded_approvals seeded g) =
      book_of (g\<lparr>gs_next_ref := gs_next_ref g + length ?fresh,
        gs_approvals := enumerate (gs_next_ref g) ?fresh @ gs_session_grants g\<rparr>)"
    by (simp add: set_seeded_approvals_def Let_def)
  ultimately show ?thesis using Seed_event by (simp add: book_of_def)
next
  case Reset_event
  assume "refs_ok g"
  then show ?thesis using Reset_event
    by (simp add: reset_gate_def book_of_def remove_all_by_ref refs_ok_def)
qed

lemma approval_step_model: "gs_provider_model (approval_step env sh g e) = gs_provider_model g"
proof (cases e)
  case (Mint_event tool outcome)
  have "gs_provider_model (foldl (mint_pattern env sh t s) g ps) = gs_provider_model g" for t s ps g
    by (induction ps arbitrary: g) simp_all
  then show ?thesis using Mint_event by (auto simp: mint_grant_def Let_def split: option.splits)
qed (simp_all add: remove_session_approval_def set_seeded_approvals_def reset_gate_def Let_def)

lemma refs_ok_create: "refs_ok (create_gate approvals auto skip model)"
  by (auto simp: create_gate_def refs_ok_def Let_def enumerate_eq_zip in_set_zip)

text \<open>C4: The gate's two lists of shared objects behave as a book of two separate lists: whatever is
  granted, removed, seeded and reset in whatever order, a reset forgets the session's approvals and
  no other, seeding replaces the standing ones and no other, and a removal reaches both.\<close>

theorem gate_refines_book:
  "book_of (foldl (approval_step env sh) (create_gate approvals auto skip model) events) =
    foldl (book_step env model) \<lparr>bk_standing = normalize_seeded_approvals approvals, bk_session = []\<rparr> events"
proof -
  have "refs_ok g \<Longrightarrow> book_of (foldl (approval_step env sh) g events) =
      foldl (book_step env (gs_provider_model g)) (book_of g) events" for g
  proof (induction events arbitrary: g)
    case (Cons e events)
    then show ?case
      using Cons.IH [OF refs_ok_step [OF Cons.prems]] by (simp add: book_of_step approval_step_model)
  qed simp
  from this [OF refs_ok_create] show ?thesis
    by (simp add: create_gate_def book_of_def Let_def enumerate_eq_zip)
qed

end
