(* ===== verification/WorkerGrant.thy ===== *)
theory WorkerGrant
  imports ToolNames
begin

text \<open>
  The store of denied worker calls, \<open>src/permission/worker-grant.ts\<close>: one envelope for each denied
  call, its status, its audit trail and the operations the worker side (deny, check, spend) and the
  parent side (attach, authorize, revoke, invalidate) perform on it. The map is an association list
  in insertion order. The fingerprint of a call is a parameter (a hash of the tool, the arguments
  and the directory); so are the fresh request ids and the clock.
\<close>

section \<open>Envelopes\<close>

datatype grant_status = GPending | GAuthorized | GConsumed | GExpired | GInterrupted

datatype audit_kind =
  ADenied | AAsked | AAuthorized | ARevoked | AConsumed | AExpired | AInterrupted

record audit_event =
  audit_kind :: audit_kind
  audit_at :: int
  audit_detail :: "string option"

record denied_envelope =
  env_request_id :: string
  env_worker_session_id :: string
  env_worker_label :: "string option"
  env_turn_id :: "string option"
  env_denied_call_id :: string
  env_canonical_tool :: string
  env_tool_action :: "string option"
  env_permission_subject :: string
  env_args :: json
  env_args_fingerprint :: string
  env_cwd :: string
  env_workspace_root :: "string option"
  env_question_id :: "string option"
  env_created_at :: int
  env_expires_at :: int
  env_status :: grant_status
  env_audit :: "audit_event list"

record denied_call =
  call_id :: string
  call_tool :: string
  call_action :: "string option"
  call_subject :: string
  call_args :: json
  call_cwd :: string
  call_session_id :: string
  call_label :: "string option"
  call_turn_id :: "string option"
  call_workspace_root :: "string option"

record call_identity =
  id_session :: string
  id_tool :: string
  id_args :: json
  id_cwd :: string

type_synonym fingerprints = "string \<Rightarrow> json \<Rightarrow> string \<Rightarrow> string"

type_synonym grant_store = "(string \<times> denied_envelope) list"

definition worker_grant_ttl_ms :: int where
  "worker_grant_ttl_ms = 10 * 60 * 1000"

definition canonical_denied_tool :: "string \<Rightarrow> string" where
  "canonical_denied_tool tool = canonical_tool_name tool"

definition audit :: "audit_kind \<Rightarrow> string option \<Rightarrow> int \<Rightarrow> denied_envelope \<Rightarrow> denied_envelope" where
  "audit kind detail at e =
     e\<lparr>env_audit := env_audit e @ [\<lparr>audit_kind = kind, audit_at = at, audit_detail = detail\<rparr>]\<rparr>"

definition create_denied_call_envelope ::
    "fingerprints \<Rightarrow> string \<Rightarrow> int \<Rightarrow> denied_call \<Rightarrow> denied_envelope" where
  "create_denied_call_envelope fp uuid now call =
     (let tool = canonical_denied_tool (call_tool call)
      in audit ADenied (Some (call_id call)) now
        \<lparr>env_request_id = uuid, env_worker_session_id = call_session_id call,
         env_worker_label = call_label call, env_turn_id = call_turn_id call,
         env_denied_call_id = call_id call, env_canonical_tool = tool,
         env_tool_action = call_action call, env_permission_subject = call_subject call,
         env_args = call_args call, env_args_fingerprint = fp tool (call_args call) (call_cwd call),
         env_cwd = call_cwd call, env_workspace_root = call_workspace_root call,
         env_question_id = None, env_created_at = now,
         env_expires_at = now + worker_grant_ttl_ms, env_status = GPending, env_audit = []\<rparr>)"

definition format_worker_deny_with_grant_id :: "string \<Rightarrow> string \<Rightarrow> string" where
  "format_worker_deny_with_grant_id base_reason request_id =
     base_reason @ '' deny recorded under grant request '' @ request_id @
     ''; parent approval is pending '' @ em_dash @
     '' reference only this request id when asking, the text carries no authority.''"

definition fingerprint_of :: "fingerprints \<Rightarrow> call_identity \<Rightarrow> string" where
  "fingerprint_of fp ident = fp (id_tool ident) (id_args ident) (id_cwd ident)"

fun terminal_blocker :: "denied_envelope \<Rightarrow> string \<Rightarrow> string" where
  "terminal_blocker e expected =
     ''Grant request '' @ env_request_id e @
     (case env_status e of
        GConsumed \<Rightarrow> '' was already consumed by its one retry '' @ em_dash @ '' replaying '' @ expected @
          '' is denied.''
      | GAuthorized \<Rightarrow> '' is reserved for its exact pending retry '' @ em_dash @ '' replaying '' @
          expected @ '' is denied.''
      | GExpired \<Rightarrow> '' expired '' @ em_dash @ '' retrying '' @ expected @ '' is denied. Re-ask instead.''
      | GInterrupted \<Rightarrow> '' was invalidated by interrupt '' @ em_dash @ '' retrying '' @ expected @
          '' is denied. Re-ask instead.''
      | _ \<Rightarrow> '' is not usable '' @ em_dash @ '' retrying '' @ expected @ '' is denied.'')"

section \<open>Loops over the envelopes\<close>

text \<open>The first envelope in order that meets a condition is changed and returned; or every one is,
  and they are counted.\<close>

fun amend_first ::
    "(denied_envelope \<Rightarrow> bool) \<Rightarrow> (denied_envelope \<Rightarrow> denied_envelope) \<Rightarrow> grant_store \<Rightarrow>
      denied_envelope option \<times> grant_store" where
  "amend_first cond f [] = (None, [])"
| "amend_first cond f ((k, e) # st) =
     (if cond e then (Some (f e), (k, f e) # st)
      else (case amend_first cond f st of (r, st') \<Rightarrow> (r, (k, e) # st')))"

definition amend_all ::
    "(denied_envelope \<Rightarrow> bool) \<Rightarrow> (denied_envelope \<Rightarrow> denied_envelope) \<Rightarrow> grant_store \<Rightarrow> nat \<times> grant_store" where
  "amend_all cond f st =
     (length (filter (\<lambda>(k, e). cond e) st), map (\<lambda>(k, e). (k, if cond e then f e else e)) st)"

definition set_status ::
    "grant_status \<Rightarrow> audit_kind \<Rightarrow> string option \<Rightarrow> int \<Rightarrow> denied_envelope \<Rightarrow> denied_envelope" where
  "set_status s kind detail now e = audit kind detail now (e\<lparr>env_status := s\<rparr>)"

definition env_live :: "denied_envelope \<Rightarrow> bool" where
  "env_live e = (env_status e = GPending \<or> env_status e = GAuthorized)"

section \<open>The store\<close>

definition register_envelope :: "denied_envelope \<Rightarrow> grant_store \<Rightarrow> grant_store" where
  "register_envelope e st = AList.update (env_request_id e) e st"

definition peek_envelope :: "grant_store \<Rightarrow> string \<Rightarrow> denied_envelope option" where
  "peek_envelope st request_id = map_of st request_id"

definition sweep_expired :: "int \<Rightarrow> grant_store \<Rightarrow> nat \<times> grant_store" where
  "sweep_expired now st =
     amend_all (\<lambda>e. env_live e \<and> \<not> env_expires_at e > now) (set_status GExpired AExpired None now) st"

abbreviation swept :: "int \<Rightarrow> grant_store \<Rightarrow> grant_store" where
  "swept now st \<equiv> snd (sweep_expired now st)"

definition pending_for_session :: "string \<Rightarrow> int \<Rightarrow> grant_store \<Rightarrow> denied_envelope option \<times> grant_store" where
  "pending_for_session session_id now st =
     (let st = swept now st
      in (find (\<lambda>e. env_worker_session_id e = session_id \<and> env_status e = GPending) (map snd st), st))"

definition pending_match ::
    "fingerprints \<Rightarrow> call_identity \<Rightarrow> int \<Rightarrow> grant_store \<Rightarrow> denied_envelope option \<times> grant_store" where
  "pending_match fp ident now st =
     (let st = swept now st; fingerprint = fp (id_tool ident) (id_args ident) (id_cwd ident)
      in (find (\<lambda>e. env_worker_session_id e = id_session ident \<and> env_canonical_tool e = id_tool ident \<and>
              env_args_fingerprint e = fingerprint \<and> env_cwd e = id_cwd ident \<and>
              env_status e = GPending) (map snd st), st))"

definition attach_to_ask ::
    "string \<Rightarrow> string \<Rightarrow> string option \<Rightarrow> int \<Rightarrow> grant_store \<Rightarrow> denied_envelope option \<times> grant_store" where
  "attach_to_ask session_id question_id request_id now st =
     (let st = swept now st
      in (case map_option trim request_id of
            None \<Rightarrow> (None, st)
          | Some named \<Rightarrow>
              if named = [] then (None, st)
              else (case map_of st named of
                      None \<Rightarrow> (None, st)
                    | Some e \<Rightarrow>
                        if env_worker_session_id e \<noteq> session_id \<or> env_status e \<noteq> GPending \<or>
                          env_question_id e \<noteq> None
                        then (None, st)
                        else (let e' = audit AAsked (Some question_id) now
                                         (e\<lparr>env_question_id := Some question_id\<rparr>)
                              in (Some e', AList.update named e' st)))))"

definition authorize_retry :: "string \<Rightarrow> int \<Rightarrow> grant_store \<Rightarrow> bool \<times> grant_store" where
  "authorize_retry request_id now st =
     (let st = swept now st
      in (case map_of st request_id of
            None \<Rightarrow> (False, st)
          | Some e \<Rightarrow>
              if env_status e \<noteq> GPending then (False, st)
              else if env_expires_at e \<le> now then (False, st)
              else (True, AList.update request_id (set_status GAuthorized AAuthorized None now e) st)))"

definition revoke_authorized_retry :: "string \<Rightarrow> int \<Rightarrow> grant_store \<Rightarrow> grant_store" where
  "revoke_authorized_retry request_id now st =
     (case map_of st request_id of
        None \<Rightarrow> st
      | Some e \<Rightarrow>
          if env_status e \<noteq> GAuthorized then st
          else AList.update request_id (set_status GPending ARevoked None now e) st)"

text \<open>An envelope of exactly this call.\<close>

definition exact_call :: "fingerprints \<Rightarrow> call_identity \<Rightarrow> denied_envelope \<Rightarrow> bool" where
  "exact_call fp ident e =
     (env_args_fingerprint e = fingerprint_of fp ident \<and> env_cwd e = id_cwd ident \<and>
      env_canonical_tool e = id_tool ident \<and> env_worker_session_id e = id_session ident)"

definition has_authorized_retry :: "fingerprints \<Rightarrow> call_identity \<Rightarrow> int \<Rightarrow> grant_store \<Rightarrow> bool \<times> grant_store" where
  "has_authorized_retry fp ident now st =
     (let st = swept now st
      in (list_ex (\<lambda>(k, e). exact_call fp ident e \<and> env_status e = GAuthorized \<and> env_expires_at e > now) st,
          st))"

text \<open>The loop of \<open>precheck\<close>: the blocker, or \<open>None\<close> for \<open>ok: true\<close>.\<close>

fun precheck_scan ::
    "fingerprints \<Rightarrow> call_identity \<Rightarrow> int \<Rightarrow> grant_store \<Rightarrow> string option \<times> grant_store" where
  "precheck_scan fp ident now [] = (None, [])"
| "precheck_scan fp ident now ((k, e) # st) =
     (let next = (\<lambda>e. case precheck_scan fp ident now st of (r, st') \<Rightarrow> (r, (k, e) # st'))
      in if env_canonical_tool e \<noteq> id_tool ident \<or> env_worker_session_id e \<noteq> id_session ident then next e
         else if env_args_fingerprint e \<noteq> fp (id_tool ident) (id_args ident) (env_cwd e) then next e
         else if env_cwd e \<noteq> id_cwd ident then
           (Some (if env_status e = GPending \<or> env_status e = GAuthorized \<or> env_status e = GConsumed
                  then ''Grant request '' @ env_request_id e @ '' covers '' @ id_tool ident @ '' in '' @
                    env_cwd e @ '', not '' @ id_cwd ident @
                    '': retry from the denied directory, or re-ask.''
                  else terminal_blocker e (id_tool ident)), (k, e) # st)
         else if env_status e = GExpired then next e
         else if env_status e \<noteq> GPending \<and> env_status e \<noteq> GAuthorized then
           (Some (terminal_blocker e (id_tool ident)), (k, e) # st)
         else if env_expires_at e \<le> now then next (set_status GExpired AExpired None now e)
         else (None, (k, e) # st))"

definition precheck :: "fingerprints \<Rightarrow> call_identity \<Rightarrow> int \<Rightarrow> grant_store \<Rightarrow> string option \<times> grant_store" where
  "precheck fp ident now st = precheck_scan fp ident now (swept now st)"

definition consume_on_allow ::
    "fingerprints \<Rightarrow> call_identity \<Rightarrow> int \<Rightarrow> grant_store \<Rightarrow> denied_envelope option \<times> grant_store" where
  "consume_on_allow fp ident now st =
     amend_first (\<lambda>e. exact_call fp ident e \<and> env_status e = GPending \<and> \<not> env_expires_at e \<le> now)
       (set_status GConsumed AConsumed (Some (id_tool ident)) now) st"

definition consume_authorized_retry ::
    "fingerprints \<Rightarrow> call_identity \<Rightarrow> int \<Rightarrow> grant_store \<Rightarrow> denied_envelope option \<times> grant_store" where
  "consume_authorized_retry fp ident now st =
     amend_first (\<lambda>e. exact_call fp ident e \<and> env_status e = GAuthorized \<and> \<not> env_expires_at e \<le> now)
       (set_status GConsumed AConsumed (Some (id_tool ident)) now) st"

definition invalidate_grant_session :: "string \<Rightarrow> string \<Rightarrow> int \<Rightarrow> grant_store \<Rightarrow> nat \<times> grant_store" where
  "invalidate_grant_session session_id reason now st =
     amend_all (\<lambda>e. env_worker_session_id e = session_id \<and> env_live e)
       (set_status GInterrupted AInterrupted (Some reason) now) st"

definition expire_session :: "string \<Rightarrow> string \<Rightarrow> int \<Rightarrow> grant_store \<Rightarrow> nat \<times> grant_store" where
  "expire_session session_id reason now st =
     amend_all (\<lambda>e. env_worker_session_id e = session_id \<and> env_live e)
       (set_status GExpired AExpired (Some reason) now) st"

definition invalidate_all :: "string \<Rightarrow> int \<Rightarrow> grant_store \<Rightarrow> nat \<times> grant_store" where
  "invalidate_all reason now st = amend_all env_live (set_status GInterrupted AInterrupted (Some reason) now) st"

section \<open>Operations as steps\<close>

datatype grant_op =
    Register_denied string denied_call
  | Pending_for_session string
  | Pending_match call_identity
  | Attach_to_ask string string "string option"
  | Authorize_retry string
  | Revoke_retry string
  | Has_authorized call_identity
  | Precheck_call call_identity
  | Consume_on_allow call_identity
  | Consume_authorized call_identity
  | Invalidate_session string string
  | Expire_session string string
  | Invalidate_all string
  | Sweep_expired

fun grant_step :: "fingerprints \<Rightarrow> grant_store \<Rightarrow> int \<times> grant_op \<Rightarrow> grant_store" where
  "grant_step fp st (now, Register_denied uuid call) =
     register_envelope (create_denied_call_envelope fp uuid now call) st"
| "grant_step fp st (now, Pending_for_session sid) = snd (pending_for_session sid now st)"
| "grant_step fp st (now, Pending_match ident) = snd (pending_match fp ident now st)"
| "grant_step fp st (now, Attach_to_ask sid qid rid) = snd (attach_to_ask sid qid rid now st)"
| "grant_step fp st (now, Authorize_retry rid) = snd (authorize_retry rid now st)"
| "grant_step fp st (now, Revoke_retry rid) = revoke_authorized_retry rid now st"
| "grant_step fp st (now, Has_authorized ident) = snd (has_authorized_retry fp ident now st)"
| "grant_step fp st (now, Precheck_call ident) = snd (precheck fp ident now st)"
| "grant_step fp st (now, Consume_on_allow ident) = snd (consume_on_allow fp ident now st)"
| "grant_step fp st (now, Consume_authorized ident) = snd (consume_authorized_retry fp ident now st)"
| "grant_step fp st (now, Invalidate_session sid reason) = snd (invalidate_grant_session sid reason now st)"
| "grant_step fp st (now, Expire_session sid reason) = snd (expire_session sid reason now st)"
| "grant_step fp st (now, Invalidate_all reason) = snd (invalidate_all reason now st)"
| "grant_step fp st (now, Sweep_expired) = swept now st"

section \<open>The audit trail\<close>

text \<open>What an envelope may go through, as a machine over the audit events alone.\<close>

fun status_after :: "grant_status \<Rightarrow> audit_kind \<Rightarrow> grant_status option" where
  "status_after GPending AAsked = Some GPending"
| "status_after GPending AAuthorized = Some GAuthorized"
| "status_after GAuthorized ARevoked = Some GPending"
| "status_after GPending AConsumed = Some GConsumed"
| "status_after GAuthorized AConsumed = Some GConsumed"
| "status_after GPending AExpired = Some GExpired"
| "status_after GAuthorized AExpired = Some GExpired"
| "status_after GPending AInterrupted = Some GInterrupted"
| "status_after GAuthorized AInterrupted = Some GInterrupted"
| "status_after _ _ = None"

fun replay_from :: "grant_status \<Rightarrow> audit_kind list \<Rightarrow> grant_status option" where
  "replay_from s [] = Some s"
| "replay_from s (k # ks) = (case status_after s k of None \<Rightarrow> None | Some s' \<Rightarrow> replay_from s' ks)"

fun replay :: "audit_kind list \<Rightarrow> grant_status option" where
  "replay (ADenied # ks) = replay_from GPending ks"
| "replay _ = None"

definition env_ok :: "denied_envelope \<Rightarrow> bool" where
  "env_ok e =
     (let kinds = map audit_kind (env_audit e)
      in replay kinds = Some (env_status e) \<and>
         env_expires_at e = env_created_at e + worker_grant_ttl_ms \<and>
         list_all (\<lambda>a. \<not> (audit_kind a \<in> {AAuthorized, AConsumed} \<and> audit_at a \<ge> env_expires_at e))
           (env_audit e) \<and>
         count_list kinds AAsked = (if env_question_id e = None then 0 else 1))"

definition grants_ok :: "grant_store \<Rightarrow> bool" where
  "grants_ok st = list_all (\<lambda>(k, e). k = env_request_id e \<and> env_ok e) st"

text \<open>One recorded move of an envelope.\<close>

definition env_moves :: "int \<Rightarrow> denied_envelope \<Rightarrow> denied_envelope \<Rightarrow> bool" where
  "env_moves now e e' =
     (\<exists>kind detail s q. e' = audit kind detail now (e\<lparr>env_status := s, env_question_id := q\<rparr>) \<and>
       status_after (env_status e) kind = Some s \<and>
       (kind \<in> {AAuthorized, AConsumed} \<longrightarrow> now < env_expires_at e) \<and>
       (if kind = AAsked then env_question_id e = None \<and> q \<noteq> None else q = env_question_id e))"

lemma set_status_moves:
  "status_after (env_status e) kind = Some s \<Longrightarrow> kind \<noteq> AAsked \<Longrightarrow>
    (kind \<in> {AAuthorized, AConsumed} \<Longrightarrow> now < env_expires_at e) \<Longrightarrow>
    env_moves now e (set_status s kind detail now e)"
  unfolding env_moves_def set_status_def
  by (intro exI [of _ kind] exI [of _ detail] exI [of _ s] exI [of _ "env_question_id e"]) auto

lemma replay_from_snoc:
  "replay_from s (ks @ [k]) = (case replay_from s ks of None \<Rightarrow> None | Some s' \<Rightarrow> status_after s' k)"
  by (induction ks arbitrary: s) (auto split: option.splits)

lemma replay_snoc: "replay ks = Some s \<Longrightarrow> replay (ks @ [k]) = status_after s k"
  by (cases ks rule: replay.cases) (auto simp: replay_from_snoc)

lemma env_ok_moves: "env_ok e \<Longrightarrow> env_moves now e e' \<Longrightarrow> env_ok e' \<and> env_request_id e' = env_request_id e"
  unfolding env_moves_def env_ok_def by (auto simp: audit_def replay_snoc Let_def split: if_splits)

lemma status_after_live: "s = GPending \<or> s = GAuthorized \<Longrightarrow> status_after s AExpired = Some GExpired \<and>
    status_after s AInterrupted = Some GInterrupted \<and> status_after s AConsumed = Some GConsumed"
  by auto

section \<open>Every operation records what it does\<close>

lemma amend_all_ok:
  "grants_ok st \<Longrightarrow> (\<And>e. cond e \<Longrightarrow> env_moves now e (f e)) \<Longrightarrow> grants_ok (snd (amend_all cond f st))"
  by (fastforce simp: grants_ok_def amend_all_def list_all_iff dest: env_ok_moves)

lemma amend_first_ok:
  "grants_ok st \<Longrightarrow> (\<And>e. cond e \<Longrightarrow> env_moves now e (f e)) \<Longrightarrow> grants_ok (snd (amend_first cond f st))"
proof (induction cond f st rule: amend_first.induct)
  case (2 cond f k e st)
  show ?case
  proof (cases "cond e")
    case True
    then show ?thesis using 2 env_ok_moves [of e now "f e"] by (simp add: grants_ok_def)
  next
    case False
    then show ?thesis using 2 by (auto simp: grants_ok_def split: prod.splits)
  qed
qed simp

lemma update_ok: "grants_ok st \<Longrightarrow> k = env_request_id e \<Longrightarrow> env_ok e \<Longrightarrow> grants_ok (AList.update k e st)"
  by (induction st) (auto simp: grants_ok_def)

lemma grants_ok_lookup: "grants_ok st \<Longrightarrow> map_of st k = Some e \<Longrightarrow> env_ok e \<and> env_request_id e = k"
  by (induction st) (auto simp: grants_ok_def split: if_splits)

lemma update_moves_ok:
  "grants_ok st \<Longrightarrow> map_of st k = Some e \<Longrightarrow> env_moves now e e' \<Longrightarrow> grants_ok (AList.update k e' st)"
  using env_ok_moves grants_ok_lookup by (intro update_ok) (metis)+

lemma swept_ok: "grants_ok st \<Longrightarrow> grants_ok (swept now st)"
  unfolding sweep_expired_def
  by (rule amend_all_ok) (auto simp: env_live_def intro: set_status_moves)

lemma register_ok: "grants_ok st \<Longrightarrow> grants_ok (register_envelope (create_denied_call_envelope fp uuid now call) st)"
  unfolding register_envelope_def
  by (rule update_ok) (simp_all add: create_denied_call_envelope_def audit_def env_ok_def Let_def)

lemma attach_ok: "grants_ok st \<Longrightarrow> grants_ok (snd (attach_to_ask sid qid rid now st))"
proof -
  assume "grants_ok st"
  then have ok: "grants_ok (swept now st)" by (rule swept_ok)
  have "env_moves now e (audit AAsked (Some qid) now (e\<lparr>env_question_id := Some qid\<rparr>))"
    if "env_status e = GPending" "env_question_id e = None" for e
    unfolding env_moves_def using that
    by (intro exI [of _ AAsked] exI [of _ "Some qid"] exI [of _ GPending])
      (cases e, simp add: audit_def)
  then show ?thesis
    using ok by (auto simp: attach_to_ask_def Let_def split: option.splits intro: update_moves_ok)
qed

lemma authorize_ok: "grants_ok st \<Longrightarrow> grants_ok (snd (authorize_retry rid now st))"
  using swept_ok [of st now] update_moves_ok [of "swept now st" rid _ now] set_status_moves
  by (auto simp: authorize_retry_def Let_def split: option.splits)

lemma revoke_ok: "grants_ok st \<Longrightarrow> grants_ok (revoke_authorized_retry rid now st)"
proof -
  assume ok: "grants_ok st"
  have "env_moves now e (set_status GPending ARevoked None now e)" if "env_status e = GAuthorized" for e
    using that by (intro set_status_moves) auto
  then show ?thesis
    using ok by (auto simp: revoke_authorized_retry_def split: option.splits intro: update_moves_ok)
qed

lemma precheck_scan_ok: "grants_ok st \<Longrightarrow> grants_ok (snd (precheck_scan fp ident now st))"
proof (induction fp ident now st rule: precheck_scan.induct)
  case (2 fp ident now k e st)
  have "env_ok (set_status GExpired AExpired None now e) \<and>
      env_request_id (set_status GExpired AExpired None now e) = env_request_id e"
    if "env_status e = GPending \<or> env_status e = GAuthorized"
    using that 2 env_ok_moves [of e now] set_status_moves [of e AExpired GExpired now None] by (auto simp: grants_ok_def)
  then show ?case using 2 by (auto simp: grants_ok_def Let_def split: prod.splits)
qed (simp add: grants_ok_def)

lemma consume_ok:
  "grants_ok st \<Longrightarrow> grants_ok (snd (consume_on_allow fp ident now st))"
  "grants_ok st \<Longrightarrow> grants_ok (snd (consume_authorized_retry fp ident now st))"
  unfolding consume_on_allow_def consume_authorized_retry_def
  by (auto elim!: amend_first_ok [where now = now] intro!: set_status_moves)

lemma end_live_moves: "env_live e \<Longrightarrow> env_moves now e (set_status GInterrupted AInterrupted d now e)"
  "env_live e \<Longrightarrow> env_moves now e (set_status GExpired AExpired d now e)"
  by (auto simp: env_live_def intro!: set_status_moves)

lemma end_session_ok:
  "grants_ok st \<Longrightarrow> grants_ok (snd (invalidate_grant_session sid reason now st))"
  "grants_ok st \<Longrightarrow> grants_ok (snd (expire_session sid reason now st))"
  "grants_ok st \<Longrightarrow> grants_ok (snd (invalidate_all reason now st))"
  unfolding invalidate_grant_session_def expire_session_def invalidate_all_def
  by (auto elim!: amend_all_ok [where now = now] intro!: end_live_moves)

lemma grant_step_ok: "grants_ok st \<Longrightarrow> grants_ok (grant_step fp st op)"
proof -
  assume ok: "grants_ok st"
  obtain now op' where op: "op = (now, op')" by force
  show ?thesis
    using ok swept_ok [OF ok, of now] unfolding op
    by (cases op')
      (simp_all add: pending_for_session_def pending_match_def has_authorized_retry_def precheck_def Let_def
        register_ok attach_ok authorize_ok revoke_ok precheck_scan_ok consume_ok end_session_ok)
qed

interpretation grant_machine: invariant_machine "grant_step fp" grants_ok for fp
  by unfold_locales (rule grant_step_ok)

lemma replay_from_consumed: "replay_from GConsumed ks = Some s \<Longrightarrow> ks = []"
  by (cases ks) simp_all

lemma replay_from_consumed_last:
  "replay_from s ks = Some s' \<Longrightarrow> count_list ks AConsumed = (if s \<noteq> GConsumed \<and> s' = GConsumed then 1 else 0)"
proof (induction ks arbitrary: s)
  case (Cons k ks)
  then show ?case
    using replay_from_consumed [of ks s']
    by (cases s; cases k) (auto split: option.splits)
qed simp

lemma env_ok_consumed: "env_ok e \<Longrightarrow>
    count_list (map audit_kind (env_audit e)) AConsumed = (if env_status e = GConsumed then 1 else 0)"
  unfolding env_ok_def Let_def
  by (cases "map audit_kind (env_audit e)" rule: replay.cases) (auto dest: replay_from_consumed_last)

lemma env_ok_trail: "env_ok e \<Longrightarrow>
    replay (map audit_kind (env_audit e)) = Some (env_status e) \<and>
    list_all (\<lambda>a. \<not> (audit_kind a \<in> {AAuthorized, AConsumed} \<and>
      audit_at a \<ge> env_created_at e + worker_grant_ttl_ms)) (env_audit e) \<and>
    count_list (map audit_kind (env_audit e)) AAsked \<le> 1 \<and>
    count_list (map audit_kind (env_audit e)) AConsumed = (if env_status e = GConsumed then 1 else 0)"
proof -
  assume ok: "env_ok e"
  then have "env_expires_at e = env_created_at e + worker_grant_ttl_ms" by (simp add: env_ok_def Let_def)
  then show ?thesis
    using env_ok_consumed [OF ok] ok unfolding env_ok_def Let_def by (simp split: if_splits)
qed


end
