(* ===== verification/WorkerAuthorize.thy ===== *)
theory WorkerAuthorize
  imports WorkerGrant Fleet
begin

text \<open>
  How a worker's tool call passes the gate: \<open>src/permission/reactor-authorize.ts\<close> (deny with an
  envelope, authorize, execute) and the parent's answer in \<open>approve_worker_call\<close>
  (\<open>src/subagent/lifecycle-tools.ts\<close>). Each stage is cut where the code awaits the gate: what it
  does before (its entry) and after (its exit, with the gate's verdict). The gate's verdict, the
  coercion of hidden arguments, fresh ids and the clock are parameters. The flow is the machine of
  all workers and the parent over one store, with the per-call mutex of \<open>runExclusive\<close>.
\<close>

section \<open>Calls and verdicts\<close>

record tool_call =
  tc_id :: string
  tc_name :: string
  tc_arguments :: "json option"

datatype gate_verdict =
    VAllow
  | VDeny string
  | VAsk string string  \<comment> \<open>the request's action and subject\<close>

datatype worker_verdict = WAllow | WDeny string

type_synonym coercion = "tool_call \<Rightarrow> string \<Rightarrow> json option option"

record worker_grant_options =
  go_session_id :: "string option"
  go_label :: "string option"
  go_workspace_root :: "string option"

definition worker_control_plane_tools :: "string list" where
  "worker_control_plane_tools =
     [''submit_result'', ''ask_director''] @
     filter (\<lambda>name. name \<noteq> ''spawn_agent'' \<and> \<not> is_orchestrator_only_fleet_verb name) fleet_verbs"

definition is_worker_control_plane_tool :: "string \<Rightarrow> bool" where
  "is_worker_control_plane_tool name = (canonical_tool_name name \<in> set worker_control_plane_tools)"

definition worker_unresolved_ask_reason :: "string \<Rightarrow> string \<Rightarrow> string" where
  "worker_unresolved_ask_reason action subject =
     action @ '' ('' @ subject @ '') requires a parent permission grant; workers cannot complete operator approval.''"

text \<open>\<open>coerce call engine\<close> is \<open>None\<close> when the hidden arguments are invalid and the coercion throws.\<close>

definition dispatched_call :: "coercion \<Rightarrow> tool_call \<Rightarrow> tool_call" where
  "dispatched_call coerce call =
     (let engine = canonical_tool_name (tc_name call)
      in case coerce call engine of
           Some args \<Rightarrow> call\<lparr>tc_name := engine, tc_arguments := args\<rparr>
         | None \<Rightarrow> call\<lparr>tc_name := engine\<rparr>)"

definition worker_call_identity :: "coercion \<Rightarrow> string \<Rightarrow> tool_call \<Rightarrow> string \<Rightarrow> call_identity" where
  "worker_call_identity coerce session_id call cwd =
     (let dispatched = dispatched_call coerce call
      in \<lparr>id_session = session_id, id_tool = tc_name dispatched,
          id_args = (case tc_arguments dispatched of Some a \<Rightarrow> a | None \<Rightarrow> JObj []), id_cwd = cwd\<rparr>)"

section \<open>The two stages of a worker's call\<close>

definition deny_worker_call_with_envelope ::
    "fingerprints \<Rightarrow> coercion \<Rightarrow> worker_grant_options \<Rightarrow> tool_call \<Rightarrow> string \<Rightarrow> string \<Rightarrow> string \<Rightarrow> string \<Rightarrow>
      string \<Rightarrow> int \<Rightarrow> grant_store \<Rightarrow> worker_verdict \<times> grant_store" where
  "deny_worker_call_with_envelope fp coerce options call action subject cwd base_reason uuid now st =
     (case go_session_id options of
        None \<Rightarrow> (WDeny base_reason, st)
      | Some session_id \<Rightarrow>
          (let ident = worker_call_identity coerce session_id call cwd
           in case pending_match fp ident now st of
                (Some e, st) \<Rightarrow> (WDeny (format_worker_deny_with_grant_id base_reason (env_request_id e)), st)
              | (None, st) \<Rightarrow>
                  (let e = create_denied_call_envelope fp uuid now
                             \<lparr>call_id = tc_id call, call_tool = tc_name call, call_action = Some action,
                              call_subject = subject, call_args = id_args ident, call_cwd = id_cwd ident,
                              call_session_id = id_session ident, call_label = go_label options,
                              call_turn_id = None, call_workspace_root = go_workspace_root options\<rparr>
                   in (WDeny (format_worker_deny_with_grant_id base_reason (env_request_id e)),
                       register_envelope e st))))"

text \<open>What a stage does before it asks the gate: \<open>None\<close> when the gate has to be asked.\<close>

definition authorize_worker_call_entry ::
    "fingerprints \<Rightarrow> call_identity \<Rightarrow> int \<Rightarrow> grant_store \<Rightarrow> worker_verdict option \<times> grant_store" where
  "authorize_worker_call_entry fp ident now st =
     (case precheck fp ident now st of
        (Some blocker, st) \<Rightarrow> (Some (WDeny blocker), st)
      | (None, st) \<Rightarrow>
          (case has_authorized_retry fp ident now st of
             (authorized, st) \<Rightarrow> (if authorized then Some WAllow else None, st)))"

definition execution_worker_call_entry ::
    "fingerprints \<Rightarrow> call_identity \<Rightarrow> int \<Rightarrow> grant_store \<Rightarrow> worker_verdict option \<times> grant_store" where
  "execution_worker_call_entry fp ident now st =
     (case precheck fp ident now st of
        (Some blocker, st) \<Rightarrow> (Some (WDeny blocker), st)
      | (None, st) \<Rightarrow>
          (case consume_authorized_retry fp ident now st of
             (Some e, st) \<Rightarrow> (Some WAllow, st)
           | (None, st) \<Rightarrow> (None, st)))"

definition authorize_worker_call_exit ::
    "fingerprints \<Rightarrow> coercion \<Rightarrow> worker_grant_options \<Rightarrow> tool_call \<Rightarrow> string \<Rightarrow> gate_verdict \<Rightarrow> string \<Rightarrow> int \<Rightarrow>
      grant_store \<Rightarrow> worker_verdict \<times> grant_store" where
  "authorize_worker_call_exit fp coerce options call cwd verdict uuid now st =
     (case verdict of
        VAllow \<Rightarrow> (WAllow, st)
      | VDeny reason \<Rightarrow> (WDeny reason, st)
      | VAsk action subject \<Rightarrow>
          deny_worker_call_with_envelope fp coerce options call action subject cwd
            (worker_unresolved_ask_reason action subject) uuid now st)"

definition execution_worker_call_exit ::
    "fingerprints \<Rightarrow> coercion \<Rightarrow> worker_grant_options \<Rightarrow> tool_call \<Rightarrow> string \<Rightarrow> gate_verdict \<Rightarrow> string \<Rightarrow> int \<Rightarrow>
      grant_store \<Rightarrow> worker_verdict \<times> grant_store" where
  "execution_worker_call_exit fp coerce options call cwd verdict uuid now st =
     (case verdict of
        VAllow \<Rightarrow>
          (WAllow,
           case go_session_id options of
             None \<Rightarrow> st
           | Some session_id \<Rightarrow>
               snd (consume_on_allow fp (worker_call_identity coerce session_id call cwd) now st))
      | VDeny reason \<Rightarrow> (WDeny reason, st)
      | VAsk action subject \<Rightarrow>
          deny_worker_call_with_envelope fp coerce options call action subject cwd
            (worker_unresolved_ask_reason action subject) uuid now st)"

section \<open>The parent's answer\<close>

text \<open>The target's pending ask as the session store shows it: its question and the request id of
  the denied call it carries.\<close>

type_synonym parent_ask = "(string \<times> string option) option"

datatype parent_verdict = PAllowed | PRefused string | PThrew

datatype approve_result =
    RNoMatch | REvaluationFailed | REvaluationDenied string | RStale | RRetryStale | RNotWoken | RAuthorized

text \<open>Under the mutex: the checks before the parent's gate is asked, and after it answered. The
  session store wakes the worker (\<open>resolveAsk\<close>) or does not.\<close>

definition approve_entry ::
    "fingerprints \<Rightarrow> string \<Rightarrow> string \<Rightarrow> string \<Rightarrow> parent_ask \<Rightarrow> bool \<Rightarrow> int \<Rightarrow> grant_store \<Rightarrow>
      approve_result option \<times> grant_store" where
  "approve_entry fp target question_id request_id ask session_known now st =
     (case (ask, peek_envelope st request_id) of
        (Some (question, denied), Some e) \<Rightarrow>
          if \<not> session_known \<or> question \<noteq> question_id \<or> denied \<noteq> Some (env_request_id e) \<or>
            env_worker_session_id e \<noteq> target \<or> env_question_id e \<noteq> Some question_id \<or>
            env_status e \<noteq> GPending \<or> env_expires_at e \<le> now \<or>
            canonical_denied_tool (env_canonical_tool e) \<noteq> env_canonical_tool e \<or>
            fp (env_canonical_tool e) (env_args e) (env_cwd e) \<noteq> env_args_fingerprint e
          then (Some RNoMatch, swept now st)
          else (None, st)
      | _ \<Rightarrow> (Some RNoMatch, swept now st))"

definition approve_exit ::
    "string \<Rightarrow> string \<Rightarrow> parent_ask \<Rightarrow> parent_verdict \<Rightarrow> bool \<Rightarrow> int \<Rightarrow> grant_store \<Rightarrow>
      approve_result \<times> grant_store" where
  "approve_exit question_id request_id ask verdict woken now st =
     (case verdict of
        PThrew \<Rightarrow> (REvaluationFailed, st)
      | PRefused reason \<Rightarrow> (REvaluationDenied reason, st)
      | PAllowed \<Rightarrow>
          (case (ask, peek_envelope st request_id) of
             (Some (question, denied), Some e) \<Rightarrow>
               if question \<noteq> question_id \<or> denied \<noteq> Some (env_request_id e) \<or>
                 env_status e \<noteq> GPending \<or> env_expires_at e \<le> now
               then (RStale, swept now st)
               else (case authorize_retry request_id now st of
                       (False, st) \<Rightarrow> (RRetryStale, st)
                     | (True, st) \<Rightarrow>
                         if woken then (RAuthorized, st)
                         else (RNotWoken, revoke_authorized_retry request_id now st))
           | _ \<Rightarrow> (RStale, swept now st)))"

section \<open>The flow\<close>

datatype worker_stage = Authorize_stage | Execution_stage

datatype held_work =
    Held_call worker_stage worker_grant_options tool_call string
  | Held_approval string string

record worker_flow =
  fl_grants :: grant_store
  fl_held :: "(call_identity \<times> held_work) list"
  fl_executed :: "call_identity list"

text \<open>\<open>runExclusiveIdentity\<close>: one piece of work for each session and fingerprint at a time. An event
  that finds the mutex taken waits, which here is not to happen.\<close>

definition same_key :: "fingerprints \<Rightarrow> call_identity \<Rightarrow> call_identity \<Rightarrow> bool" where
  "same_key fp i j = (id_session i = id_session j \<and> fingerprint_of fp i = fingerprint_of fp j)"

definition mutex_free :: "fingerprints \<Rightarrow> call_identity \<Rightarrow> worker_flow \<Rightarrow> bool" where
  "mutex_free fp ident fl = list_all (\<lambda>(i, w). \<not> same_key fp ident i) (fl_held fl)"

definition envelope_identity :: "denied_envelope \<Rightarrow> call_identity" where
  "envelope_identity e =
     \<lparr>id_session = env_worker_session_id e, id_tool = env_canonical_tool e, id_args = env_args e,
      id_cwd = env_cwd e\<rparr>"

datatype flow_event =
    Call_begins worker_stage worker_grant_options tool_call string
  | Call_ends nat gate_verdict string
  | Approval_begins string string string parent_ask bool
  | Approval_ends nat parent_ask parent_verdict bool
  | Ask_attached string string "string option"
  | Worker_interrupted string string
  | Ask_expired string string
  | Store_cleared string
  | Time_passes

definition log_execution :: "worker_stage \<Rightarrow> worker_verdict \<Rightarrow> call_identity \<Rightarrow> worker_flow \<Rightarrow> worker_flow" where
  "log_execution stage verdict ident fl =
     (if stage = Execution_stage \<and> verdict = WAllow
      then fl\<lparr>fl_executed := fl_executed fl @ [ident]\<rparr> else fl)"

definition call_begins ::
    "fingerprints \<Rightarrow> coercion \<Rightarrow> worker_stage \<Rightarrow> worker_grant_options \<Rightarrow> tool_call \<Rightarrow> string \<Rightarrow> int \<Rightarrow>
      worker_flow \<Rightarrow> worker_flow" where
  "call_begins fp coerce stage options call cwd now fl =
     (if is_worker_control_plane_tool (tc_name call) then fl
      else (case go_session_id options of
              None \<Rightarrow> fl
            | Some session_id \<Rightarrow>
                (let ident = worker_call_identity coerce session_id call cwd
                 in if \<not> mutex_free fp ident fl then fl
                    else (case (case stage of
                                  Authorize_stage \<Rightarrow> authorize_worker_call_entry fp ident now (fl_grants fl)
                                | Execution_stage \<Rightarrow> execution_worker_call_entry fp ident now (fl_grants fl)) of
                            (Some verdict, st) \<Rightarrow> log_execution stage verdict ident (fl\<lparr>fl_grants := st\<rparr>)
                          | (None, st) \<Rightarrow>
                              fl\<lparr>fl_grants := st,
                                 fl_held := fl_held fl @ [(ident, Held_call stage options call cwd)]\<rparr>))))"

definition call_ends ::
    "fingerprints \<Rightarrow> coercion \<Rightarrow> nat \<Rightarrow> gate_verdict \<Rightarrow> string \<Rightarrow> int \<Rightarrow> worker_flow \<Rightarrow> worker_flow" where
  "call_ends fp coerce n verdict uuid now fl =
     (if n \<ge> length (fl_held fl) \<or> uuid \<in> set (map fst (fl_grants fl)) then fl
      else (case fl_held fl ! n of
              (ident, Held_call stage options call cwd) \<Rightarrow>
                (case (case stage of
                         Authorize_stage \<Rightarrow>
                           authorize_worker_call_exit fp coerce options call cwd verdict uuid now (fl_grants fl)
                       | Execution_stage \<Rightarrow>
                           execution_worker_call_exit fp coerce options call cwd verdict uuid now (fl_grants fl)) of
                   (w, st) \<Rightarrow>
                     log_execution stage w ident
                       (fl\<lparr>fl_grants := st, fl_held := remove_at n (fl_held fl)\<rparr>))
            | (ident, Held_approval question_id request_id) \<Rightarrow> fl))"

definition approval_begins ::
    "fingerprints \<Rightarrow> string \<Rightarrow> string \<Rightarrow> string \<Rightarrow> parent_ask \<Rightarrow> bool \<Rightarrow> int \<Rightarrow> worker_flow \<Rightarrow> worker_flow" where
  "approval_begins fp target question_id request_id ask session_known now fl =
     (case peek_envelope (fl_grants fl) request_id of
        None \<Rightarrow> fl
      | Some e \<Rightarrow>
          if \<not> mutex_free fp (envelope_identity e) fl then fl
          else (case approve_entry fp target question_id request_id ask session_known now (fl_grants fl) of
                  (Some r, st) \<Rightarrow> fl\<lparr>fl_grants := st\<rparr>
                | (None, st) \<Rightarrow>
                    fl\<lparr>fl_grants := st,
                       fl_held := fl_held fl @ [(envelope_identity e, Held_approval question_id request_id)]\<rparr>))"

definition approval_ends ::
    "nat \<Rightarrow> parent_ask \<Rightarrow> parent_verdict \<Rightarrow> bool \<Rightarrow> int \<Rightarrow> worker_flow \<Rightarrow> worker_flow" where
  "approval_ends n ask verdict woken now fl =
     (if n \<ge> length (fl_held fl) then fl
      else (case fl_held fl ! n of
              (ident, Held_approval question_id request_id) \<Rightarrow>
                fl\<lparr>fl_grants := snd (approve_exit question_id request_id ask verdict woken now (fl_grants fl)),
                   fl_held := remove_at n (fl_held fl)\<rparr>
            | (ident, Held_call stage options call cwd) \<Rightarrow> fl))"

fun flow_step :: "fingerprints \<Rightarrow> coercion \<Rightarrow> worker_flow \<Rightarrow> int \<times> flow_event \<Rightarrow> worker_flow" where
  "flow_step fp coerce fl (now, Call_begins stage options call cwd) =
     call_begins fp coerce stage options call cwd now fl"
| "flow_step fp coerce fl (now, Call_ends n verdict uuid) = call_ends fp coerce n verdict uuid now fl"
| "flow_step fp coerce fl (now, Approval_begins target qid rid ask known) =
     approval_begins fp target qid rid ask known now fl"
| "flow_step fp coerce fl (now, Approval_ends n ask verdict woken) = approval_ends n ask verdict woken now fl"
| "flow_step fp coerce fl (now, Ask_attached sid qid rid) =
     fl\<lparr>fl_grants := snd (attach_to_ask sid qid rid now (fl_grants fl))\<rparr>"
| "flow_step fp coerce fl (now, Worker_interrupted sid reason) =
     fl\<lparr>fl_grants := snd (invalidate_grant_session sid reason now (fl_grants fl))\<rparr>"
| "flow_step fp coerce fl (now, Ask_expired sid reason) =
     fl\<lparr>fl_grants := snd (expire_session sid reason now (fl_grants fl))\<rparr>"
| "flow_step fp coerce fl (now, Store_cleared reason) =
     fl\<lparr>fl_grants := snd (invalidate_all reason now (fl_grants fl))\<rparr>"
| "flow_step fp coerce fl (now, Time_passes) = fl\<lparr>fl_grants := swept now (fl_grants fl)\<rparr>"

definition idle_flow :: worker_flow where
  "idle_flow = \<lparr>fl_grants = [], fl_held = [], fl_executed = []\<rparr>"

section \<open>The envelopes of one call\<close>

definition statuses :: "fingerprints \<Rightarrow> call_identity \<Rightarrow> grant_store \<Rightarrow> grant_status list" where
  "statuses fp ident st = map env_status (filter (exact_call fp ident) (map snd st))"

text \<open>Expired envelopes may pile up. Behind them at most one is live, and behind one that is spent
  or interrupted none is ever spent.\<close>

fun orderly :: "grant_status list \<Rightarrow> bool" where
  "orderly [] = True"
| "orderly (s # ss) =
     (if s = GExpired then orderly ss
      else if s = GPending \<or> s = GAuthorized then ss = []
      else GConsumed \<notin> set ss)"

fun open_calls :: "grant_status list \<Rightarrow> bool" where
  "open_calls [] = True"
| "open_calls (s # ss) = (if s = GExpired then open_calls ss else (s = GPending \<or> s = GAuthorized) \<and> ss = [])"

fun unanswered :: "grant_status list \<Rightarrow> bool" where
  "unanswered [] = True"
| "unanswered (s # ss) =
     (if s = GExpired then unanswered ss else (s = GPending \<or> s = GInterrupted) \<and> ss = [])"

definition ended :: "grant_status \<Rightarrow> grant_status \<Rightarrow> bool" where
  "ended s s' = (s' = s \<or> (s = GPending \<or> s = GAuthorized) \<and> (s' = GExpired \<or> s' = GInterrupted))"

definition turned :: "grant_status \<Rightarrow> grant_status \<Rightarrow> bool" where
  "turned s s' = (s' = s \<or> (s = GPending \<or> s = GAuthorized) \<and> s' \<noteq> GConsumed)"

definition spent :: "grant_status \<Rightarrow> grant_status \<Rightarrow> bool" where
  "spent s s' = (s' = s \<or> (s = GPending \<or> s = GAuthorized) \<and> s' = GConsumed)"

lemma ended_turned: "ended s s' \<Longrightarrow> turned s s'"
  by (auto simp: ended_def turned_def)

lemma turned_consumed: "list_all2 turned ss ts \<Longrightarrow> GConsumed \<in> set ts \<longleftrightarrow> GConsumed \<in> set ss"
  by (induction rule: list_all2_induct) (auto simp: turned_def)

lemma orderly_turned: "list_all2 turned ss ts \<Longrightarrow> orderly ss \<Longrightarrow> orderly ts"
proof (induction rule: list_all2_induct)
  case (Cons s ss t ts)
  have "t = s \<or> (s = GPending \<or> s = GAuthorized) \<and> t \<noteq> GConsumed"
    using Cons.hyps by (simp add: turned_def)
  then show ?case using Cons.IH Cons.prems Cons.hyps turned_consumed [OF Cons.hyps(2)]
    by (cases s) auto
qed simp

lemma unanswered_ended: "list_all2 ended ss ts \<Longrightarrow> unanswered ss \<Longrightarrow> unanswered ts"
  by (induction rule: list_all2_induct) (auto simp: ended_def)

lemma orderly_spent: "list_all2 spent ss ts \<Longrightarrow> open_calls ss \<or> unanswered ss \<Longrightarrow> orderly ts"
  by (induction rule: list_all2_induct) (auto simp: spent_def)

lemma orderly_append_pending: "unanswered ss \<Longrightarrow> GPending \<notin> set ss \<Longrightarrow> orderly (ss @ [GPending])"
  by (induction ss) auto

lemma open_calls_consumed: "open_calls ss \<Longrightarrow> GConsumed \<notin> set ss"
  by (induction ss) (auto split: if_splits)

lemma unanswered_consumed: "unanswered ss \<Longrightarrow> GConsumed \<notin> set ss"
  by (induction ss) (auto split: if_splits)

lemma open_unanswered: "open_calls ss \<Longrightarrow> GAuthorized \<notin> set ss \<Longrightarrow> unanswered ss"
  by (induction ss) (auto split: if_splits)

lemma orderly_one_spent: "orderly ss \<Longrightarrow> count_list ss GConsumed \<le> 1"
proof (induction ss)
  case (Cons s ss)
  then show ?case by (cases s) (auto simp: count_list_0_iff)
qed simp

text \<open>What an operation does to the envelopes, and what that means for the statuses of one call.\<close>

definition same_frame :: "denied_envelope \<Rightarrow> denied_envelope \<Rightarrow> bool" where
  "same_frame e e' =
     (env_worker_session_id e' = env_worker_session_id e \<and> env_canonical_tool e' = env_canonical_tool e \<and>
      env_args_fingerprint e' = env_args_fingerprint e \<and> env_cwd e' = env_cwd e \<and>
      env_request_id e' = env_request_id e)"

definition grants_rel ::
    "(denied_envelope \<Rightarrow> grant_status \<Rightarrow> bool) \<Rightarrow> grant_store \<Rightarrow> grant_store \<Rightarrow> bool" where
  "grants_rel R st st' =
     list_all2 (\<lambda>(k, e) (k', e'). k' = k \<and> same_frame e e' \<and> R e (env_status e')) st st'"

lemma grants_rel_mono:
  "grants_rel R st st' \<Longrightarrow> (\<And>e s. R e s \<Longrightarrow> S e s) \<Longrightarrow> grants_rel S st st'"
  unfolding grants_rel_def by (erule list_all2_mono) auto

lemma grants_rel_keys: "grants_rel R st st' \<Longrightarrow> map fst st' = map fst st"
  unfolding grants_rel_def by (induction rule: list_all2_induct) auto

lemma same_frame_refl [simp]: "same_frame e e"
  by (simp add: same_frame_def)

lemma same_frame_exact: "same_frame e e' \<Longrightarrow> exact_call fp i e' = exact_call fp i e"
  by (simp add: same_frame_def exact_call_def)

lemma grants_rel_statuses:
  assumes "grants_rel R st st'" "\<And>e s. exact_call fp i e \<Longrightarrow> R e s \<Longrightarrow> S (env_status e) s"
  shows "list_all2 S (statuses fp i st) (statuses fp i st')"
  using assms(1) unfolding grants_rel_def
  by (induction rule: list_all2_induct) (auto simp: statuses_def same_frame_exact assms(2))

lemma grants_rel_lookup:
  "grants_rel R st st' \<Longrightarrow> map_of st k = Some e \<Longrightarrow> \<exists>e'. map_of st' k = Some e' \<and> same_frame e e'"
  unfolding grants_rel_def by (induction rule: list_all2_induct) (auto split: if_splits)

lemma amend_all_rel:
  "(\<And>e. R e (env_status e)) \<Longrightarrow> (\<And>e. cond e \<Longrightarrow> same_frame e (f e) \<and> R e (env_status (f e))) \<Longrightarrow>
    grants_rel R st (snd (amend_all cond f st))"
  by (auto simp: amend_all_def grants_rel_def list_all2_map2 intro!: list_all2_refl)

lemma amend_first_rel:
  "(\<And>e. R e (env_status e)) \<Longrightarrow> (\<And>e. cond e \<Longrightarrow> same_frame e (f e) \<and> R e (env_status (f e))) \<Longrightarrow>
    grants_rel R st (snd (amend_first cond f st))"
proof (induction cond f st rule: amend_first.induct)
  case (2 cond f k e st)
  have refl: "grants_rel R st st"
    unfolding grants_rel_def by (rule list_all2_refl) (auto simp: 2)
  then show ?case using 2 by (auto simp: grants_rel_def split: prod.splits)
qed (simp add: grants_rel_def)

lemma update_rel:
  "map_of st k = Some e \<Longrightarrow> (\<And>e. R e (env_status e)) \<Longrightarrow> same_frame e e' \<Longrightarrow> R e (env_status e') \<Longrightarrow>
    grants_rel R st (AList.update k e' st)"
proof (induction st)
  case (Cons x st)
  have "list_all2 (\<lambda>(k, e) (k', e'). k' = k \<and> same_frame e e' \<and> R e (env_status e')) st st"
    by (rule list_all2_refl) (auto simp: Cons)
  then show ?case using Cons by (cases x) (auto simp: grants_rel_def split: if_splits)
qed simp

lemma set_status_frame [simp]: "same_frame e (set_status s kind detail now e)"
    "env_status (set_status s kind detail now e) = s"
  by (simp_all add: same_frame_def set_status_def audit_def)

abbreviation ends :: "denied_envelope \<Rightarrow> grant_status \<Rightarrow> bool" where
  "ends e s \<equiv> ended (env_status e) s"

lemma ended_refl [simp]: "ended s s"
  by (simp add: ended_def)

lemma end_session_rel:
  "grants_rel ends st (snd (invalidate_grant_session sid reason now st))"
  "grants_rel ends st (snd (expire_session sid reason now st))"
  "grants_rel ends st (snd (invalidate_all reason now st))"
  "grants_rel ends st (swept now st)"
  unfolding invalidate_grant_session_def expire_session_def invalidate_all_def sweep_expired_def
  by (rule amend_all_rel; auto simp: env_live_def ended_def)+

lemma grants_rel_trans:
  assumes "grants_rel Q st st'" "grants_rel R st' st''"
    and "\<And>e e' s. same_frame e e' \<Longrightarrow> Q e (env_status e') \<Longrightarrow> R e' s \<Longrightarrow> S e s"
  shows "grants_rel S st st''"
  using assms(1,2) unfolding grants_rel_def
proof (induction st arbitrary: st' st'')
  case (Cons x st)
  then obtain y st1 z st2 where "st' = y # st1" "st'' = z # st2" by (auto simp: list_all2_Cons1)
  then show ?case using Cons by (fastforce simp: same_frame_def intro: assms(3))
qed simp

lemma ended_trans: "ended s t \<Longrightarrow> ended t u \<Longrightarrow> ended s u"
  by (auto simp: ended_def)

lemma ends_rel_trans: "grants_rel ends st st' \<Longrightarrow> grants_rel ends st' st'' \<Longrightarrow> grants_rel ends st st''"
  by (erule grants_rel_trans, assumption) (metis ended_trans)

lemma precheck_scan_rel: "grants_rel ends st (snd (precheck_scan fp ident now st))"
proof (induction fp ident now st rule: precheck_scan.induct)
  case (2 fp ident now k e st)
  have "grants_rel ends st st" unfolding grants_rel_def by (rule list_all2_refl) auto
  then show ?case using 2 by (auto simp: grants_rel_def Let_def ended_def split: prod.splits)
qed (simp add: grants_rel_def)

lemma precheck_rel: "grants_rel ends st (snd (precheck fp ident now st))"
  unfolding precheck_def by (rule ends_rel_trans [OF end_session_rel(4) precheck_scan_rel])

lemma grants_rel_refl: "(\<And>e. R e (env_status e)) \<Longrightarrow> grants_rel R st st"
  unfolding grants_rel_def by (rule list_all2_refl) auto

lemma audit_frame [simp]: "env_status (audit kind detail now e) = env_status e"
    "same_frame e (audit kind detail now (e\<lparr>env_question_id := q\<rparr>))"
  by (simp_all add: audit_def same_frame_def)

lemma attach_rel: "grants_rel ends st (snd (attach_to_ask sid qid rid now st))"
proof -
  have "grants_rel ends st (AList.update k (audit AAsked (Some qid) now (e\<lparr>env_question_id := Some qid\<rparr>)) (swept now st))"
    if "map_of (swept now st) k = Some e" for k e
    by (rule ends_rel_trans [OF end_session_rel(4)], rule update_rel [OF that]) simp_all
  then show ?thesis
    using end_session_rel(4) [of st now]
    by (auto simp: attach_to_ask_def Let_def split: option.splits)
qed

text \<open>The envelope in question may turn, every other one only end.\<close>

definition turns_only :: "denied_envelope \<Rightarrow> denied_envelope \<Rightarrow> grant_status \<Rightarrow> bool" where
  "turns_only e x s = (ended (env_status x) s \<or> same_frame e x \<and> turned (env_status x) s)"

lemma turned_trans: "turned s t \<Longrightarrow> turned t u \<Longrightarrow> turned s u"
  by (auto simp: turned_def)

lemma same_frame_trans: "same_frame a b \<Longrightarrow> same_frame b c \<Longrightarrow> same_frame a c"
  by (simp add: same_frame_def)

lemma same_frame_sym: "same_frame a b \<Longrightarrow> same_frame b a"
  by (simp add: same_frame_def)

lemma turns_only_trans:
  "grants_rel (turns_only e) st st' \<Longrightarrow> grants_rel (turns_only e) st' st'' \<Longrightarrow> grants_rel (turns_only e) st st''"
proof (erule grants_rel_trans, assumption)
  fix x x' s
  assume "same_frame x x'" "turns_only e x (env_status x')" "turns_only e x' s"
  then show "turns_only e x s"
    using ended_trans turned_trans ended_turned same_frame_trans same_frame_sym
    unfolding turns_only_def by metis
qed

lemma ends_turns: "grants_rel ends st st' \<Longrightarrow> grants_rel (turns_only e) st st'"
  by (erule grants_rel_mono) (simp add: turns_only_def)

lemma turn_update:
  assumes "map_of st k = Some x" "same_frame e x" "same_frame x x'" "turned (env_status x) (env_status x')"
  shows "grants_rel (turns_only e) st (AList.update k x' st)"
  by (rule update_rel [OF assms(1)]) (use assms in \<open>auto simp: turns_only_def\<close>)

lemma authorize_rel:
  assumes "map_of st rid = Some e"
  shows "grants_rel (turns_only e) st (snd (authorize_retry rid now st))"
proof -
  obtain x where x: "map_of (swept now st) rid = Some x" "same_frame e x"
    using grants_rel_lookup [OF end_session_rel(4) assms] by blast
  have sweep: "grants_rel (turns_only e) st (swept now st)" by (rule ends_turns [OF end_session_rel(4)])
  have "grants_rel (turns_only e) (swept now st)
      (AList.update rid (set_status GAuthorized AAuthorized None now x) (swept now st))"
    if "env_status x = GPending"
    using that by (intro turn_update [OF x]) (simp_all add: turned_def)
  then show ?thesis
    using sweep x turns_only_trans [OF sweep] by (auto simp: authorize_retry_def Let_def)
qed

lemma revoke_rel:
  assumes "map_of st rid = Some x" "same_frame e x"
  shows "grants_rel (turns_only e) st (revoke_authorized_retry rid now st)"
proof -
  have "grants_rel (turns_only e) st st" by (rule ends_turns [OF grants_rel_refl]) simp
  moreover have "grants_rel (turns_only e) st (AList.update rid (set_status GPending ARevoked None now x) st)"
    if "env_status x = GAuthorized"
    using that by (intro turn_update [OF assms]) (simp_all add: turned_def)
  ultimately show ?thesis using assms by (simp add: revoke_authorized_retry_def)
qed

lemma approve_exit_rel:
  assumes "map_of st rid = Some e"
  shows "grants_rel (turns_only e) st (snd (approve_exit qid rid ask verdict woken now st))"
proof -
  let ?st = "snd (authorize_retry rid now st)"
  have refl: "grants_rel (turns_only e) st st" by (rule ends_turns [OF grants_rel_refl]) simp
  have sweep: "grants_rel (turns_only e) st (swept now st)" by (rule ends_turns [OF end_session_rel(4)])
  have auth: "grants_rel (turns_only e) st ?st" by (rule authorize_rel [OF assms])
  obtain x where "map_of ?st rid = Some x" "same_frame e x"
    using grants_rel_lookup [OF auth assms] by blast
  then have "grants_rel (turns_only e) st (revoke_authorized_retry rid now ?st)"
    using turns_only_trans [OF auth revoke_rel] by blast
  then show ?thesis
    using refl sweep auth
    by (cases "authorize_retry rid now st"; cases "fst (authorize_retry rid now st)")
      (auto simp: approve_exit_def split: parent_verdict.splits option.splits)
qed

section \<open>Precheck, spending and denying\<close>

definition unlapsed :: "int \<Rightarrow> grant_store \<Rightarrow> bool" where
  "unlapsed now st = list_all (\<lambda>(k, e). \<not> (env_live e \<and> env_expires_at e \<le> now)) st"

lemma unlapsed_swept: "unlapsed now (swept now st)"
  by (auto simp: unlapsed_def sweep_expired_def amend_all_def list_all_iff env_live_def split: if_splits)

text \<open>A call that passes the precheck has no envelope but expired ones and at most one live one.\<close>

lemma precheck_scan_passes:
  "fst (precheck_scan fp ident now st) = None \<Longrightarrow> unlapsed now st \<Longrightarrow> orderly (statuses fp ident st) \<Longrightarrow>
    snd (precheck_scan fp ident now st) = st \<and> open_calls (statuses fp ident st)"
proof (induction fp ident now st rule: precheck_scan.induct)
  case (2 fp ident now k e st)
  show ?case
  proof (cases "exact_call fp ident e")
    case exact: True
    then have key: "env_canonical_tool e = id_tool ident" "env_worker_session_id e = id_session ident"
        "env_cwd e = id_cwd ident" "env_args_fingerprint e = fp (id_tool ident) (id_args ident) (id_cwd ident)"
      by (auto simp: exact_call_def fingerprint_of_def)
    show ?thesis
      using 2 exact key
      by (cases "env_status e")
        (auto simp: statuses_def unlapsed_def env_live_def Let_def split: prod.splits)
  next
    case False
    then have "env_canonical_tool e \<noteq> id_tool ident \<or> env_worker_session_id e \<noteq> id_session ident \<or>
        env_args_fingerprint e \<noteq> fp (id_tool ident) (id_args ident) (env_cwd e)"
      using "2.prems"(1) by (auto simp: exact_call_def fingerprint_of_def Let_def split: if_splits)
    then show ?thesis
      using 2 False by (auto simp: statuses_def unlapsed_def Let_def split: prod.splits if_splits)
  qed
qed (simp add: statuses_def)

lemma statuses_ends:
  "grants_rel ends st st' \<Longrightarrow> list_all2 ended (statuses fp i st) (statuses fp i st')"
  by (erule grants_rel_statuses)

lemma ended_orderly: "list_all2 ended ss ts \<Longrightarrow> orderly ss \<Longrightarrow> orderly ts"
  using list_all2_mono [of ended ss ts turned] ended_turned orderly_turned by blast

lemma precheck_passes:
  assumes "precheck fp ident now st = (None, st')" "orderly (statuses fp ident st)"
  shows "st' = swept now st \<and> open_calls (statuses fp ident st')"
  using assms precheck_scan_passes [of fp ident now "swept now st"] unlapsed_swept
    ended_orderly [OF statuses_ends [OF end_session_rel(4)]]
  unfolding precheck_def by (metis fst_conv snd_conv)

lemma precheck_blocks_spent:
  "orderly (statuses fp ident st) \<Longrightarrow> GConsumed \<in> set (statuses fp ident st) \<Longrightarrow>
    fst (precheck fp ident now st) \<noteq> None"
  using precheck_passes [of fp ident now st] open_calls_consumed
    turned_consumed [OF list_all2_mono [OF statuses_ends [OF end_session_rel(4)] ended_turned]]
  by (metis prod.collapse)

lemma amend_first_None:
  "fst (amend_first cond f st) = None \<Longrightarrow>
    snd (amend_first cond f st) = st \<and> list_all (\<lambda>(k, e). \<not> cond e) st"
  by (induction cond f st rule: amend_first.induct) (auto split: prod.splits if_splits)

lemma exact_call_agree: "exact_call fp i e \<Longrightarrow> exact_call fp j e \<Longrightarrow> exact_call fp i = exact_call fp j"
  by (auto simp: exact_call_def fun_eq_iff)

lemma exact_call_key: "exact_call fp i e \<Longrightarrow> exact_call fp j e \<Longrightarrow> same_key fp i j"
  by (auto simp: exact_call_def same_key_def)

lemma no_authorized:
  assumes "unlapsed now st"
    and "list_all (\<lambda>(k, e). \<not> (exact_call fp ident e \<and> env_status e = GAuthorized \<and> \<not> env_expires_at e \<le> now)) st"
  shows "GAuthorized \<notin> set (statuses fp ident st)"
  using assms by (fastforce simp: statuses_def unlapsed_def list_all_iff env_live_def)

text \<open>Spending touches the envelopes of one call alone.\<close>

definition spends_only :: "fingerprints \<Rightarrow> call_identity \<Rightarrow> denied_envelope \<Rightarrow> grant_status \<Rightarrow> bool" where
  "spends_only fp i x s = (s = env_status x \<or> exact_call fp i x \<and> spent (env_status x) s)"

lemma consume_rel:
  "grants_rel (spends_only fp i) st (snd (consume_on_allow fp i now st))"
  "grants_rel (spends_only fp i) st (snd (consume_authorized_retry fp i now st))"
  unfolding consume_on_allow_def consume_authorized_retry_def
  by (rule amend_first_rel; auto simp: spends_only_def spent_def)+

lemma spends_other:
  assumes "grants_rel (spends_only fp i) st st'" "\<not> same_key fp i j"
  shows "list_all2 ended (statuses fp j st) (statuses fp j st')"
  using assms exact_call_key
  by (intro grants_rel_statuses [OF assms(1)]) (auto simp: spends_only_def)

lemma spends_orderly:
  assumes "grants_rel (spends_only fp i) st st'" "orderly (statuses fp j st)"
    and "open_calls (statuses fp i st) \<or> unanswered (statuses fp i st)"
  shows "orderly (statuses fp j st')"
proof (cases "\<exists>e. exact_call fp i e \<and> exact_call fp j e")
  case True
  then have "statuses fp j = statuses fp i" using exact_call_agree by (fastforce simp: statuses_def)
  moreover have "list_all2 spent (statuses fp i st) (statuses fp i st')"
    by (rule grants_rel_statuses [OF assms(1)]) (auto simp: spends_only_def spent_def)
  ultimately show ?thesis using orderly_spent assms(3) by metis
next
  case False
  then have "list_all2 turned (statuses fp j st) (statuses fp j st')"
    by (intro grants_rel_statuses [OF assms(1)]) (auto simp: spends_only_def turned_def)
  then show ?thesis using orderly_turned assms(2) by blast
qed

text \<open>Denying appends an envelope where none is pending.\<close>

definition appends_denied :: "fingerprints \<Rightarrow> call_identity \<Rightarrow> grant_store \<Rightarrow> grant_store \<Rightarrow> bool" where
  "appends_denied fp i st st' =
     (\<exists>st1. grants_rel ends st st1 \<and>
       (st' = st1 \<or> (\<exists>uuid e. st' = st1 @ [(uuid, e)] \<and> exact_call fp i e \<and> env_status e = GPending \<and>
         uuid \<notin> set (map fst st1) \<and> GPending \<notin> set (statuses fp i st1))))"

lemma update_fresh: "k \<notin> set (map fst st) \<Longrightarrow> AList.update k e st = st @ [(k, e)]"
  by (induction st) auto

lemma deny_appends:
  assumes "go_session_id options = Some sid" "uuid \<notin> set (map fst st)"
    and i_def: "i = worker_call_identity coerce sid call cwd"
  shows "appends_denied fp i st
      (snd (deny_worker_call_with_envelope fp coerce options call action subject cwd reason uuid now st)) \<and>
    fst (deny_worker_call_with_envelope fp coerce options call action subject cwd reason uuid now st) \<noteq> WAllow"
proof -
  have sweep: "grants_rel ends st (swept now st)" by (rule end_session_rel(4))
  have keys: "uuid \<notin> set (map fst (swept now st))" using assms(2) grants_rel_keys [OF sweep] by simp
  have tool: "id_tool i = canonical_tool_name (tc_name call)"
    by (simp add: i_def worker_call_identity_def dispatched_call_def Let_def split: option.splits)
  have none: "GPending \<notin> set (statuses fp i (swept now st))"
    if "fst (pending_match fp i now st) = None"
    using that by (auto simp: pending_match_def Let_def find_None_iff statuses_def exact_call_def fingerprint_of_def)
  have snd: "snd (pending_match fp i now st) = swept now st" by (simp add: pending_match_def Let_def)
  show ?thesis
  proof (cases "fst (pending_match fp i now st)")
    case None
    let ?e = "create_denied_call_envelope fp uuid now
      \<lparr>call_id = tc_id call, call_tool = tc_name call, call_action = Some action,
       call_subject = subject, call_args = id_args i, call_cwd = id_cwd i,
       call_session_id = id_session i, call_label = go_label options,
       call_turn_id = None, call_workspace_root = go_workspace_root options\<rparr>"
    have e: "exact_call fp i ?e" "env_status ?e = GPending" "env_request_id ?e = uuid"
      using tool by (simp_all add: create_denied_call_envelope_def Let_def audit_def exact_call_def
        canonical_denied_tool_def fingerprint_of_def)
    have "appends_denied fp i st (swept now st @ [(uuid, ?e)])"
      unfolding appends_denied_def using sweep e keys none [OF None] by blast
    then show ?thesis
      using None snd e keys assms(1)
      by (cases "pending_match fp i now st")
        (auto simp: deny_worker_call_with_envelope_def i_def Let_def register_envelope_def update_fresh)
  next
    case (Some x)
    have "appends_denied fp i st (swept now st)"
      unfolding appends_denied_def using sweep by blast
    then show ?thesis
      using Some snd assms(1)
      by (cases "pending_match fp i now st")
        (auto simp: deny_worker_call_with_envelope_def i_def Let_def)
  qed
qed

lemma statuses_append: "statuses fp i (st @ [(k, e)]) = statuses fp i st @ (if exact_call fp i e then [env_status e] else [])"
  by (simp add: statuses_def)

lemma appends_orderly:
  assumes "appends_denied fp i st st'" "\<And>j. orderly (statuses fp j st)" "unanswered (statuses fp i st)"
  shows "orderly (statuses fp j st')"
proof -
  obtain st1 where st1: "grants_rel ends st st1"
    and cases: "st' = st1 \<or> (\<exists>uuid e. st' = st1 @ [(uuid, e)] \<and> exact_call fp i e \<and> env_status e = GPending \<and>
      uuid \<notin> set (map fst st1) \<and> GPending \<notin> set (statuses fp i st1))"
    using assms(1) unfolding appends_denied_def by blast
  have orderly: "orderly (statuses fp j st1)" using ended_orderly [OF statuses_ends [OF st1] assms(2)] .
  have "orderly (statuses fp i st1 @ [GPending])" if "GPending \<notin> set (statuses fp i st1)"
    using unanswered_ended [OF statuses_ends [OF st1] assms(3)] that by (rule orderly_append_pending)
  then show ?thesis
    using cases orderly exact_call_agree
    by (auto simp: statuses_append) (metis statuses_def)
qed

lemma appends_other:
  assumes "appends_denied fp i st st'" "\<not> same_key fp i j"
  shows "list_all2 ended (statuses fp j st) (statuses fp j st')"
  using assms exact_call_key statuses_ends unfolding appends_denied_def
  by (fastforce simp: statuses_append)

section \<open>The invariant of the flow\<close>

definition held_ok :: "fingerprints \<Rightarrow> coercion \<Rightarrow> grant_store \<Rightarrow> call_identity \<times> held_work \<Rightarrow> bool" where
  "held_ok fp coerce st h =
     (case h of
        (i, Held_call stage options call cwd) \<Rightarrow>
          (\<exists>sid. go_session_id options = Some sid \<and> i = worker_call_identity coerce sid call cwd) \<and>
          unanswered (statuses fp i st)
      | (i, Held_approval question_id request_id) \<Rightarrow>
          (\<exists>e. map_of st request_id = Some e \<and> env_worker_session_id e = id_session i \<and>
            env_args_fingerprint e = fingerprint_of fp i))"

definition flow_ok :: "fingerprints \<Rightarrow> coercion \<Rightarrow> worker_flow \<Rightarrow> bool" where
  "flow_ok fp coerce fl \<longleftrightarrow>
     (\<forall>j. orderly (statuses fp j (fl_grants fl))) \<and>
     (\<forall>h \<in> set (fl_held fl). held_ok fp coerce (fl_grants fl) h) \<and>
     sorted_wrt (\<lambda>h h'. \<not> same_key fp (fst h) (fst h')) (fl_held fl)"

definition lookups_kept :: "grant_store \<Rightarrow> grant_store \<Rightarrow> bool" where
  "lookups_kept st st' \<longleftrightarrow> (\<forall>k e. map_of st k = Some e \<longrightarrow> (\<exists>e'. map_of st' k = Some e' \<and> same_frame e e'))"

lemma same_key_sym: "same_key fp i j \<longleftrightarrow> same_key fp j i"
  by (auto simp: same_key_def)

lemma held_ok_kept:
  assumes "held_ok fp coerce st h" "list_all2 ended (statuses fp (fst h) st) (statuses fp (fst h) st')"
    and "lookups_kept st st'"
  shows "held_ok fp coerce st' h"
proof -
  obtain i w where h: "h = (i, w)" by force
  show ?thesis
  proof (cases w)
    case (Held_call stage options call cwd)
    then show ?thesis using assms(1,2) unanswered_ended h by (auto simp: held_ok_def)
  next
    case (Held_approval qid rid)
    then obtain e where e: "map_of st rid = Some e" "env_worker_session_id e = id_session i"
        "env_args_fingerprint e = fingerprint_of fp i"
      using assms(1) h by (auto simp: held_ok_def)
    then obtain e' where "map_of st' rid = Some e'" "same_frame e e'"
      using assms(3) by (auto simp: lookups_kept_def)
    then show ?thesis using e h Held_approval by (simp add: held_ok_def same_frame_def)
  qed
qed

lemma grants_rel_kept: "grants_rel R st st' \<Longrightarrow> lookups_kept st st'"
  using grants_rel_lookup by (auto simp: lookups_kept_def)

lemma appends_kept: "appends_denied fp i st st' \<Longrightarrow> lookups_kept st st'"
  unfolding appends_denied_def by (auto simp: lookups_kept_def dest: grants_rel_lookup split: option.splits)

lemma sorted_wrt_remove_at: "sorted_wrt R xs \<Longrightarrow> sorted_wrt R (remove_at n xs)"
proof (cases "n < length xs")
  case True
  assume "sorted_wrt R xs"
  then have "sorted_wrt R (take n xs @ xs ! n # drop (Suc n) xs)" using True by (simp add: id_take_nth_drop [symmetric])
  then show ?thesis by (simp add: remove_at_def sorted_wrt_append)
qed (simp add: remove_at_def)

lemma sorted_wrt_others:
  "sorted_wrt (\<lambda>h h'. \<not> same_key fp (fst h) (fst h')) hs \<Longrightarrow> n < length hs \<Longrightarrow> h \<in> set (remove_at n hs) \<Longrightarrow>
    \<not> same_key fp (fst (hs ! n)) (fst h)"
proof -
  assume sorted: "sorted_wrt (\<lambda>h h'. \<not> same_key fp (fst h) (fst h')) hs" and n: "n < length hs"
    and h: "h \<in> set (remove_at n hs)"
  have split: "hs = take n hs @ hs ! n # drop (Suc n) hs" using n by (rule id_take_nth_drop)
  have "sorted_wrt (\<lambda>h h'. \<not> same_key fp (fst h) (fst h')) (take n hs @ hs ! n # drop (Suc n) hs)"
    using sorted split by simp
  then show ?thesis using h same_key_sym by (auto simp: remove_at_def sorted_wrt_append)
qed

text \<open>An operation that only ends envelopes, with any work held.\<close>

lemma flow_ok_ends:
  assumes "flow_ok fp coerce fl" "grants_rel ends (fl_grants fl) st"
  shows "flow_ok fp coerce (fl\<lparr>fl_grants := st\<rparr>)"
  using assms ended_orderly [OF statuses_ends [OF assms(2)]]
    held_ok_kept [OF _ statuses_ends [OF assms(2)] grants_rel_kept [OF assms(2)]]
  by (auto simp: flow_ok_def)

text \<open>Work that leaves the mutex and changes the envelopes of its own key.\<close>

lemma flow_ok_leaves:
  assumes "flow_ok fp coerce fl" "n < length (fl_held fl)"
    and "\<And>j. orderly (statuses fp j st)" "lookups_kept (fl_grants fl) st"
    and "\<And>j. \<not> same_key fp (fst (fl_held fl ! n)) j \<Longrightarrow>
      list_all2 ended (statuses fp j (fl_grants fl)) (statuses fp j st)"
  shows "flow_ok fp coerce (fl\<lparr>fl_grants := st, fl_held := remove_at n (fl_held fl)\<rparr>)"
proof -
  have sorted: "sorted_wrt (\<lambda>h h'. \<not> same_key fp (fst h) (fst h')) (fl_held fl)"
    using assms(1) by (simp add: flow_ok_def)
  have "held_ok fp coerce st h" if h: "h \<in> set (remove_at n (fl_held fl))" for h
  proof (rule held_ok_kept [OF _ assms(5) [OF sorted_wrt_others [OF sorted assms(2) h]] assms(4)])
    show "held_ok fp coerce (fl_grants fl) h"
      using assms(1) h set_remove_at_subset [of n "fl_held fl"] by (auto simp: flow_ok_def)
  qed
  then show ?thesis
    using assms(3) sorted_wrt_remove_at [OF sorted] by (simp add: flow_ok_def)
qed

lemma log_execution_ok [simp]:
  "flow_ok fp coerce (log_execution stage w i fl) = flow_ok fp coerce fl"
  by (simp add: log_execution_def flow_ok_def)

lemma mutex_free_held: "mutex_free fp i fl \<Longrightarrow> h \<in> set (fl_held fl) \<Longrightarrow> \<not> same_key fp i (fst h)"
  by (auto simp: mutex_free_def list_all_iff)

lemma flow_ok_takes:
  assumes "flow_ok fp coerce fl" "mutex_free fp i fl" "grants_rel ends (fl_grants fl) st"
    and "held_ok fp coerce st (i, w)"
  shows "flow_ok fp coerce (fl\<lparr>fl_grants := st, fl_held := fl_held fl @ [(i, w)]\<rparr>)"
  using flow_ok_ends [OF assms(1,3)] assms(4) mutex_free_held [OF assms(2)] same_key_sym
  by (fastforce simp: flow_ok_def sorted_wrt_append)

text \<open>The entries of the two stages.\<close>

lemma swept_unlapsed: "unlapsed now st \<Longrightarrow> swept now st = st"
  by (induction st) (auto simp: unlapsed_def sweep_expired_def amend_all_def)

lemma has_authorized_unlapsed:
  "unlapsed now st \<Longrightarrow> has_authorized_retry fp i now st = (GAuthorized \<in> set (statuses fp i st), st)"
proof -
  assume "unlapsed now st"
  then have "list_ex (\<lambda>(k, e). exact_call fp i e \<and> env_status e = GAuthorized \<and> env_expires_at e > now) st \<longleftrightarrow>
      GAuthorized \<in> set (statuses fp i st)"
    by (induction st) (auto simp: unlapsed_def statuses_def env_live_def)
  then show ?thesis using \<open>unlapsed now st\<close> by (simp add: has_authorized_retry_def swept_unlapsed Let_def)
qed

lemma authorize_entry_ok:
  assumes "authorize_worker_call_entry fp i now st = (r, st')" "orderly (statuses fp i st)"
  shows "grants_rel ends st st' \<and> (r = None \<longrightarrow> unanswered (statuses fp i st'))"
proof (cases "precheck fp i now st")
  case (Pair blocker st1)
  have pre: "grants_rel ends st st1" using precheck_rel [of st fp i now] Pair by simp
  show ?thesis
  proof (cases blocker)
    case (Some b)
    then show ?thesis using assms(1) Pair pre by (auto simp: authorize_worker_call_entry_def)
  next
    case None
    then have "st1 = swept now st" "open_calls (statuses fp i st1)"
      using precheck_passes [of fp i now st st1] Pair assms(2) by auto
    then show ?thesis
      using assms(1) Pair None pre open_unanswered has_authorized_unlapsed [OF unlapsed_swept]
      by (auto simp: authorize_worker_call_entry_def split: if_splits)
  qed
qed

lemma execution_entry_ok:
  assumes "execution_worker_call_entry fp i now st = (r, st')" "\<And>j. orderly (statuses fp j st)"
  shows "orderly (statuses fp j st')" "lookups_kept st st'"
    "\<not> same_key fp i k \<Longrightarrow> list_all2 ended (statuses fp k st) (statuses fp k st')"
    "r = None \<Longrightarrow> grants_rel ends st st' \<and> unanswered (statuses fp i st')"
proof -
  obtain blocker st1 where Pair: "precheck fp i now st = (blocker, st1)" by force
  have pre: "grants_rel ends st st1" using precheck_rel [of st fp i now] Pair by simp
  have orderly: "orderly (statuses fp j st1)" for j
    by (rule ended_orderly [OF statuses_ends [OF pre] assms(2)])
  let ?c = "consume_authorized_retry fp i now st1"
  consider "st' = st1" "r \<noteq> None" | "blocker = None" "st' = snd ?c" "r = None \<longleftrightarrow> fst ?c = None"
    using assms(1) Pair by (auto simp: execution_worker_call_entry_def split: option.splits prod.splits)
  then have "orderly (statuses fp j st') \<and> lookups_kept st st' \<and>
      (\<not> same_key fp i k \<longrightarrow> list_all2 ended (statuses fp k st) (statuses fp k st')) \<and>
      (r = None \<longrightarrow> grants_rel ends st st' \<and> unanswered (statuses fp i st'))"
  proof cases
    case 1
    then show ?thesis using pre orderly statuses_ends [OF pre] grants_rel_kept [OF pre] by auto
  next
    case 2
    then have st1: "st1 = swept now st" "open_calls (statuses fp i st1)"
      using precheck_passes [of fp i now st st1] Pair assms(2) by auto
    have rel: "grants_rel (spends_only fp i) st1 st'" using consume_rel(2) 2 by simp
    have "lookups_kept st st'"
      using grants_rel_kept [OF pre] grants_rel_kept [OF rel] same_frame_trans unfolding lookups_kept_def by metis
    moreover have "list_all2 ended (statuses fp k st) (statuses fp k st')" if "\<not> same_key fp i k"
      using statuses_ends [OF pre] spends_other [OF rel that] list_all2_trans [of ended ended ended] ended_trans
      by blast
    moreover have "grants_rel ends st st' \<and> unanswered (statuses fp i st')" if "r = None"
    proof -
      have "fst ?c = None" using that 2 by simp
      note none = amend_first_None [OF this [unfolded consume_authorized_retry_def]]
      have "st' = st1" using none 2 by (simp add: consume_authorized_retry_def)
      moreover have "GAuthorized \<notin> set (statuses fp i st1)"
        using none unlapsed_swept [of now st] st1 by (intro no_authorized [of now]) auto
      ultimately show ?thesis using pre open_unanswered [OF st1(2)] by simp
    qed
    ultimately show ?thesis using spends_orderly [OF rel orderly] st1(2) by blast
  qed
  then show "orderly (statuses fp j st')" "lookups_kept st st'"
    "\<not> same_key fp i k \<Longrightarrow> list_all2 ended (statuses fp k st) (statuses fp k st')"
    "r = None \<Longrightarrow> grants_rel ends st st' \<and> unanswered (statuses fp i st')"
    by blast+
qed

text \<open>The steps.\<close>

lemma flow_ok_call_begins: "flow_ok fp coerce fl \<Longrightarrow> flow_ok fp coerce (call_begins fp coerce stage options call cwd now fl)"
proof -
  assume ok: "flow_ok fp coerce fl"
  then have orderly: "orderly (statuses fp j (fl_grants fl))" for j by (simp add: flow_ok_def)
  show ?thesis
  proof (cases "is_worker_control_plane_tool (tc_name call) \<or> go_session_id options = None")
    case True
    then show ?thesis using ok by (auto simp: call_begins_def)
  next
    case False
    then obtain sid where sid: "go_session_id options = Some sid" by auto
    define i where "i = worker_call_identity coerce sid call cwd"
    define entry where "entry = (case stage of
        Authorize_stage \<Rightarrow> authorize_worker_call_entry fp i now (fl_grants fl)
      | Execution_stage \<Rightarrow> execution_worker_call_entry fp i now (fl_grants fl))"
    obtain r st where entry: "entry = (r, st)" by force
    have begins: "call_begins fp coerce stage options call cwd now fl =
        (if \<not> mutex_free fp i fl then fl
         else case r of
           Some verdict \<Rightarrow> log_execution stage verdict i (fl\<lparr>fl_grants := st\<rparr>)
         | None \<Rightarrow> fl\<lparr>fl_grants := st, fl_held := fl_held fl @ [(i, Held_call stage options call cwd)]\<rparr>)"
      using False sid entry
      by (auto simp: call_begins_def i_def [symmetric] entry_def [symmetric] Let_def split: option.splits)
    have none: "grants_rel ends (fl_grants fl) st \<and> unanswered (statuses fp i st)" if "r = None"
      using entry that authorize_entry_ok [OF _ orderly] execution_entry_ok(4) [OF _ orderly]
      by (cases stage) (auto simp: entry_def)
    have some: "flow_ok fp coerce (fl\<lparr>fl_grants := st\<rparr>)" if "mutex_free fp i fl"
    proof (cases stage)
      case Authorize_stage
      then show ?thesis
        using entry authorize_entry_ok [OF _ orderly] flow_ok_ends [OF ok] by (auto simp: entry_def)
    next
      case Execution_stage
      then have e: "execution_worker_call_entry fp i now (fl_grants fl) = (r, st)" using entry by (simp add: entry_def)
      have "held_ok fp coerce st h" if h: "h \<in> set (fl_held fl)" for h
        using ok h held_ok_kept [OF _ execution_entry_ok(3,2) [OF e orderly]]
          mutex_free_held [OF \<open>mutex_free fp i fl\<close> h] orderly e
        by (auto simp: flow_ok_def)
      then show ?thesis using ok execution_entry_ok(1) [OF e orderly] by (simp add: flow_ok_def)
    qed
    show ?thesis
      using ok none some sid unfolding begins
      by (auto simp: held_ok_def i_def split: option.splits intro!: flow_ok_takes)
  qed
qed

lemma flow_ok_call_ends: "flow_ok fp coerce fl \<Longrightarrow> flow_ok fp coerce (call_ends fp coerce n verdict uuid now fl)"
proof -
  assume ok: "flow_ok fp coerce fl"
  then have orderly: "orderly (statuses fp j (fl_grants fl))" for j by (simp add: flow_ok_def)
  let ?st = "fl_grants fl"
  show ?thesis
  proof (cases "n < length (fl_held fl) \<and> uuid \<notin> set (map fst ?st) \<and>
      (\<exists>i stage options call cwd. fl_held fl ! n = (i, Held_call stage options call cwd))")
    case False
    then show ?thesis using ok by (auto simp: call_ends_def split: prod.splits held_work.splits)
  next
    case True
    then obtain i stage options call cwd
      where n: "n < length (fl_held fl)" and fresh: "uuid \<notin> set (map fst ?st)"
        and held: "fl_held fl ! n = (i, Held_call stage options call cwd)" by blast
    have "held_ok fp coerce ?st (i, Held_call stage options call cwd)"
      using ok n held nth_mem [OF n] by (auto simp: flow_ok_def)
    then obtain sid where sid: "go_session_id options = Some sid"
        and i: "i = worker_call_identity coerce sid call cwd" and un: "unanswered (statuses fp i ?st)"
      by (auto simp: held_ok_def)
    define exit where "exit = (case stage of
        Authorize_stage \<Rightarrow> authorize_worker_call_exit fp coerce options call cwd verdict uuid now ?st
      | Execution_stage \<Rightarrow> execution_worker_call_exit fp coerce options call cwd verdict uuid now ?st)"
    obtain w st where exit: "exit = (w, st)" by force
    have ends: "call_ends fp coerce n verdict uuid now fl =
        log_execution stage w i (fl\<lparr>fl_grants := st, fl_held := remove_at n (fl_held fl)\<rparr>)"
      using n fresh held exit by (simp add: call_ends_def exit_def)
    consider "st = ?st" | "st = snd (consume_on_allow fp i now ?st)" | "appends_denied fp i ?st st"
      using exit sid i deny_appends [OF sid fresh i]
      by (cases stage; cases verdict)
        (auto simp: exit_def authorize_worker_call_exit_def execution_worker_call_exit_def,
          (metis snd_conv)+)
    then have "(\<forall>j. orderly (statuses fp j st)) \<and> lookups_kept ?st st \<and>
        (\<forall>j. \<not> same_key fp i j \<longrightarrow> list_all2 ended (statuses fp j ?st) (statuses fp j st))"
    proof cases
      case 1
      have "grants_rel ends ?st ?st" by (rule grants_rel_refl) simp
      then show ?thesis using 1 orderly statuses_ends grants_rel_kept by blast
    next
      case 2
      then have rel: "grants_rel (spends_only fp i) ?st st" using consume_rel(1) by simp
      then show ?thesis
        using spends_orderly [OF rel orderly] un spends_other [OF rel] grants_rel_kept [OF rel] by blast
    next
      case 3
      then show ?thesis
        using appends_orderly [OF 3 orderly un] appends_other [OF 3] appends_kept [OF 3] by blast
    qed
    then show ?thesis
      unfolding ends log_execution_ok using held by (intro flow_ok_leaves [OF ok n]) auto
  qed
qed

lemma flow_ok_approval_begins:
  "flow_ok fp coerce fl \<Longrightarrow> flow_ok fp coerce (approval_begins fp target qid rid ask known now fl)"
proof -
  assume ok: "flow_ok fp coerce fl"
  show ?thesis
  proof (cases "peek_envelope (fl_grants fl) rid")
    case None
    then show ?thesis using ok by (simp add: approval_begins_def)
  next
    case (Some e)
    obtain r st where entry: "approve_entry fp target qid rid ask known now (fl_grants fl) = (r, st)" by force
    have rel: "grants_rel ends (fl_grants fl) st"
      using entry end_session_rel(4) [of "fl_grants fl" now] grants_rel_refl [of ends "fl_grants fl"]
      by (auto simp: approve_entry_def split: option.splits prod.splits if_splits)
    have held: "held_ok fp coerce st (envelope_identity e, Held_approval qid rid)" if "r = None"
      using entry that Some
      by (auto simp: approve_entry_def held_ok_def envelope_identity_def fingerprint_of_def peek_envelope_def
          split: option.splits prod.splits if_splits)
    show ?thesis
      using ok Some entry held flow_ok_ends [OF ok rel] flow_ok_takes [OF ok _ rel]
      by (auto simp: approval_begins_def split: option.splits)
  qed
qed

lemma turns_other:
  assumes "grants_rel (turns_only e) st st'"
    and "env_worker_session_id e = id_session i" "env_args_fingerprint e = fingerprint_of fp i" "\<not> same_key fp i j"
  shows "list_all2 ended (statuses fp j st) (statuses fp j st')"
  using assms(2-4)
  by (intro grants_rel_statuses [OF assms(1)])
    (auto simp: turns_only_def same_frame_def exact_call_def same_key_def)

lemma flow_ok_approval_ends: "flow_ok fp coerce fl \<Longrightarrow> flow_ok fp coerce (approval_ends n ask verdict woken now fl)"
proof -
  assume ok: "flow_ok fp coerce fl"
  let ?st = "fl_grants fl"
  show ?thesis
  proof (cases "n < length (fl_held fl) \<and> (\<exists>i qid rid. fl_held fl ! n = (i, Held_approval qid rid))")
    case False
    then show ?thesis using ok by (auto simp: approval_ends_def split: prod.splits held_work.splits)
  next
    case True
    then obtain i qid rid where n: "n < length (fl_held fl)" and held: "fl_held fl ! n = (i, Held_approval qid rid)"
      by blast
    have "held_ok fp coerce ?st (i, Held_approval qid rid)"
      using ok n held nth_mem [OF n] by (auto simp: flow_ok_def)
    then obtain e where e: "map_of ?st rid = Some e" "env_worker_session_id e = id_session i"
        "env_args_fingerprint e = fingerprint_of fp i"
      by (auto simp: held_ok_def)
    let ?st' = "snd (approve_exit qid rid ask verdict woken now ?st)"
    have rel: "grants_rel (turns_only e) ?st ?st'" by (rule approve_exit_rel [OF e(1)])
    have "list_all2 turned (statuses fp j ?st) (statuses fp j ?st')" for j
      by (rule grants_rel_statuses [OF rel]) (auto simp: turns_only_def dest: ended_turned)
    then have "orderly (statuses fp j ?st')" for j
      using ok orderly_turned by (auto simp: flow_ok_def)
    then have "flow_ok fp coerce (fl\<lparr>fl_grants := ?st', fl_held := remove_at n (fl_held fl)\<rparr>)"
      using turns_other [OF rel e(2,3)] grants_rel_kept [OF rel] held by (intro flow_ok_leaves [OF ok n]) auto
    then show ?thesis using n held by (simp add: approval_ends_def)
  qed
qed

lemma flow_step_ok: "flow_ok fp coerce fl \<Longrightarrow> flow_ok fp coerce (flow_step fp coerce fl ev)"
  by (cases "(fp, coerce, fl, ev)" rule: flow_step.cases)
    (simp_all add: flow_ok_call_begins flow_ok_call_ends flow_ok_approval_begins flow_ok_approval_ends
      flow_ok_ends attach_rel end_session_rel)

interpretation flow_machine: invariant_machine "flow_step fp coerce" "flow_ok fp coerce" for fp coerce
  by unfold_locales (rule flow_step_ok)

section \<open>A denied call runs at most once\<close>


definition same_call :: "fingerprints \<Rightarrow> call_identity \<Rightarrow> call_identity \<Rightarrow> bool" where
  "same_call fp i j =
     (id_session i = id_session j \<and> id_tool i = id_tool j \<and> id_cwd i = id_cwd j \<and>
      fingerprint_of fp i = fingerprint_of fp j)"

definition executions :: "fingerprints \<Rightarrow> call_identity \<Rightarrow> worker_flow \<Rightarrow> nat" where
  "executions fp i fl = length (filter (same_call fp i) (fl_executed fl))"

definition call_spent :: "fingerprints \<Rightarrow> call_identity \<Rightarrow> worker_flow \<Rightarrow> bool" where
  "call_spent fp i fl = (GConsumed \<in> set (statuses fp i (fl_grants fl)))"

lemma same_call_statuses: "same_call fp i j \<Longrightarrow> statuses fp j = statuses fp i"
proof -
  assume "same_call fp i j"
  then have "exact_call fp j = exact_call fp i" by (auto simp: same_call_def exact_call_def fun_eq_iff)
  then show ?thesis by (intro ext) (simp only: statuses_def)
qed

lemma grants_rel_spent:
  assumes "grants_rel R st st'" "\<And>e s. R e s \<Longrightarrow> env_status e = GConsumed \<Longrightarrow> s = GConsumed"
    and "GConsumed \<in> set (statuses fp i st)"
  shows "GConsumed \<in> set (statuses fp i st')"
proof -
  have "list_all2 (\<lambda>s s'. s = GConsumed \<longrightarrow> s' = GConsumed) (statuses fp i st) (statuses fp i st')"
    by (rule grants_rel_statuses [OF assms(1)]) (auto dest: assms(2))
  then show ?thesis using assms(3) by (induction rule: list_all2_induct) auto
qed

lemma ends_spent: "grants_rel ends st st' \<Longrightarrow> GConsumed \<in> set (statuses fp i st) \<Longrightarrow> GConsumed \<in> set (statuses fp i st')"
  by (erule grants_rel_spent) (auto simp: ended_def)

lemma spends_spent:
  "grants_rel (spends_only fp j) st st' \<Longrightarrow> GConsumed \<in> set (statuses fp i st) \<Longrightarrow> GConsumed \<in> set (statuses fp i st')"
  by (erule grants_rel_spent) (auto simp: spends_only_def spent_def)

lemma turns_spent:
  "grants_rel (turns_only e) st st' \<Longrightarrow> GConsumed \<in> set (statuses fp i st) \<Longrightarrow> GConsumed \<in> set (statuses fp i st')"
  by (erule grants_rel_spent) (auto simp: turns_only_def ended_def turned_def)

lemma entry_spent:
  assumes "GConsumed \<in> set (statuses fp i st)"
  shows "GConsumed \<in> set (statuses fp i (snd (authorize_worker_call_entry fp j now st)))"
    "GConsumed \<in> set (statuses fp i (snd (execution_worker_call_entry fp j now st)))"
proof -
  obtain r st1 where pre: "precheck fp j now st = (r, st1)" by force
  have spent: "GConsumed \<in> set (statuses fp i st1)"
    using ends_spent [OF precheck_rel assms, of fp j now] pre by simp
  have "GConsumed \<in> set (statuses fp i (swept now st1))"
    by (rule ends_spent [OF end_session_rel(4) spent])
  then show "GConsumed \<in> set (statuses fp i (snd (authorize_worker_call_entry fp j now st)))"
    using pre spent
    by (auto simp: authorize_worker_call_entry_def has_authorized_retry_def Let_def split: option.splits)
  have "GConsumed \<in> set (statuses fp i (snd (consume_authorized_retry fp j now st1)))"
    by (rule spends_spent [OF consume_rel(2) spent])
  then show "GConsumed \<in> set (statuses fp i (snd (execution_worker_call_entry fp j now st)))"
    using pre spent by (auto simp: execution_worker_call_entry_def split: option.splits prod.splits)
qed

lemma appends_spent:
  "appends_denied fp j st st' \<Longrightarrow> GConsumed \<in> set (statuses fp i st) \<Longrightarrow> GConsumed \<in> set (statuses fp i st')"
  unfolding appends_denied_def using ends_spent by (fastforce simp: statuses_append)

lemma execution_entry_blocked:
  assumes "orderly (statuses fp i st)" "GConsumed \<in> set (statuses fp i st)"
  shows "fst (execution_worker_call_entry fp i now st) \<noteq> Some WAllow \<and>
    fst (execution_worker_call_entry fp i now st) \<noteq> None"
  using precheck_blocks_spent [OF assms, of now]
  by (auto simp: execution_worker_call_entry_def split: option.splits prod.splits)

lemma log_execution_other:
  "stage = Authorize_stage \<or> w \<noteq> WAllow \<or> \<not> same_call fp i j \<Longrightarrow>
    executions fp i (log_execution stage w j fl) = executions fp i fl"
  by (auto simp: log_execution_def executions_def)

lemma log_execution_grants [simp]: "fl_grants (log_execution stage w j fl) = fl_grants fl"
  by (simp add: log_execution_def)

lemma executions_fields [simp]:
  "executions fp i (fl\<lparr>fl_grants := st\<rparr>) = executions fp i fl"
  "executions fp i (fl\<lparr>fl_held := hs\<rparr>) = executions fp i fl"
  by (simp_all add: executions_def)

lemma call_begins_spent:
  assumes ok: "flow_ok fp coerce fl" and spent: "call_spent fp i fl"
  shows "call_spent fp i (call_begins fp coerce stage options call cwd now fl) \<and>
    executions fp i (call_begins fp coerce stage options call cwd now fl) = executions fp i fl"
proof (cases "is_worker_control_plane_tool (tc_name call) \<or> go_session_id options = None")
  case True
  then show ?thesis using spent by (auto simp: call_begins_def)
next
  case False
  then obtain sid where sid: "go_session_id options = Some sid" by auto
  define j where "j = worker_call_identity coerce sid call cwd"
  have spent': "GConsumed \<in> set (statuses fp i (fl_grants fl))" using spent by (simp add: call_spent_def)
  have blocked: "fst (execution_worker_call_entry fp j now (fl_grants fl)) \<noteq> Some WAllow" if "same_call fp i j"
    using execution_entry_blocked [of fp j "fl_grants fl" now] ok spent' same_call_statuses [OF that]
    by (simp add: flow_ok_def)
  show ?thesis
  proof (cases stage)
    case Authorize_stage
    then show ?thesis
      using False sid spent spent' entry_spent(1) [OF spent', of j now]
      by (auto simp: call_begins_def call_spent_def j_def [symmetric] Let_def log_execution_other
          split: option.splits prod.splits)
  next
    case Execution_stage
    then show ?thesis
      using False sid spent spent' entry_spent(2) [OF spent', of j now] blocked
      by (auto simp: call_begins_def call_spent_def j_def [symmetric] Let_def
          split: option.splits prod.splits)
        (subst log_execution_other, auto)
  qed
qed

lemma call_ends_spent:
  assumes ok: "flow_ok fp coerce fl" and spent: "call_spent fp i fl"
  shows "call_spent fp i (call_ends fp coerce n verdict uuid now fl) \<and>
    executions fp i (call_ends fp coerce n verdict uuid now fl) = executions fp i fl"
proof (cases "n < length (fl_held fl) \<and> uuid \<notin> set (map fst (fl_grants fl)) \<and>
    (\<exists>j stage options call cwd. fl_held fl ! n = (j, Held_call stage options call cwd))")
  case False
  then show ?thesis using spent by (auto simp: call_ends_def split: prod.splits held_work.splits)
next
  case True
  let ?st = "fl_grants fl"
  obtain j stage options call cwd
    where n: "n < length (fl_held fl)" and fresh: "uuid \<notin> set (map fst ?st)"
      and held: "fl_held fl ! n = (j, Held_call stage options call cwd)" using True by blast
  have "held_ok fp coerce ?st (j, Held_call stage options call cwd)"
    using ok n held nth_mem [OF n] by (auto simp: flow_ok_def)
  then obtain sid where sid: "go_session_id options = Some sid"
      and j: "j = worker_call_identity coerce sid call cwd" and un: "unanswered (statuses fp j ?st)"
    by (auto simp: held_ok_def)
  have spent': "GConsumed \<in> set (statuses fp i ?st)" using spent by (simp add: call_spent_def)
  have other: "\<not> same_call fp i j"
    using spent' un unanswered_consumed same_call_statuses by metis
  have deny: "GConsumed \<in> set (statuses fp i (snd (deny_worker_call_with_envelope fp coerce options call action
      subject cwd reason uuid now ?st)))" for action subject reason
    using deny_appends [OF sid fresh j] appends_spent spent' by blast
  have allow: "GConsumed \<in> set (statuses fp i (snd (consume_on_allow fp j now ?st)))"
    by (rule spends_spent [OF consume_rel(1) spent'])
  define exit where "exit = (case stage of
      Authorize_stage \<Rightarrow> authorize_worker_call_exit fp coerce options call cwd verdict uuid now ?st
    | Execution_stage \<Rightarrow> execution_worker_call_exit fp coerce options call cwd verdict uuid now ?st)"
  have "GConsumed \<in> set (statuses fp i (snd exit))"
    using spent' deny allow sid j
    by (auto simp: exit_def authorize_worker_call_exit_def execution_worker_call_exit_def
        split: worker_stage.splits gate_verdict.splits)
  moreover have "call_ends fp coerce n verdict uuid now fl =
      log_execution stage (fst exit) j (fl\<lparr>fl_grants := snd exit, fl_held := remove_at n (fl_held fl)\<rparr>)"
    using n fresh held by (simp add: call_ends_def exit_def case_prod_unfold)
  ultimately show ?thesis using log_execution_other other by (simp add: call_spent_def)
qed

lemma flow_step_spent:
  assumes ok: "flow_ok fp coerce fl" and spent: "call_spent fp i fl"
  shows "call_spent fp i (flow_step fp coerce fl ev) \<and>
    executions fp i (flow_step fp coerce fl ev) = executions fp i fl"
proof -
  obtain now e where ev: "ev = (now, e)" by force
  have spent': "GConsumed \<in> set (statuses fp i (fl_grants fl))" using spent by (simp add: call_spent_def)
  have "call_spent fp i (fl\<lparr>fl_grants := st\<rparr>) \<and> executions fp i (fl\<lparr>fl_grants := st\<rparr>) = executions fp i fl"
    if "grants_rel ends (fl_grants fl) st" for st
    using ends_spent [OF that spent'] by (simp add: call_spent_def)
  note ends = this
  show ?thesis
  proof (cases e)
    case (Approval_begins target qid rid ask known)
    have "grants_rel ends (fl_grants fl) (snd (approve_entry fp target qid rid ask known now (fl_grants fl)))"
      using end_session_rel(4) [of "fl_grants fl" now] grants_rel_refl [of ends "fl_grants fl"]
      by (auto simp: approve_entry_def split: option.splits prod.splits)
    then show ?thesis
      using ends spent unfolding ev Approval_begins
      by (auto simp: approval_begins_def call_spent_def executions_def split: option.splits prod.splits)
  next
    case (Approval_ends n ask verdict woken)
    show ?thesis
    proof (cases "n < length (fl_held fl) \<and> (\<exists>j qid rid. fl_held fl ! n = (j, Held_approval qid rid))")
      case False
      then show ?thesis using spent unfolding ev Approval_ends
        by (auto simp: approval_ends_def split: prod.splits held_work.splits)
    next
      case True
      then obtain j qid rid where n: "n < length (fl_held fl)" and held: "fl_held fl ! n = (j, Held_approval qid rid)"
        by blast
      have "held_ok fp coerce (fl_grants fl) (j, Held_approval qid rid)"
        using ok n held nth_mem [OF n] by (auto simp: flow_ok_def)
      then obtain x where "map_of (fl_grants fl) rid = Some x" by (auto simp: held_ok_def)
      then show ?thesis
        using turns_spent [OF approve_exit_rel spent'] n held unfolding ev Approval_ends
        by (simp add: approval_ends_def call_spent_def)
    qed
  qed (use ok spent ends attach_rel end_session_rel call_begins_spent call_ends_spent in \<open>simp_all add: ev\<close>)
qed

text \<open>C1: Once a denied call has been spent, the same call of that worker is never executed again,
  whatever the gate, the parent and the operator decide afterwards.\<close>

theorem spent_call_never_runs_again:
  assumes "call_spent fp i (foldl (flow_step fp coerce) idle_flow events)"
  shows "executions fp i (foldl (flow_step fp coerce) idle_flow (events @ later)) =
    executions fp i (foldl (flow_step fp coerce) idle_flow events)"
proof -
  let ?fl = "foldl (flow_step fp coerce) idle_flow events"
  have ok: "flow_ok fp coerce ?fl"
    by (rule flow_machine.run_inv) (simp add: flow_ok_def idle_flow_def statuses_def)
  have "flow_ok fp coerce fl \<Longrightarrow> call_spent fp i fl \<Longrightarrow>
      executions fp i (foldl (flow_step fp coerce) fl later) = executions fp i fl" for fl
  proof (induction later arbitrary: fl)
    case (Cons e later)
    then show ?case using flow_step_ok [OF Cons.prems(1)] flow_step_spent [OF Cons.prems] by simp
  qed simp
  then show ?thesis using ok assms by simp
qed

text \<open>A call is denied, asked about, approved by the parent, executed once; the worker asks again for
  the same call, and again with the gate's permission.\<close>

definition sample_fingerprint :: fingerprints where
  "sample_fingerprint tool args cwd = tool @ ''@'' @ cwd"

definition sample_call :: tool_call where
  "sample_call = \<lparr>tc_id = ''c1'', tc_name = ''run_shell'', tc_arguments = None\<rparr>"

definition sample_options :: worker_grant_options where
  "sample_options = \<lparr>go_session_id = Some ''w'', go_label = None, go_workspace_root = None\<rparr>"

definition sample_coerce :: coercion where
  "sample_coerce call engine = Some (tc_arguments call)"

definition sample_run :: "(int \<times> flow_event) list" where
  "sample_run =
     [(0, Call_begins Authorize_stage sample_options sample_call ''/r''),
      (1, Call_ends 0 (VAsk ''Run'' ''make'') ''u1''),
      (2, Ask_attached ''w'' ''q'' (Some ''u1'')),
      (3, Approval_begins ''w'' ''q'' ''u1'' (Some (''q'', Some ''u1'')) True),
      (4, Approval_ends 0 (Some (''q'', Some ''u1'')) PAllowed True),
      (5, Call_begins Execution_stage sample_options sample_call ''/r'')]"

lemma spent_call_never_runs_again_witness:
  "\<exists>fl. fl = foldl (flow_step sample_fingerprint sample_coerce) idle_flow sample_run \<and>
     executions sample_fingerprint
       (worker_call_identity sample_coerce ''w'' sample_call ''/r'') fl = 1 \<and>
     executions sample_fingerprint
       (worker_call_identity sample_coerce ''w'' sample_call ''/r'')
       (foldl (flow_step sample_fingerprint sample_coerce) idle_flow
         (sample_run @ [(6, Call_begins Execution_stage sample_options sample_call ''/r'')])) = 1"
proof -
  let ?i = "worker_call_identity sample_coerce ''w'' sample_call ''/r''"
  let ?fl = "foldl (flow_step sample_fingerprint sample_coerce) idle_flow sample_run"
  have once: "executions sample_fingerprint ?i ?fl = 1" by code_simp
  have "call_spent sample_fingerprint ?i ?fl" by code_simp
  from spent_call_never_runs_again [OF this] once show ?thesis by metis
qed

end
