(* ===== verification/Spec2Isabelle.thy ===== *)
theory Spec2Isabelle
  imports JsPrelude WorkflowCaps WorkflowRuntime WorkflowCoordinator Admission Fleet
    ContextWindow ContextEstimate Compaction CompactorTail CompactionVerify Handoff HandoffFile
    Attachments Summarizer Compactor SegmentedLog CodexPatch LineRange DeliveryQueue DeliveryHop
    ToolNames WorkerFailure SessionTranscript SessionStore SessionInvariant SessionProperties
    ShellSegments GrantPatterns CommandScopes ApprovalCoverage PermissionGate WorkerGrant WorkerAuthorize
begin

text \<open>
  A verification library for the agent program under \<open>src/src/\<close>: the parts of it that decide, as
  opposed to the parts that talk to a terminal, a network or a model. File names below are relative
  to \<open>src/src/\<close>.

  \<^bold>\<open>The program.\<close> An operator talks to a \<^emph>\<open>primary\<close> agent in a terminal. The primary runs one model
  turn after the other; a turn is a list of content blocks, among them tool calls and their results.
  Workflows (\<open>workflows/\<close>) lead the primary through the steps of a recipe. The fleet (\<open>subagent/\<close>) lets
  it start worker agents: admission decides when a worker may run, the session store keeps every
  worker's life, its transcript and its questions. Every tool call passes the permission layer
  (\<open>permission/\<close>, \<open>shell/\<close>, the vendored grant evaluator): a worker's call that is denied leaves an envelope the
  parent may authorize, and the retry is run once. Operator messages typed while a run is busy wait in
  the delivery queue and are delivered by hops that a session rotation cancels (\<open>tui/delivery-queue.ts\<close>).
  When a conversation grows towards the context window the governor (\<open>agent/compaction.ts\<close>) asks for a
  fold, and the compactor (\<open>session/\<close>) replaces the old turns by a spine, a handoff file and a budgeted tail.
  The tools of the agent that are modelled are \<open>apply_patch\<close> and the line ranges of \<open>edit_file\<close>.

  \<^bold>\<open>Theories and sources.\<close> A state is a \<open>record\<close> with the source's variables, a tagged union is a
  \<open>datatype\<close>, a handler is one definition with the source's name in snake case and the conditions of the
  source in their order; a thrown error is an \<open>Inl\<close>, \<open>undefined\<close> is \<open>None\<close>, a \<open>Map\<close> is an association list in
  insertion order, a \<open>Set\<close> a list without repetition.

    \<^item> \<open>JsPrelude\<close>: strings, arrays, maps and JSON of the language, the lemmas all parts share, and the locales
      \<open>invariant_machine\<close> (a step function and what it keeps; interpreted for every state machine below) and
      \<open>line_format\<close> (a splitter and its joiner; interpreted for both splitters).
    \<^item> \<open>WorkflowCaps\<close>, \<open>WorkflowRuntime\<close>, \<open>WorkflowCoordinator\<close>: \<open>workflows/definition.ts\<close>, \<open>index.ts\<close>,
      \<open>capabilities.ts\<close>, \<open>types.ts\<close>, \<open>runtime.ts\<close>, \<open>coordinator.ts\<close>, \<open>state.ts\<close>. The stack of frames is kept with the
      active frame first. The locale \<open>workflow_resolver\<close> states what the runtime needs of the registry.
    \<^item> \<open>Admission\<close>: \<open>subagent/admission.ts\<close>. \<open>Fleet\<close>: \<open>subagent/lifecycle.ts\<close>, \<open>authority.ts\<close>.
    \<^item> \<open>SessionTranscript\<close>, \<open>SessionStore\<close>, \<open>SessionInvariant\<close>, \<open>SessionProperties\<close>: \<open>subagent/session-store.ts\<close>.
    \<^item> \<open>WorkerFailure\<close>: \<open>subagent/terminal-failure.ts\<close>, \<open>escalation-policy.ts\<close>. \<open>ToolNames\<close>: \<open>agent/tool-aliases.ts\<close>,
      \<open>canonical-tool-name.ts\<close>, \<open>tool-classification.ts\<close>.
    \<^item> \<open>ShellSegments\<close>, \<open>CommandScopes\<close>, \<open>GrantPatterns\<close>, \<open>ApprovalCoverage\<close>, \<open>PermissionGate\<close>: \<open>shell/command-segments.ts\<close>,
      \<open>permission/command.ts\<close>, \<open>matcher.ts\<close>, \<open>authz-grants.ts\<close>, \<open>queue.ts\<close>, \<open>denial-memory.ts\<close>, \<open>gate.ts\<close> and the vendored
      \<open>intx-authz\<close>.
    \<^item> \<open>WorkerGrant\<close>, \<open>WorkerAuthorize\<close>: \<open>permission/worker-grant.ts\<close>, \<open>reactor-authorize.ts\<close> and the parent's
      \<open>approve_worker_call\<close> of \<open>subagent/lifecycle-tools.ts\<close>.
    \<^item> \<open>ContextWindow\<close>, \<open>ContextEstimate\<close>, \<open>Compaction\<close>: \<open>provider/context-window.ts\<close>, \<open>agent/context-estimate.ts\<close>,
      \<open>agent/compaction.ts\<close>.
    \<^item> \<open>CompactorTail\<close>, \<open>CompactionVerify\<close>, \<open>Handoff\<close>, \<open>HandoffFile\<close>: the tail of \<open>session/compactor.ts\<close>,
      \<open>compaction-verify.ts\<close>, \<open>compaction-handoff.ts\<close>. \<open>Attachments\<close>: \<open>session/attachment-uri.ts\<close> and
      \<open>attachment-store.ts\<close>. \<open>Summarizer\<close>: \<open>session/summarizer.ts\<close>, whose model is a parameter. \<open>Compactor\<close>: the
      fold of \<open>session/compactor.ts\<close>, composed of the four.
    \<^item> \<open>SegmentedLog\<close>: \<open>session/incremental-jsonl.ts\<close>, the segments a transcript is written to.
    \<^item> \<open>DeliveryQueue\<close>, \<open>DeliveryHop\<close>: \<open>tui/delivery-queue.ts\<close>. \<open>CodexPatch\<close>: \<open>agent/codex-apply-patch.ts\<close>.
      \<open>LineRange\<close>: \<open>plugins/edit-file-line-range.ts\<close>.

  \<^bold>\<open>What the lemmas show.\<close> Each component has the invariant its operations keep, proved for one step and carried
  to every run by \<open>invariant_machine\<close>; the properties are read off the invariant.

    \<^item> Workers: the session store's invariant holds along every run, each question and each steer is settled once, a
      late settlement leaves a finished lane alone; a drain of the admission queue is first come first served and
      leaves nothing admissible behind; targeting follows the tree of agents.
    \<^item> Permissions: a call whose envelope was spent never runs again, however calls, approvals, interrupts and
      expiries interleave; reconciliation answers a waiting prompt exactly when the gate would let it through; the
      shared approval lists refine a book of standing and session approvals; the matcher decides the pattern
      language; splitting a command hides none of it.
    \<^item> Compaction: automatic folds are bounded; the tail keeps calls with their results and stays in its budget; what
      is committed carries the facts of the dropped turns; no fold loses an evidence token, and a fold that reads
      the file of the one before keeps its facts. The summarizer calls its model a bounded number of times, an aged
      image comes back from its store, and reading the segmented log back gives the entries last written.
    \<^item> Workflows, delivery and tools: every workflow ends, lands on a step that can run and is restored from its file;
      hops settle once, in order and in their session; a patch is parsed back from its text and an applied update
      is the chain of its hunks.

  Some theorems state where the code departs from what it means to do; the manifest lists them as findings.

  \<^bold>\<open>Assumptions and bounds.\<close> The clock is read once per operation. A callback is a token: what is called is logged, and
  only the cancel and interrupt handles of workers re-enter the store, to any depth \<open>n\<close> of \<open>reentrant_env\<close>
  (the theorems hold for every \<open>n\<close>). An \<open>await\<close> splits an operation into entry and exit, so other
  operations fall between them; a mutex is the condition under which the entry may happen. Recursion needs no fuel:
  every loop is structural or has a measure, and the runtime's settle loop an order of its own. A string is its
  UTF-16 code units below 256; the dash and the arrow of a few messages are written as C1 units, case is folded for
  ASCII only, and members of \<open>Object.prototype\<close> are not looked up. Parameters of the model: hashes and fingerprints,
  the file system and its real paths, the URL parser, argument coercion of a tool, the classification of a shell
  segment, the model that writes a summary, previews of calls, fresh ids.

  \<^bold>\<open>Not modelled.\<close> The terminal (\<open>tui/\<close> beside the delivery queue), provider adapters, authentication, telemetry, MCP and
  plugin loading are input, output and glue over third-party packages. The directors (\<open>agent/director.ts\<close>,
  \<open>subagent/ask-director.ts\<close>) drive a reactor that is not in the repository. \<open>session/optimized-context-store.ts\<close>
  is a cache in front of git objects. \<open>subagent/agent-fleet.ts\<close> and \<open>run.ts\<close> wire the modelled parts to the reactor.
  Of the modelled files, the memo of snapshots and the subscribers of the session store, the process-wide singletons
  and the log lines are left out.
\<close>

end
